(* ===== verification/Volga_Prelude.thy ===== *)
theory Volga_Prelude
  imports Complex_Main "HOL-Library.AList" "HOL-Library.Multiset"
begin

text \<open>
  Shared vocabulary of the development: Python's exceptions as values of a sum type, the
  monadic helpers that thread them through straight-line code and loops, insertion-ordered
  dictionaries as association lists (\<open>AList.update\<close> overwrites in place or appends, as a
  Python \<open>dict\<close> does), Python list indexing, decimal rendering of integers as
  \<open>str\<close> does it, and the generic lemmas the component theories share.
\<close>

named_theorems result_simps \<open>unfolding of the result monad\<close>
named_theorems dict_simps \<open>lookup, keys and membership of insertion-ordered dictionaries\<close>

section \<open>Exceptions and the result monad\<close>

datatype py_error =
    IndexError
  | KeyError
  | AttributeError
  | AssertionError
  | ValueError
  | TypeError
  | RuntimeError
  | NotImplementedError
  | ZeroDivisionError
  | InvalidOperation
  | RecursionError
  | PyException

type_synonym 'a result = "py_error + 'a"

definition rbind :: "'a result \<Rightarrow> ('a \<Rightarrow> 'b result) \<Rightarrow> 'b result" where
  "rbind m f = (case m of Inl e \<Rightarrow> Inl e | Inr x \<Rightarrow> f x)"

definition rassert :: "bool \<Rightarrow> py_error \<Rightarrow> unit result" where
  "rassert b e = (if b then Inr () else Inl e)"

fun rfold :: "('a \<Rightarrow> 's \<Rightarrow> 's result) \<Rightarrow> 'a list \<Rightarrow> 's \<Rightarrow> 's result" where
  "rfold f [] s = Inr s"
| "rfold f (x # xs) s = (case f x s of Inl e \<Rightarrow> Inl e | Inr s' \<Rightarrow> rfold f xs s')"

fun rmap :: "('a \<Rightarrow> 'b result) \<Rightarrow> 'a list \<Rightarrow> 'b list result" where
  "rmap f [] = Inr []"
| "rmap f (x # xs) =
     (case f x of Inl e \<Rightarrow> Inl e
      | Inr y \<Rightarrow> (case rmap f xs of Inl e \<Rightarrow> Inl e | Inr ys \<Rightarrow> Inr (y # ys)))"

definition is_ok :: "'a result \<Rightarrow> bool" where
  "is_ok r = (case r of Inl _ \<Rightarrow> False | Inr _ \<Rightarrow> True)"

lemma rbind_simps [simp, result_simps]:
  "rbind (Inl e) f = Inl e"
  "rbind (Inr x) f = f x"
  by (simp_all add: rbind_def)

lemma rbind_eq_Inr [simp, result_simps]:
  "rbind m f = Inr y \<longleftrightarrow> (\<exists>x. m = Inr x \<and> f x = Inr y)"
  by (cases m) auto

lemma rbind_eq_Inl [result_simps]:
  "rbind m f = Inl e \<longleftrightarrow> m = Inl e \<or> (\<exists>x. m = Inr x \<and> f x = Inl e)"
  by (cases m) auto

lemma rassert_simps [simp, result_simps]:
  "rassert True e = Inr ()"
  "rassert False e = Inl e"
  "rassert b e = Inr u \<longleftrightarrow> b"
  "rassert b e = Inl e' \<longleftrightarrow> \<not> b \<and> e' = e"
  by (auto simp: rassert_def)

lemma is_ok_simps [simp]:
  "is_ok (Inr x)"
  "\<not> is_ok (Inl e)"
  by (simp_all add: is_ok_def)

lemma is_ok_iff: "is_ok r \<longleftrightarrow> (\<exists>x. r = Inr x)"
  by (cases r) auto

lemma rfold_single: "rfold f [x] s = f x s"
  by (simp split: sum.splits)

lemma rfold_append:
  "rfold f (xs @ ys) s = rbind (rfold f xs s) (rfold f ys)"
  by (induction xs arbitrary: s) (auto split: sum.splits)

text \<open>Loop rule: an invariant kept by every successful body holds when the loop ends.\<close>

lemma rfold_invariant:
  assumes "rfold f xs s = Inr s'" and "P s"
    and "\<And>x s s'. x \<in> set xs \<Longrightarrow> P s \<Longrightarrow> f x s = Inr s' \<Longrightarrow> P s'"
  shows "P s'"
  using assms
proof (induction xs arbitrary: s)
  case (Cons x xs)
  then obtain s1 where "f x s = Inr s1" "rfold f xs s1 = Inr s'"
    by (auto split: sum.splits)
  with Cons show ?case by (metis list.set_intros)
qed simp

text \<open>Progress rule: a body that succeeds under the invariant makes the loop succeed.\<close>

lemma rfold_total:
  assumes "P s" and "\<And>x s. x \<in> set xs \<Longrightarrow> P s \<Longrightarrow> \<exists>s'. f x s = Inr s' \<and> P s'"
  shows "\<exists>s'. rfold f xs s = Inr s' \<and> P s'"
  using assms
proof (induction xs arbitrary: s)
  case (Cons x xs)
  then obtain s1 where "f x s = Inr s1" "P s1"
    by (metis list.set_intros(1))
  with Cons show ?case by simp
qed simp

lemma rfold_Inr_eq_fold:
  "(\<And>x s. x \<in> set xs \<Longrightarrow> f x s = Inr (g x s)) \<Longrightarrow> rfold f xs s = Inr (fold g xs s)"
  by (induction xs arbitrary: s) auto

lemma rmap_length: "rmap f xs = Inr ys \<Longrightarrow> length ys = length xs"
  by (induction xs arbitrary: ys) (auto split: sum.splits)

lemma rmap_Inr_eq_map:
  "(\<And>x. x \<in> set xs \<Longrightarrow> f x = Inr (g x)) \<Longrightarrow> rmap f xs = Inr (map g xs)"
  by (induction xs) auto

lemma rmap_ok: "(\<And>x. x \<in> set xs \<Longrightarrow> is_ok (f x)) \<Longrightarrow> is_ok (rmap f xs)"
proof (induction xs)
  case (Cons x xs)
  then obtain y ys where "f x = Inr y" "rmap f xs = Inr ys"
    by (metis is_ok_iff list.set_intros)
  then show ?case by simp
qed simp

text \<open>Repeated steps of a thread with state \<open>st\<close> over a state \<open>m\<close> it shares with others.\<close>

primrec advances :: "('s \<Rightarrow> 'm \<Rightarrow> ('s \<times> 'm) result) \<Rightarrow> nat \<Rightarrow> 's \<Rightarrow> 'm \<Rightarrow> ('s \<times> 'm) result" where
  "advances advance 0 st m = Inr (st, m)"
| "advances advance (Suc n) st m = rbind (advance st m) (\<lambda>(st', m'). advances advance n st' m')"

lemma advances_trans:
  "advances a n st m = Inr (st', m') \<Longrightarrow> advances a k st' m' = Inr r \<Longrightarrow> advances a (n + k) st m = Inr r"
  by (induction n arbitrary: st m) auto

lemma advances_lift:
  assumes "\<And>st m. b (h st) m = rbind (a st m) (\<lambda>(st', m'). Inr (h st', m'))" "advances a n st m = Inr (st', m')"
  shows "advances b n (h st) m = Inr (h st', m')"
  using assms(2) by (induction n arbitrary: st m) (auto simp: assms(1))

section \<open>Insertion-ordered dictionaries\<close>

type_synonym ('k, 'v) dict = "('k \<times> 'v) list"

definition dict_keys :: "('k, 'v) dict \<Rightarrow> 'k list" where
  "dict_keys d = map fst d"

definition dict_values :: "('k, 'v) dict \<Rightarrow> 'v list" where
  "dict_values d = map snd d"

definition dict_get :: "('k, 'v) dict \<Rightarrow> 'k \<Rightarrow> 'v result" where
  "dict_get d k = (case map_of d k of None \<Rightarrow> Inl KeyError | Some v \<Rightarrow> Inr v)"

definition dict_mem :: "'k \<Rightarrow> ('k, 'v) dict \<Rightarrow> bool" where
  "dict_mem k d = (map_of d k \<noteq> None)"

definition wf_dict :: "('k, 'v) dict \<Rightarrow> bool" where
  "wf_dict d = distinct (map fst d)"

lemma dict_get_Inr [simp, dict_simps]: "dict_get d k = Inr v \<longleftrightarrow> map_of d k = Some v"
  by (auto simp: dict_get_def split: option.splits)

lemma dict_get_Inl [simp, dict_simps]: "dict_get d k = Inl e \<longleftrightarrow> map_of d k = None \<and> e = KeyError"
  by (auto simp: dict_get_def split: option.splits)

lemma dict_get_Some [simp]: "map_of d k = Some v \<Longrightarrow> dict_get d k = Inr v"
  by simp

lemma dict_get_None [simp]: "map_of d k = None \<Longrightarrow> dict_get d k = Inl KeyError"
  by simp

lemma dict_mem_iff [dict_simps]: "dict_mem k d \<longleftrightarrow> k \<in> fst ` set d"
  by (simp add: dict_mem_def map_of_eq_None_iff)

lemma dict_mem_update [simp, dict_simps]: "dict_mem k (AList.update k' v d) \<longleftrightarrow> k = k' \<or> dict_mem k d"
  by (simp add: dict_mem_def update_conv')

lemma map_of_update [simp, dict_simps]:
  "map_of (AList.update k v d) k' = (if k' = k then Some v else map_of d k')"
  by (simp add: update_conv')

lemma wf_dict_Nil [simp]: "wf_dict []"
  by (simp add: wf_dict_def)

lemma wf_dict_update [simp, intro]: "wf_dict d \<Longrightarrow> wf_dict (AList.update k v d)"
  by (simp add: wf_dict_def distinct_update)

lemma wf_dict_delete [simp, intro]: "wf_dict d \<Longrightarrow> wf_dict (AList.delete k d)"
  by (simp add: wf_dict_def distinct_delete)

lemma dict_keys_update:
  "dict_keys (AList.update k v d) = (if dict_mem k d then dict_keys d else dict_keys d @ [k])"
  by (simp add: dict_keys_def update_keys dict_mem_iff)

lemma update_fresh: "\<not> dict_mem k d \<Longrightarrow> AList.update k v d = d @ [(k, v)]"
  by (induction d) (auto simp: dict_mem_def)

lemma map_lookup_keys: "distinct (map fst d) \<Longrightarrow> map (\<lambda>k. the (map_of d k)) (map fst d) = map snd d"
  by (auto simp: map_of_is_SomeI)

text \<open>
  Every value of a dictionary has a property when the old values and the stored one have it.
\<close>

lemma update_values_subset:
  "snd ` set (AList.update k v d) \<subseteq> insert v (snd ` set d)"
  by (induction d) auto

section \<open>Python lists\<close>

text \<open>Indexing with an integer; negative indices count from the end.\<close>

definition py_index :: "'a list \<Rightarrow> int \<Rightarrow> 'a result" where
  "py_index xs i =
     (if 0 \<le> i \<and> nat i < length xs then Inr (xs ! nat i)
      else if i < 0 \<and> nat (- i) \<le> length xs then Inr (xs ! (length xs - nat (- i)))
      else Inl IndexError)"

lemma py_index_nat [simp]: "i < length xs \<Longrightarrow> py_index xs (int i) = Inr (xs ! i)"
  by (simp add: py_index_def)

lemma py_index_end: "py_index xs (int (length xs)) = Inl IndexError"
  by (simp add: py_index_def)

text \<open>The slice \<open>xs[a:b]\<close> for non-negative bounds.\<close>

definition py_slice :: "nat \<Rightarrow> nat \<Rightarrow> 'a list \<Rightarrow> 'a list" where
  "py_slice a b xs = drop a (take b xs)"

text \<open>
  \<open>bisect.insort_right(a, x, key=f)\<close> on a list sorted by \<open>f\<close> puts \<open>x\<close> after every element
  whose key is not larger than its own.
\<close>

fun insort_right :: "('a \<Rightarrow> 'k::linorder) \<Rightarrow> 'a \<Rightarrow> 'a list \<Rightarrow> 'a list" where
  "insort_right f x [] = [x]"
| "insort_right f x (y # ys) = (if f x < f y then x # y # ys else y # insort_right f x ys)"

lemma mset_insort_right [simp]: "mset (insort_right f x xs) = add_mset x (mset xs)"
  by (induction xs) auto

lemma set_insort_right [simp]: "set (insort_right f x xs) = insert x (set xs)"
  by (induction xs) auto

lemma length_insort_right [simp]: "length (insort_right f x xs) = Suc (length xs)"
  by (induction xs) auto

lemma insort_right_neq_Nil [simp]: "insort_right f x xs \<noteq> []"
  by (cases xs) auto

lemma sorted_insort_right:
  "sorted (map f xs) \<Longrightarrow> sorted (map f (insort_right f x xs))"
  by (induction xs) auto

lemma filter_insort_right_False:
  "\<not> P x \<Longrightarrow> filter P (insort_right f x xs) = filter P xs"
  by (induction xs) auto

lemma filter_insort_right_True:
  "sorted (map f xs) \<Longrightarrow> P x \<Longrightarrow> filter P (insort_right f x xs) = insort_right f x (filter P xs)"
proof (induction xs)
  case (Cons y ys)
  show ?case
  proof (cases "f x < f y")
    case True
    with Cons.prems have all: "\<forall>z \<in> set (filter P (y # ys)). f x < f z"
      by (auto intro: less_le_trans)
    then have "insort_right f x (filter P (y # ys)) = x # filter P (y # ys)"
      by (cases "filter P (y # ys)") auto
    with True Cons.prems show ?thesis by simp
  next
    case False
    with Cons show ?thesis by auto
  qed
qed simp

lemma last_insort_right_sorted:
  "sorted (map f xs) \<Longrightarrow>
   f (last (insort_right f x xs)) = (if xs = [] then f x else max (f x) (f (last xs)))"
proof (induction xs)
  case (Cons y ys)
  show ?case
  proof (cases "f x < f y")
    case True
    with Cons.prems have "f x < f (last (y # ys))"
      by (cases ys) (auto intro: less_le_trans)
    with True show ?thesis by simp
  next
    case False
    with Cons show ?thesis by auto
  qed
qed simp

section \<open>Transducers\<close>

text \<open>
  A streaming operator is a step from a state and an input to a new state and the outputs it
  emits. \<open>op_run\<close> feeds it a list of inputs; \<open>op_comp\<close> forwards every output of the first
  operator to the second before the next input is taken, as a forwarding collector does.
\<close>

type_synonym ('s, 'a, 'b) transducer = "'s \<Rightarrow> 'a \<Rightarrow> ('s \<times> 'b list) result"

fun op_run :: "('s, 'a, 'b) transducer \<Rightarrow> 's \<Rightarrow> 'a list \<Rightarrow> ('s \<times> 'b list) result" where
  "op_run step s [] = Inr (s, [])"
| "op_run step s (x # xs) =
     rbind (step s x) (\<lambda>(s1, ys).
     rbind (op_run step s1 xs) (\<lambda>(s2, zs). Inr (s2, ys @ zs)))"

definition op_comp ::
    "('s, 'a, 'b) transducer \<Rightarrow> ('t, 'b, 'c) transducer \<Rightarrow> ('s \<times> 't, 'a, 'c) transducer" where
  "op_comp p q st x =
     (case st of (s, t) \<Rightarrow>
        rbind (p s x) (\<lambda>(s', ys).
        rbind (op_run q t ys) (\<lambda>(t', zs). Inr ((s', t'), zs))))"

lemma op_run_append:
  "op_run step s (xs @ ys) =
     rbind (op_run step s xs) (\<lambda>(s1, o1).
     rbind (op_run step s1 ys) (\<lambda>(s2, o2). Inr (s2, o1 @ o2)))"
proof (induction xs arbitrary: s)
  case (Cons x xs)
  then show ?case by (cases "step s x") (auto simp: rbind_def split: sum.splits prod.splits)
qed (auto simp: rbind_def split: sum.splits prod.splits)

text \<open>Depth-first forwarding and stage-by-stage processing give the same results.\<close>

lemma op_run_comp:
  "op_run (op_comp p q) (s, t) xs = Inr ((s', t'), zs) \<longleftrightarrow>
     (\<exists>ys. op_run p s xs = Inr (s', ys) \<and> op_run q t ys = Inr (t', zs))"
proof (induction xs arbitrary: s t zs)
  case Nil
  then show ?case by auto
next
  case (Cons x xs)
  show ?case
  proof
    assume "op_run (op_comp p q) (s, t) (x # xs) = Inr ((s', t'), zs)"
    then obtain s1 t1 ys1 z1 z2 where "p s x = Inr (s1, ys1)" "op_run q t ys1 = Inr (t1, z1)"
      and r: "op_run (op_comp p q) (s1, t1) xs = Inr ((s', t'), z2)" and "zs = z1 @ z2"
      by (auto simp: op_comp_def)
    moreover from r Cons.IH obtain ys2
      where "op_run p s1 xs = Inr (s', ys2)" "op_run q t1 ys2 = Inr (t', z2)" by blast
    ultimately show "\<exists>ys. op_run p s (x # xs) = Inr (s', ys) \<and> op_run q t ys = Inr (t', zs)"
      by (auto simp: op_run_append)
  next
    assume "\<exists>ys. op_run p s (x # xs) = Inr (s', ys) \<and> op_run q t ys = Inr (t', zs)"
    then obtain s1 ys1 ys2 t1 z1 z2 where "p s x = Inr (s1, ys1)"
      and a: "op_run p s1 xs = Inr (s', ys2)" and "op_run q t ys1 = Inr (t1, z1)"
      and b: "op_run q t1 ys2 = Inr (t', z2)" and "zs = z1 @ z2"
      by (auto simp: op_run_append)
    moreover from a b Cons.IH have "op_run (op_comp p q) (s1, t1) xs = Inr ((s', t'), z2)"
      by blast
    ultimately show "op_run (op_comp p q) (s, t) (x # xs) = Inr ((s', t'), zs)"
      by (auto simp: op_comp_def)
  qed
qed

text \<open>
  A run described by the history: a step that meets its specification on every history,
  with an invariant tying the state to the history, gives the specified outputs.
\<close>

lemma op_run_history:
  assumes "\<And>hist s x. I hist s \<Longrightarrow> Q hist x \<Longrightarrow>
      \<exists>s'. step s x = Inr (s', f hist x) \<and> I (hist @ [x]) s'"
    and "I hist s" and "\<And>i. i < length xs \<Longrightarrow> Q (hist @ take i xs) (xs ! i)"
  shows "\<exists>s'. op_run step s xs =
      Inr (s', concat (map (\<lambda>i. f (hist @ take i xs) (xs ! i)) [0..<length xs])) \<and>
    I (hist @ xs) s'"
  using assms(2,3)
proof (induction xs arbitrary: hist s)
  case (Cons x xs)
  from Cons.prems(2) [of 0] have "Q hist x" by simp
  with assms(1) Cons.prems(1) obtain s1
    where s1: "step s x = Inr (s1, f hist x)" "I (hist @ [x]) s1" by blast
  have "Q ((hist @ [x]) @ take i xs) (xs ! i)" if "i < length xs" for i
    using Cons.prems(2) [of "Suc i"] that by simp
  with Cons.IH [OF s1(2)] obtain s2 where s2:
    "op_run step s1 xs = Inr (s2, concat (map (\<lambda>i. f ((hist @ [x]) @ take i xs) (xs ! i)) [0..<length xs]))"
    "I ((hist @ [x]) @ xs) s2" by blast
  have "[0..<length (x # xs)] = 0 # map Suc [0..<length xs]"
    by (simp del: upt_Suc add: upt_conv_Cons map_Suc_upt)
  with s1 s2 show ?case by (simp del: upt_Suc add: o_def)
qed simp

section \<open>Decimal rendering of integers\<close>

definition digit_char :: "nat \<Rightarrow> char" where
  "digit_char d = char_of (48 + d)"

fun str_nat :: "nat \<Rightarrow> string" where
  "str_nat n = (if n < 10 then [digit_char n] else str_nat (n div 10) @ [digit_char (n mod 10)])"

declare str_nat.simps [simp del]

definition str_int :: "int \<Rightarrow> string" where
  "str_int i = (if i < 0 then CHR ''-'' # str_nat (nat (- i)) else str_nat (nat i))"

definition is_digit :: "char \<Rightarrow> bool" where
  "is_digit c = (48 \<le> (of_char c :: nat) \<and> (of_char c :: nat) \<le> 57)"

definition digit_val :: "char \<Rightarrow> nat" where
  "digit_val c = of_char c - 48"

definition digits_val :: "string \<Rightarrow> nat" where
  "digits_val s = foldl (\<lambda>a c. 10 * a + digit_val c) 0 s"

lemma of_char_digit_char: "d < 10 \<Longrightarrow> of_char (digit_char d) = 48 + d"
  by (simp add: digit_char_def)

lemma is_digit_digit_char [simp]: "d < 10 \<Longrightarrow> is_digit (digit_char d)"
  by (simp add: is_digit_def of_char_digit_char)

lemma digit_val_digit_char [simp]: "d < 10 \<Longrightarrow> digit_val (digit_char d) = d"
  by (simp add: digit_val_def of_char_digit_char)

lemma str_nat_digits: "\<forall>c \<in> set (str_nat n). is_digit c"
proof (induction n rule: str_nat.induct)
  case (1 n)
  then show ?case by (subst str_nat.simps) auto
qed

lemma str_nat_neq_Nil [simp]: "str_nat n \<noteq> []"
  by (subst str_nat.simps) simp

text \<open>Reading back a rendered number gives the number: rendering is injective.\<close>

lemma digits_val_str_nat [simp]: "digits_val (str_nat n) = n"
proof (induction n rule: str_nat.induct)
  case (1 n)
  show ?case
  proof (cases "n < 10")
    case True
    then show ?thesis by (subst str_nat.simps) (simp add: digits_val_def)
  next
    case False
    with 1 have "digits_val (str_nat (n div 10)) = n div 10" by simp
    with False show ?thesis by (subst str_nat.simps) (simp add: digits_val_def)
  qed
qed

lemma str_nat_inject [simp]: "str_nat m = str_nat n \<longleftrightarrow> m = n"
  by (metis digits_val_str_nat)

lemma str_nat_not_digit: "\<not> is_digit c \<Longrightarrow> c \<notin> set (str_nat n)"
  using str_nat_digits by blast

text \<open>
  Two texts around a separator that does not occur before it are determined by the whole:
  the shape of every composed identifier of the program.
\<close>

lemma append_sep_inject:
  assumes "c \<notin> set xs" and "c \<notin> set xs'"
  shows "xs @ c # ys = xs' @ c # ys' \<longleftrightarrow> xs = xs' \<and> ys = ys'"
  using assms
proof (induction xs arbitrary: xs')
  case Nil
  then show ?case by (cases xs') auto
next
  case (Cons x xs)
  then show ?case by (cases xs') auto
qed

end
