(* ===== verification/Time_Utils.thy ===== *)
theory Time_Utils
  imports Volga_Prelude
begin

text \<open>
  \<open>common/time_utils.py\<close> and \<open>streaming/common/utils.py\<close>: the duration parser of window
  specifications, millisecond/second conversion and the chunking of a collection over
  parallel source tasks. \<open>Decimal\<close> values are rationals (the context precision of 28 digits
  is not modelled); texts are ASCII.
\<close>

section \<open>Durations\<close>

definition is_alpha :: "char \<Rightarrow> bool" where
  "is_alpha c =
     (let n = (of_char c :: nat) in 65 \<le> n \<and> n \<le> 90 \<or> 97 \<le> n \<and> n \<le> 122)"

text \<open>\<open>Decimal(s)\<close> for a text of digits and points: at most one point and at least one digit.\<close>

definition decimal_of :: "string \<Rightarrow> rat result" where
  "decimal_of s =
     (let i = takeWhile is_digit s; rest = dropWhile is_digit s
      in case rest of
           [] \<Rightarrow> if i = [] then Inl InvalidOperation else Inr (of_nat (digits_val i))
         | c # f \<Rightarrow>
             if c = CHR ''.'' \<and> list_all is_digit f \<and> (i \<noteq> [] \<or> f \<noteq> [])
             then Inr (of_nat (digits_val (i @ f)) / 10 ^ length f)
             else Inl InvalidOperation)"

definition unit_seconds :: "char \<Rightarrow> rat option" where
  "unit_seconds c =
     (if c = CHR ''y'' then Some (365 * 24 * 60 * 60)
      else if c = CHR ''w'' then Some (7 * 24 * 60 * 60)
      else if c = CHR ''d'' then Some (60 * 60 * 24)
      else if c = CHR ''h'' then Some (60 * 60)
      else if c = CHR ''m'' then Some 60
      else if c = CHR ''s'' then Some 1
      else None)"

fun duration_loop :: "string \<Rightarrow> string \<Rightarrow> rat \<Rightarrow> rat result" where
  "duration_loop [] prev_num tot = Inr tot"
| "duration_loop (c # cs) prev_num tot =
     (if is_alpha c then
        if prev_num \<noteq> [] then
          rbind (decimal_of prev_num) (\<lambda>num.
            case unit_seconds c of
              None \<Rightarrow> Inl ValueError
            | Some u \<Rightarrow> duration_loop cs [] (tot + num * u))
        else if c \<noteq> CHR '' '' then Inl ValueError
        else duration_loop cs prev_num tot
      else if is_digit c \<or> c = CHR ''.'' then duration_loop cs (prev_num @ [c]) tot
      else if c \<noteq> CHR '' '' then Inl ValueError
      else duration_loop cs prev_num tot)"

definition duration_to_s :: "string \<Rightarrow> rat result" where
  "duration_to_s s = duration_loop s [] 0"

lemma decimal_of_nonneg: "decimal_of s = Inr d \<Longrightarrow> 0 \<le> d"
  by (auto simp: decimal_of_def Let_def split: list.splits if_splits)

lemma unit_seconds_pos: "unit_seconds c = Some u \<Longrightarrow> 0 < u"
  by (auto simp: unit_seconds_def split: if_splits)

lemma duration_loop_mono: "duration_loop s prev tot = Inr d \<Longrightarrow> tot \<le> d"
proof (induction s prev tot rule: duration_loop.induct)
  case (2 c cs prev tot)
  show ?case
  proof (cases "is_alpha c \<and> prev \<noteq> []")
    case True
    with "2.prems" obtain num u where num: "decimal_of prev = Inr num"
      and u: "unit_seconds c = Some u" and rec: "duration_loop cs [] (tot + num * u) = Inr d"
      by (auto split: option.splits)
    from "2.IH"(1) True num u rec have "tot + num * u \<le> d" by auto
    moreover have "0 \<le> num * u"
      using decimal_of_nonneg [OF num] unit_seconds_pos [OF u] by simp
    ultimately show ?thesis by linarith
  next
    case False
    with 2 show ?thesis by (auto split: if_splits)
  qed
qed simp

text \<open>A parsed duration is never negative.\<close>

lemma duration_to_s_nonneg: "duration_to_s s = Inr d \<Longrightarrow> 0 \<le> d"
  unfolding duration_to_s_def by (rule duration_loop_mono)

text \<open>A well-formed component: a number rendered in decimal followed by a unit letter.\<close>

lemma decimal_of_str_nat [simp]: "decimal_of (str_nat n) = Inr (of_nat n)"
proof -
  have split: "takeWhile is_digit (str_nat n) = str_nat n" "dropWhile is_digit (str_nat n) = []"
    using str_nat_digits by (auto simp: takeWhile_eq_all_conv dropWhile_eq_Nil_conv)
  show ?thesis by (simp only: decimal_of_def Let_def split) simp
qed

lemma not_alpha_digit: "is_digit c \<Longrightarrow> \<not> is_alpha c"
  by (simp add: is_digit_def is_alpha_def Let_def)

lemma duration_loop_digits:
  "list_all is_digit ds \<Longrightarrow> duration_loop (ds @ cs) prev tot = duration_loop cs (prev @ ds) tot"
  by (induction ds arbitrary: prev) (auto simp: not_alpha_digit)

lemma unit_seconds_alpha: "unit_seconds c = Some u \<Longrightarrow> is_alpha c"
  by (auto simp: unit_seconds_def is_alpha_def split: if_splits)

definition render_duration :: "(nat \<times> char) list \<Rightarrow> string" where
  "render_duration ps = concat (map (\<lambda>(n, c). str_nat n @ [c]) ps)"

lemma duration_loop_render:
  "list_all (\<lambda>(n, c). unit_seconds c \<noteq> None) ps \<Longrightarrow>
   duration_loop (render_duration ps) [] tot =
     Inr (tot + (\<Sum>(n, c)\<leftarrow>ps. of_nat n * the (unit_seconds c)))"
proof (induction ps arbitrary: tot)
  case (Cons p ps)
  obtain n c where p: "p = (n, c)" by fastforce
  with Cons.prems obtain u where u: "unit_seconds c = Some u" by auto
  have "list_all is_digit (str_nat n)"
    using str_nat_digits by (simp add: list_all_iff)
  then have "duration_loop (render_duration (p # ps)) [] tot =
      duration_loop (render_duration ps) [] (tot + of_nat n * u)"
    using u unit_seconds_alpha [OF u]
    by (simp add: p render_duration_def duration_loop_digits)
  with Cons u p show ?case by simp
qed (simp add: render_duration_def)

text \<open>
  The duration parser reads every sequence of integer components in the units y, w, d, h,
  m, s as the sum of the components in seconds (so a rendered duration is parsed back).
\<close>

theorem duration_to_s_render:
  assumes "list_all (\<lambda>(n, c). unit_seconds c \<noteq> None) ps"
  shows "duration_to_s (render_duration ps) = Inr (\<Sum>(n, c)\<leftarrow>ps. of_nat n * the (unit_seconds c))"
  using duration_loop_render [OF assms, of 0] by (simp add: duration_to_s_def)

theorem duration_to_s_render_witness:
  "duration_to_s (render_duration [(1, CHR ''h''), (30, CHR ''m'')]) = Inr 5400"
  using duration_to_s_render [of "[(1, CHR ''h''), (30, CHR ''m'')]"]
  by (simp add: unit_seconds_def)

section \<open>Seconds and chunks\<close>

definition ms_to_s :: "int \<Rightarrow> int" where
  "ms_to_s ms = (if 0 \<le> ms then ms div 1000 else - ((- ms) div 1000))"

text \<open>
  \<open>collection_chunk_at_index\<close>: \<open>ceil(len(vals) / num_chunks)\<close>, then the slice of that length
  at the chunk's index. Division by zero chunks raises.
\<close>

definition collection_chunk_at_index :: "'a list \<Rightarrow> nat \<Rightarrow> nat \<Rightarrow> 'a list result" where
  "collection_chunk_at_index vals num_chunks chunk_index =
     (if num_chunks = 0 then Inl ZeroDivisionError
      else let len = (length vals + num_chunks - 1) div num_chunks;
               start = chunk_index * len;
               end' = min (length vals) (start + len)
           in Inr (py_slice start end' vals))"

lemma ceil_div_bounds:
  assumes "0 < (p::nat)"
  shows "n \<le> p * ((n + p - 1) div p)"
proof -
  have "(n + p - 1) = p * ((n + p - 1) div p) + (n + p - 1) mod p"
    by simp
  moreover have "(n + p - 1) mod p < p" using assms by simp
  ultimately show ?thesis by linarith
qed

lemma concat_slices:
  "concat (map (\<lambda>i. py_slice (i * l) (min (length xs) (i * l + l)) xs) [0..<k]) = take (k * l) xs"
proof (induction k)
  case (Suc k)
  have "py_slice (k * l) (min (length xs) (k * l + l)) xs = take l (drop (k * l) xs)"
    by (simp add: py_slice_def take_drop min_def add.commute)
  with Suc show ?case
    by (simp add: take_add [symmetric] add.commute)
qed simp

text \<open>
  The chunks handed to the parallel tasks of a collection source partition the
  collection: concatenated in task order they are the collection, so no element is lost,
  duplicated or reordered within a task.
\<close>

theorem chunks_partition_collection:
  assumes "0 < p"
  shows "\<exists>cs. rmap (collection_chunk_at_index vals p) [0..<p] = Inr cs \<and> concat cs = vals"
proof -
  let ?l = "(length vals + p - 1) div p"
  have "rmap (collection_chunk_at_index vals p) [0..<p] =
      Inr (map (\<lambda>i. py_slice (i * ?l) (min (length vals) (i * ?l + ?l)) vals) [0..<p])"
    using assms by (intro rmap_Inr_eq_map) (simp add: collection_chunk_at_index_def Let_def)
  moreover have "take (p * ?l) vals = vals"
    using ceil_div_bounds [OF assms, of "length vals"] by simp
  ultimately show ?thesis by (simp add: concat_slices)
qed

theorem chunks_partition_collection_witness:
  "\<exists>cs. rmap (collection_chunk_at_index [10, 20, 30, 40, 50::int] 4) [0..<4] = Inr cs \<and>
     concat cs = [10, 20, 30, 40, 50]"
  using chunks_partition_collection [of 4 "[10, 20, 30, 40, 50::int]"] by simp

lemma last_chunk_empty:
  assumes "0 < p" "length vals \<le> i * ((length vals + p - 1) div p)"
  shows "collection_chunk_at_index vals p i = Inr []"
  using assms by (simp add: collection_chunk_at_index_def Let_def py_slice_def)

end
