(* ===== verification/Stream_Records.thy ===== *)
theory Stream_Records
  imports Volga_Prelude
begin

text \<open>
  Records and partitioning: \<open>streaming/api/message/message.py\<close> (\<open>Record\<close>, \<open>KeyRecord\<close> and
  their channel messages) and \<open>streaming/api/partition/partition.py\<close>. A \<open>KeyRecord\<close> is a
  record whose \<open>rec_key\<close> is present. Keys, values and the builtin \<open>hash\<close> (which depends on
  the interpreter's hash seed) are parameters.
\<close>

section \<open>Records\<close>

record ('k, 'v) srec =
  rec_key :: "'k option"
  rec_value :: 'v
  rec_stream_name :: "string option"
  rec_event_time :: "rat option"
  rec_source_emit_ts :: "int option"

definition Record :: "'v \<Rightarrow> rat option \<Rightarrow> int option \<Rightarrow> ('k, 'v) srec" where
  "Record v et emit =
     \<lparr>rec_key = None, rec_value = v, rec_stream_name = None, rec_event_time = et,
      rec_source_emit_ts = emit\<rparr>"

definition KeyRecord :: "'k \<Rightarrow> 'v \<Rightarrow> rat option \<Rightarrow> int option \<Rightarrow> ('k, 'v) srec" where
  "KeyRecord k v et emit =
     \<lparr>rec_key = Some k, rec_value = v, rec_stream_name = None, rec_event_time = et,
      rec_source_emit_ts = emit\<rparr>"

definition set_stream_name :: "string option \<Rightarrow> ('k, 'v) srec \<Rightarrow> ('k, 'v) srec" where
  "set_stream_name n r = r\<lparr>rec_stream_name := n\<rparr>"

text \<open>\<open>record.key\<close>: only a \<open>KeyRecord\<close> has the attribute.\<close>

definition get_key :: "('k, 'v) srec \<Rightarrow> 'k result" where
  "get_key r = (case rec_key r of None \<Rightarrow> Inl AttributeError | Some k \<Rightarrow> Inr k)"

text \<open>\<open>__eq__\<close>: the same class and the same tuple of fields.\<close>

definition record_eq :: "('k, 'v) srec \<Rightarrow> ('k, 'v) srec \<Rightarrow> bool" where
  "record_eq a b =
     (if (rec_key a = None) = (rec_key b = None)
      then (rec_stream_name a, rec_key a, rec_value a, rec_event_time a, rec_source_emit_ts a) =
           (rec_stream_name b, rec_key b, rec_value b, rec_event_time b, rec_source_emit_ts b)
      else False)"

text \<open>A channel message is a dictionary from field names to field values.\<close>

datatype ('k, 'v) msg_val =
    MKey 'k
  | MValue 'v
  | MStreamName "string option"
  | MEventTime "rat option"
  | MSourceEmitTs "int option"

type_synonym ('k, 'v) channel_message = "(string, ('k, 'v) msg_val) dict"

definition to_channel_message :: "('k, 'v) srec \<Rightarrow> ('k, 'v) channel_message" where
  "to_channel_message r =
     (case rec_key r of
        None \<Rightarrow>
          [(''value'', MValue (rec_value r)),
           (''stream_name'', MStreamName (rec_stream_name r)),
           (''event_time'', MEventTime (rec_event_time r)),
           (''source_emit_ts'', MSourceEmitTs (rec_source_emit_ts r))]
      | Some k \<Rightarrow>
          [(''key'', MKey k),
           (''value'', MValue (rec_value r)),
           (''stream_name'', MStreamName (rec_stream_name r)),
           (''event_time'', MEventTime (rec_event_time r)),
           (''source_emit_ts'', MSourceEmitTs (rec_source_emit_ts r))])"

fun msg_key :: "('k, 'v) msg_val \<Rightarrow> 'k result" where
  "msg_key (MKey k) = Inr k"
| "msg_key _ = Inl TypeError"

fun msg_value :: "('k, 'v) msg_val \<Rightarrow> 'v result" where
  "msg_value (MValue v) = Inr v"
| "msg_value _ = Inl TypeError"

fun msg_stream_name :: "('k, 'v) msg_val \<Rightarrow> string option result" where
  "msg_stream_name (MStreamName n) = Inr n"
| "msg_stream_name _ = Inl TypeError"

fun msg_event_time :: "('k, 'v) msg_val \<Rightarrow> rat option result" where
  "msg_event_time (MEventTime t) = Inr t"
| "msg_event_time _ = Inl TypeError"

fun msg_emit_ts :: "('k, 'v) msg_val \<Rightarrow> int option result" where
  "msg_emit_ts (MSourceEmitTs t) = Inr t"
| "msg_emit_ts _ = Inl TypeError"

definition record_from_channel_message ::
    "('k, 'v) channel_message \<Rightarrow> ('k, 'v) srec result" where
  "record_from_channel_message m =
     (let body =
        (\<lambda>mk. rbind (rbind (dict_get m ''value'') msg_value) (\<lambda>v.
               rbind (rbind (dict_get m ''event_time'') msg_event_time) (\<lambda>et.
               rbind (rbind (dict_get m ''source_emit_ts'') msg_emit_ts) (\<lambda>emit.
               rbind (rbind (dict_get m ''stream_name'') msg_stream_name) (\<lambda>n.
               Inr (set_stream_name n (mk v et emit)))))))
      in if dict_mem ''key'' m
         then rbind (rbind (dict_get m ''key'') msg_key) (\<lambda>k. body (KeyRecord k))
         else body Record)"

lemma get_key_simps [simp]:
  "get_key (KeyRecord k v et emit) = Inr k"
  "get_key (Record v et emit) = Inl AttributeError"
  "get_key (set_stream_name n r) = get_key r"
  by (simp_all add: get_key_def KeyRecord_def Record_def set_stream_name_def)

lemma record_fields [simp]:
  "rec_value (Record v et emit) = v"
  "rec_event_time (Record v et emit) = et"
  "rec_source_emit_ts (Record v et emit) = emit"
  "rec_key (Record v et emit) = None"
  "rec_value (KeyRecord k v et emit) = v"
  "rec_event_time (KeyRecord k v et emit) = et"
  "rec_source_emit_ts (KeyRecord k v et emit) = emit"
  "rec_key (KeyRecord k v et emit) = Some k"
  by (simp_all add: Record_def KeyRecord_def)

lemma set_stream_name_fields [simp]:
  "rec_value (set_stream_name n r) = rec_value r"
  "rec_event_time (set_stream_name n r) = rec_event_time r"
  "rec_source_emit_ts (set_stream_name n r) = rec_source_emit_ts r"
  "rec_key (set_stream_name n r) = rec_key r"
  "rec_stream_name (set_stream_name n r) = n"
  by (simp_all add: set_stream_name_def)

lemma record_eq_iff: "record_eq a b \<longleftrightarrow> a = b"
  by (cases a; cases b) (auto simp: record_eq_def)

lemma message_record: "record_from_channel_message (to_channel_message r) = Inr r"
  by (cases r)
    (auto simp: record_from_channel_message_def to_channel_message_def dict_mem_def
      KeyRecord_def Record_def set_stream_name_def dict_get_def split: option.splits)

text \<open>
  Serialising a record to a channel message and reading it back gives the same record,
  keyed or not, with the stream name the writer stamped on it.
\<close>

theorem channel_message_roundtrip:
  "record_from_channel_message (to_channel_message r) = Inr r"
  by (rule message_record)

section \<open>Partitioning strategies\<close>

datatype ('k, 'v) partition =
    BroadcastPartition "nat list"
  | KeyPartition
  | RoundRobinPartition nat
  | ForwardPartition
  | SimplePartition "('k, 'v) srec \<Rightarrow> nat \<Rightarrow> nat list result"

text \<open>
  \<open>partition(record, num_partition)\<close>: the list of target indices and the strategy's new
  state. The cached broadcast list and the round-robin sequence number are the only state
  that survives a call; the one-element lists of the other strategies are overwritten
  before they are returned.
\<close>

fun partition_step ::
    "('k \<Rightarrow> int) \<Rightarrow> ('k, 'v) partition \<Rightarrow> ('k, 'v) srec \<Rightarrow> nat \<Rightarrow>
     (nat list \<times> ('k, 'v) partition) result" where
  "partition_step hash (BroadcastPartition ps) r n =
     (let ps' = (if length ps \<noteq> n then [0..<n] else ps)
      in Inr (ps', BroadcastPartition ps'))"
| "partition_step hash KeyPartition r n =
     rbind (get_key r) (\<lambda>k.
       if n = 0 then Inl ZeroDivisionError
       else Inr ([nat (\<bar>hash k\<bar> mod int n)], KeyPartition))"
| "partition_step hash (RoundRobinPartition seq) r n =
     (if n = 0 then Inl ZeroDivisionError
      else let seq' = (seq + 1) mod n in Inr ([seq'], RoundRobinPartition seq'))"
| "partition_step hash ForwardPartition r n = Inr ([0], ForwardPartition)"
| "partition_step hash (SimplePartition f) r n =
     rbind (f r n) (\<lambda>ps. Inr (ps, SimplePartition f))"

definition is_forward :: "('k, 'v) partition \<Rightarrow> bool" where
  "is_forward p = (case p of ForwardPartition \<Rightarrow> True | _ \<Rightarrow> False)"

definition init_broadcast :: "('k, 'v) partition" where
  "init_broadcast = BroadcastPartition []"

definition init_round_robin :: "('k, 'v) partition" where
  "init_round_robin = RoundRobinPartition 0"

text \<open>The state a strategy object can be in while it serves a fixed number of targets.\<close>

fun partition_inv :: "nat \<Rightarrow> ('k, 'v) partition \<Rightarrow> bool" where
  "partition_inv n (BroadcastPartition ps) = (ps = [] \<or> ps = [0..<n])"
| "partition_inv n (SimplePartition f) = False"
| "partition_inv n _ = True"

text \<open>A strategy accepts a record: key partitioning needs a keyed one.\<close>

fun partition_accepts :: "('k, 'v) partition \<Rightarrow> ('k, 'v) srec \<Rightarrow> bool" where
  "partition_accepts KeyPartition r = (rec_key r \<noteq> None)"
| "partition_accepts (SimplePartition f) r = False"
| "partition_accepts _ r = True"

section \<open>The interface collectors rely on\<close>

text \<open>A strategy object serving a whole stream of records.\<close>

fun part_run :: "('s \<Rightarrow> 'r \<Rightarrow> nat \<Rightarrow> (nat list \<times> 's) result) \<Rightarrow> 's \<Rightarrow> 'r list \<Rightarrow> nat \<Rightarrow>
    (nat list list \<times> 's) result" where
  "part_run part s [] n = Inr ([], s)"
| "part_run part s (r # rs) n =
     rbind (part s r n) (\<lambda>(ps, s').
     rbind (part_run part s' rs n) (\<lambda>(pss, s''). Inr (ps # pss, s'')))"

text \<open>
  What a collector needs of a strategy: for a positive number of targets and a record it
  accepts, it answers with distinct, valid, non-empty targets and stays usable.
\<close>

locale partitioner =
  fixes part :: "'s \<Rightarrow> 'r \<Rightarrow> nat \<Rightarrow> (nat list \<times> 's) result"
    and inv :: "nat \<Rightarrow> 's \<Rightarrow> bool"
    and accepts :: "'s \<Rightarrow> 'r \<Rightarrow> bool"
  assumes part_ok: "0 < n \<Longrightarrow> inv n s \<Longrightarrow> accepts s r \<Longrightarrow>
      \<exists>ps s'. part s r n = Inr (ps, s') \<and> ps \<noteq> [] \<and> distinct ps \<and> set ps \<subseteq> {..<n} \<and>
        inv n s' \<and> (\<forall>r'. accepts s' r' = accepts s r')"
begin

lemma part_run_ok:
  "0 < n \<Longrightarrow> inv n s \<Longrightarrow> list_all (accepts s) rs \<Longrightarrow>
   \<exists>pss s'. part_run part s rs n = Inr (pss, s') \<and> length pss = length rs \<and>
     list_all (\<lambda>ps. ps \<noteq> [] \<and> distinct ps \<and> set ps \<subseteq> {..<n}) pss \<and> inv n s'"
proof (induction rs arbitrary: s)
  case (Cons r rs)
  then obtain ps s1 where p: "part s r n = Inr (ps, s1)"
    and ps: "ps \<noteq> []" "distinct ps" "set ps \<subseteq> {..<n}"
    and s1: "inv n s1" "\<And>r'. accepts s1 r' = accepts s r'"
    using part_ok [of n s r] by auto
  from s1 Cons.prems have "list_all (accepts s1) rs"
    by (simp add: list_all_iff)
  with Cons.IH [OF Cons.prems(1) s1(1)] obtain pss s2
    where "part_run part s1 rs n = Inr (pss, s2)" "length pss = length rs"
      "list_all (\<lambda>ps. ps \<noteq> [] \<and> distinct ps \<and> set ps \<subseteq> {..<n}) pss" "inv n s2"
    by auto
  with p ps show ?case by simp
qed simp

end

lemma partition_step_ok:
  assumes "0 < n" "partition_inv n p" "partition_accepts p r"
  shows "\<exists>ps p'. partition_step hash p r n = Inr (ps, p') \<and> ps \<noteq> [] \<and> distinct ps \<and>
    set ps \<subseteq> {..<n} \<and> partition_inv n p' \<and> (\<forall>r'. partition_accepts p' r' = partition_accepts p r')"
proof (cases p)
  case KeyPartition
  with assms obtain k where k: "get_key r = Inr k"
    by (auto simp: get_key_def)
  have "nat (\<bar>hash k\<bar> mod int n) < n"
    using assms(1) by (simp add: nat_less_iff)
  with k assms KeyPartition show ?thesis by simp
qed (use assms in \<open>auto simp: Let_def split: if_splits\<close>)

interpretation strategies: partitioner "partition_step hash" partition_inv partition_accepts
  for hash :: "'k \<Rightarrow> int"
  by unfold_locales (rule partition_step_ok)

text \<open>
  Every partitioning strategy of the library sends a record it accepts to a non-empty
  set of distinct, existing downstream channels, and does so for every record of a stream:
  no index is out of range and no record is dropped or sent twice to one channel.
\<close>

theorem partition_targets_valid:
  assumes "0 < n" and "partition_inv n p" and "list_all (partition_accepts p) rs"
  shows "\<exists>pss p'. part_run (partition_step hash) p rs n = Inr (pss, p') \<and> length pss = length rs \<and>
    list_all (\<lambda>ps. ps \<noteq> [] \<and> distinct ps \<and> set ps \<subseteq> {..<n}) pss"
  using strategies.part_run_ok [OF assms] by blast

theorem partition_targets_valid_witness:
  "\<exists>pss p'. part_run (partition_step (\<lambda>k::int. k)) KeyPartition
       [KeyRecord 7 (0::int) None None, KeyRecord (-5) 0 None None] 3 = Inr (pss, p') \<and>
     length pss = 2 \<and>
     list_all (\<lambda>ps. ps \<noteq> [] \<and> distinct ps \<and> set ps \<subseteq> {..<3}) pss"
proof -
  let ?rs = "[KeyRecord 7 (0::int) None None, KeyRecord (-5) 0 None None]"
  have "list_all (partition_accepts KeyPartition) ?rs" by simp
  from partition_targets_valid [OF _ _ this, of 3 "\<lambda>k::int. k"] show ?thesis
    by (simp only: partition_inv.simps list.size One_nat_def) (simp only: numeral_2_eq_2, simp)
qed

section \<open>Round robin is fair, keys are sticky\<close>

lemma round_robin_run:
  assumes "0 < n" "seq < n"
  shows "part_run (partition_step hash) (RoundRobinPartition seq) rs n =
    Inr (map (\<lambda>i. [(seq + 1 + i) mod n]) [0..<length rs],
         RoundRobinPartition ((seq + length rs) mod n))"
  using assms
proof (induction rs arbitrary: seq)
  case (Cons r rs)
  let ?s = "(seq + 1) mod n"
  have "?s < n" using Cons.prems by simp
  note IH = Cons.IH [OF Cons.prems(1) this]
  have step: "(?s + 1 + i) mod n = (seq + 1 + Suc i) mod n" for i
    by (metis add.assoc add.commute add_Suc_right mod_add_left_eq plus_1_eq_Suc)
  have shift: "map (\<lambda>i. [(?s + 1 + i) mod n]) [0..<length rs] =
      map (\<lambda>i. [(seq + 1 + i) mod n]) (map Suc [0..<length rs])"
    by (simp only: map_map o_def step)
  have upt: "[0..<Suc (length rs)] = 0 # map Suc [0..<length rs]"
    by (simp del: upt_Suc add: upt_conv_Cons map_Suc_upt)
  have "part_run (partition_step hash) (RoundRobinPartition seq) (r # rs) n =
      Inr ([?s] # map (\<lambda>i. [(?s + 1 + i) mod n]) [0..<length rs],
           RoundRobinPartition ((?s + length rs) mod n))"
    using Cons.prems IH by (simp add: Let_def)
  then show ?case
    by (simp only: shift upt list.map length_Cons) (simp add: mod_simps)
qed simp

text \<open>
  Round-robin partitioning deals records to the downstream channels in cyclic order: the
  \<open>i\<close>-th record of a stream goes to channel \<open>(i + 1) mod n\<close>, so any \<open>n\<close> consecutive records
  reach each of the \<open>n\<close> channels exactly once.
\<close>

theorem round_robin_cyclic:
  assumes "0 < n"
  shows "part_run (partition_step hash) init_round_robin rs n =
    Inr (map (\<lambda>i. [Suc i mod n]) [0..<length rs], RoundRobinPartition (length rs mod n))"
  using round_robin_run [of n 0 hash rs] assms by (simp add: init_round_robin_def)

theorem round_robin_cyclic_witness:
  "part_run (partition_step (\<lambda>k::int. k)) init_round_robin
     (replicate 4 (Record (0::int) None None)) 3 =
   Inr (map (\<lambda>i. [Suc i mod 3]) [0..<4], RoundRobinPartition 1)"
  using round_robin_cyclic [of 3 "\<lambda>k::int. k" "replicate 4 (Record (0::int) None None)"]
  by simp

lemma key_partition_sticky:
  assumes "0 < n" "get_key r = Inr k" "get_key r' = Inr k"
  shows "partition_step hash KeyPartition r n = partition_step hash KeyPartition r' n"
  using assms by simp

end
