(* ===== verification/Windows.thy ===== *)
theory Windows
  imports Stream_Records Time_Utils
begin

text \<open>
  Sliding-window aggregation: \<open>streaming/api/function/aggregate_function.py\<close>,
  \<open>window_function.py\<close> and \<open>streaming/api/operators/window_operator.py\<close>. A window keeps the
  records of one key that are at most its length older than the newest one, sorted by event
  time; every event re-evaluates the aggregate over the window.
\<close>

section \<open>Aggregate functions\<close>

datatype agg_type = AGG_MAX | AGG_MIN | AGG_COUNT | AGG_SUM | AGG_AVG

text \<open>The accumulator \<open>_Acc.aggs\<close>: one optional value per aggregation type.\<close>

type_synonym acc = "agg_type \<rightharpoonup> rat"

definition create_accumulator :: acc where
  "create_accumulator = Map.empty"

text \<open>Calling \<open>agg_on_func\<close>, which a configuration may leave out.\<close>

definition call_on :: "('v \<Rightarrow> rat result) option \<Rightarrow> 'v \<Rightarrow> rat result" where
  "call_on f v = (case f of None \<Rightarrow> Inl TypeError | Some g \<Rightarrow> g v)"

definition agg_add ::
    "agg_type \<Rightarrow> ('v \<Rightarrow> rat result) option \<Rightarrow> ('k, 'v) srec \<Rightarrow> acc \<Rightarrow> acc result" where
  "agg_add ty on r a =
     (if ty = AGG_MIN then
        rbind (call_on on (rec_value r)) (\<lambda>v.
          Inr (a(AGG_MIN \<mapsto> (case a AGG_MIN of Some m \<Rightarrow> min m v | None \<Rightarrow> v))))
      else if ty = AGG_MAX then
        rbind (call_on on (rec_value r)) (\<lambda>v.
          Inr (a(AGG_MAX \<mapsto> (case a AGG_MAX of Some m \<Rightarrow> max m v | None \<Rightarrow> v))))
      else
        let a1 = (if ty = AGG_COUNT \<or> ty = AGG_AVG
                  then a(AGG_COUNT \<mapsto> (case a AGG_COUNT of Some c \<Rightarrow> c + 1 | None \<Rightarrow> 1))
                  else a)
        in if ty = AGG_COUNT then Inr a1
           else rbind (call_on on (rec_value r)) (\<lambda>v.
             let a2 = a1(AGG_SUM \<mapsto> (case a1 AGG_SUM of Some s \<Rightarrow> s + v | None \<Rightarrow> v))
             in if ty = AGG_AVG then Inr (a2(AGG_AVG \<mapsto> the (a2 AGG_SUM) / the (a2 AGG_COUNT)))
                else Inr a2))"

text \<open>\<open>AllAggregateApplyWindowFunction.apply\<close>.\<close>

definition window_apply ::
    "agg_type \<Rightarrow> ('v \<Rightarrow> rat result) option \<Rightarrow> ('k, 'v) srec list \<Rightarrow> acc result" where
  "window_apply ty on rs = rfold (agg_add ty on) rs create_accumulator"

text \<open>What each aggregate means on the list of extracted values.\<close>

fun agg_spec :: "agg_type \<Rightarrow> rat list \<Rightarrow> rat" where
  "agg_spec AGG_MAX vs = Max (set vs)"
| "agg_spec AGG_MIN vs = Min (set vs)"
| "agg_spec AGG_COUNT vs = of_nat (length vs)"
| "agg_spec AGG_SUM vs = sum_list vs"
| "agg_spec AGG_AVG vs = sum_list vs / of_nat (length vs)"

text \<open>The entries of the accumulator after the values \<open>vs\<close>.\<close>

definition acc_after :: "agg_type \<Rightarrow> rat list \<Rightarrow> acc" where
  "acc_after ty vs =
     (if vs = [] then Map.empty
      else if ty = AGG_AVG
      then [AGG_COUNT \<mapsto> agg_spec AGG_COUNT vs, AGG_SUM \<mapsto> agg_spec AGG_SUM vs, AGG_AVG \<mapsto> agg_spec AGG_AVG vs]
      else [ty \<mapsto> agg_spec ty vs])"

lemma agg_add_after:
  assumes on: "ty \<noteq> AGG_COUNT \<Longrightarrow> call_on on (rec_value r) = Inr v"
  shows "agg_add ty on r (acc_after ty vs) = Inr (acc_after ty (vs @ [v]))"
proof (cases "vs = []")
  case True
  with on show ?thesis
    by (cases ty) (auto simp: agg_add_def acc_after_def Let_def)
next
  case False
  with on show ?thesis
    by (cases ty) (auto simp: agg_add_def acc_after_def Let_def min.commute max.commute)
qed

lemma window_apply_correct:
  assumes "\<And>r. r \<in> set rs \<Longrightarrow> ty \<noteq> AGG_COUNT \<Longrightarrow> call_on on (rec_value r) = Inr (g (rec_value r))"
  shows "window_apply ty on rs = Inr (acc_after ty (map (g \<circ> rec_value) rs))"
proof -
  have "rfold (agg_add ty on) rs (acc_after ty vs) =
      Inr (acc_after ty (vs @ map (g \<circ> rec_value) rs))" for vs
    using assms
  proof (induction rs arbitrary: vs)
    case (Cons r rs)
    then have "agg_add ty on r (acc_after ty vs) = Inr (acc_after ty (vs @ [g (rec_value r)]))"
      by (intro agg_add_after) simp
    moreover have "rfold (agg_add ty on) rs (acc_after ty (vs @ [g (rec_value r)])) =
        Inr (acc_after ty ((vs @ [g (rec_value r)]) @ map (g \<circ> rec_value) rs))"
      by (rule Cons.IH) (use Cons.prems in auto)
    ultimately show ?case by (simp add: o_def)
  qed simp
  from this [of "[]"] show ?thesis
    by (simp add: window_apply_def create_accumulator_def acc_after_def)
qed

lemma acc_after_own: "vs \<noteq> [] \<Longrightarrow> acc_after ty vs ty = Some (agg_spec ty vs)"
  by (cases ty) (auto simp: acc_after_def)

section \<open>Windows\<close>

record ('k, 'v) window =
  win_records :: "('k, 'v) srec list"
  win_length_s :: rat
  win_on :: "('v \<Rightarrow> rat result) option"
  win_name :: string
  win_agg_type :: agg_type

record 'v window_config =
  wc_duration :: string
  wc_agg_type :: agg_type
  wc_agg_on_func :: "('v \<Rightarrow> rat result) option"
  wc_name :: "string option"

text \<open>
  The event time as sorting key. \<open>process_element\<close> raises \<open>TypeError\<close> for a record without
  one (comparing or subtracting \<open>None\<close>), so stored records always have it.
\<close>

definition event_key :: "('k, 'v) srec \<Rightarrow> rat" where
  "event_key r = (case rec_event_time r of Some t \<Rightarrow> t | None \<Rightarrow> 0)"

text \<open>\<open>while records[-1].event_time - records[0].event_time > length_s: records.pop(0)\<close>\<close>

fun expire :: "rat \<Rightarrow> ('k, 'v) srec list \<Rightarrow> ('k, 'v) srec list result" where
  "expire len [] = Inl IndexError"
| "expire len (r # rs) =
     (if event_key (last (r # rs)) - event_key r > len then expire len rs else Inr (r # rs))"

definition window_push :: "('k, 'v) srec \<Rightarrow> ('k, 'v) window \<Rightarrow> ('k, 'v) window result" where
  "window_push r w =
     rbind (expire (win_length_s w) (insort_right event_key r (win_records w)))
       (\<lambda>rs. Inr (w\<lparr>win_records := rs\<rparr>))"

type_synonym aggs_per_window = "(string, rat) dict"

text \<open>
  The loop body over the windows of a key: insert, expire, check the name, apply, store.
  The loop state is the windows already updated and the aggregates so far.
\<close>

definition window_step ::
    "('k, 'v) srec \<Rightarrow> ('k, 'v) window \<Rightarrow> ('k, 'v) window list \<times> aggs_per_window \<Rightarrow>
     (('k, 'v) window list \<times> aggs_per_window) result" where
  "window_step r w st =
     (case st of (done, aggs) \<Rightarrow>
        if rec_event_time r = None then Inl TypeError
        else rbind (window_push r w) (\<lambda>w'.
          if dict_mem (win_name w') aggs then Inl RuntimeError
          else rbind (window_apply (win_agg_type w') (win_on w') (win_records w')) (\<lambda>a.
            case a (win_agg_type w') of
              None \<Rightarrow> Inl KeyError
            | Some v \<Rightarrow> Inr (done @ [w'], AList.update (win_name w') v aggs))))"

text \<open>
  \<open>f'{agg_type}_{duration}'\<close>: how an enum member prints in an f-string depends on the Python
  version, so its rendering is the parameter \<open>fmt\<close>.
\<close>

definition create_window ::
    "(agg_type \<Rightarrow> string) \<Rightarrow> 'v window_config \<Rightarrow> ('k, 'v) window result" where
  "create_window fmt c =
     rbind (duration_to_s (wc_duration c)) (\<lambda>len.
       Inr \<lparr>win_records = [], win_length_s = len, win_on = wc_agg_on_func c,
            win_name = (case wc_name c of
                          None \<Rightarrow> fmt (wc_agg_type c) @ ''_'' @ wc_duration c
                        | Some n \<Rightarrow> n),
            win_agg_type = wc_agg_type c\<rparr>)"

definition create_windows ::
    "(agg_type \<Rightarrow> string) \<Rightarrow> 'v window_config list \<Rightarrow> ('k, 'v) window list result" where
  "create_windows fmt cs = rmap (create_window fmt) cs"

type_synonym ('k, 'v) windows_per_key = "('k, ('k, 'v) window list) dict"

text \<open>The output record when no \<open>output_func\<close> is configured.\<close>

definition default_output ::
    "aggs_per_window \<Rightarrow> ('k, 'v) srec \<Rightarrow> ('k, aggs_per_window) srec result" where
  "default_output aggs r = Inr (Record aggs (rec_event_time r) None)"

definition multi_window_process ::
    "(agg_type \<Rightarrow> string) \<Rightarrow> 'v window_config list \<Rightarrow>
     (aggs_per_window \<Rightarrow> ('k, 'v) srec \<Rightarrow> 'o result) \<Rightarrow>
     ('k, 'v) windows_per_key \<Rightarrow> ('k, 'v) srec \<Rightarrow>
     (('k, 'v) windows_per_key \<times> 'o list) result" where
  "multi_window_process fmt cs out per_key r =
     (case rec_key r of
        None \<Rightarrow> Inl AssertionError
      | Some k \<Rightarrow>
          rbind (case map_of per_key k of
                   Some ws \<Rightarrow> Inr ws
                 | None \<Rightarrow> create_windows fmt cs) (\<lambda>ws.
          rbind (rfold (window_step r) ws ([], [])) (\<lambda>(ws', aggs).
          rbind (out aggs r) (\<lambda>o_rec.
            Inr (AList.update k ws' per_key, [o_rec])))))"

section \<open>The window contents\<close>

text \<open>
  Specification: of all records seen so far, sorted by event time with ties in arrival
  order, those at most the window length older than the newest.
\<close>

definition sort_events :: "('k, 'v) srec list \<Rightarrow> ('k, 'v) srec list" where
  "sort_events rs = fold (insort_right event_key) rs []"

definition window_spec :: "rat \<Rightarrow> ('k, 'v) srec list \<Rightarrow> ('k, 'v) srec list" where
  "window_spec len rs =
     (let s = sort_events rs in filter (\<lambda>r. event_key (last s) - event_key r \<le> len) s)"

lemma sort_events_snoc [simp]:
  "sort_events (rs @ [r]) = insort_right event_key r (sort_events rs)"
  by (simp add: sort_events_def)

lemma sort_events_Nil [simp]: "sort_events [] = []"
  by (simp add: sort_events_def)

lemma sorted_sort_events: "sorted (map event_key (sort_events rs))"
  by (induction rs rule: rev_induct) (auto intro: sorted_insort_right)

lemma mset_sort_events [simp]: "mset (sort_events rs) = mset rs"
  by (induction rs rule: rev_induct) auto

lemma set_sort_events [simp]: "set (sort_events rs) = set rs"
  by (metis mset_sort_events set_mset_mset)

lemma sort_events_eq_Nil [simp]: "sort_events rs = [] \<longleftrightarrow> rs = []"
  by (metis mset_sort_events mset_zero_iff)

lemma sorted_le_last:
  "sorted (map f xs) \<Longrightarrow> x \<in> set xs \<Longrightarrow> f x \<le> f (last xs)"
proof (induction xs)
  case (Cons y ys)
  then show ?case by (cases "ys = []") auto
qed simp

lemma expire_sorted:
  "0 \<le> len \<Longrightarrow> rs \<noteq> [] \<Longrightarrow> sorted (map event_key rs) \<Longrightarrow>
   expire len rs = Inr (filter (\<lambda>r. event_key (last rs) - event_key r \<le> len) rs)"
proof (induction rs)
  case (Cons r rs)
  show ?case
  proof (cases "event_key (last (r # rs)) - event_key r > len")
    case True
    with Cons.prems have "rs \<noteq> []" by auto
    with True Cons show ?thesis by auto
  next
    case False
    have "event_key r \<le> event_key x" if "x \<in> set rs" for x
      using Cons.prems that by simp
    with False have "filter (\<lambda>x. event_key (last (r # rs)) - event_key x \<le> len) rs = rs"
      by (intro filter_True) force
    with False show ?thesis by simp
  qed
qed simp

lemma window_spec_last:
  assumes "0 \<le> len" "rs \<noteq> []"
  shows "window_spec len rs \<noteq> [] \<and> last (window_spec len rs) = last (sort_events rs)"
proof -
  let ?s = "sort_events rs"
  obtain ys y where s: "?s = ys @ [y]"
    using assms(2) by (metis rev_exhaust sort_events_eq_Nil)
  with assms(1) show ?thesis by (simp add: window_spec_def)
qed

lemma window_push_spec:
  assumes "0 \<le> len"
  shows "expire len (insort_right event_key r (window_spec len rs)) =
    Inr (window_spec len (rs @ [r]))"
proof -
  let ?s = "sort_events rs" and ?w = "window_spec len rs"
  let ?old = "\<lambda>x. event_key (last ?s) - event_key x \<le> len"
  let ?m = "event_key (last (insort_right event_key r ?s))"
  let ?new = "\<lambda>x. ?m - event_key x \<le> len"
  have srt: "sorted (map event_key ?s)" by (rule sorted_sort_events)
  have w: "?w = filter ?old ?s" by (simp add: window_spec_def Let_def)
  have srt_w: "sorted (map event_key ?w)"
    unfolding w using srt by (rule sorted_filter)
  have m_w: "event_key (last (insort_right event_key r ?w)) = ?m"
    using window_spec_last [OF assms, of rs] last_insort_right_sorted [OF srt_w, of r]
      last_insort_right_sorted [OF srt, of r]
    by (cases "rs = []") (simp_all add: window_spec_def)
  have old: "?old x" if "?new x" "rs \<noteq> []" for x
    using that last_insort_right_sorted [OF srt, of r] by auto
  have flt: "filter ?new ?w = filter ?new ?s"
    unfolding w by (cases "rs = []") (auto intro!: filter_cong dest: old)
  have "filter ?new (insort_right event_key r ?w) = filter ?new (insort_right event_key r ?s)"
  proof (cases "?new r")
    case True
    then show ?thesis
      by (simp add: filter_insort_right_True srt srt_w flt)
  next
    case False
    then show ?thesis by (simp add: filter_insort_right_False flt)
  qed
  with m_w show ?thesis
    using expire_sorted [OF assms _ sorted_insort_right [OF srt_w]]
    by (simp add: window_spec_def Let_def)
qed

section \<open>The operator computes the specified aggregates\<close>

text \<open>The window a configuration stands for once its duration is parsed, holding \<open>rs\<close>.\<close>

definition window_of ::
    "(agg_type \<Rightarrow> string) \<Rightarrow> 'v window_config \<Rightarrow> rat \<Rightarrow> ('k, 'v) srec list \<Rightarrow> ('k, 'v) window" where
  "window_of fmt c len rs =
     \<lparr>win_records = window_spec len rs, win_length_s = len, win_on = wc_agg_on_func c,
      win_name = (case wc_name c of
                    None \<Rightarrow> fmt (wc_agg_type c) @ ''_'' @ wc_duration c | Some n \<Rightarrow> n),
      win_agg_type = wc_agg_type c\<rparr>"

definition config_name :: "(agg_type \<Rightarrow> string) \<Rightarrow> 'v window_config \<Rightarrow> string" where
  "config_name fmt c =
     (case wc_name c of None \<Rightarrow> fmt (wc_agg_type c) @ ''_'' @ wc_duration c | Some n \<Rightarrow> n)"

definition config_len :: "'v window_config \<Rightarrow> rat" where
  "config_len c = (case duration_to_s (wc_duration c) of Inr d \<Rightarrow> d | Inl _ \<Rightarrow> 0)"

definition config_val :: "'v window_config \<Rightarrow> 'v \<Rightarrow> rat" where
  "config_val c v = (case call_on (wc_agg_on_func c) v of Inr x \<Rightarrow> x | Inl _ \<Rightarrow> 0)"

text \<open>
  A usable configuration: the durations parse, the window names differ, and the value
  extractor of every aggregate but \<open>AGG_COUNT\<close> is defined on the values of the stream.
\<close>

definition configs_ok ::
    "(agg_type \<Rightarrow> string) \<Rightarrow> 'v window_config list \<Rightarrow> 'v set \<Rightarrow> bool" where
  "configs_ok fmt cs V \<longleftrightarrow>
     distinct (map (config_name fmt) cs) \<and>
     (\<forall>c \<in> set cs. is_ok (duration_to_s (wc_duration c)) \<and>
        (wc_agg_type c \<noteq> AGG_COUNT \<longrightarrow> (\<forall>v \<in> V. is_ok (call_on (wc_agg_on_func c) v))))"

definition spec_aggs ::
    "(agg_type \<Rightarrow> string) \<Rightarrow> 'v window_config list \<Rightarrow> ('k, 'v) srec list \<Rightarrow> aggs_per_window" where
  "spec_aggs fmt cs rs =
     map (\<lambda>c. (config_name fmt c,
               agg_spec (wc_agg_type c)
                 (map (config_val c \<circ> rec_value) (window_spec (config_len c) rs)))) cs"

definition windows_for ::
    "(agg_type \<Rightarrow> string) \<Rightarrow> 'v window_config list \<Rightarrow> ('k, 'v) srec list \<Rightarrow> ('k, 'v) window list" where
  "windows_for fmt cs rs = map (\<lambda>c. window_of fmt c (config_len c) rs) cs"

lemma create_windows_ok:
  assumes "configs_ok fmt cs V"
  shows "create_windows fmt cs = Inr (windows_for fmt cs [])"
  unfolding create_windows_def windows_for_def
proof (rule rmap_Inr_eq_map)
  fix c assume "c \<in> set cs"
  with assms obtain d where "duration_to_s (wc_duration c) = Inr d"
    by (auto simp: configs_ok_def is_ok_iff)
  then show "create_window fmt c = Inr (window_of fmt c (config_len c) [])"
    by (simp add: create_window_def window_of_def config_len_def window_spec_def)
qed

lemma window_step_spec:
  assumes dur: "is_ok (duration_to_s (wc_duration c))"
    and val: "\<And>v. wc_agg_type c \<noteq> AGG_COUNT \<Longrightarrow> v \<in> rec_value ` set (rs @ [r]) \<Longrightarrow>
      is_ok (call_on (wc_agg_on_func c) v)"
    and time: "rec_event_time r \<noteq> None"
    and fresh: "config_name fmt c \<notin> fst ` set aggs"
  shows "window_step r (window_of fmt c (config_len c) rs) (done, aggs) =
    Inr (done @ [window_of fmt c (config_len c) (rs @ [r])],
         aggs @ [(config_name fmt c,
           agg_spec (wc_agg_type c)
             (map (config_val c \<circ> rec_value) (window_spec (config_len c) (rs @ [r]))))])"
proof -
  have len: "0 \<le> config_len c"
    using dur duration_to_s_nonneg by (auto simp: config_len_def is_ok_iff)
  let ?w = "window_spec (config_len c) (rs @ [r])"
  have ne: "?w \<noteq> []" using window_spec_last [OF len, of "rs @ [r]"] by simp
  have sub: "set ?w \<subseteq> set (rs @ [r])"
    by (auto simp: window_spec_def Let_def)
  have "call_on (wc_agg_on_func c) (rec_value x) = Inr (config_val c (rec_value x))"
    if "x \<in> set ?w" "wc_agg_type c \<noteq> AGG_COUNT" for x
  proof -
    have "rec_value x \<in> rec_value ` set (rs @ [r])" using sub that(1) by blast
    from val [OF that(2) this] show ?thesis by (auto simp: is_ok_iff config_val_def)
  qed
  then have app: "window_apply (wc_agg_type c) (wc_agg_on_func c) ?w =
      Inr (acc_after (wc_agg_type c) (map (config_val c \<circ> rec_value) ?w))"
    by (intro window_apply_correct)
  have push: "window_push r (window_of fmt c (config_len c) rs) =
      Inr (window_of fmt c (config_len c) (rs @ [r]))"
    using window_push_spec [OF len, of r rs] by (simp add: window_push_def window_of_def)
  have name: "win_name (window_of fmt c (config_len c) (rs @ [r])) = config_name fmt c"
    by (simp add: window_of_def config_name_def)
  have upd: "AList.update (config_name fmt c) v aggs = aggs @ [(config_name fmt c, v)]" for v
    using fresh by (intro update_fresh) (simp add: dict_mem_iff)
  have "acc_after (wc_agg_type c) (map (config_val c \<circ> rec_value) ?w) (wc_agg_type c) =
      Some (agg_spec (wc_agg_type c) (map (config_val c \<circ> rec_value) ?w))"
    using ne by (intro acc_after_own) simp
  then show ?thesis
    using fresh time push app name upd
    by (simp add: window_step_def dict_mem_iff) (simp add: window_of_def)
qed

lemma window_fold_spec:
  assumes "rec_event_time r \<noteq> None"
    and "\<And>c. c \<in> set cs \<Longrightarrow> is_ok (duration_to_s (wc_duration c))"
    and "\<And>c v. c \<in> set cs \<Longrightarrow> wc_agg_type c \<noteq> AGG_COUNT \<Longrightarrow> v \<in> rec_value ` set (rs @ [r]) \<Longrightarrow>
      is_ok (call_on (wc_agg_on_func c) v)"
    and "distinct (map fst aggs @ map (config_name fmt) cs)"
  shows "rfold (window_step r) (windows_for fmt cs rs) (done, aggs) =
    Inr (done @ windows_for fmt cs (rs @ [r]), aggs @ spec_aggs fmt cs (rs @ [r]))"
  using assms
proof (induction cs arbitrary: "done" aggs)
  case (Cons c cs)
  let ?v = "agg_spec (wc_agg_type c)
      (map (config_val c \<circ> rec_value) (window_spec (config_len c) (rs @ [r])))"
  have "window_step r (window_of fmt c (config_len c) rs) (done, aggs) =
      Inr (done @ [window_of fmt c (config_len c) (rs @ [r])], aggs @ [(config_name fmt c, ?v)])"
    by (rule window_step_spec) (use Cons.prems in \<open>auto simp: image_iff\<close>)
  moreover have "rfold (window_step r) (windows_for fmt cs rs)
      (done @ [window_of fmt c (config_len c) (rs @ [r])], aggs @ [(config_name fmt c, ?v)]) =
    Inr ((done @ [window_of fmt c (config_len c) (rs @ [r])]) @ windows_for fmt cs (rs @ [r]),
      (aggs @ [(config_name fmt c, ?v)]) @ spec_aggs fmt cs (rs @ [r]))"
    by (rule Cons.IH) (use Cons.prems in auto)
  ultimately show ?case
    by (simp add: windows_for_def spec_aggs_def)
qed (simp add: windows_for_def spec_aggs_def)

text \<open>The operator's state after a history of records.\<close>

definition windows_inv ::
    "(agg_type \<Rightarrow> string) \<Rightarrow> 'v window_config list \<Rightarrow> ('k, 'v) srec list \<Rightarrow>
     ('k, 'v) windows_per_key \<Rightarrow> bool" where
  "windows_inv fmt cs hist per_key \<longleftrightarrow>
     (\<forall>k. map_of per_key k =
        (let rs = filter (\<lambda>x. rec_key x = Some k) hist
         in if rs = [] then None else Some (windows_for fmt cs rs)))"

lemma multi_window_process_spec:
  assumes inv: "windows_inv fmt cs hist per_key"
    and ok: "configs_ok fmt cs (rec_value ` set (hist @ [r]))"
    and key: "rec_key r = Some k" and time: "rec_event_time r \<noteq> None"
  shows "\<exists>per_key'. windows_inv fmt cs (hist @ [r]) per_key' \<and>
    multi_window_process fmt cs out per_key r =
      rbind (out (spec_aggs fmt cs (filter (\<lambda>x. rec_key x = Some k) (hist @ [r]))) r)
        (\<lambda>o_rec. Inr (per_key', [o_rec]))"
proof -
  let ?rs = "filter (\<lambda>x. rec_key x = Some k) hist"
  let ?per = "AList.update k (windows_for fmt cs (?rs @ [r])) per_key"
  have "(case map_of per_key k of Some ws \<Rightarrow> Inr ws | None \<Rightarrow> create_windows fmt cs) =
      Inr (windows_for fmt cs ?rs)"
    using inv create_windows_ok [OF ok] by (auto simp: windows_inv_def Let_def)
  moreover have "rfold (window_step r) (windows_for fmt cs ?rs) ([], []) =
      Inr ([] @ windows_for fmt cs (?rs @ [r]), [] @ spec_aggs fmt cs (?rs @ [r]))"
    by (rule window_fold_spec) (use time ok in \<open>auto simp: configs_ok_def\<close>)
  moreover have "windows_inv fmt cs (hist @ [r]) ?per"
    using inv key by (auto simp: windows_inv_def Let_def)
  ultimately show ?thesis
    using key by (intro exI [of _ ?per]) (simp add: multi_window_process_def)
qed

text \<open>
  C1. Sliding-window aggregation is correct: fed any stream of keyed records with event
  times, in any order of arrival, the operator emits for every record one output built from
  exactly the configured aggregates, each over the values of the records of the same key seen
  so far that are at most the window length older than the newest of them.
\<close>

theorem multi_window_correct:
  fixes rs :: "('k, 'v) srec list"
  assumes "configs_ok fmt cs (rec_value ` set rs)"
    and "list_all (\<lambda>r. rec_key r \<noteq> None \<and> rec_event_time r \<noteq> None) rs"
  shows "\<exists>per_key. op_run (multi_window_process fmt cs (\<lambda>aggs r. Inr (f aggs r))) [] rs =
    Inr (per_key, map (\<lambda>i. f (spec_aggs fmt cs
      (filter (\<lambda>x. rec_key x = rec_key (rs ! i)) (take (Suc i) rs))) (rs ! i)) [0..<length rs])"
proof -
  let ?step = "multi_window_process fmt cs (\<lambda>aggs r. Inr (f aggs r))"
  let ?I = "\<lambda>hist s. windows_inv fmt cs hist s"
  let ?Q = "\<lambda>hist r. set (hist @ [r]) \<subseteq> set rs"
  let ?f = "\<lambda>hist r. [f (spec_aggs fmt cs (filter (\<lambda>x. rec_key x = rec_key r) (hist @ [r]))) r]"
  have step: "\<exists>s'. ?step s r = Inr (s', ?f hist r) \<and> ?I (hist @ [r]) s'"
    if inv: "?I hist s" and sub: "?Q hist r" for hist s r
  proof -
    from sub assms(2) obtain k where k: "rec_key r = Some k" and t: "rec_event_time r \<noteq> None"
      by (auto simp: list_all_iff)
    have "configs_ok fmt cs (rec_value ` set (hist @ [r]))"
      using assms(1) sub unfolding configs_ok_def by (meson image_mono subsetD)
    from multi_window_process_spec [OF inv this k t, of "\<lambda>aggs r. Inr (f aggs r)"] k
    show ?thesis by auto
  qed
  have "\<exists>s'. op_run ?step [] rs =
      Inr (s', concat (map (\<lambda>i. ?f ([] @ take i rs) (rs ! i)) [0..<length rs])) \<and> ?I ([] @ rs) s'"
  proof (rule op_run_history [where I = ?I and Q = ?Q, OF step])
    show "?I [] []" by (simp add: windows_inv_def)
    show "?Q ([] @ take i rs) (rs ! i)" if "i < length rs" for i
      using that by (auto dest: in_set_takeD)
  qed
  then obtain s' where "op_run ?step [] rs =
      Inr (s', map (\<lambda>i. f (spec_aggs fmt cs
        (filter (\<lambda>x. rec_key x = rec_key (rs ! i)) (take i rs @ [rs ! i]))) (rs ! i)) [0..<length rs])"
    by (auto simp: concat_map_singleton simp del: filter_append)
  moreover have "map (\<lambda>i. f (spec_aggs fmt cs
        (filter (\<lambda>x. rec_key x = rec_key (rs ! i)) (take i rs @ [rs ! i]))) (rs ! i)) [0..<length rs] =
      map (\<lambda>i. f (spec_aggs fmt cs
        (filter (\<lambda>x. rec_key x = rec_key (rs ! i)) (take (Suc i) rs))) (rs ! i)) [0..<length rs]"
    by (rule map_cong) (simp_all add: take_Suc_conv_app_nth del: filter_append)
  ultimately show ?thesis by auto
qed

definition sample_config :: "rat window_config" where
  "sample_config = \<lparr>wc_duration = ''10s'', wc_agg_type = AGG_SUM,
     wc_agg_on_func = Some Inr, wc_name = Some ''total''\<rparr>"

theorem multi_window_correct_witness:
  "\<exists>per_key. op_run (multi_window_process (\<lambda>_. ''sum'') [sample_config] (\<lambda>aggs r. Inr (aggs, rec_value r)))
     [] [KeyRecord (1::int) 5 (Some 100) None, KeyRecord 1 7 (Some 120) None] =
   Inr (per_key, [([(''total'', 5)], 5), ([(''total'', 7)], 7)])"
proof -
  let ?rs = "[KeyRecord (1::int) (5::rat) (Some 100) None, KeyRecord 1 7 (Some 120) None]"
  have d: "duration_to_s ''10s'' = Inr 10"
    by (simp add: duration_to_s_def is_alpha_def is_digit_def decimal_of_def digits_val_def
        digit_val_def unit_seconds_def)
  have ok: "configs_ok (\<lambda>_. ''sum'') [sample_config] (rec_value ` set ?rs)"
    by (simp add: configs_ok_def sample_config_def d call_on_def)
  have "list_all (\<lambda>r. rec_key r \<noteq> None \<and> rec_event_time r \<noteq> None) ?rs" by simp
  from multi_window_correct [OF ok this, of "\<lambda>aggs r. (aggs, rec_value r)"] show ?thesis
    by (simp add: spec_aggs_def config_name_def sample_config_def config_len_def d config_val_def
        call_on_def window_spec_def sort_events_def event_key_def o_def)
qed

end
