(* ===== verification/Storage.thy ===== *)
theory Storage
  imports Volga_Prelude "HOL-Library.List_Lexorder" "HOL-Library.Char_ord" "HOL-Library.Sublist"
begin

text \<open>
  The in-memory storage: key composition and the key index (\<open>storage/common/key_index.py\<close>),
  the cache actor with its time-ordered values per key, and the sink functions that feed it
  (\<open>storage/common/simple_in_memory_actor_storage.py\<close>). Values are of any type \<open>'v\<close>;
  \<open>str\<close> of a key value, \<open><\<close> on values and the enumeration order of a set are parameters.
\<close>

section \<open>Composed keys\<close>

definition kv_strings :: "('a \<Rightarrow> string) \<Rightarrow> (string, 'a) dict \<Rightarrow> string list" where
  "kv_strings fmt d = map (\<lambda>(k, v). k @ ''='' @ fmt v) d"

text \<open>\<open>'-'.join(strings)\<close>\<close>

fun join_keys :: "string list \<Rightarrow> string" where
  "join_keys [] = []"
| "join_keys [s] = s"
| "join_keys (s # t # ss) = s @ CHR ''-'' # join_keys (t # ss)"

definition compose_main_key :: "('a \<Rightarrow> string) \<Rightarrow> (string, 'a) dict \<Rightarrow> string" where
  "compose_main_key fmt d = join_keys (sort (kv_strings fmt d))"

text \<open>\<open>itertools.combinations(xs, d)\<close>\<close>

fun combinations :: "'a list \<Rightarrow> nat \<Rightarrow> 'a list list" where
  "combinations xs 0 = [[]]"
| "combinations [] (Suc d) = []"
| "combinations (x # xs) (Suc d) = map ((#) x) (combinations xs d) @ combinations xs (Suc d)"

text \<open>A Python set is a list without duplicates in insertion order.\<close>

definition set_add :: "'a \<Rightarrow> 'a list \<Rightarrow> 'a list" where
  "set_add x xs = (if x \<in> set xs then xs else xs @ [x])"

definition compose_possible_keys :: "('a \<Rightarrow> string) \<Rightarrow> (string, 'a) dict \<Rightarrow> string list" where
  "compose_possible_keys fmt d =
     (let kvs = kv_strings fmt d; depth = length d
      in if depth < 2 then kvs
         else fold set_add
                (kvs @ concat (map (\<lambda>n. map (\<lambda>comb. join_keys (sort comb)) (combinations kvs n)) [2..<depth])) [])"

section \<open>The key index\<close>

type_synonym key_index = "(string, string list) dict"

definition index_put :: "('a \<Rightarrow> string) \<Rightarrow> (string, 'a) dict \<Rightarrow> key_index \<Rightarrow> key_index" where
  "index_put fmt d index =
     (let main_key = compose_main_key fmt d
      in fold (\<lambda>k index. AList.update k
                 (case map_of index k of Some keys \<Rightarrow> set_add main_key keys | None \<Rightarrow> [main_key]) index)
           (compose_possible_keys fmt d) index)"

text \<open>\<open>list(set)\<close> enumerates in the order \<open>enum\<close> gives.\<close>

definition index_get ::
    "(string list \<Rightarrow> string list) \<Rightarrow> ('a \<Rightarrow> string) \<Rightarrow> (string, 'a) dict \<Rightarrow> key_index \<Rightarrow> string list" where
  "index_get enum fmt d index =
     (case map_of index (compose_main_key fmt d) of Some keys \<Rightarrow> enum keys | None \<Rightarrow> [])"

section \<open>The cache actor\<close>

record 'v cache_actor =
  ca_per_dataset_per_key :: "(string, (string, (rat \<times> 'v) list) dict) dict"
  ca_key_index_per_dataset :: "(string, key_index) dict"

definition cache_init :: "'v cache_actor" where
  "cache_init = \<lparr>ca_per_dataset_per_key = [], ca_key_index_per_dataset = []\<rparr>"

text \<open>
  Python's \<open><\<close> on \<open>(ts, value)\<close> tuples: the first components that differ decide, and equal
  tuples are not less; \<open>lt\<close> is \<open><\<close> of the value type, which raises for dictionaries.
\<close>

definition tuple_lt :: "('v \<Rightarrow> 'v \<Rightarrow> bool result) \<Rightarrow> rat \<times> 'v \<Rightarrow> rat \<times> 'v \<Rightarrow> bool result" where
  "tuple_lt lt a b =
     (if fst a \<noteq> fst b then Inr (fst a < fst b)
      else if snd a = snd b then Inr False
      else lt (snd a) (snd b))"

text \<open>\<open>bisect.bisect_right\<close> and \<open>bisect.insort_right\<close>\<close>

function bisect_right ::
    "('x \<Rightarrow> 'x \<Rightarrow> bool result) \<Rightarrow> 'x \<Rightarrow> 'x list \<Rightarrow> nat \<Rightarrow> nat \<Rightarrow> nat result" where
  "bisect_right lt2 x xs lo hi =
     (if lo < hi
      then let mid = (lo + hi) div 2
           in rbind (lt2 x (xs ! mid)) (\<lambda>b.
                if b then bisect_right lt2 x xs lo mid else bisect_right lt2 x xs (mid + 1) hi)
      else Inr lo)"
  by pat_completeness auto

termination by (relation "measure (\<lambda>(_, _, _, lo, hi). hi - lo)") auto

declare bisect_right.simps [simp del]

definition insort ::
    "('x \<Rightarrow> 'x \<Rightarrow> bool result) \<Rightarrow> 'x \<Rightarrow> 'x list \<Rightarrow> 'x list result" where
  "insort lt2 x xs =
     rbind (bisect_right lt2 x xs 0 (length xs)) (\<lambda>i. Inr (take i xs @ x # drop i xs))"

text \<open>
  An exception ends the call but not the actor, which keeps what it has stored so far: the
  operations give the new state and the exception raised, if any.
\<close>

definition put_record ::
    "('a \<Rightarrow> string) \<Rightarrow> ('v \<Rightarrow> 'v \<Rightarrow> bool result) \<Rightarrow> (string, 'a) dict \<times> rat \<times> 'v \<Rightarrow>
     (string, (rat \<times> 'v) list) dict \<times> key_index \<Rightarrow>
     ((string, (rat \<times> 'v) list) dict \<times> key_index) \<times> py_error option" where
  "put_record fmt lt r st =
     (case (r, st) of ((keys_dict, ts, value), (per_key, key_index)) \<Rightarrow>
        let key = compose_main_key fmt keys_dict;
            key_index' = index_put fmt keys_dict key_index;
            ts_vals = (case map_of per_key key of Some l \<Rightarrow> l | None \<Rightarrow> [])
        in case insort (tuple_lt lt) (ts, value) ts_vals of
             Inl e \<Rightarrow> ((AList.update key ts_vals per_key, key_index'), Some e)
           | Inr ts_vals' \<Rightarrow> ((AList.update key ts_vals' per_key, key_index'), None))"

fun put_loop ::
    "('a \<Rightarrow> string) \<Rightarrow> ('v \<Rightarrow> 'v \<Rightarrow> bool result) \<Rightarrow> ((string, 'a) dict \<times> rat \<times> 'v) list \<Rightarrow>
     (string, (rat \<times> 'v) list) dict \<times> key_index \<Rightarrow>
     ((string, (rat \<times> 'v) list) dict \<times> key_index) \<times> py_error option" where
  "put_loop fmt lt [] st = (st, None)"
| "put_loop fmt lt (r # rs) st =
     (case put_record fmt lt r st of
        (st', None) \<Rightarrow> put_loop fmt lt rs st'
      | (st', Some e) \<Rightarrow> (st', Some e))"

definition put_records ::
    "('a \<Rightarrow> string) \<Rightarrow> ('v \<Rightarrow> 'v \<Rightarrow> bool result) \<Rightarrow> string \<Rightarrow>
     ((string, 'a) dict \<times> rat \<times> 'v) list \<Rightarrow> 'v cache_actor \<Rightarrow> 'v cache_actor \<times> py_error option" where
  "put_records fmt lt dataset_name records c =
     (let go = (\<lambda>st. case put_loop fmt lt records st of ((per_key, key_index), err) \<Rightarrow>
                  (\<lparr>ca_per_dataset_per_key = AList.update dataset_name per_key (ca_per_dataset_per_key c),
                    ca_key_index_per_dataset =
                      AList.update dataset_name key_index (ca_key_index_per_dataset c)\<rparr>, err))
      in case map_of (ca_per_dataset_per_key c) dataset_name of
           None \<Rightarrow> go ([], [])
         | Some per_key \<Rightarrow>
             (case map_of (ca_key_index_per_dataset c) dataset_name of
                None \<Rightarrow> (c, Some KeyError)
              | Some key_index \<Rightarrow> go (per_key, key_index)))"

text \<open>The two loops of the range query; list indices below zero count from the end.\<close>

function first_from :: "rat \<Rightarrow> (rat \<times> 'v) list \<Rightarrow> nat \<Rightarrow> nat result" where
  "first_from start tvs first =
     (if first < length tvs
      then if fst (tvs ! first) < start then first_from start tvs (first + 1) else Inr first
      else Inl IndexError)"
  by pat_completeness auto

termination by (relation "measure (\<lambda>(_, tvs, first). length tvs - first)") auto

declare first_from.simps [simp del]

function last_upto :: "rat \<Rightarrow> (rat \<times> 'v) list \<Rightarrow> int \<Rightarrow> int result" where
  "last_upto end_ts tvs lst =
     (case py_index tvs lst of
        Inl e \<Rightarrow> Inl e
      | Inr tv \<Rightarrow> if fst tv > end_ts then last_upto end_ts tvs (lst - 1) else Inr lst)"
  by pat_completeness auto

termination
proof (relation "measure (\<lambda>(_, tvs, lst). nat (lst + int (length tvs) + 1))", goal_cases)
  case (2 end_ts tvs lst tv)
  then have "- int (length tvs) \<le> lst" by (auto simp: py_index_def split: if_splits)
  then show ?case by simp
qed simp

declare last_upto.simps [simp del]

definition range_query ::
    "rat option \<Rightarrow> rat option \<Rightarrow> (rat \<times> 'v) list \<Rightarrow> (rat \<times> 'v) list result" where
  "range_query start end_ts tvs =
     rbind (case start of None \<Rightarrow> Inr 0 | Some s \<Rightarrow> first_from s tvs 0) (\<lambda>first.
     rbind (case end_ts of
              None \<Rightarrow> Inr (int (length tvs) - 1)
            | Some e \<Rightarrow> last_upto e tvs (int (length tvs) - 1)) (\<lambda>lst.
       let stop = (if lst + 1 < 0 then nat (max 0 (int (length tvs) + (lst + 1))) else nat (lst + 1))
       in Inr (py_slice first stop tvs)))"

definition get_values_ts ::
    "(string list \<Rightarrow> string list) \<Rightarrow> ('a \<Rightarrow> string) \<Rightarrow> string \<Rightarrow> (string, 'a) dict option \<Rightarrow>
     rat option \<Rightarrow> rat option \<Rightarrow> 'v cache_actor \<Rightarrow> (rat \<times> 'v) list result" where
  "get_values_ts enum fmt dataset_name keys_dict start end_ts c =
     (case map_of (ca_per_dataset_per_key c) dataset_name of
        None \<Rightarrow> Inl RuntimeError
      | Some per_key \<Rightarrow>
          rbind (case keys_dict of
                   Some d \<Rightarrow> rbind (dict_get (ca_key_index_per_dataset c) dataset_name)
                               (\<lambda>ix. Inr (index_get enum fmt d ix))
                 | None \<Rightarrow> Inr (dict_keys per_key)) (\<lambda>possible_keys.
          rbind (rmap (\<lambda>key. rbind (dict_get per_key key) (range_query start end_ts)) possible_keys) (\<lambda>parts.
            Inr (sort_key fst (concat parts)))))"

definition get_values ::
    "(string list \<Rightarrow> string list) \<Rightarrow> ('a \<Rightarrow> string) \<Rightarrow> string \<Rightarrow> (string, 'a) dict option \<Rightarrow>
     rat option \<Rightarrow> rat option \<Rightarrow> 'v cache_actor \<Rightarrow> 'v list result" where
  "get_values enum fmt dataset_name keys_dict start end_ts c =
     rbind (get_values_ts enum fmt dataset_name keys_dict start end_ts c) (\<lambda>vs. Inr (map snd vs))"

definition get_latest ::
    "(string list \<Rightarrow> string list) \<Rightarrow> ('a \<Rightarrow> string) \<Rightarrow> string \<Rightarrow> (string, 'a) dict option \<Rightarrow>
     'v cache_actor \<Rightarrow> 'v list option result" where
  "get_latest enum fmt dataset_name keys_dict c =
     rbind (get_values_ts enum fmt dataset_name keys_dict None None c) (\<lambda>vals.
       if vals = [] then Inr None
       else Inr (Some (map snd (takeWhile (\<lambda>tv. fst tv = fst (last vals)) (rev vals)))))"

section \<open>The storage front end\<close>

text \<open>
  Both look-ups accept at most one key dictionary. \<open>get_data\<close> then calls \<open>get_list\<close> on the
  cache actor, a method that actor class does not have.
\<close>

definition single_key :: "(string, 'a) dict list option \<Rightarrow> (string, 'a) dict option result" where
  "single_key keys =
     (case keys of
        None \<Rightarrow> Inr None
      | Some ks \<Rightarrow> if length ks > 1 then Inl ValueError
                   else if ks = [] then Inl IndexError else Inr (Some (hd ks)))"

definition storage_get_data :: "(string, 'a) dict list option \<Rightarrow> 'v list result" where
  "storage_get_data keys = rbind (single_key keys) (\<lambda>_. Inl AttributeError)"

definition storage_get_latest_data ::
    "(string list \<Rightarrow> string list) \<Rightarrow> ('a \<Rightarrow> string) \<Rightarrow> string \<Rightarrow> (string, 'a) dict list option \<Rightarrow>
     'v cache_actor \<Rightarrow> 'v list option result" where
  "storage_get_latest_data enum fmt dataset_name keys c =
     rbind (single_key keys) (\<lambda>k. get_latest enum fmt dataset_name k c)"

section \<open>Range queries\<close>

definition in_range :: "rat option \<Rightarrow> rat option \<Rightarrow> rat \<times> 'v \<Rightarrow> bool" where
  "in_range start end_ts tv \<longleftrightarrow>
     (case start of None \<Rightarrow> True | Some s \<Rightarrow> s \<le> fst tv) \<and>
     (case end_ts of None \<Rightarrow> True | Some e \<Rightarrow> fst tv \<le> e)"

lemma first_from_spec:
  "k \<le> length (takeWhile (\<lambda>tv. fst tv < s) tvs) \<Longrightarrow>
   first_from s tvs k =
     (let p = length (takeWhile (\<lambda>tv. fst tv < s) tvs)
      in if p < length tvs then Inr p else Inl IndexError)"
proof (induction s tvs k rule: first_from.induct)
  case (1 s tvs k)
  let ?p = "length (takeWhile (\<lambda>tv. fst tv < s) tvs)"
  have le: "?p \<le> length tvs" by (rule length_takeWhile_le)
  show ?case
  proof (cases "k < ?p")
    case True
    then have "fst (tvs ! k) < s" by (metis nth_mem set_takeWhileD takeWhile_nth)
    with True 1 le show ?thesis by (subst first_from.simps) simp
  next
    case False
    with "1.prems" have k: "k = ?p" by simp
    show ?thesis
    proof (cases "?p < length tvs")
      case True
      with nth_length_takeWhile [of "\<lambda>tv. fst tv < s" tvs] k show ?thesis
        by (subst first_from.simps) (simp add: Let_def)
    qed (use k in \<open>subst first_from.simps, simp add: Let_def\<close>)
  qed
qed

lemma py_index_in:
  "- int (length xs) \<le> j \<Longrightarrow> j < int (length xs) \<Longrightarrow> \<exists>i < length xs. py_index xs j = Inr (xs ! i)"
proof (cases "0 \<le> j")
  case True
  moreover assume "j < int (length xs)"
  ultimately show ?thesis by (intro exI [of _ "nat j"]) (simp add: py_index_def nat_less_iff)
next
  case False
  moreover assume "- int (length xs) \<le> j"
  ultimately have "0 < nat (- j)" "nat (- j) \<le> length xs" by auto
  with False show ?thesis by (intro exI [of _ "length xs - nat (- j)"]) (simp add: py_index_def)
qed

lemma last_upto_none:
  "\<forall>tv \<in> set tvs. e < fst tv \<Longrightarrow> j < int (length tvs) \<Longrightarrow> last_upto e tvs j = Inl IndexError"
proof (induction e tvs j rule: last_upto.induct)
  case (1 e tvs j)
  show ?case
  proof (cases "- int (length tvs) \<le> j")
    case True
    with py_index_in "1.prems"(2) obtain i where i: "i < length tvs" "py_index tvs j = Inr (tvs ! i)" by blast
    with "1.prems"(1) have "e < fst (tvs ! i)" by simp
    with i 1 show ?thesis by (subst last_upto.simps) simp
  next
    case False
    then have "py_index tvs j = Inl IndexError" by (auto simp: py_index_def)
    then show ?thesis by (subst last_upto.simps) simp
  qed
qed

lemma last_upto_some:
  assumes "q < length tvs" "fst (tvs ! q) \<le> e" "\<forall>i. q < i \<and> i < length tvs \<longrightarrow> e < fst (tvs ! i)"
  shows "int q \<le> j \<Longrightarrow> j < int (length tvs) \<Longrightarrow> last_upto e tvs j = Inr (int q)"
  using assms
proof (induction e tvs j rule: last_upto.induct)
  case (1 e tvs j)
  then obtain i where i: "j = int i" "i < length tvs" by (metis nonneg_int_cases of_nat_0_le_iff of_nat_less_iff order_trans)
  show ?case
  proof (cases "i = q")
    case True
    with i "1.prems" show ?thesis by (subst last_upto.simps) simp
  next
    case False
    with i "1.prems" have "q < i" by simp
    with i "1.prems" have "e < fst (tvs ! i)" by simp
    with i "1.prems" "1.IH" \<open>q < i\<close> show ?thesis by (subst last_upto.simps) simp
  qed
qed

lemma sorted_filter_le:
  fixes e :: rat
  shows "sorted (map fst tvs) \<Longrightarrow>
   filter (\<lambda>tv. fst tv \<le> e) tvs = take (length (filter (\<lambda>tv. fst tv \<le> e) tvs)) tvs"
proof (induction tvs)
  case (Cons tv tvs)
  show ?case
  proof (cases "fst tv \<le> e")
    case False
    with Cons.prems have "filter (\<lambda>tv. fst tv \<le> e) tvs = []" by (auto simp: filter_empty_conv)
    with False show ?thesis by simp
  qed (use Cons in auto)
qed simp

lemma sorted_dropWhile_less:
  fixes s :: rat
  shows "sorted (map fst tvs) \<Longrightarrow> dropWhile (\<lambda>tv. fst tv < s) tvs = filter (\<lambda>tv. s \<le> fst tv) tvs"
proof (induction tvs)
  case (Cons tv tvs)
  show ?case
  proof (cases "fst tv < s")
    case False
    with Cons.prems have "filter (\<lambda>tv. s \<le> fst tv) tvs = tvs" by (auto intro!: filter_True)
    with False show ?thesis by simp
  qed (use Cons in auto)
qed simp

lemma drop_takeWhile_take: "drop (length (takeWhile P xs)) (take n xs) = dropWhile P (take n xs)"
proof (induction xs arbitrary: n)
  case (Cons x xs)
  then show ?case by (cases n) auto
qed simp

lemma last_upto_sorted:
  assumes "sorted (map fst tvs)"
  shows "last_upto e tvs (int (length tvs) - 1) =
    (let q = length (filter (\<lambda>tv. fst tv \<le> e) tvs) in if q = 0 then Inl IndexError else Inr (int q - 1))"
proof -
  let ?f = "filter (\<lambda>tv. fst tv \<le> e) tvs"
  show ?thesis
  proof (cases "?f = []")
    case True
    then have "last_upto e tvs (int (length tvs) - 1) = Inl IndexError"
      by (intro last_upto_none) (auto simp: filter_empty_conv not_le)
    with True show ?thesis by simp
  next
    case False
    have take: "?f = take (length ?f) tvs" by (rule sorted_filter_le [OF assms])
    have len: "length ?f \<le> length tvs" by simp
    let ?q = "length ?f - 1"
    have q: "?q < length tvs" using False len by (cases ?f) auto
    have "tvs ! ?q = ?f ! ?q" using False by (subst take) (simp add: nth_take)
    moreover have "?f ! ?q \<in> set ?f" using False by (intro nth_mem) (cases ?f; simp)
    ultimately have le: "fst (tvs ! ?q) \<le> e" by auto
    have gt: "e < fst (tvs ! i)" if "?q < i" "i < length tvs" for i
    proof (rule ccontr)
      assume "\<not> e < fst (tvs ! i)"
      then have "\<forall>k \<le> i. fst (tvs ! k) \<le> e"
        using assms that(2) by (auto simp: sorted_iff_nth_mono not_less intro: order_trans)
      then have "filter (\<lambda>tv. fst tv \<le> e) (take (Suc i) tvs) = take (Suc i) tvs"
        by (intro filter_True) (auto simp: in_set_conv_nth simp del: split_paired_All, metis fst_conv less_Suc_eq_le)
      then have "length (take (Suc i) tvs) \<le> length (filter (\<lambda>tv. fst tv \<le> e) (take (Suc i) tvs @ drop (Suc i) tvs))"
        by (simp only: filter_append length_append le_add1)
      then have "Suc i \<le> length ?f" using that(2) by simp
      with that(1) show False by simp
    qed
    from last_upto_some [OF q le] gt q False show ?thesis
      by (cases ?f) (auto simp: Let_def of_nat_diff)
  qed
qed

text \<open>
  C28. A range query over a key's time-ordered values gives exactly the values inside the
  bounds, in order, whenever some value lies at or after the lower bound and some value at or
  before the upper one; otherwise it raises \<open>IndexError\<close> instead of giving no values.
\<close>

theorem range_query_spec:
  assumes "sorted (map fst tvs)"
  shows "range_query start end_ts tvs =
    (if (\<exists>s. start = Some s \<and> (\<forall>tv \<in> set tvs. fst tv < s)) \<or>
        (\<exists>e. end_ts = Some e \<and> (\<forall>tv \<in> set tvs. e < fst tv))
     then Inl IndexError else Inr (filter (in_range start end_ts) tvs))"
proof -
  let ?first = "case start of None \<Rightarrow> 0 | Some s \<Rightarrow> length (takeWhile (\<lambda>tv. fst tv < s) tvs)"
  let ?stop = "case end_ts of None \<Rightarrow> length tvs | Some e \<Rightarrow> length (filter (\<lambda>tv. fst tv \<le> e) tvs)"
  let ?A = "\<exists>s. start = Some s \<and> (\<forall>tv \<in> set tvs. fst tv < s)"
  let ?B = "\<exists>e. end_ts = Some e \<and> (\<forall>tv \<in> set tvs. e < fst tv)"
  have first: "(case start of None \<Rightarrow> Inr 0 | Some s \<Rightarrow> first_from s tvs 0) = (if ?A then Inl IndexError else Inr ?first)"
  proof (cases start)
    case (Some s)
    have "length (takeWhile (\<lambda>tv. fst tv < s) tvs) < length tvs \<longleftrightarrow> (\<exists>tv \<in> set tvs. \<not> fst tv < s)"
    proof -
      have "length (takeWhile (\<lambda>tv. fst tv < s) tvs) = length tvs \<longleftrightarrow> (\<forall>tv \<in> set tvs. fst tv < s)"
        by (metis takeWhile_eq_all_conv takeWhile_eq_take take_all_iff order_refl)
      then show ?thesis using length_takeWhile_le [of "\<lambda>tv. fst tv < s" tvs] by (auto simp: le_less)
    qed
    with Some show ?thesis by (auto simp: first_from_spec Let_def)
  qed simp
  have stop: "(case end_ts of None \<Rightarrow> Inr (int (length tvs) - 1) | Some e \<Rightarrow> last_upto e tvs (int (length tvs) - 1)) =
      (if ?B then Inl IndexError else Inr (int ?stop - 1))"
    using last_upto_sorted [OF assms] by (cases end_ts) (auto simp: Let_def filter_empty_conv not_le)
  have slice: "drop ?first (take ?stop tvs) = filter (in_range start end_ts) tvs"
  proof -
    have t: "take ?stop tvs = filter (\<lambda>tv. case end_ts of None \<Rightarrow> True | Some e \<Rightarrow> fst tv \<le> e) tvs"
      using sorted_filter_le [OF assms] by (cases end_ts) simp_all
    have st: "sorted (map fst (take ?stop tvs))" using assms by (simp add: take_map [symmetric] sorted_wrt_take)
    show ?thesis
    proof (cases start)
      case None
      then show ?thesis using t by (simp add: in_range_def [abs_def])
    next
      case (Some s)
      have "drop (length (takeWhile (\<lambda>tv. fst tv < s) tvs)) (take ?stop tvs) =
          dropWhile (\<lambda>tv. fst tv < s) (take ?stop tvs)"
        by (rule drop_takeWhile_take)
      also have "\<dots> = filter (\<lambda>tv. s \<le> fst tv) (take ?stop tvs)" by (rule sorted_dropWhile_less [OF st])
      also have "\<dots> = filter (in_range start end_ts) tvs"
        unfolding t using Some by (simp add: in_range_def [abs_def] conj_commute)
      finally show ?thesis using Some by simp
    qed
  qed
  show ?thesis
    unfolding range_query_def first stop by (simp add: Let_def py_slice_def slice)
qed

theorem range_query_spec_witness:
  "range_query (Some 2) (Some 5) [(1::rat, ''a''), (3, ''b''), (7, ''c'')] = Inr [(3, ''b'')]"
  using range_query_spec [of "[(1::rat, ''a''), (3, ''b''), (7, ''c'')]" "Some 2" "Some 5"]
  by (simp add: in_range_def)

section \<open>Insertion in time order\<close>

lemma bisect_right_spec:
  assumes "\<forall>y \<in> set xs. lt2 x y = Inr (f x < f y)" and "sorted (map f xs)"
  shows "lo \<le> hi \<Longrightarrow> hi \<le> length xs \<Longrightarrow>
    \<forall>i < lo. f (xs ! i) \<le> f x \<Longrightarrow> \<forall>i. hi \<le> i \<and> i < length xs \<longrightarrow> f x < f (xs ! i) \<Longrightarrow>
    \<exists>k \<le> length xs. bisect_right lt2 x xs lo hi = Inr k \<and>
      (\<forall>i < k. f (xs ! i) \<le> f x) \<and> (\<forall>i. k \<le> i \<and> i < length xs \<longrightarrow> f x < f (xs ! i))"
  using assms
proof (induction lt2 x xs lo hi rule: bisect_right.induct)
  case (1 lt2 x xs lo hi)
  show ?case
  proof (cases "lo < hi")
    case True
    let ?mid = "(lo + hi) div 2"
    have mid: "lo \<le> ?mid" "?mid < hi" "?mid < length xs" using True "1.prems"(2) by auto
    have lt: "lt2 x (xs ! ?mid) = Inr (f x < f (xs ! ?mid))" using "1.prems"(5) mid by simp
    have mono: "f (xs ! i) \<le> f (xs ! j)" if "i \<le> j" "j < length xs" for i j
      using "1.prems"(6) that by (simp add: sorted_iff_nth_mono)
    show ?thesis
    proof (cases "f x < f (xs ! ?mid)")
      case True
      then have "\<forall>i. ?mid \<le> i \<and> i < length xs \<longrightarrow> f x < f (xs ! i)" using mono by (meson less_le_trans)
      from "1.IH"(1) [OF \<open>lo < hi\<close> refl True mid(1) less_imp_le [OF mid(3)] "1.prems"(3) this "1.prems"(5,6)]
      show ?thesis using True \<open>lo < hi\<close> lt by (subst bisect_right.simps) (simp add: Let_def)
    next
      case False
      then have "\<forall>i < ?mid + 1. f (xs ! i) \<le> f x"
        using mono mid(3) by (metis less_Suc_eq_le Suc_eq_plus1 not_less order_trans)
      from "1.IH"(2) [OF \<open>lo < hi\<close> refl False _ "1.prems"(2) this "1.prems"(4-6)] mid(2)
      show ?thesis using False \<open>lo < hi\<close> lt by (subst bisect_right.simps) (simp add: Let_def)
    qed
  next
    case False
    with "1.prems" show ?thesis by (subst bisect_right.simps) simp
  qed
qed

lemma insort_eq_insort_right:
  assumes "\<forall>y \<in> set xs. lt2 x y = Inr (f x < f y)" "sorted (map f xs)"
  shows "insort lt2 x xs = Inr (insort_right f x xs)"
proof -
  from bisect_right_spec [of xs lt2 x f 0 "length xs"] assms obtain k where k: "k \<le> length xs"
    "bisect_right lt2 x xs 0 (length xs) = Inr k" "\<forall>i < k. f (xs ! i) \<le> f x"
    "\<forall>i. k \<le> i \<and> i < length xs \<longrightarrow> f x < f (xs ! i)" using leD by fastforce
  have "k \<le> length xs \<Longrightarrow> \<forall>i < k. f (xs ! i) \<le> f x \<Longrightarrow>
      \<forall>i. k \<le> i \<and> i < length xs \<longrightarrow> f x < f (xs ! i) \<Longrightarrow> insort_right f x xs = take k xs @ x # drop k xs" for k
  proof (induction xs arbitrary: k)
    case (Cons y ys)
    show ?case
    proof (cases k)
      case 0
      with Cons.prems(3) show ?thesis by fastforce
    next
      case (Suc m)
      have "\<not> f x < f y" using Cons.prems(2) Suc by fastforce
      moreover have "insort_right f x ys = take m ys @ x # drop m ys"
      proof (rule Cons.IH)
        show "m \<le> length ys" using Cons.prems(1) Suc by simp
        show "\<forall>i < m. f (ys ! i) \<le> f x" using Cons.prems(2) Suc by (metis Suc_less_eq nth_Cons_Suc)
        show "\<forall>i. m \<le> i \<and> i < length ys \<longrightarrow> f x < f (ys ! i)"
          using Cons.prems(3) Suc by (metis Suc_le_mono Suc_less_eq length_Cons nth_Cons_Suc)
      qed
      ultimately show ?thesis using Suc by simp
    qed
  qed simp
  from this [OF k(1,3,4)] k(2) show ?thesis by (simp add: insort_def)
qed

text \<open>The values of a key, as the loop over the records keeps them.\<close>

definition rec_main_key :: "('a \<Rightarrow> string) \<Rightarrow> (string, 'a) dict \<times> rat \<times> 'v \<Rightarrow> string" where
  "rec_main_key fmt r = compose_main_key fmt (fst r)"

definition per_key_inv ::
    "('a \<Rightarrow> string) \<Rightarrow> ((string, 'a) dict \<times> rat \<times> 'v) list \<Rightarrow> (string, (rat \<times> 'v) list) dict \<Rightarrow> bool" where
  "per_key_inv fmt recs per_key \<longleftrightarrow> wf_dict per_key \<and>
     (\<forall>k. case map_of per_key k of
            None \<Rightarrow> k \<notin> rec_main_key fmt ` set recs
          | Some l \<Rightarrow> sorted (map fst l) \<and> mset l = mset (map snd (filter (\<lambda>r. rec_main_key fmt r = k) recs)))"

lemma per_key_invD:
  assumes "per_key_inv fmt recs per_key"
  shows "map_of per_key k = None \<Longrightarrow> k \<notin> rec_main_key fmt ` set recs"
    and "map_of per_key k = Some l \<Longrightarrow> sorted (map fst l)"
    and "map_of per_key k = Some l \<Longrightarrow> mset l = mset (map snd (filter (\<lambda>r. rec_main_key fmt r = k) recs))"
  using assms unfolding per_key_inv_def by (auto dest!: spec [of _ k] simp del: split_paired_All)

lemma put_record_ok:
  assumes inv: "per_key_inv fmt recs per_key"
    and fresh: "(rec_main_key fmt r, fst (snd r)) \<notin> (\<lambda>r. (rec_main_key fmt r, fst (snd r))) ` set recs"
  shows "\<exists>per_key'. put_record fmt lt r (per_key, ix) = ((per_key', index_put fmt (fst r) ix), None) \<and>
    per_key_inv fmt (recs @ [r]) per_key'"
proof -
  let ?k = "rec_main_key fmt r"
  let ?l = "case map_of per_key ?k of Some l \<Rightarrow> l | None \<Rightarrow> []"
  have l: "sorted (map fst ?l)" "mset ?l = mset (map snd (filter (\<lambda>r. rec_main_key fmt r = ?k) recs))"
  proof -
    from inv have i: "case map_of per_key ?k of None \<Rightarrow> ?k \<notin> rec_main_key fmt ` set recs
          | Some l \<Rightarrow> sorted (map fst l) \<and> mset l = mset (map snd (filter (\<lambda>r. rec_main_key fmt r = ?k) recs))"
      unfolding per_key_inv_def by blast
    then show "sorted (map fst ?l)" by (simp split: option.splits)
    show "mset ?l = mset (map snd (filter (\<lambda>r. rec_main_key fmt r = ?k) recs))"
    proof (cases "map_of per_key ?k")
      case None
      with i have "filter (\<lambda>r. rec_main_key fmt r = ?k) recs = []" by (metis (mono_tags, lifting) None filter_False imageI option.simps(4))
      with None show ?thesis by simp
    qed (use i in simp)
  qed
  have "set ?l = snd ` {r' \<in> set recs. rec_main_key fmt r' = ?k}"
    using mset_eq_setD [OF l(2)] by auto
  then have "\<forall>y \<in> set ?l. tuple_lt lt (snd r) y = Inr (fst (snd r) < fst y)"
    using fresh unfolding tuple_lt_def image_iff by (smt (verit) mem_Collect_eq imageE)
  from insort_eq_insort_right [of ?l "tuple_lt lt" "snd r" fst, OF this l(1)]
  have ins: "insort (tuple_lt lt) (snd r) ?l = Inr (insort_right fst (snd r) ?l)" .
  let ?p = "AList.update ?k (insort_right fst (snd r) ?l) per_key"
  have "put_record fmt lt r (per_key, ix) = ((?p, index_put fmt (fst r) ix), None)"
    using ins by (cases r) (simp add: put_record_def rec_main_key_def Let_def)
  moreover have "per_key_inv fmt (recs @ [r]) ?p"
    unfolding per_key_inv_def
  proof (intro conjI allI)
    show "wf_dict ?p" using inv by (simp add: per_key_inv_def)
    fix k
    show "case map_of ?p k of None \<Rightarrow> k \<notin> rec_main_key fmt ` set (recs @ [r])
          | Some l \<Rightarrow> sorted (map fst l) \<and>
              mset l = mset (map snd (filter (\<lambda>r. rec_main_key fmt r = k) (recs @ [r])))"
    proof (cases "k = ?k")
      case True
      with l sorted_insort_right [OF l(1), of "snd r"] show ?thesis by simp
    next
      case False
      moreover from inv have "case map_of per_key k of None \<Rightarrow> k \<notin> rec_main_key fmt ` set recs
          | Some l \<Rightarrow> sorted (map fst l) \<and> mset l = mset (map snd (filter (\<lambda>r. rec_main_key fmt r = k) recs))"
        unfolding per_key_inv_def by blast
      ultimately show ?thesis by (simp split: option.splits)
    qed
  qed
  ultimately show ?thesis by blast
qed

lemma put_loop_ok:
  assumes "per_key_inv fmt recs per_key"
    and "distinct (map (\<lambda>r. (rec_main_key fmt r, fst (snd r))) (recs @ rs))"
  shows "\<exists>per_key'. put_loop fmt lt rs (per_key, ix) =
      ((per_key', fold (index_put fmt) (map fst rs) ix), None) \<and> per_key_inv fmt (recs @ rs) per_key'"
  using assms
proof (induction rs arbitrary: recs per_key ix)
  case (Cons r rs)
  have "(rec_main_key fmt r, fst (snd r)) \<notin> (\<lambda>r. (rec_main_key fmt r, fst (snd r))) ` set recs"
    using Cons.prems(2) by auto
  from put_record_ok [OF Cons.prems(1) this, of lt ix] obtain per_key' where p:
    "put_record fmt lt r (per_key, ix) = ((per_key', index_put fmt (fst r) ix), None)"
    "per_key_inv fmt (recs @ [r]) per_key'" by blast
  from Cons.IH [OF p(2)] Cons.prems(2) p(1) show ?case by auto
qed auto

lemma mset_group_by_key:
  assumes "distinct ks" "g ` set rs \<subseteq> set ks"
  shows "mset (concat (map (\<lambda>k. filter (\<lambda>r. g r = k) rs) ks)) = mset rs"
  using assms(2)
proof (induction rs)
  case (Cons r rs)
  have "mset (concat (map (\<lambda>k. filter (\<lambda>r'. g r' = k) (r # rs)) ks)) =
      (if g r \<in> set ks then {#r#} else {#}) + mset (concat (map (\<lambda>k. filter (\<lambda>r. g r = k) rs) ks))"
    using assms(1) by (induction ks) auto
  with Cons show ?case by simp
qed (simp add: concat_replicate_trivial map_replicate_const)

lemma per_key_inv_concat:
  assumes "per_key_inv fmt recs per_key"
  shows "mset (concat (dict_values per_key)) = mset (map snd recs)"
proof -
  let ?part = "\<lambda>k. filter (\<lambda>r. rec_main_key fmt r = k) recs"
  have wf: "distinct (map fst per_key)" using assms by (simp add: per_key_inv_def wf_dict_def)
  have "mset l = mset (map snd (?part k))" if "(k, l) \<in> set per_key" for k l
  proof -
    from that wf have "map_of per_key k = Some l" by simp
    with assms show ?thesis by (rule per_key_invD(3))
  qed
  then have "mset (concat (map snd per_key)) = image_mset snd (mset (concat (map ?part (map fst per_key))))"
    by (induction per_key) auto
  moreover have "rec_main_key fmt ` set recs \<subseteq> set (map fst per_key)"
    using per_key_invD(1) [OF assms] by (force simp: map_of_eq_None_iff)
  ultimately show ?thesis using mset_group_by_key [OF wf, of "rec_main_key fmt" recs]
    by (simp add: dict_values_def)
qed



text \<open>
  Two records of one key with equal timestamps and different values are compared by
  value; when values cannot be compared, as dictionaries cannot, the second one raises and
  neither it nor any later record of the batch is stored.
\<close>

theorem put_tie_drops_rest:
  assumes "map_of per_key (compose_main_key fmt d) = Some [(ts, v)]" "v \<noteq> v'" "lt v' v = Inl e"
  shows "put_loop fmt lt ((d, ts, v') # rest) (per_key, ix) =
    ((AList.update (compose_main_key fmt d) [(ts, v)] per_key, index_put fmt d ix), Some e)"
proof -
  have "bisect_right (tuple_lt lt) (ts, v') [(ts, v)] 0 1 = Inl e"
    using assms by (subst bisect_right.simps) (simp add: tuple_lt_def)
  with assms show ?thesis by (simp add: put_record_def insort_def Let_def)
qed

theorem put_tie_drops_rest_witness:
  "put_loop id (\<lambda>_ _. Inl TypeError)
     [([(''id'', ''7'')], 1, ''b''), ([(''id'', ''8'')], 2, ''c'')] ([(''id=7'', [(1, ''a'')])], []) =
   (([(''id=7'', [(1, ''a'')])], [(''id=7'', [''id=7''])]), Some TypeError)"
  using put_tie_drops_rest [of "[(''id=7'', [(1, ''a'')])]" id "[(''id'', ''7'')]" 1 "''a''" "''b''"
      "\<lambda>_ _. Inl TypeError" TypeError "[([(''id'', ''8'')], 2, ''c'')]" "[]"]
  by (simp add: compose_main_key_def kv_strings_def index_put_def compose_possible_keys_def Let_def)

section \<open>The key index\<close>

lemma combinations_iff: "ys \<in> set (combinations xs n) \<longleftrightarrow> subseq ys xs \<and> length ys = n"
proof (induction xs n arbitrary: ys rule: combinations.induct)
  case (3 x xs d)
  show ?case
  proof (cases ys)
    case (Cons y ys')
    then show ?thesis using 3 by (auto simp: image_iff dest: subseq_Cons')
  qed (use 3 in auto)
qed auto

lemma submset_subseq: "mset ys \<subseteq># mset xs \<Longrightarrow> \<exists>zs. subseq zs xs \<and> mset zs = mset ys"
proof (induction xs arbitrary: ys)
  case (Cons x xs)
  show ?case
  proof (cases "x \<in> set ys")
    case True
    with Cons.prems have "mset (remove1 x ys) \<subseteq># mset xs"
      by (simp add: subset_eq_diff_conv)
    with Cons.IH obtain zs where "subseq zs xs" "mset zs = mset (remove1 x ys)" by blast
    with True show ?thesis by (intro exI [of _ "x # zs"]) simp
  next
    case False
    with Cons.prems have "mset ys \<subseteq># mset xs"
      by (metis diff_single_trivial mset.simps(2) set_mset_mset add_mset_add_single subset_eq_diff_conv)
    with Cons.IH show ?thesis by (meson subseq_Cons' list_emb_Cons)
  qed
qed auto

lemma set_fold_set_add [simp]: "set (fold set_add ys xs) = set xs \<union> set ys"
  by (induction ys arbitrary: xs) (auto simp: set_add_def)

lemma set_possible_keys:
  "set (compose_possible_keys fmt d) =
     set (kv_strings fmt d) \<union>
     {join_keys (sort comb) | comb. subseq comb (kv_strings fmt d) \<and> 2 \<le> length comb \<and> length comb < length d}"
  by (auto simp: compose_possible_keys_def Let_def combinations_iff)

lemma compose_main_key_cong: "mset (kv_strings fmt d) = mset comb \<Longrightarrow> compose_main_key fmt d = join_keys (sort comb)"
  unfolding compose_main_key_def by (metis mset_sort properties_for_sort sorted_sort)

lemma partial_key_possible:
  assumes "mset q \<subseteq># mset d" "q \<noteq> []" "length q < length d \<or> length d = 1"
  shows "compose_main_key fmt q \<in> set (compose_possible_keys fmt d)"
proof -
  have "mset (kv_strings fmt q) \<subseteq># mset (kv_strings fmt d)"
    using image_mset_subseteq_mono [OF assms(1)] by (simp add: kv_strings_def)
  then obtain comb where c: "subseq comb (kv_strings fmt d)" "mset comb = mset (kv_strings fmt q)"
    using submset_subseq by blast
  then have len: "length comb = length q" by (metis kv_strings_def length_map mset_eq_length)
  have key: "compose_main_key fmt q = join_keys (sort comb)" using c(2) by (intro compose_main_key_cong) simp
  show ?thesis
  proof (cases "length q = 1")
    case True
    with len obtain s where s: "comb = [s]" by (cases comb) auto
    with c(1) have "s \<in> set (kv_strings fmt d)" by (metis list.set_intros(1) set_nths_subset subseq_conv_nths subsetD)
    with key s show ?thesis by (simp add: set_possible_keys)
  next
    case False
    with assms(2) have "2 \<le> length q" by (cases q; cases "tl q") auto
    moreover have "length q \<le> length d" using size_mset_mono [OF assms(1)] by simp
    ultimately show ?thesis using assms(3) key c(1) len by (auto simp: set_possible_keys)
  qed
qed

lemma map_of_index_fold:
  "map_of (fold (\<lambda>k index. AList.update k
       (case map_of index k of Some keys \<Rightarrow> set_add mk keys | None \<Rightarrow> [mk]) index) ks ix) k =
   (if k \<in> set ks
    then Some (case map_of ix k of Some keys \<Rightarrow> set_add mk keys | None \<Rightarrow> [mk]) else map_of ix k)"
  by (induction ks arbitrary: ix) (auto simp: set_add_def split: option.splits)

lemma index_put_lookup:
  "map_of (index_put fmt d ix) k =
     (if k \<in> set (compose_possible_keys fmt d)
      then Some (case map_of ix k of Some keys \<Rightarrow> set_add (compose_main_key fmt d) keys | None \<Rightarrow> [compose_main_key fmt d])
      else map_of ix k)"
  unfolding index_put_def Let_def by (rule map_of_index_fold)

lemma index_put_mono:
  "m \<in> set (case map_of ix k of Some keys \<Rightarrow> keys | None \<Rightarrow> []) \<Longrightarrow>
   m \<in> set (case map_of (fold (index_put fmt) ds ix) k of Some keys \<Rightarrow> keys | None \<Rightarrow> [])"
proof (induction ds arbitrary: ix)
  case (Cons d ds)
  have "m \<in> set (case map_of (index_put fmt d ix) k of Some keys \<Rightarrow> keys | None \<Rightarrow> [])"
    using Cons.prems by (cases "map_of ix k") (auto simp: index_put_lookup set_add_def)
  from Cons.IH [OF this] show ?case by simp
qed simp

text \<open>
  C29. Looking up any non-empty proper part of a record's keys (or its only key), in any
  order, finds the record's main key, whatever else was put into the index before or after.
\<close>

theorem partial_key_lookup:
  assumes "mset q \<subseteq># mset d" "q \<noteq> []" "length q < length d \<or> length d = 1"
    and "\<And>xs. set (enum xs) = set xs"
  shows "compose_main_key fmt d \<in>
    set (index_get enum fmt q (fold (index_put fmt) (before @ d # after) ix))"
proof -
  have "compose_main_key fmt d \<in> set (case map_of (index_put fmt d (fold (index_put fmt) before ix))
      (compose_main_key fmt q) of Some keys \<Rightarrow> keys | None \<Rightarrow> [])"
    using partial_key_possible [OF assms(1-3)] by (auto simp: index_put_lookup set_add_def split: option.splits)
  from index_put_mono [OF this, of fmt after] assms(4) show ?thesis
    by (simp add: index_get_def split: option.splits)
qed

theorem partial_key_lookup_witness:
  "''a=1-b=2-c=3'' \<in> set (index_get id id [(''c'', ''3''), (''a'', ''1'')]
     (fold (index_put id) ([] @ [(''a'', ''1''), (''b'', ''2''), (''c'', ''3'')] # []) []))"
  using partial_key_lookup [of "[(''c'', ''3''), (''a'', ''1'')]" "[(''a'', ''1''), (''b'', ''2''), (''c'', ''3'')]" id id "[]" "[]" "[]"]
  by (simp add: compose_main_key_def kv_strings_def)

text \<open>Composed keys hold one separator less than they have parts.\<close>

definition dash_free :: "('a \<Rightarrow> string) \<Rightarrow> (string, 'a) dict \<Rightarrow> bool" where
  "dash_free fmt d \<longleftrightarrow> (\<forall>s \<in> set (kv_strings fmt d). CHR ''-'' \<notin> set s)"

definition dashes :: "string \<Rightarrow> nat" where
  "dashes s = count_list s (CHR ''-'')"

lemma dashes_join: "(\<forall>s \<in> set ss. CHR ''-'' \<notin> set s) \<Longrightarrow> dashes (join_keys ss) = length ss - 1"
  by (induction ss rule: join_keys.induct) (auto simp: dashes_def count_list_0_iff)

lemma dashes_main_key: "dash_free fmt d \<Longrightarrow> dashes (compose_main_key fmt d) = length d - 1"
  by (simp add: compose_main_key_def dashes_join dash_free_def) (simp add: kv_strings_def)

lemma dashes_possible_key:
  assumes "dash_free fmt d" "2 \<le> length d" "k \<in> set (compose_possible_keys fmt d)"
  shows "dashes k < length d - 1"
proof -
  consider "k \<in> set (kv_strings fmt d)"
    | comb where "k = join_keys (sort comb)" "subseq comb (kv_strings fmt d)" "2 \<le> length comb" "length comb < length d"
    using assms(3) by (auto simp: set_possible_keys)
  then show ?thesis
  proof cases
    case 1
    with assms(1,2) show ?thesis by (auto simp: dash_free_def dashes_def count_list_0_iff)
  next
    case 2
    then have "set comb \<subseteq> set (kv_strings fmt d)" by (metis set_nths_subset subseq_conv_nths)
    with assms(1) have "\<forall>s \<in> set (sort comb). CHR ''-'' \<notin> set s" by (auto simp: dash_free_def)
    from dashes_join [OF this] 2 show ?thesis by simp
  qed
qed

lemma put_loop_index:
  assumes "\<forall>k \<in> fst ` set ix. P k"
    and "\<forall>r \<in> set rs. \<forall>k \<in> set (compose_possible_keys fmt (fst r)). P k"
    and "put_loop fmt lt rs (per_key, ix) = ((per_key', ix'), err)"
  shows "\<forall>k \<in> fst ` set ix'. P k"
  using assms
proof (induction rs arbitrary: per_key ix)
  case (Cons r rs)
  obtain p1 e where p: "put_record fmt lt r (per_key, ix) = ((p1, index_put fmt (fst r) ix), e)"
    by (cases r; cases "insort (tuple_lt lt) (snd r)
        (case map_of per_key (compose_main_key fmt (fst r)) of Some l \<Rightarrow> l | None \<Rightarrow> [])")
      (auto simp: put_record_def Let_def)
  have ix: "P k" if "k \<in> fst ` set (index_put fmt (fst r) ix)" for k
  proof -
    from that have "map_of (index_put fmt (fst r) ix) k \<noteq> None" by (simp add: map_of_eq_None_iff)
    then have "k \<in> set (compose_possible_keys fmt (fst r)) \<or> map_of ix k \<noteq> None"
      by (auto simp: index_put_lookup split: if_splits)
    with Cons.prems(1,2) show ?thesis by (auto simp: map_of_eq_None_iff)
  qed
  show ?case
  proof (cases e)
    case None
    with p Cons.prems(3) have "put_loop fmt lt rs (p1, index_put fmt (fst r) ix) = ((per_key', ix'), err)" by simp
    from Cons.IH [OF _ _ this] ix Cons.prems(2) show ?thesis by simp
  qed (use p Cons.prems(3) ix in simp)
qed simp

text \<open>
  With records of two or more keys (none containing the separator), a look-up by all
  the keys of a record finds nothing, even when that record was stored: the index holds the
  proper combinations of keys only.
\<close>

theorem full_key_lookup_empty:
  assumes "2 \<le> n" "\<forall>(d, ts, v) \<in> set recs. length d = n \<and> dash_free fmt d"
    and "length q = n" "dash_free fmt q"
    and "map_of (ca_per_dataset_per_key c) ds = None"
    and "enum [] = []"
  shows "storage_get_latest_data enum fmt ds (Some [q]) (fst (put_records fmt lt ds recs c)) = Inr None"
proof -
  obtain per_key ix err where p: "put_loop fmt lt recs ([], []) = ((per_key, ix), err)"
    by (metis prod.collapse)
  have "\<forall>r \<in> set recs. \<forall>k \<in> set (compose_possible_keys fmt (fst r)). dashes k \<noteq> n - 1"
    using assms(1,2) dashes_possible_key [of fmt] by fastforce
  from put_loop_index [OF _ this p] have "\<forall>k \<in> fst ` set ix. dashes k \<noteq> n - 1" by simp
  moreover have "dashes (compose_main_key fmt q) = n - 1" using assms(3,4) by (simp add: dashes_main_key)
  ultimately have "map_of ix (compose_main_key fmt q) = None" by (auto simp: map_of_eq_None_iff)
  with p assms(5,6) show ?thesis
    by (simp add: storage_get_latest_data_def single_key_def get_latest_def get_values_ts_def put_records_def
        index_get_def)
qed

theorem full_key_lookup_empty_witness:
  "storage_get_latest_data id id ''ds'' (Some [[(''a'', ''1''), (''b'', ''2'')]])
     (fst (put_records id (\<lambda>_ _. Inl TypeError) ''ds'' [([(''a'', ''1''), (''b'', ''2'')], 1, ''v'')] cache_init)) = Inr None"
  using full_key_lookup_empty [of 2 "[([(''a'', ''1''), (''b'', ''2'')], 1, ''v'')]" id "[(''a'', ''1''), (''b'', ''2'')]"
      cache_init "''ds''" id "\<lambda>_ _. Inl TypeError"]
  by (simp add: cache_init_def dash_free_def kv_strings_def)

section \<open>Sink functions\<close>

text \<open>
  A sinked value is a dictionary; the key fields and the timestamp field come from the output
  schema and \<open>parse\<close> is the date parser. \<open>value[k]\<close> raises for a missing field.
\<close>

definition sink_record ::
    "('a \<Rightarrow> rat result) \<Rightarrow> string list \<Rightarrow> string \<Rightarrow> (string, 'a) dict \<Rightarrow>
     ((string, 'a) dict \<times> rat \<times> (string, 'a) dict) result" where
  "sink_record parse key_fields timestamp_field value =
     rbind (rmap (\<lambda>k. rbind (dict_get value k) (\<lambda>v. Inr (k, v))) key_fields) (\<lambda>keys_dict.
     rbind (dict_get value timestamp_field) (\<lambda>t.
     rbind (parse t) (\<lambda>ts. Inr (keys_dict, ts, value))))"

text \<open>\<open>SingleEventSinkToCacheActorFunction.sink\<close>: one call of the actor per value.\<close>

definition single_event_sink ::
    "('a \<Rightarrow> string) \<Rightarrow> ((string, 'a) dict \<Rightarrow> (string, 'a) dict \<Rightarrow> bool result) \<Rightarrow> ('a \<Rightarrow> rat result) \<Rightarrow>
     string \<Rightarrow> string list \<Rightarrow> string \<Rightarrow> (string, 'a) dict \<Rightarrow> (string, 'a) dict cache_actor \<Rightarrow>
     (string, 'a) dict cache_actor result" where
  "single_event_sink fmt lt parse dataset_name key_fields timestamp_field value c =
     rbind (sink_record parse key_fields timestamp_field value) (\<lambda>r.
       Inr (fst (put_records fmt lt dataset_name [r] c)))"

text \<open>
  The buffered sink runs on two threads: the task thread appends to \<open>self.buffer\<close>, and the
  dumper thread (or \<open>close\<close>) sends the buffer and then replaces it. \<open>put_records.remote\<close>
  serialises the buffer at the call; the reset is a separate step. \<open>sent\<close> lists the
  batches the actor got.
\<close>

record 'r bulk_sink =
  bsk_buffer :: "'r list"
  bsk_in_dump :: bool
  bsk_sent :: "'r list list"

datatype 'r sink_action = SinkValue 'r | DumpSend | DumpReset

definition bulk_init :: "'r bulk_sink" where
  "bulk_init = \<lparr>bsk_buffer = [], bsk_in_dump = False, bsk_sent = []\<rparr>"

definition bulk_step :: "'r sink_action \<Rightarrow> 'r bulk_sink \<Rightarrow> 'r bulk_sink option" where
  "bulk_step a s =
     (case a of
        SinkValue r \<Rightarrow> Some (s\<lparr>bsk_buffer := bsk_buffer s @ [r]\<rparr>)
      | DumpSend \<Rightarrow>
          (if bsk_in_dump s then None
           else if bsk_buffer s = [] then Some s
           else Some (s\<lparr>bsk_sent := bsk_sent s @ [bsk_buffer s], bsk_in_dump := True\<rparr>))
      | DumpReset \<Rightarrow>
          (if bsk_in_dump s then Some (s\<lparr>bsk_buffer := [], bsk_in_dump := False\<rparr>) else None))"

fun bulk_run :: "'r sink_action list \<Rightarrow> 'r bulk_sink \<Rightarrow> 'r bulk_sink option" where
  "bulk_run [] s = Some s"
| "bulk_run (a # as) s = (case bulk_step a s of None \<Rightarrow> None | Some s' \<Rightarrow> bulk_run as s')"

text \<open>
  The values sunk while no send is waiting for its reset; \<open>w\<close> tells whether one is and
  \<open>ne\<close> whether the buffer is non-empty, since an empty buffer is not sent.
\<close>

fun sunk_outside :: "bool \<Rightarrow> bool \<Rightarrow> 'r sink_action list \<Rightarrow> 'r list" where
  "sunk_outside w ne [] = []"
| "sunk_outside w ne (SinkValue r # as) = (if w then sunk_outside w True as else r # sunk_outside w True as)"
| "sunk_outside w ne (DumpSend # as) = sunk_outside (w \<or> ne) ne as"
| "sunk_outside w ne (DumpReset # as) = sunk_outside False False as"

definition delivered :: "'r bulk_sink \<Rightarrow> 'r list" where
  "delivered s = concat (bsk_sent s) @ (if bsk_in_dump s then [] else bsk_buffer s)"

lemma bulk_run_accounts:
  "bulk_run as s = Some s' \<Longrightarrow>
   delivered s' = delivered s @ sunk_outside (bsk_in_dump s) (bsk_buffer s \<noteq> []) as"
proof (induction as arbitrary: s)
  case (Cons a as)
  then obtain s1 where s1: "bulk_step a s = Some s1" "bulk_run as s1 = Some s'"
    by (auto split: option.splits)
  from Cons.IH [OF s1(2)] s1(1) show ?case
    by (cases a) (auto simp: bulk_step_def delivered_def split: if_splits)
qed simp

text \<open>
  Under every interleaving of the task thread with the dumper thread, what the actor has
  received and what the buffer still holds for it are, in order and once each, the values sunk
  outside the windows between a send and its reset; a value sunk inside such a window is lost.
\<close>

theorem bulk_sink_delivers_outside_window:
  assumes "bulk_run as bulk_init = Some s"
  shows "concat (bsk_sent s) @ (if bsk_in_dump s then [] else bsk_buffer s) = sunk_outside False False as"
  using bulk_run_accounts [OF assms] by (simp add: bulk_init_def delivered_def)

theorem bulk_sink_delivers_outside_window_witness:
  "\<exists>s. bulk_run [SinkValue ''a'', DumpSend, SinkValue ''b'', DumpReset, SinkValue ''c''] bulk_init = Some s \<and>
     concat (bsk_sent s) @ (if bsk_in_dump s then [] else bsk_buffer s) = [''a'', ''c'']"
  using bulk_sink_delivers_outside_window [of "[SinkValue ''a'', DumpSend, SinkValue ''b'', DumpReset, SinkValue ''c'']"]
  by (simp add: bulk_init_def bulk_step_def)

end
