(* ===== verification/Job_Graph.thy ===== *)
theory Job_Graph
  imports Stream_Records
begin

text \<open>
  The streaming API and the logical job graph: the streaming context and the stream classes
  (\<open>streaming/api/context/streaming_context.py\<close>, \<open>streaming/api/stream/*.py\<close>), the job graph
  (\<open>streaming/api/job_graph/job_graph.py\<close>) and its builder (\<open>job_graph_builder.py\<close>).
  Streams are objects in a store indexed by their generated id, because \<open>set_parallelism\<close>
  changes a stream that other streams already refer to.
\<close>

section \<open>Operators as the graph sees them\<close>

datatype operator_type = SOURCE_OP | ONE_INPUT_OP | TWO_INPUT_OP

text \<open>
  An operator by its class name, its \<open>operator_type()\<close> and a payload; a chained operator is
  the list of the operators it runs.
\<close>

datatype 'o stream_op =
    Op string operator_type 'o
  | ChainedOp "'o stream_op list"

fun op_type :: "'o stream_op \<Rightarrow> operator_type" where
  "op_type (Op c t x) = t"
| "op_type (ChainedOp []) = ONE_INPUT_OP"
| "op_type (ChainedOp (p # ps)) = op_type p"

fun op_class :: "'o stream_op \<Rightarrow> string" where
  "op_class (Op c t x) = c"
| "op_class (ChainedOp ps) =
     (case op_type (ChainedOp ps) of
        SOURCE_OP \<Rightarrow> ''ChainedSourceOperator''
      | ONE_INPUT_OP \<Rightarrow> ''ChainedOneInputOperator''
      | TWO_INPUT_OP \<Rightarrow> ''ChainedTwoInputOperator'')"

text \<open>\<open>new_chained_operator\<close> with the asserts of the chained classes.\<close>

definition new_chained_operator :: "'o stream_op list \<Rightarrow> 'o stream_op result" where
  "new_chained_operator ops =
     (if ops = [] then Inl IndexError
      else if length ops > 1 then Inr (ChainedOp ops)
      else Inl AssertionError)"

section \<open>Streams and the streaming context\<close>

datatype stream_kind = STREAM_SOURCE | DATA_STREAM | KEY_DATA_STREAM | JOIN_STREAM | STREAM_SINK

record ('o, 'k, 'v) stream_obj =
  st_kind :: stream_kind
  st_input :: "nat option"
  st_right :: "nat option"
  st_parallelism :: nat
  st_operator :: "'o stream_op"
  st_partition :: "('k, 'v) partition"

record ('o, 'k, 'v) streaming_context =
  sc_id_generator :: nat
  sc_streams :: "(nat, ('o, 'k, 'v) stream_obj) dict"
  sc_stream_sinks :: "nat list"

definition sc_init :: "('o, 'k, 'v) streaming_context" where
  "sc_init = \<lparr>sc_id_generator = 0, sc_streams = [], sc_stream_sinks = []\<rparr>"

definition generate_id :: "('o, 'k, 'v) streaming_context \<Rightarrow> nat \<times> ('o, 'k, 'v) streaming_context" where
  "generate_id sc =
     (let n = sc_id_generator sc + 1 in (n, sc\<lparr>sc_id_generator := n\<rparr>))"

text \<open>
  \<open>Stream.__init__\<close>: a new id, the input's parallelism (1 without an input), forward
  partitioning unless one is given.
\<close>

definition new_stream ::
    "stream_kind \<Rightarrow> nat option \<Rightarrow> nat option \<Rightarrow> 'o stream_op \<Rightarrow> ('k, 'v) partition option \<Rightarrow>
     ('o, 'k, 'v) streaming_context \<Rightarrow> (nat \<times> ('o, 'k, 'v) streaming_context) result" where
  "new_stream kind input right op part sc =
     (case generate_id sc of (i, sc1) \<Rightarrow>
        rbind (case input of
                 None \<Rightarrow> Inr 1
               | Some p \<Rightarrow> rbind (dict_get (sc_streams sc) p) (\<lambda>s. Inr (st_parallelism s))) (\<lambda>par.
        Inr (i, sc1\<lparr>sc_streams := AList.update i
                     \<lparr>st_kind = kind, st_input = input, st_right = right, st_parallelism = par,
                      st_operator = op,
                      st_partition = (case part of None \<Rightarrow> ForwardPartition | Some p \<Rightarrow> p)\<rparr>
                     (sc_streams sc1)\<rparr>)))"

text \<open>\<open>StreamingContext.source\<close>\<close>

definition api_source ::
    "'o \<Rightarrow> ('o, 'k, 'v) streaming_context \<Rightarrow> (nat \<times> ('o, 'k, 'v) streaming_context) result" where
  "api_source f = new_stream STREAM_SOURCE None None (Op ''SourceOperator'' SOURCE_OP f) None"

text \<open>A method of a stream class: looked up on a stream that is not an instance, it is missing.\<close>

definition stream_method ::
    "(stream_kind \<Rightarrow> bool) \<Rightarrow> nat \<Rightarrow> ('o, 'k, 'v) streaming_context \<Rightarrow> unit result" where
  "stream_method has_it s sc =
     rbind (dict_get (sc_streams sc) s) (\<lambda>st.
       if has_it (st_kind st) then Inr () else Inl AttributeError)"

definition is_data_stream :: "stream_kind \<Rightarrow> bool" where
  "is_data_stream k \<longleftrightarrow> k \<noteq> STREAM_SINK"

text \<open>\<open>map\<close>, \<open>flat_map\<close> and \<open>filter\<close> of a data stream.\<close>

definition api_transform ::
    "string \<Rightarrow> 'o \<Rightarrow> nat \<Rightarrow> ('o, 'k, 'v) streaming_context \<Rightarrow>
     (nat \<times> ('o, 'k, 'v) streaming_context) result" where
  "api_transform op_name f s sc =
     rbind (stream_method is_data_stream s sc) (\<lambda>_.
       new_stream DATA_STREAM (Some s) None (Op op_name ONE_INPUT_OP f) None sc)"

text \<open>\<open>reduce\<close> and \<open>multi_window_agg\<close> of a keyed stream.\<close>

definition api_keyed_transform ::
    "string \<Rightarrow> 'o \<Rightarrow> nat \<Rightarrow> ('o, 'k, 'v) streaming_context \<Rightarrow>
     (nat \<times> ('o, 'k, 'v) streaming_context) result" where
  "api_keyed_transform op_name f s sc =
     rbind (stream_method (\<lambda>k. k = KEY_DATA_STREAM) s sc) (\<lambda>_.
       new_stream DATA_STREAM (Some s) None (Op op_name ONE_INPUT_OP f) None sc)"

definition api_key_by ::
    "'o \<Rightarrow> nat \<Rightarrow> ('o, 'k, 'v) streaming_context \<Rightarrow> (nat \<times> ('o, 'k, 'v) streaming_context) result"
  where
  "api_key_by f s sc =
     rbind (stream_method is_data_stream s sc) (\<lambda>_.
       new_stream KEY_DATA_STREAM (Some s) None (Op ''KeyByOperator'' ONE_INPUT_OP f)
         (Some KeyPartition) sc)"

text \<open>\<open>KeyDataStream.join(other).with_func(f)\<close>; only keyed streams have the method.\<close>

definition api_join ::
    "'o \<Rightarrow> nat \<Rightarrow> nat \<Rightarrow> ('o, 'k, 'v) streaming_context \<Rightarrow>
     (nat \<times> ('o, 'k, 'v) streaming_context) result" where
  "api_join f left other sc =
     rbind (stream_method (\<lambda>k. k = KEY_DATA_STREAM) left sc) (\<lambda>_.
     rbind (dict_get (sc_streams sc) other) (\<lambda>_.
       new_stream JOIN_STREAM (Some left) (Some other) (Op ''JoinOperator'' TWO_INPUT_OP f) None sc))"

definition api_sink ::
    "'o \<Rightarrow> nat \<Rightarrow> ('o, 'k, 'v) streaming_context \<Rightarrow> (nat \<times> ('o, 'k, 'v) streaming_context) result"
  where
  "api_sink f s sc =
     rbind (stream_method is_data_stream s sc) (\<lambda>_.
     rbind (new_stream STREAM_SINK (Some s) None (Op ''SinkOperator'' ONE_INPUT_OP f) None sc) (\<lambda>(i, sc').
       Inr (i, sc'\<lparr>sc_stream_sinks := sc_stream_sinks sc' @ [i]\<rparr>)))"

definition set_parallelism ::
    "nat \<Rightarrow> nat \<Rightarrow> ('o, 'k, 'v) streaming_context \<Rightarrow> (nat \<times> ('o, 'k, 'v) streaming_context) result"
  where
  "set_parallelism par s sc =
     rbind (dict_get (sc_streams sc) s) (\<lambda>st.
       Inr (s, sc\<lparr>sc_streams := AList.update s (st\<lparr>st_parallelism := par\<rparr>) (sc_streams sc)\<rparr>))"

section \<open>The job graph\<close>

datatype vertex_type = SOURCE_V | PROCESS_V | SINK_V | UNION_V | JOIN_V

record ('k, 'v) job_edge =
  je_source_vertex_id :: nat
  je_target_vertex_id :: nat
  je_source_operator_id :: nat
  je_target_operator_id :: nat
  je_partition :: "('k, 'v) partition"
  je_is_join_right_edge :: bool

definition JobEdge ::
    "nat \<Rightarrow> nat \<Rightarrow> ('k, 'v) partition \<Rightarrow> nat option \<Rightarrow> nat option \<Rightarrow> ('k, 'v) job_edge" where
  "JobEdge s t p src_op tgt_op =
     \<lparr>je_source_vertex_id = s, je_target_vertex_id = t,
      je_source_operator_id = (case src_op of None \<Rightarrow> s | Some x \<Rightarrow> x),
      je_target_operator_id = (case tgt_op of None \<Rightarrow> t | Some x \<Rightarrow> x),
      je_partition = p, je_is_join_right_edge = False\<rparr>"

record 'o job_vertex =
  jv_vertex_id :: nat
  jv_parallelism :: nat
  jv_vertex_type :: vertex_type
  jv_stream_operator :: "'o stream_op"

definition get_name :: "'o job_vertex \<Rightarrow> string" where
  "get_name v = str_nat (jv_vertex_id v) @ CHR ''_'' # op_class (jv_stream_operator v)"

record ('o, 'k, 'v) job_graph =
  jg_job_vertices :: "'o job_vertex list"
  jg_job_edges :: "('k, 'v) job_edge list"

definition empty_graph :: "('o, 'k, 'v) job_graph" where
  "empty_graph = \<lparr>jg_job_vertices = [], jg_job_edges = []\<rparr>"

definition add_vertex_if_not_exists ::
    "'o job_vertex \<Rightarrow> ('o, 'k, 'v) job_graph \<Rightarrow> ('o, 'k, 'v) job_graph" where
  "add_vertex_if_not_exists v g =
     (if list_ex (\<lambda>w. jv_vertex_id w = jv_vertex_id v) (jg_job_vertices g) then g
      else g\<lparr>jg_job_vertices := jg_job_vertices g @ [v]\<rparr>)"

definition add_edge_if_not_exists ::
    "('k, 'v) job_edge \<Rightarrow> ('o, 'k, 'v) job_graph \<Rightarrow> ('o, 'k, 'v) job_graph" where
  "add_edge_if_not_exists e g =
     (if list_ex (\<lambda>f. je_source_vertex_id f = je_source_vertex_id e \<and>
                      je_target_vertex_id f = je_target_vertex_id e) (jg_job_edges g) then g
      else g\<lparr>jg_job_edges := jg_job_edges g @ [e]\<rparr>)"

definition get_vertex_output_edges :: "('o, 'k, 'v) job_graph \<Rightarrow> nat \<Rightarrow> ('k, 'v) job_edge list" where
  "get_vertex_output_edges g i = filter (\<lambda>e. je_source_vertex_id e = i) (jg_job_edges g)"

definition get_vertex_input_edges :: "('o, 'k, 'v) job_graph \<Rightarrow> nat \<Rightarrow> ('k, 'v) job_edge list" where
  "get_vertex_input_edges g i = filter (\<lambda>e. je_target_vertex_id e = i) (jg_job_edges g)"

definition get_source_vertices :: "('o, 'k, 'v) job_graph \<Rightarrow> 'o job_vertex list" where
  "get_source_vertices g = filter (\<lambda>v. jv_vertex_type v = SOURCE_V) (jg_job_vertices g)"

definition get_max_parallelism :: "('o, 'k, 'v) job_graph \<Rightarrow> nat result" where
  "get_max_parallelism g =
     (if jg_job_vertices g = [] then Inl ValueError
      else Inr (Max (set (map jv_parallelism (jg_job_vertices g)))))"

section \<open>The builder\<close>

fun vertex_type_of :: "stream_kind \<Rightarrow> vertex_type" where
  "vertex_type_of STREAM_SOURCE = SOURCE_V"
| "vertex_type_of DATA_STREAM = PROCESS_V"
| "vertex_type_of KEY_DATA_STREAM = PROCESS_V"
| "vertex_type_of JOIN_STREAM = JOIN_V"
| "vertex_type_of STREAM_SINK = SINK_V"

text \<open>
  \<open>_process_stream\<close>: the edge from the input, the input's own subgraph, for a join the right
  edge and the right subgraph, and last the vertex. The first argument is the recursion depth
  the interpreter allows.
\<close>

primrec process_stream ::
    "nat \<Rightarrow> (nat, ('o, 'k, 'v) stream_obj) dict \<Rightarrow> nat \<Rightarrow> ('o, 'k, 'v) job_graph \<Rightarrow>
     ('o, 'k, 'v) job_graph result" where
  "process_stream 0 streams i g = Inl RecursionError"
| "process_stream (Suc depth) streams i g =
     rbind (dict_get streams i) (\<lambda>st.
     rbind (case st_input st of
              None \<Rightarrow> if st_kind st = STREAM_SOURCE then Inr g else Inl AttributeError
            | Some p \<Rightarrow>
                if st_kind st = STREAM_SOURCE then Inr g
                else rbind (dict_get streams p) (\<lambda>parent.
                  process_stream depth streams p
                    (add_edge_if_not_exists (JobEdge p i (st_partition parent) None None) g))) (\<lambda>g1.
     rbind (if st_kind st = JOIN_STREAM
            then (case st_right st of
                    None \<Rightarrow> Inl AttributeError
                  | Some r \<Rightarrow>
                      rbind (dict_get streams r) (\<lambda>right.
                        process_stream depth streams r
                          (add_edge_if_not_exists
                            ((JobEdge r i (st_partition right) None None)\<lparr>je_is_join_right_edge := True\<rparr>)
                            g1)))
            else Inr g1) (\<lambda>g2.
     Inr (add_vertex_if_not_exists
            \<lparr>jv_vertex_id = i, jv_parallelism = st_parallelism st,
             jv_vertex_type = vertex_type_of (st_kind st), jv_stream_operator = st_operator st\<rparr> g2))))"

definition build_graph ::
    "nat \<Rightarrow> ('o, 'k, 'v) streaming_context \<Rightarrow> ('o, 'k, 'v) job_graph result" where
  "build_graph depth sc =
     rfold (process_stream depth (sc_streams sc)) (sc_stream_sinks sc) empty_graph"

section \<open>Stream programs\<close>

text \<open>The contexts a user program can reach through the API.\<close>

inductive stream_program :: "('o, 'k, 'v) streaming_context \<Rightarrow> bool" where
  start: "stream_program sc_init"
| source: "stream_program sc \<Longrightarrow> api_source f sc = Inr (i, sc') \<Longrightarrow> stream_program sc'"
| transform: "stream_program sc \<Longrightarrow> api_transform n f s sc = Inr (i, sc') \<Longrightarrow> stream_program sc'"
| keyed_transform:
    "stream_program sc \<Longrightarrow> api_keyed_transform n f s sc = Inr (i, sc') \<Longrightarrow> stream_program sc'"
| key_by: "stream_program sc \<Longrightarrow> api_key_by f s sc = Inr (i, sc') \<Longrightarrow> stream_program sc'"
| join: "stream_program sc \<Longrightarrow> api_join f l r sc = Inr (i, sc') \<Longrightarrow> stream_program sc'"
| sink: "stream_program sc \<Longrightarrow> api_sink f s sc = Inr (i, sc') \<Longrightarrow> stream_program sc'"
| parallelism: "stream_program sc \<Longrightarrow> set_parallelism par s sc = Inr (i, sc') \<Longrightarrow> stream_program sc'"

text \<open>
  What such a context looks like: ids are bounded by the generator, a stream's inputs are
  older streams of the store, the left input of a join is keyed, and operator types fit.
\<close>

fun op_type_of_kind :: "stream_kind \<Rightarrow> operator_type" where
  "op_type_of_kind STREAM_SOURCE = SOURCE_OP"
| "op_type_of_kind JOIN_STREAM = TWO_INPUT_OP"
| "op_type_of_kind _ = ONE_INPUT_OP"

definition stream_ok :: "(nat, ('o, 'k, 'v) stream_obj) dict \<Rightarrow> nat \<Rightarrow> ('o, 'k, 'v) stream_obj \<Rightarrow> bool"
  where
  "stream_ok streams i st \<longleftrightarrow>
     (case st_input st of
        None \<Rightarrow> st_kind st = STREAM_SOURCE
      | Some p \<Rightarrow> st_kind st \<noteq> STREAM_SOURCE \<and> p < i \<and>
          (\<exists>q. map_of streams p = Some q \<and> (st_kind st = JOIN_STREAM \<longrightarrow> st_kind q = KEY_DATA_STREAM))) \<and>
     (case st_right st of
        None \<Rightarrow> st_kind st \<noteq> JOIN_STREAM
      | Some r \<Rightarrow> st_kind st = JOIN_STREAM \<and> r < i \<and> map_of streams r \<noteq> None) \<and>
     (st_kind st = KEY_DATA_STREAM \<longrightarrow> st_partition st = KeyPartition) \<and>
     op_type (st_operator st) = op_type_of_kind (st_kind st)"

definition context_ok :: "('o, 'k, 'v) streaming_context \<Rightarrow> bool" where
  "context_ok sc \<longleftrightarrow>
     (\<forall>i st. map_of (sc_streams sc) i = Some st \<longrightarrow>
        i \<le> sc_id_generator sc \<and> stream_ok (sc_streams sc) i st) \<and>
     (\<forall>i \<in> set (sc_stream_sinks sc). map_of (sc_streams sc) i \<noteq> None)"

lemma context_okD:
  "context_ok sc \<Longrightarrow> map_of (sc_streams sc) i = Some st \<Longrightarrow>
     i \<le> sc_id_generator sc \<and> stream_ok (sc_streams sc) i st"
  by (simp add: context_ok_def)

lemma stream_ok_extend:
  assumes "stream_ok streams i st"
    and "\<And>j q. map_of streams j = Some q \<Longrightarrow> \<exists>q'. map_of streams' j = Some q' \<and> st_kind q' = st_kind q"
  shows "stream_ok streams' i st"
proof -
  have "map_of streams' j \<noteq> None" if "map_of streams j \<noteq> None" for j
    using assms(2) that by fastforce
  with assms show ?thesis
    unfolding stream_ok_def by (fastforce split: option.splits)
qed

lemma stream_ok_parallelism [simp]:
  "stream_ok streams i (st\<lparr>st_parallelism := par\<rparr>) = stream_ok streams i st"
  by (simp add: stream_ok_def split: option.splits)

lemma new_stream_ok:
  assumes sc: "context_ok sc" and new: "new_stream kind input right op part sc = Inr (i, sc')"
    and st: "\<And>par. stream_ok (sc_streams sc) (Suc (sc_id_generator sc))
      \<lparr>st_kind = kind, st_input = input, st_right = right, st_parallelism = par, st_operator = op,
       st_partition = (case part of None \<Rightarrow> ForwardPartition | Some p \<Rightarrow> p)\<rparr>"
  shows "context_ok sc' \<and> map_of (sc_streams sc') i \<noteq> None"
proof -
  let ?i = "Suc (sc_id_generator sc)"
  from new obtain par where sc': "i = ?i" "sc' = sc\<lparr>sc_id_generator := ?i,
      sc_streams := AList.update ?i
        \<lparr>st_kind = kind, st_input = input, st_right = right, st_parallelism = par, st_operator = op,
         st_partition = (case part of None \<Rightarrow> ForwardPartition | Some p \<Rightarrow> p)\<rparr> (sc_streams sc)\<rparr>"
    by (auto simp: new_stream_def generate_id_def Let_def split: option.splits prod.splits)
  have fresh: "map_of (sc_streams sc) ?i = None"
    using context_okD [OF sc, of ?i] by (cases "map_of (sc_streams sc) ?i") auto
  have "stream_ok (sc_streams sc') j q" if "map_of (sc_streams sc') j = Some q" for j q
  proof (rule stream_ok_extend)
    show "stream_ok (sc_streams sc) j q"
      using that st [of par] context_okD [OF sc, of j q] by (auto simp: sc' split: if_splits)
  qed (use fresh in \<open>auto simp: sc'\<close>)
  moreover have "j \<le> sc_id_generator sc'" if "map_of (sc_streams sc') j = Some q" for j q
    using that context_okD [OF sc, of j q] by (auto simp: sc' split: if_splits)
  ultimately show ?thesis
    using sc by (auto simp: context_ok_def sc')
qed

lemma stream_program_ok: "stream_program sc \<Longrightarrow> context_ok sc"
proof (induction rule: stream_program.induct)
  case start
  then show ?case by (simp add: context_ok_def sc_init_def)
next
  case (source sc f i sc')
  then show ?case
    using new_stream_ok [of sc] by (fastforce simp: api_source_def stream_ok_def)
next
  case (transform sc n f s i sc')
  then show ?case
    using new_stream_ok [of sc] context_okD [of sc s]
    by (fastforce simp: api_transform_def stream_method_def stream_ok_def)
next
  case (keyed_transform sc n f s i sc')
  then show ?case
    using new_stream_ok [of sc] context_okD [of sc s]
    by (fastforce simp: api_keyed_transform_def stream_method_def stream_ok_def)
next
  case (key_by sc f s i sc')
  then show ?case
    using new_stream_ok [of sc] context_okD [of sc s]
    by (fastforce simp: api_key_by_def stream_method_def stream_ok_def)
next
  case (join sc f l r i sc')
  then show ?case
    using new_stream_ok [of sc] context_okD [of sc l] context_okD [of sc r]
    by (fastforce simp: api_join_def stream_method_def stream_ok_def split: if_splits)
next
  case (sink sc f s i sc')
  then obtain sc1 st where new: "new_stream STREAM_SINK (Some s) None (Op ''SinkOperator'' ONE_INPUT_OP f) None sc = Inr (i, sc1)"
    and sc': "sc' = sc1\<lparr>sc_stream_sinks := sc_stream_sinks sc1 @ [i]\<rparr>"
    and "map_of (sc_streams sc) s = Some st"
    by (auto simp: api_sink_def stream_method_def split: if_splits)
  then have "context_ok sc1 \<and> map_of (sc_streams sc1) i \<noteq> None"
    using sink.IH context_okD [of sc s] by (intro new_stream_ok [OF sink.IH new]) (auto simp: stream_ok_def)
  then show ?case by (auto simp: context_ok_def sc')
next
  case (parallelism sc par s i sc')
  then obtain st where st: "map_of (sc_streams sc) s = Some st"
    and sc': "sc' = sc\<lparr>sc_streams := AList.update s (st\<lparr>st_parallelism := par\<rparr>) (sc_streams sc)\<rparr>"
    by (auto simp: set_parallelism_def)
  have "stream_ok (sc_streams sc') j q" if "map_of (sc_streams sc') j = Some q" for j q
  proof (rule stream_ok_extend)
    show "stream_ok (sc_streams sc) j q"
      using that st context_okD [OF parallelism.IH, of j] by (auto simp: sc' split: if_splits)
  qed (use st in \<open>auto simp: sc'\<close>)
  with parallelism.IH st context_okD [OF parallelism.IH, of s] show ?case
    by (auto simp: context_ok_def sc')
qed

section \<open>What the builder produces\<close>

text \<open>A stream's inputs, and the streams a stream depends on.\<close>

definition stream_parents :: "(nat, ('o, 'k, 'v) stream_obj) dict \<Rightarrow> (nat \<times> nat) set" where
  "stream_parents streams =
     {(i, p). \<exists>st. map_of streams i = Some st \<and> (st_input st = Some p \<or> st_right st = Some p)}"

definition needed :: "(nat, ('o, 'k, 'v) stream_obj) dict \<Rightarrow> nat \<Rightarrow> nat set" where
  "needed streams i = (stream_parents streams)\<^sup>* `` {i}"

lemma needed_step:
  "needed streams i = insert i (\<Union>p \<in> stream_parents streams `` {i}. needed streams p)"
  unfolding needed_def by (auto elim: converse_rtranclE intro: converse_rtrancl_into_rtrancl)

definition needed_edges :: "(nat, ('o, 'k, 'v) stream_obj) dict \<Rightarrow> nat \<Rightarrow> (nat \<times> nat) set" where
  "needed_edges streams i = {(p, j). j \<in> needed streams i \<and> (j, p) \<in> stream_parents streams}"

lemma needed_edges_step:
  "needed_edges streams i =
   (\<lambda>p. (p, i)) ` (stream_parents streams `` {i}) \<union>
   (\<Union>p \<in> stream_parents streams `` {i}. needed_edges streams p)"
  unfolding needed_edges_def by (subst needed_step) auto

definition vertex_of :: "nat \<Rightarrow> ('o, 'k, 'v) stream_obj \<Rightarrow> 'o job_vertex" where
  "vertex_of i st =
     \<lparr>jv_vertex_id = i, jv_parallelism = st_parallelism st,
      jv_vertex_type = vertex_type_of (st_kind st), jv_stream_operator = st_operator st\<rparr>"

text \<open>The edge for an input \<open>p\<close> of stream \<open>i\<close>; it is a right edge when \<open>p\<close> is not the main input.\<close>

definition edge_of :: "nat \<Rightarrow> ('o, 'k, 'v) stream_obj \<Rightarrow> nat \<Rightarrow> ('o, 'k, 'v) stream_obj \<Rightarrow> ('k, 'v) job_edge" where
  "edge_of p parent i st =
     (JobEdge p i (st_partition parent) None None)\<lparr>je_is_join_right_edge := (st_input st \<noteq> Some p)\<rparr>"

definition epair :: "('k, 'v) job_edge \<Rightarrow> nat \<times> nat" where
  "epair e = (je_source_vertex_id e, je_target_vertex_id e)"

definition vids :: "('o, 'k, 'v) job_graph \<Rightarrow> nat set" where
  "vids g = set (map jv_vertex_id (jg_job_vertices g))"

definition epairs :: "('o, 'k, 'v) job_graph \<Rightarrow> (nat \<times> nat) set" where
  "epairs g = set (map epair (jg_job_edges g))"

definition graph_of :: "(nat, ('o, 'k, 'v) stream_obj) dict \<Rightarrow> ('o, 'k, 'v) job_graph \<Rightarrow> bool" where
  "graph_of streams g \<longleftrightarrow>
     distinct (map jv_vertex_id (jg_job_vertices g)) \<and> distinct (map epair (jg_job_edges g)) \<and>
     (\<forall>v \<in> set (jg_job_vertices g).
        \<exists>st. map_of streams (jv_vertex_id v) = Some st \<and> v = vertex_of (jv_vertex_id v) st) \<and>
     (\<forall>e \<in> set (jg_job_edges g).
        \<exists>i st p parent. map_of streams i = Some st \<and> map_of streams p = Some parent \<and>
          e = edge_of p parent i st)"

lemma epair_edge_of [simp]: "epair (edge_of p parent i st) = (p, i)"
  by (simp add: epair_def edge_of_def JobEdge_def)

lemma vids_add_vertex [simp]:
  "vids (add_vertex_if_not_exists v g) = insert (jv_vertex_id v) (vids g)"
  by (auto simp: vids_def add_vertex_if_not_exists_def list_ex_iff intro: rev_image_eqI)

lemma epairs_add_vertex [simp]: "epairs (add_vertex_if_not_exists v g) = epairs g"
  by (simp add: epairs_def add_vertex_if_not_exists_def)

lemma epairs_add_edge [simp]: "epairs (add_edge_if_not_exists e g) = insert (epair e) (epairs g)"
  by (auto simp: epairs_def add_edge_if_not_exists_def list_ex_iff epair_def intro: rev_image_eqI)

lemma vids_add_edge [simp]: "vids (add_edge_if_not_exists e g) = vids g"
  by (simp add: vids_def add_edge_if_not_exists_def)

lemma graph_of_add_vertex:
  "graph_of streams g \<Longrightarrow> map_of streams i = Some st \<Longrightarrow>
   graph_of streams (add_vertex_if_not_exists (vertex_of i st) g)"
  by (auto simp: graph_of_def add_vertex_if_not_exists_def list_ex_iff vertex_of_def)

lemma add_edge_cases:
  "add_edge_if_not_exists e g =
     (if epair e \<in> epairs g then g else g\<lparr>jg_job_edges := jg_job_edges g @ [e]\<rparr>)"
proof -
  have "list_ex (\<lambda>f. je_source_vertex_id f = je_source_vertex_id e \<and>
      je_target_vertex_id f = je_target_vertex_id e) (jg_job_edges g) \<longleftrightarrow> epair e \<in> epairs g"
    by (auto simp: list_ex_iff epairs_def epair_def intro: rev_image_eqI)
  then show ?thesis by (simp add: add_edge_if_not_exists_def)
qed

lemma graph_of_add_edge:
  assumes "graph_of streams g" "map_of streams i = Some st" "map_of streams p = Some parent"
    and "e = edge_of p parent i st \<or> (p, i) \<in> epairs g" "epair e = (p, i)"
  shows "graph_of streams (add_edge_if_not_exists e g)"
proof (cases "(p, i) \<in> epairs g")
  case True
  with assms show ?thesis by (simp add: add_edge_cases)
next
  case False
  with assms have e: "e = edge_of p parent i st" by simp
  from False have "(p, i) \<notin> epair ` set (jg_job_edges g)" by (simp add: epairs_def)
  with False assms(1-3) show ?thesis
    unfolding e by (simp add: add_edge_cases graph_of_def) blast
qed

text \<open>Processing a stream adds exactly what the stream depends on.\<close>

lemma process_stream_spec:
  assumes ok: "\<And>j st. map_of streams j = Some st \<Longrightarrow> stream_ok streams j st"
  shows "map_of streams i \<noteq> None \<Longrightarrow> i < depth \<Longrightarrow> graph_of streams g \<Longrightarrow>
   \<exists>g'. process_stream depth streams i g = Inr g' \<and> graph_of streams g' \<and>
     vids g' = vids g \<union> needed streams i \<and> epairs g' = epairs g \<union> needed_edges streams i"
proof (induction depth arbitrary: i g)
  case (Suc depth)
  then obtain st where st: "map_of streams i = Some st" by auto
  note sok = ok [OF st, unfolded stream_ok_def]
  let ?v = "vertex_of i st"
  have v: "jv_vertex_id ?v = i" by (simp add: vertex_of_def)
  show ?case
  proof (cases "st_input st")
    case None
    with sok have kind: "st_kind st = STREAM_SOURCE" "st_right st = None"
      by (auto split: option.splits)
    with None st have "stream_parents streams `` {i} = {}" by (auto simp: stream_parents_def)
    then have "needed streams i = {i}" "needed_edges streams i = {}"
      by (subst needed_step, simp, subst needed_edges_step, simp)
    moreover have "process_stream (Suc depth) streams i g = Inr (add_vertex_if_not_exists ?v g)"
      using None st kind by (simp add: vertex_of_def)
    ultimately show ?thesis
      using graph_of_add_vertex [OF Suc.prems(3) st] by (simp add: v del: process_stream.simps)
  next
    case (Some p)
    with sok obtain parent where p: "st_kind st \<noteq> STREAM_SOURCE" "p < i" "map_of streams p = Some parent"
      by auto
    let ?e1 = "JobEdge p i (st_partition parent) None None"
    let ?g1 = "add_edge_if_not_exists ?e1 g"
    have e1: "?e1 = edge_of p parent i st"
      using Some by (simp add: edge_of_def JobEdge_def)
    have "graph_of streams ?g1"
      using graph_of_add_edge [OF Suc.prems(3) st p(3), of ?e1] e1 by simp
    then obtain g2 where g2: "process_stream depth streams p ?g1 = Inr g2" "graph_of streams g2"
      "vids g2 = vids g \<union> needed streams p"
      "epairs g2 = insert (p, i) (epairs g) \<union> needed_edges streams p"
      using Suc.IH [of p ?g1] p Suc.prems(2) e1 by auto
    show ?thesis
    proof (cases "st_right st")
      case None
      with sok have kind: "st_kind st \<noteq> JOIN_STREAM" by simp
      have "stream_parents streams `` {i} = {p}"
        using st Some None by (auto simp: stream_parents_def)
      then have "needed streams i = insert i (needed streams p)"
        "needed_edges streams i = insert (p, i) (needed_edges streams p)"
        by (subst needed_step, simp, subst needed_edges_step, simp)
      moreover have "process_stream (Suc depth) streams i g = Inr (add_vertex_if_not_exists ?v g2)"
        using Some st kind p g2(1) by (simp add: vertex_of_def)
      ultimately show ?thesis
        using graph_of_add_vertex [OF g2(2) st] g2(3,4) by (simp add: v del: process_stream.simps)
    next
      case (Some r)
      with sok obtain right where r: "st_kind st = JOIN_STREAM" "r < i" "map_of streams r = Some right"
        by auto
      let ?e2 = "(JobEdge r i (st_partition right) None None)\<lparr>je_is_join_right_edge := True\<rparr>"
      have pair: "epair ?e2 = (r, i)" by (simp add: epair_def JobEdge_def)
      have "?e2 = edge_of r right i st \<or> (r, i) \<in> epairs g2"
        using \<open>st_input st = Some p\<close> g2(4) by (cases "r = p") (simp_all add: edge_of_def)
      then have "graph_of streams (add_edge_if_not_exists ?e2 g2)"
        using graph_of_add_edge [OF g2(2) st r(3) _ pair] by simp
      then obtain g3 where g3: "process_stream depth streams r (add_edge_if_not_exists ?e2 g2) = Inr g3"
        "graph_of streams g3" "vids g3 = vids g2 \<union> needed streams r"
        "epairs g3 = insert (r, i) (epairs g2) \<union> needed_edges streams r"
        using Suc.IH [of r "add_edge_if_not_exists ?e2 g2"] r Suc.prems(2) pair by auto
      have par: "stream_parents streams `` {i} = {p, r}"
        using st Some \<open>st_input st = Some p\<close> by (auto simp: stream_parents_def)
      have "needed streams i = insert i (needed streams p \<union> needed streams r)"
        unfolding needed_step [of streams i] par by simp
      moreover have "needed_edges streams i =
          {(p, i), (r, i)} \<union> needed_edges streams p \<union> needed_edges streams r"
        unfolding needed_edges_step [of streams i] par by simp
      moreover have "process_stream (Suc depth) streams i g = Inr (add_vertex_if_not_exists ?v g3)"
        using \<open>st_input st = Some p\<close> Some st p r g2(1) g3(1) by (simp add: vertex_of_def)
      ultimately show ?thesis
        using graph_of_add_vertex [OF g3(2) st]
        by (simp add: v g3(3,4) g2(3,4) Un_ac insert_commute del: process_stream.simps)
    qed
  qed
qed simp

lemma build_graph_spec:
  assumes "stream_program sc" and "sc_id_generator sc < depth"
  shows "\<exists>g. build_graph depth sc = Inr g \<and> graph_of (sc_streams sc) g \<and>
    vids g = (\<Union>i \<in> set (sc_stream_sinks sc). needed (sc_streams sc) i) \<and>
    epairs g = (\<Union>i \<in> set (sc_stream_sinks sc). needed_edges (sc_streams sc) i)"
proof -
  have ok: "context_ok sc" by (rule stream_program_ok [OF assms(1)])
  have sok: "\<And>j st. map_of (sc_streams sc) j = Some st \<Longrightarrow> stream_ok (sc_streams sc) j st"
    using context_okD [OF ok] by blast
  have "\<exists>g'. rfold (process_stream depth (sc_streams sc)) sinks g = Inr g' \<and>
      graph_of (sc_streams sc) g' \<and>
      vids g' = vids g \<union> (\<Union>i \<in> set sinks. needed (sc_streams sc) i) \<and>
      epairs g' = epairs g \<union> (\<Union>i \<in> set sinks. needed_edges (sc_streams sc) i)"
    if "graph_of (sc_streams sc) g" "set sinks \<subseteq> set (sc_stream_sinks sc)" for sinks g
    using that
  proof (induction sinks arbitrary: g)
    case (Cons i sinks)
    then have i: "map_of (sc_streams sc) i \<noteq> None" using ok by (simp add: context_ok_def)
    with context_okD [OF ok, of i] assms(2) have "i < depth" by fastforce
    with process_stream_spec [OF sok i _ Cons.prems(1)] obtain g1
      where g1: "process_stream depth (sc_streams sc) i g = Inr g1" "graph_of (sc_streams sc) g1"
        "vids g1 = vids g \<union> needed (sc_streams sc) i"
        "epairs g1 = epairs g \<union> needed_edges (sc_streams sc) i" by blast
    from Cons.IH [OF g1(2)] Cons.prems(2) g1 show ?case by (auto simp: Un_assoc)
  qed simp
  from this [of empty_graph "sc_stream_sinks sc"] show ?thesis
    by (simp add: build_graph_def empty_graph_def graph_of_def vids_def epairs_def)
qed

section \<open>Well-formed graphs\<close>

text \<open>
  The shape the later stages rely on: unique ids, no parallel edges, edges between vertices of
  the graph from smaller to larger ids, sources exactly the vertices without input, and a
  vertex whose only input is forwarded takes one input.
\<close>

definition graph_wf :: "('o, 'k, 'v) job_graph \<Rightarrow> bool" where
  "graph_wf g \<longleftrightarrow>
     distinct (map jv_vertex_id (jg_job_vertices g)) \<and> distinct (map epair (jg_job_edges g)) \<and>
     (\<forall>e \<in> set (jg_job_edges g).
        je_source_vertex_id e \<in> vids g \<and> je_target_vertex_id e \<in> vids g \<and>
        je_source_vertex_id e < je_target_vertex_id e \<and>
        je_target_operator_id e = je_target_vertex_id e) \<and>
     (\<forall>v \<in> set (jg_job_vertices g).
        (jv_vertex_type v = SOURCE_V \<longleftrightarrow> get_vertex_input_edges g (jv_vertex_id v) = []) \<and>
        (\<forall>e. get_vertex_input_edges g (jv_vertex_id v) = [e] \<and> is_forward (je_partition e) \<longrightarrow>
           op_type (jv_stream_operator v) = ONE_INPUT_OP))"

lemma vertex_type_source [simp]: "vertex_type_of k = SOURCE_V \<longleftrightarrow> k = STREAM_SOURCE"
  by (cases k) simp_all

lemma edge_of_fields [simp]:
  "je_source_vertex_id (edge_of p parent i st) = p"
  "je_target_vertex_id (edge_of p parent i st) = i"
  "je_target_operator_id (edge_of p parent i st) = i"
  "je_partition (edge_of p parent i st) = st_partition parent"
  by (simp_all add: edge_of_def JobEdge_def)

lemma needed_closed:
  assumes "j \<in> needed streams i" "(j, p) \<in> stream_parents streams"
  shows "p \<in> needed streams i"
  using assms unfolding needed_def by (auto intro: rtrancl_into_rtrancl)

lemma graph_of_wf:
  assumes ok: "context_ok sc" and g: "graph_of (sc_streams sc) g"
    and V: "vids g = (\<Union>i \<in> S. needed (sc_streams sc) i)"
    and E: "epairs g = (\<Union>i \<in> S. needed_edges (sc_streams sc) i)"
  shows "graph_wf g"
proof -
  let ?s = "sc_streams sc"
  have par: "(p, j) \<in> epairs g \<longleftrightarrow> j \<in> vids g \<and> (j, p) \<in> stream_parents ?s" for p j
    unfolding E V needed_edges_def by auto
  have lt: "p < j \<and> map_of ?s p \<noteq> None" if "(j, p) \<in> stream_parents ?s" for j p
    using that context_okD [OF ok, of j] by (fastforce simp: stream_parents_def stream_ok_def split: option.splits)
  have clos: "p \<in> vids g" if "j \<in> vids g" "(j, p) \<in> stream_parents ?s" for j p
    using that needed_closed unfolding V by fast
  have e: "je_source_vertex_id e \<in> vids g \<and> je_target_vertex_id e \<in> vids g \<and>
      je_source_vertex_id e < je_target_vertex_id e \<and> je_target_operator_id e = je_target_vertex_id e"
    if "e \<in> set (jg_job_edges g)" for e
  proof -
    from g that obtain i st p parent where eo: "e = edge_of p parent i st"
      "map_of ?s i = Some st" "map_of ?s p = Some parent"
      unfolding graph_of_def by blast
    with that have "(p, i) \<in> epairs g" by (auto simp: epairs_def intro!: rev_image_eqI [of e])
    with par lt clos eo show ?thesis by auto
  qed
  have inp: "get_vertex_input_edges g i = [] \<longleftrightarrow> (\<nexists>p. (i, p) \<in> stream_parents ?s)" if "i \<in> vids g" for i
  proof -
    have "get_vertex_input_edges g i = [] \<longleftrightarrow> (\<nexists>p. (p, i) \<in> epairs g)"
      by (auto simp: get_vertex_input_edges_def filter_empty_conv epairs_def epair_def)
    with par that show ?thesis by auto
  qed
  have v: "(jv_vertex_type v = SOURCE_V \<longleftrightarrow> get_vertex_input_edges g (jv_vertex_id v) = []) \<and>
      (\<forall>e. get_vertex_input_edges g (jv_vertex_id v) = [e] \<and> is_forward (je_partition e) \<longrightarrow>
         op_type (jv_stream_operator v) = ONE_INPUT_OP)"
    if "v \<in> set (jg_job_vertices g)" for v
  proof -
    let ?i = "jv_vertex_id v"
    from g that obtain st where st: "map_of ?s ?i = Some st" and vo: "v = vertex_of ?i st"
      unfolding graph_of_def by blast
    have i: "?i \<in> vids g" using that by (simp add: vids_def)
    have sok: "stream_ok ?s ?i st" using context_okD [OF ok st] by simp
    have ty: "jv_vertex_type v = vertex_type_of (st_kind st)" "jv_stream_operator v = st_operator st"
      by (subst vo, simp add: vertex_of_def)+
    have "jv_vertex_type v = SOURCE_V \<longleftrightarrow> get_vertex_input_edges g ?i = []"
      using sok st by (auto simp: ty inp [OF i] stream_parents_def stream_ok_def split: option.splits)
    moreover have "op_type (jv_stream_operator v) = ONE_INPUT_OP"
      if one: "get_vertex_input_edges g ?i = [e]" and fwd: "is_forward (je_partition e)" for e
    proof (cases "st_kind st = JOIN_STREAM")
      case True
      with sok obtain p q where p: "st_input st = Some p" "map_of ?s p = Some q" "st_kind q = KEY_DATA_STREAM"
        by (auto simp: stream_ok_def split: option.splits)
      then have "(p, ?i) \<in> epairs g" using st par i by (auto simp: stream_parents_def)
      then obtain f where f: "f \<in> set (jg_job_edges g)" "epair f = (p, ?i)"
        by (auto simp: epairs_def)
      then have "f \<in> set (get_vertex_input_edges g ?i)"
        by (auto simp: get_vertex_input_edges_def epair_def)
      with one have "f = e" by simp
      from g f(1) obtain i' st' p' parent where fe: "f = edge_of p' parent i' st'"
        "map_of ?s p' = Some parent" "map_of ?s i' = Some st'"
        unfolding graph_of_def by blast
      with f(2) p(2) have "parent = q" by simp
      with fe have "je_partition f = st_partition q" by simp
      moreover have "st_partition q = KeyPartition"
        using context_okD [OF ok p(2)] p(3) by (simp add: stream_ok_def)
      ultimately show ?thesis using fwd \<open>f = e\<close> by (simp add: is_forward_def)
    next
      case False
      have "st_kind st \<noteq> STREAM_SOURCE"
        using \<open>jv_vertex_type v = SOURCE_V \<longleftrightarrow> _\<close> one by (simp add: ty)
      with False sok show ?thesis
        by (cases "st_kind st") (simp_all add: ty stream_ok_def)
    qed
    ultimately show ?thesis by blast
  qed
  from g e v show ?thesis unfolding graph_wf_def graph_of_def by blast
qed

lemma build_graph_wf:
  assumes "stream_program sc" "sc_id_generator sc < depth" "build_graph depth sc = Inr g"
  shows "graph_wf g"
  using build_graph_spec [OF assms(1,2)] assms(3)
  by (auto intro: graph_of_wf [OF stream_program_ok [OF assms(1)]])

lemma build_graph_vids:
  assumes "stream_program sc" "sc_id_generator sc < depth" "build_graph depth sc = Inr g"
  shows "card (vids g) \<le> depth"
proof -
  have "i \<le> sc_id_generator sc" if "i \<in> vids g" for i
  proof -
    from that obtain v where "v \<in> set (jg_job_vertices g)" "jv_vertex_id v = i"
      by (auto simp: vids_def)
    moreover have "graph_of (sc_streams sc) g" using build_graph_spec [OF assms(1,2)] assms(3) by auto
    ultimately obtain st where "map_of (sc_streams sc) i = Some st" unfolding graph_of_def by blast
    with context_okD [OF stream_program_ok [OF assms(1)]] show ?thesis by blast
  qed
  with assms(2) have "vids g \<subseteq> {..<depth}" by fastforce
  from card_mono [OF _ this] show ?thesis by simp
qed

text \<open>
  C6. Building the job graph of any program written against the streaming API succeeds and is
  exact: the graph has one vertex for every stream some sink depends on, with that stream's
  operator, type and parallelism, one edge for every pair of a stream and its input, with the
  input's partitioning, and nothing else.
\<close>

theorem build_graph_exact:
  assumes "stream_program sc" and "sc_id_generator sc < depth"
  shows "\<exists>g. build_graph depth sc = Inr g \<and> graph_of (sc_streams sc) g \<and>
    vids g = (\<Union>i \<in> set (sc_stream_sinks sc). needed (sc_streams sc) i) \<and>
    epairs g = (\<Union>i \<in> set (sc_stream_sinks sc). needed_edges (sc_streams sc) i)"
  using build_graph_spec [OF assms] by blast

text \<open>A program with a source, a map and a sink.\<close>

definition sample_program :: "(nat, nat, nat) streaming_context result" where
  "sample_program =
     rbind (api_source 0 sc_init) (\<lambda>(s, sc).
     rbind (api_transform ''MapOperator'' 1 s sc) (\<lambda>(m, sc).
     rbind (api_sink 2 m sc) (\<lambda>(_, sc). Inr sc)))"

lemma sample_program_ok: "sample_program = Inr (projr sample_program)"
  "stream_program (projr sample_program)" "sc_id_generator (projr sample_program) = 3"
proof -
  let ?s1 = "snd (projr (api_source 0 sc_init :: (nat \<times> (nat, nat, nat) streaming_context) result))"
  let ?s2 = "snd (projr (api_transform ''MapOperator'' 1 1 ?s1))"
  let ?s3 = "snd (projr (api_sink 2 2 ?s2))"
  note ev = sample_program_def api_source_def api_transform_def api_sink_def new_stream_def generate_id_def
    stream_method_def is_data_stream_def sc_init_def Let_def
  have r1: "api_source 0 sc_init = Inr (1, ?s1)" by (simp add: ev)
  have r2: "api_transform ''MapOperator'' 1 1 ?s1 = Inr (2, ?s2)" by (simp add: ev)
  have r3: "api_sink 2 2 ?s2 = Inr (3, ?s3)" by (simp add: ev)
  have p: "sample_program = Inr ?s3" by (simp add: ev)
  from p show "sample_program = Inr (projr sample_program)" by (metis sum.sel(2))
  have "stream_program ?s3"
    by (rule stream_program.sink [OF stream_program.transform [OF stream_program.source [OF stream_program.start r1] r2] r3])
  with p show "stream_program (projr sample_program)" by (metis sum.sel(2))
  show "sc_id_generator (projr sample_program) = 3" by (simp add: ev)
qed

theorem build_graph_exact_witness:
  "\<exists>g. build_graph 5 (projr sample_program) = Inr g \<and> graph_of (sc_streams (projr sample_program)) g \<and>
    vids g = (\<Union>i \<in> set (sc_stream_sinks (projr sample_program)). needed (sc_streams (projr sample_program)) i) \<and>
    epairs g = (\<Union>i \<in> set (sc_stream_sinks (projr sample_program)). needed_edges (sc_streams (projr sample_program)) i)"
  by (rule build_graph_exact [OF sample_program_ok(2)]) (simp add: sample_program_ok(3))

text \<open>
  A stream joined with itself keeps only one of its two edges: the edges are identified by
  their end points, so the right edge is dropped as a duplicate of the left one and the join
  vertex has a single, left, input.
\<close>

theorem self_join_single_edge:
  assumes "stream_program sc" and "sc_id_generator sc < depth" and "build_graph depth sc = Inr g"
    and "map_of (sc_streams sc) i = Some st" and "st_kind st = JOIN_STREAM" and "st_right st = st_input st"
    and "i \<in> vids g"
  shows "\<exists>e. get_vertex_input_edges g i = [e] \<and> \<not> je_is_join_right_edge e"
proof -
  let ?s = "sc_streams sc"
  from build_graph_spec [OF assms(1,2)] assms(3) have g: "graph_of ?s g"
    and V: "vids g = (\<Union>i \<in> set (sc_stream_sinks sc). needed ?s i)"
    and E: "epairs g = (\<Union>i \<in> set (sc_stream_sinks sc). needed_edges ?s i)" by auto
  have "stream_ok ?s i st" using context_okD [OF stream_program_ok [OF assms(1)] assms(4)] by simp
  with assms(5,6) obtain p where p: "st_input st = Some p" "st_right st = Some p"
    by (auto simp: stream_ok_def split: option.splits)
  then have par: "(i, q) \<in> stream_parents ?s \<longleftrightarrow> q = p" for q
    using assms(4) by (auto simp: stream_parents_def)
  have ep: "(q, i) \<in> epairs g \<longleftrightarrow> q = p" for q
    using assms(7) par unfolding E V needed_edges_def by blast
  have pairs: "epair e = (p, i)" if "e \<in> set (get_vertex_input_edges g i)" for e
  proof -
    from that have "epair e \<in> epairs g" "je_target_vertex_id e = i"
      by (auto simp: get_vertex_input_edges_def epairs_def)
    then show ?thesis using ep by (simp add: epair_def)
  qed
  have "distinct (map epair (get_vertex_input_edges g i))"
    using g by (simp add: graph_of_def get_vertex_input_edges_def distinct_map inj_on_def)
  then have "length (get_vertex_input_edges g i) = card (set (map epair (get_vertex_input_edges g i)))"
    using distinct_card by fastforce
  also have "\<dots> \<le> card {(p, i)}" by (rule card_mono) (use pairs in auto)
  finally have "length (get_vertex_input_edges g i) \<le> 1" by simp
  moreover obtain e where e: "e \<in> set (jg_job_edges g)" "epair e = (p, i)"
    using ep [of p] by (auto simp: epairs_def)
  then have in_e: "e \<in> set (get_vertex_input_edges g i)"
    by (auto simp: get_vertex_input_edges_def epair_def)
  ultimately have "get_vertex_input_edges g i = [e]"
    by (cases "get_vertex_input_edges g i") auto
  moreover from g e(1) obtain j st' q parent where "map_of ?s j = Some st'" "map_of ?s q = Some parent"
    "e = edge_of q parent j st'" unfolding graph_of_def by blast
  with e(2) assms(4) p(1) have "\<not> je_is_join_right_edge e" by (auto simp: edge_of_def epair_def JobEdge_def)
  ultimately show ?thesis by blast
qed

text \<open>A keyed stream joined with itself.\<close>

definition self_join_program :: "(nat, nat, nat) streaming_context" where
  "self_join_program =
     \<lparr>sc_id_generator = 4,
      sc_streams =
        [(1, \<lparr>st_kind = STREAM_SOURCE, st_input = None, st_right = None, st_parallelism = 1,
              st_operator = Op ''SourceOperator'' SOURCE_OP 0, st_partition = ForwardPartition\<rparr>),
         (2, \<lparr>st_kind = KEY_DATA_STREAM, st_input = Some 1, st_right = None, st_parallelism = 1,
              st_operator = Op ''KeyByOperator'' ONE_INPUT_OP 0, st_partition = KeyPartition\<rparr>),
         (3, \<lparr>st_kind = JOIN_STREAM, st_input = Some 2, st_right = Some 2, st_parallelism = 1,
              st_operator = Op ''JoinOperator'' TWO_INPUT_OP 0, st_partition = ForwardPartition\<rparr>),
         (4, \<lparr>st_kind = STREAM_SINK, st_input = Some 3, st_right = None, st_parallelism = 1,
              st_operator = Op ''SinkOperator'' ONE_INPUT_OP 0, st_partition = ForwardPartition\<rparr>)],
      sc_stream_sinks = [4]\<rparr>"

lemma self_join_program_ok: "stream_program self_join_program"
proof -
  let ?s1 = "snd (projr (api_source 0 sc_init :: (nat \<times> (nat, nat, nat) streaming_context) result))"
  let ?s2 = "snd (projr (api_key_by 0 1 ?s1))"
  let ?s3 = "snd (projr (api_join 0 2 2 ?s2))"
  note ev = api_source_def api_key_by_def api_join_def api_sink_def new_stream_def generate_id_def
    stream_method_def is_data_stream_def sc_init_def Let_def
  have r1: "api_source 0 sc_init = Inr (1, ?s1)" by (simp add: ev)
  have r2: "api_key_by 0 1 ?s1 = Inr (2, ?s2)" by (simp add: ev)
  have r3: "api_join 0 2 2 ?s2 = Inr (3, ?s3)" by (simp add: ev)
  have r4: "api_sink 0 3 ?s3 = Inr (4, self_join_program)" by (simp add: ev self_join_program_def)
  show ?thesis
    by (rule stream_program.sink [OF stream_program.join [OF stream_program.key_by
          [OF stream_program.source [OF stream_program.start r1] r2] r3] r4])
qed

theorem self_join_single_edge_witness:
  "\<exists>e. get_vertex_input_edges (projr (build_graph 5 self_join_program)) 3 = [e] \<and>
     \<not> je_is_join_right_edge e"
proof -
  let ?st = "the (map_of (sc_streams self_join_program) 3)"
  have b: "is_ok (build_graph 5 self_join_program)"
    by (simp add: build_graph_def self_join_program_def eval_nat_numeral)
  have v: "3 \<in> vids (projr (build_graph 5 self_join_program))"
    by (simp add: build_graph_def self_join_program_def eval_nat_numeral)
  show ?thesis
    by (rule self_join_single_edge [OF self_join_program_ok _ _ _ _ _ v, of 5 ?st])
      (use b in \<open>auto simp: self_join_program_def is_ok_iff\<close>)
qed

end
