(* ===== verification/Dataset_API.thy ===== *)
theory Dataset_API
  imports Job_Graph Storage Windows
begin

text \<open>
  The declarative dataset layer: schemas (\<open>api/dataset/schema.py\<close>), dataset declarations
  (\<open>api/dataset/dataset.py\<close>), connectors and the source decorator (\<open>api/source/source.py\<close>),
  the operator nodes with their schemas and the functions they run on events
  (\<open>api/dataset/operators.py\<close>), and the client that compiles a pipeline to a stream program
  (\<open>client/client.py\<close>). An event is a dictionary from field names to values of any type
  \<open>'a\<close>; the recogniser of time strings and the enumeration order of sets are parameters.
\<close>

section \<open>Types and schemas\<close>

datatype py_type =
    TDatetime
  | TDatetimeName
  | TNone
  | TUnion "py_type list"
  | TOther string

definition is_optional :: "py_type \<Rightarrow> bool" where
  "is_optional t = (case t of TUnion (a # b # ts) \<Rightarrow> b = TNone | _ \<Rightarrow> False)"

record schema =
  sch_keys :: "(string, py_type) dict"
  sch_values :: "(string, py_type) dict"
  sch_timestamp :: string

text \<open>\<open>{**a, **b}\<close>\<close>

definition dict_merge :: "('k, 'v) dict \<Rightarrow> ('k, 'v) dict \<Rightarrow> ('k, 'v) dict" where
  "dict_merge a b = fold (\<lambda>(k, v) d. AList.update k v d) b a"

definition schema_to_dict :: "schema \<Rightarrow> (string, py_type) dict" where
  "schema_to_dict s = AList.update (sch_timestamp s) TDatetime (dict_merge (sch_keys s) (sch_values s))"

definition schema_fields :: "schema \<Rightarrow> string list" where
  "schema_fields s = dict_keys (sch_keys s) @ dict_keys (sch_values s) @ [sch_timestamp s]"

definition schema_get_type :: "schema \<Rightarrow> string \<Rightarrow> py_type result" where
  "schema_get_type s field =
     (case map_of (sch_keys s) field of
        Some t \<Rightarrow> Inr t
      | None \<Rightarrow> (case map_of (sch_values s) field of
          Some t \<Rightarrow> Inr t
        | None \<Rightarrow> if field = sch_timestamp s then Inr TDatetime else Inl ValueError))"

section \<open>Dataset declarations\<close>

record ds_field =
  f_name :: string
  f_key :: bool
  f_timestamp :: bool
  f_dtype :: py_type

text \<open>
  \<open>attr\<close> is the \<open>field(...)\<close> object the class body assigns to the annotated name, as its
  \<open>key\<close> and \<open>timestamp\<close> flags, if it assigns one.
\<close>

definition get_field :: "(bool \<times> bool) option \<Rightarrow> string \<Rightarrow> py_type \<Rightarrow> ds_field result" where
  "get_field attr annotation_name dtype =
     (if CHR ''.'' \<in> set annotation_name then Inl ValueError
      else let f = (case attr of
                      Some (key, timestamp) \<Rightarrow>
                        \<lparr>f_name = annotation_name, f_key = key, f_timestamp = timestamp, f_dtype = dtype\<rparr>
                    | None \<Rightarrow>
                        \<lparr>f_name = annotation_name, f_key = False, f_timestamp = False, f_dtype = dtype\<rparr>)
           in if f_key f \<and> is_optional (f_dtype f) then Inl ValueError else Inr f)"

definition RESERVED_FIELD_NAMES :: "string list" where
  "RESERVED_FIELD_NAMES =
     [''cls'', ''self'', ''fields'', ''key_fields'', ''on_demand'', ''timestamp_field'', ''fqn'']"

fun validate_field_names :: "string list \<Rightarrow> nat \<Rightarrow> ds_field list \<Rightarrow> unit result" where
  "validate_field_names names exceptions [] = (if exceptions \<noteq> 0 then Inl PyException else Inr ())"
| "validate_field_names names exceptions (f # fs) =
     (if f_name f \<in> set names then Inl PyException
      else validate_field_names (set_add (f_name f) names)
             (if f_name f \<in> set RESERVED_FIELD_NAMES then exceptions + 1 else exceptions) fs)"

text \<open>The two loops of \<open>_set_timestamp_field\<close>: over flagged fields, then over datetime fields.\<close>

fun flagged_timestamp :: "string option \<Rightarrow> ds_field list \<Rightarrow> string option result" where
  "flagged_timestamp cur [] = Inr cur"
| "flagged_timestamp cur (f # fs) =
     (if f_timestamp f
      then if cur \<noteq> None then Inl ValueError else flagged_timestamp (Some (f_name f)) fs
      else flagged_timestamp cur fs)"

definition is_datetime :: "ds_field \<Rightarrow> bool" where
  "is_datetime f \<longleftrightarrow> f_dtype f = TDatetime \<or> f_dtype f = TDatetimeName"

fun typed_timestamp :: "string option \<Rightarrow> ds_field list \<Rightarrow> (string option \<times> ds_field list) result" where
  "typed_timestamp cur [] = Inr (cur, [])"
| "typed_timestamp cur (f # fs) =
     (if \<not> is_datetime f
      then rbind (typed_timestamp cur fs) (\<lambda>(r, fs'). Inr (r, f # fs'))
      else if cur = None
      then rbind (typed_timestamp (Some (f_name f)) fs) (\<lambda>(r, fs'). Inr (r, f\<lparr>f_timestamp := True\<rparr> # fs'))
      else Inl ValueError)"

definition set_timestamp_field :: "ds_field list \<Rightarrow> (string \<times> ds_field list) result" where
  "set_timestamp_field flds =
     rbind (flagged_timestamp None flds) (\<lambda>flagged.
       case flagged of
         Some ts \<Rightarrow> Inr (ts, flds)
       | None \<Rightarrow> rbind (typed_timestamp None flds) (\<lambda>(r, flds').
           case r of Some ts \<Rightarrow> Inr (ts, flds') | None \<Rightarrow> Inl ValueError))"

section \<open>Connectors\<close>

datatype 'a connector =
    KafkaConnector string string string string
  | MysqlConnector string string string string string string
  | MockOfflineConnector "(string, 'a) dict list"
  | MockOnlineConnector "(string, 'a) dict list" nat

record 'a dataset =
  ds_name :: string
  ds_fields :: "ds_field list"
  ds_timestamp_field :: string
  ds_key_fields :: "string list"
  ds_connectors :: "(string, 'a connector) dict option"

text \<open>
  \<open>@dataset\<close> on a class: its name, its annotations in order and the \<open>field(...)\<close> attributes.
\<close>

definition create_dataset ::
    "string \<Rightarrow> (string \<times> py_type) list \<Rightarrow> (string \<Rightarrow> (bool \<times> bool) option) \<Rightarrow> 'a dataset result" where
  "create_dataset name annotations attrs =
     rbind (rmap (\<lambda>(n, t). get_field (attrs n) n t) annotations) (\<lambda>flds.
     rbind (validate_field_names [] 0 flds) (\<lambda>_.
     rbind (set_timestamp_field flds) (\<lambda>(ts, flds').
       Inr \<lparr>ds_name = name, ds_fields = flds', ds_timestamp_field = ts,
            ds_key_fields = map f_name (filter f_key flds'), ds_connectors = None\<rparr>)))"

definition dataset_schema :: "'a dataset \<Rightarrow> schema" where
  "dataset_schema d =
     \<lparr>sch_keys = map (\<lambda>f. (f_name f, f_dtype f)) (filter f_key (ds_fields d)),
      sch_values = map (\<lambda>f. (f_name f, f_dtype f))
        (filter (\<lambda>f. \<not> f_key f \<and> f_name f \<noteq> ds_timestamp_field d) (ds_fields d)),
      sch_timestamp = ds_timestamp_field d\<rparr>"

text \<open>\<open>@source(conn, tag)\<close>\<close>

definition source_decorator :: "'a connector \<Rightarrow> string \<Rightarrow> 'a dataset \<Rightarrow> 'a dataset result" where
  "source_decorator conn tag d =
     (let connectors = (case ds_connectors d of Some c \<Rightarrow> c | None \<Rightarrow> [])
      in if dict_mem tag connectors then Inl ValueError
         else Inr (d\<lparr>ds_connectors := Some (AList.update tag conn connectors)\<rparr>))"

definition is_source :: "'a dataset \<Rightarrow> bool" where
  "is_source d \<longleftrightarrow> ds_connectors d \<noteq> None"

definition select_connector :: "string option \<Rightarrow> (string, 'a connector) dict \<Rightarrow> 'a connector result" where
  "select_connector source_tag source_connectors =
     (case source_tag of
        None \<Rightarrow>
          if length source_connectors > 1 then Inl ValueError
          else (case dict_values source_connectors of [] \<Rightarrow> Inl IndexError | c # _ \<Rightarrow> Inr c)
      | Some tag \<Rightarrow>
          (case map_of source_connectors tag of None \<Rightarrow> Inl ValueError | Some c \<Rightarrow> Inr c))"

section \<open>Operator nodes\<close>

type_synonym 'a event = "(string, 'a) dict"

datatype agg_kind = CountAgg | SumAgg | AvgAgg | MaxAgg | MinAgg

text \<open>An aggregate: its kind, window, target field and the field it reads.\<close>

record aggregate_type =
  at_kind :: agg_kind
  at_window :: string
  at_into :: string
  at_on :: "string option"

fun at_get_type :: "agg_kind \<Rightarrow> agg_type" where
  "at_get_type CountAgg = AGG_COUNT"
| "at_get_type SumAgg = AGG_SUM"
| "at_get_type AvgAgg = AGG_AVG"
| "at_get_type MaxAgg = AGG_MAX"
| "at_get_type MinAgg = AGG_MIN"

datatype 'a op_node =
    NDataset "'a dataset"
  | NTransform "'a op_node" "'a event \<Rightarrow> 'a event result" "(string, py_type) dict option"
  | NAssign "'a op_node" string py_type "'a event \<Rightarrow> 'a result"
  | NFilter "'a op_node" "'a event \<Rightarrow> bool result"
  | NAggregate "'a op_node" "aggregate_type list"
  | NGroupBy "'a op_node" "string list"
  | NJoin "'a op_node" "'a op_node" "string list option" "string list option" "string list option" "string list"
  | NRename "'a op_node" "(string, string) dict"
  | NDrop "'a op_node" "string list"
  | NDropNull "'a op_node" "string list option"

text \<open>The schema of a transformation with a new schema dictionary: only value fields change.\<close>

definition transform_schema :: "(string, py_type) dict option \<Rightarrow> schema \<Rightarrow> schema result" where
  "transform_schema new_schema_dict input_schema =
     (case new_schema_dict of
        None \<Rightarrow> Inr input_schema
      | Some d \<Rightarrow>
          rbind (rfold (\<lambda>(field, t) values.
                   if dict_mem field (sch_keys input_schema) \<or> field = sch_timestamp input_schema then Inr values
                   else if dict_mem field values then Inl ValueError
                   else Inr (AList.update field t values)) d []) (\<lambda>values.
            Inr \<lparr>sch_keys = sch_keys input_schema, sch_values = values,
                 sch_timestamp = sch_timestamp input_schema\<rparr>))"

definition prefix_duplicate_field :: "string \<Rightarrow> bool \<Rightarrow> string" where
  "prefix_duplicate_field field is_left = (if is_left then ''left_'' @ field else ''right_'' @ field)"

text \<open>\<open>list(set(a) & set(b))\<close>, in the order \<open>enum\<close> gives.\<close>

definition same_fields :: "(string list \<Rightarrow> string list) \<Rightarrow> schema \<Rightarrow> schema \<Rightarrow> string list" where
  "same_fields enum ls rs = enum (filter (\<lambda>f. f \<in> set (schema_fields rs)) (remdups (schema_fields ls)))"

text \<open>One side of the joined values; \<open>left\<close> tells which side, the right one keeps its timestamp.\<close>

definition joined_value ::
    "bool \<Rightarrow> schema \<Rightarrow> string list \<Rightarrow> string \<Rightarrow> (string, py_type) dict \<Rightarrow> string \<Rightarrow>
     (string, py_type) dict \<Rightarrow> (string, py_type) dict result" where
  "joined_value left s same ts keys f values =
     (if f = ts \<or> dict_mem f keys then Inr values
      else let new_f = (if f \<in> set same then prefix_duplicate_field f left else f)
           in if dict_mem new_f values then Inl RuntimeError
              else (case map_of (sch_values s) f of
                      Some t \<Rightarrow> Inr (AList.update new_f t values)
                    | None \<Rightarrow> (case map_of (sch_keys s) f of
                        Some t \<Rightarrow> Inr (AList.update new_f t values)
                      | None \<Rightarrow>
                          if \<not> left \<and> f = sch_timestamp s then Inr (AList.update new_f TDatetime values)
                          else Inl ValueError)))"

definition joined_schema ::
    "schema \<Rightarrow> schema \<Rightarrow> string list option \<Rightarrow> string list option \<Rightarrow> schema result" where
  "joined_schema ls rs on left_on =
     (let same = filter (\<lambda>f. f \<in> set (schema_fields rs)) (schema_fields ls);
          ts = sch_timestamp ls
      in rbind (case on of Some ks \<Rightarrow> Inr ks | None \<Rightarrow>
                  (case left_on of Some ks \<Rightarrow> Inr ks | None \<Rightarrow> Inl TypeError)) (\<lambda>ks.
         rbind (rfold (\<lambda>k keys. rbind (dict_get (sch_keys ls) k) (\<lambda>t. Inr (AList.update k t keys))) ks []) (\<lambda>keys.
         rbind (rfold (joined_value True ls same ts keys) (schema_fields ls) []) (\<lambda>values1.
         rbind (rfold (joined_value False rs same ts keys) (schema_fields rs) values1) (\<lambda>values.
           Inr \<lparr>sch_keys = keys, sch_values = values, sch_timestamp = ts\<rparr>)))))"

fun node_schema :: "'a op_node \<Rightarrow> schema result" where
  "node_schema (NDataset d) = Inr (dataset_schema d)"
| "node_schema (NTransform p f ns) = rbind (node_schema p) (transform_schema ns)"
| "node_schema (NAssign p c t f) = Inl NotImplementedError"
| "node_schema (NFilter p f) = node_schema p"
| "node_schema (NAggregate p aggs) = Inl NotImplementedError"
| "node_schema (NGroupBy p ks) = node_schema p"
| "node_schema (NJoin l r on left_on right_on same) =
     rbind (node_schema l) (\<lambda>ls. rbind (node_schema r) (\<lambda>rs. joined_schema ls rs on left_on))"
| "node_schema (NRename p cs) = Inl NotImplementedError"
| "node_schema (NDrop p cs) = Inl NotImplementedError"
| "node_schema (NDropNull p cs) = Inl NotImplementedError"

text \<open>The user-facing constructors, with their checks.\<close>

definition api_group_by :: "'a op_node \<Rightarrow> string list \<Rightarrow> 'a op_node result" where
  "api_group_by p ks = (if length ks \<noteq> 1 then Inl ValueError else Inr (NGroupBy p ks))"

definition api_aggregate :: "'a op_node \<Rightarrow> aggregate_type list \<Rightarrow> 'a op_node result" where
  "api_aggregate p aggs =
     (case p of
        NGroupBy _ _ \<Rightarrow> if aggs = [] then Inl ValueError else Inr (NAggregate p aggs)
      | _ \<Rightarrow> Inl AttributeError)"

definition bad_key_count :: "string list option \<Rightarrow> bool" where
  "bad_key_count ks = (case ks of None \<Rightarrow> False | Some l \<Rightarrow> length l \<noteq> 1)"

definition join_node_init ::
    "(string list \<Rightarrow> string list) \<Rightarrow> 'a op_node \<Rightarrow> 'a op_node \<Rightarrow> string list option \<Rightarrow>
     string list option \<Rightarrow> string list option \<Rightarrow> 'a op_node result" where
  "join_node_init enum l r on left_on right_on =
     (if bad_key_count on \<or> bad_key_count left_on \<or> bad_key_count right_on then Inl ValueError
      else if (left_on = None) \<noteq> (right_on = None) then Inl ValueError
      else rbind (node_schema l) (\<lambda>ls. rbind (node_schema r) (\<lambda>rs.
        Inr (NJoin l r on left_on right_on (same_fields enum ls rs)))))"

definition node_join ::
    "(string list \<Rightarrow> string list) \<Rightarrow> 'a op_node \<Rightarrow> 'a op_node \<Rightarrow> string list option \<Rightarrow>
     string list option \<Rightarrow> string list option \<Rightarrow> 'a op_node result" where
  "node_join enum l r on left_on right_on =
     (if on = None \<and> (left_on = None \<or> right_on = None) then Inl ValueError
      else join_node_init enum l r on left_on right_on)"

definition node_select :: "'a op_node \<Rightarrow> string list \<Rightarrow> 'a op_node result" where
  "node_select p columns =
     rbind (node_schema p) (\<lambda>s.
       let drop_cols = filter (\<lambda>c. c \<notin> set columns \<and> c \<noteq> sch_timestamp s) (schema_fields s)
       in Inr (if drop_cols = [] then p else NDrop p drop_cols))"

section \<open>What the nodes do to events\<close>

text \<open>
  Transform and Filter call the user's function; the operations of Assign, Rename, Drop and
  DropNull are not implemented and raise for every event.
\<close>

definition transform_map_func :: "('a event \<Rightarrow> 'a event result) \<Rightarrow> 'a event \<Rightarrow> 'a event result" where
  "transform_map_func func event = func event"

definition filter_func :: "('a event \<Rightarrow> bool result) \<Rightarrow> 'a event \<Rightarrow> bool result" where
  "filter_func func event = func event"

definition assign_map_func :: "'a event \<Rightarrow> 'a event result" where
  "assign_map_func event = Inl NotImplementedError"

definition rename_map_func :: "'a event \<Rightarrow> 'a event result" where
  "rename_map_func event = Inl NotImplementedError"

definition drop_filter_func :: "'a event \<Rightarrow> bool result" where
  "drop_filter_func event = Inl NotImplementedError"

definition dropnull_filter_func :: "'a event \<Rightarrow> bool result" where
  "dropnull_filter_func event = Inl NotImplementedError"

definition group_by_key :: "string list \<Rightarrow> 'a event \<Rightarrow> 'a result" where
  "group_by_key ks event =
     (case ks of
        [] \<Rightarrow> Inl IndexError
      | key # _ \<Rightarrow> (case map_of event key of None \<Rightarrow> Inl RuntimeError | Some v \<Rightarrow> Inr v))"

definition join_key :: "string list option \<Rightarrow> string list option \<Rightarrow> 'a event \<Rightarrow> 'a result" where
  "join_key on side_on element =
     (case (case on of None \<Rightarrow> side_on | Some _ \<Rightarrow> on) of
        None \<Rightarrow> Inl TypeError
      | Some [] \<Rightarrow> Inl IndexError
      | Some (key # _) \<Rightarrow> dict_get element key)"

text \<open>
  \<open>_stream_join_func\<close> renames the shared fields inside the two events it is given; the events
  are the ones the join operator stores. The result holds the changed events and the output.
\<close>

definition join_field :: "string \<Rightarrow> 'a event \<times> 'a event \<Rightarrow> ('a event \<times> 'a event) result" where
  "join_field k st =
     (case st of (left, right) \<Rightarrow>
        rbind (case map_of left k of
                 None \<Rightarrow> Inr left
               | Some v \<Rightarrow>
                   let new_k = prefix_duplicate_field k True
                   in if dict_mem new_k left then Inl AssertionError
                      else Inr (AList.delete k (AList.update new_k v left))) (\<lambda>left1.
        case map_of right k of
          None \<Rightarrow> Inr (left1, right)
        | Some v \<Rightarrow>
            let new_k = prefix_duplicate_field k False
            in if dict_mem new_k right then Inl AssertionError
               else Inr (AList.update new_k v left1, AList.delete k right)))"

definition stream_join_func ::
    "string list \<Rightarrow> 'a event \<Rightarrow> 'a event \<Rightarrow> (('a event \<times> 'a event) \<times> 'a event) result" where
  "stream_join_func same left right =
     rbind (rfold join_field same (left, right)) (\<lambda>(left', right').
       Inr ((left', right'), dict_merge left' right'))"

text \<open>\<open>_stream_join_func_new\<close>, which builds a new event and skips fields outside the schema.\<close>

definition copy_field ::
    "bool \<Rightarrow> string list \<Rightarrow> schema \<Rightarrow> string \<times> 'a \<Rightarrow> 'a event \<Rightarrow> 'a event" where
  "copy_field left same s fv out =
     (case fv of (f, v) \<Rightarrow>
        if f \<in> set same then AList.update (prefix_duplicate_field f left) v out
        else if f \<notin> set (schema_fields s) then out
        else AList.update f v out)"

definition stream_join_func_new :: "string list \<Rightarrow> schema \<Rightarrow> 'a event \<Rightarrow> 'a event \<Rightarrow> 'a event" where
  "stream_join_func_new same s left right =
     fold (copy_field False same s) right (fold (copy_field True same s) left [])"

text \<open>The record a window aggregation emits, built from the target schema.\<close>

definition output_window_func ::
    "('a \<Rightarrow> bool) \<Rightarrow> schema \<Rightarrow> (string, 'a) dict \<Rightarrow> ('k, 'a event) srec \<Rightarrow> ('k, 'a event) srec result" where
  "output_window_func is_time output_schema aggs_per_window record =
     (let record_value = rec_value record
      in rbind (rfold (\<lambda>k res. case map_of record_value k of
                         None \<Rightarrow> Inl RuntimeError
                       | Some v \<Rightarrow> Inr (AList.update k v res)) (dict_keys (sch_keys output_schema)) []) (\<lambda>res.
         rbind (case filter is_time (dict_values record_value) of
                  [] \<Rightarrow> Inl RuntimeError
                | v # _ \<Rightarrow> Inr (AList.update (sch_timestamp output_schema) v res)) (\<lambda>res.
         rbind (rfold (\<lambda>v res. case map_of aggs_per_window v of
                         None \<Rightarrow> Inl RuntimeError
                       | Some x \<Rightarrow> Inr (AList.update v x res)) (dict_keys (sch_values output_schema)) res) (\<lambda>res.
           Inr (set_stream_name (rec_stream_name record) (Record res (rec_event_time record) None))))))"

text \<open>\<open>e[key]\<close> with the key bound when the configuration is made; \<open>on\<close> may be left out.\<close>

definition window_configs ::
    "('a \<Rightarrow> rat) \<Rightarrow> aggregate_type list \<Rightarrow> ('a event) window_config list" where
  "window_configs num aggs =
     map (\<lambda>a. \<lparr>wc_duration = at_window a, wc_agg_type = at_get_type (at_kind a),
               wc_agg_on_func = Some (\<lambda>e. case at_on a of
                  None \<Rightarrow> Inl KeyError
                | Some key \<Rightarrow> rbind (dict_get e key) (\<lambda>v. Inr (num v))),
               wc_name = Some (at_into a)\<rparr>) aggs"

section \<open>Compiling a pipeline\<close>

text \<open>The functions the compiled streams carry.\<close>

datatype 'a stream_fn =
    SourceFn "'a connector" string
  | MapFn "'a event \<Rightarrow> 'a event result"
  | FilterFn "'a event \<Rightarrow> bool result"
  | KeyFn "'a event \<Rightarrow> 'a result"
  | JoinFn "string list"
  | WindowFn "aggregate_type list" schema
  | SinkFn string schema bool

type_synonym ('a, 'k, 'v) dsc = "('a stream_fn, 'k, 'v) streaming_context"

definition to_stream_source ::
    "'a connector \<Rightarrow> string \<Rightarrow> ('a, 'k, 'v) dsc \<Rightarrow> (nat \<times> ('a, 'k, 'v) dsc) result" where
  "to_stream_source conn ts_field ctx =
     rbind (case conn of
              MockOfflineConnector items \<Rightarrow> rassert (items \<noteq> []) AssertionError
            | MockOnlineConnector items delay_s \<Rightarrow> rassert (items \<noteq> []) AssertionError
            | _ \<Rightarrow> Inr ()) (\<lambda>_.
       api_source (SourceFn conn ts_field) ctx)"

text \<open>
  \<open>Dataset.init_stream\<close>. A dataset object keeps its stream, so the names of the datasets that
  have one are part of the state; they outlive a compilation.
\<close>

definition dataset_init_stream ::
    "string option \<Rightarrow> 'a dataset \<Rightarrow> ('a, 'k, 'v) dsc \<times> string list \<Rightarrow>
     (nat \<times> ('a, 'k, 'v) dsc \<times> string list) result" where
  "dataset_init_stream source_tag d st =
     (case st of (ctx, inited) \<Rightarrow>
        case ds_connectors d of
          None \<Rightarrow> Inl ValueError
        | Some source_connectors \<Rightarrow>
            if ds_name d \<in> set inited then Inl ValueError
            else rbind (select_connector source_tag source_connectors) (\<lambda>connector.
                 rbind (to_stream_source connector (ds_timestamp_field d) ctx) (\<lambda>(s, ctx').
                   Inr (s, ctx', inited @ [ds_name d]))))"

definition on_stream ::
    "(nat \<Rightarrow> ('a, 'k, 'v) dsc \<Rightarrow> (nat \<times> ('a, 'k, 'v) dsc) result) \<Rightarrow>
     nat \<times> ('a, 'k, 'v) dsc \<times> string list \<Rightarrow> (nat \<times> ('a, 'k, 'v) dsc \<times> string list) result" where
  "on_stream f st =
     (case st of (s, ctx, inited) \<Rightarrow> rbind (f s ctx) (\<lambda>(s', ctx'). Inr (s', ctx', inited)))"

definition init_join ::
    "string list option \<Rightarrow> string list option \<Rightarrow> string list option \<Rightarrow> string list \<Rightarrow> nat \<Rightarrow> nat \<Rightarrow>
     ('a, 'k, 'v) dsc \<Rightarrow> (nat \<times> ('a, 'k, 'v) dsc) result" where
  "init_join on left_on right_on same l r ctx =
     rbind (api_key_by (KeyFn (join_key on left_on)) l ctx) (\<lambda>(kl, ctx).
     rbind (api_key_by (KeyFn (join_key on right_on)) r ctx) (\<lambda>(kr, ctx).
       api_join (JoinFn same) kl kr ctx))"

definition init_aggregate ::
    "aggregate_type list \<Rightarrow> schema \<Rightarrow> nat \<Rightarrow> ('a, 'k, 'v) dsc \<Rightarrow> (nat \<times> ('a, 'k, 'v) dsc) result" where
  "init_aggregate aggs target_schema s ctx =
     rbind (dict_get (sc_streams ctx) s) (\<lambda>st.
     rbind (rassert (st_kind st = KEY_DATA_STREAM) AssertionError) (\<lambda>_.
       api_keyed_transform ''MultiWindowOperator'' (WindowFn aggs target_schema) s ctx))"

fun init_stream_graph ::
    "(string \<Rightarrow> string option) \<Rightarrow> schema \<Rightarrow> 'a op_node \<Rightarrow> ('a, 'k, 'v) dsc \<times> string list \<Rightarrow>
     (nat \<times> ('a, 'k, 'v) dsc \<times> string list) result" where
  "init_stream_graph tags target (NDataset d) st = dataset_init_stream (tags (ds_name d)) d st"
| "init_stream_graph tags target (NTransform p f ns) st =
     rbind (init_stream_graph tags target p st) (on_stream (api_transform ''MapOperator'' (MapFn (transform_map_func f))))"
| "init_stream_graph tags target (NAssign p c t f) st =
     rbind (init_stream_graph tags target p st)
       (on_stream (api_transform ''MapOperator'' (MapFn assign_map_func)))"
| "init_stream_graph tags target (NFilter p f) st =
     rbind (init_stream_graph tags target p st) (on_stream (api_transform ''FilterOperator'' (FilterFn (filter_func f))))"
| "init_stream_graph tags target (NAggregate p aggs) st =
     rbind (init_stream_graph tags target p st) (on_stream (init_aggregate aggs target))"
| "init_stream_graph tags target (NGroupBy p ks) st =
     rbind (init_stream_graph tags target p st) (on_stream (api_key_by (KeyFn (group_by_key ks))))"
| "init_stream_graph tags target (NJoin l r on left_on right_on same) st =
     rbind (init_stream_graph tags target l st) (\<lambda>(sl, st1).
     rbind (init_stream_graph tags target r st1) (on_stream (init_join on left_on right_on same sl)))"
| "init_stream_graph tags target (NRename p cs) st =
     rbind (init_stream_graph tags target p st)
       (on_stream (api_transform ''MapOperator'' (MapFn rename_map_func)))"
| "init_stream_graph tags target (NDrop p cs) st =
     rbind (init_stream_graph tags target p st)
       (on_stream (api_transform ''FilterOperator'' (FilterFn drop_filter_func)))"
| "init_stream_graph tags target (NDropNull p cs) st =
     rbind (init_stream_graph tags target p st)
       (on_stream (api_transform ''FilterOperator'' (FilterFn dropnull_filter_func)))"

text \<open>
  \<open>materialize_offline\<close> and \<open>materialize_online\<close> up to the submission: \<open>node\<close> is what the
  target's pipeline function returns (there may be no pipeline), \<open>storage\<close> whether the client
  has a storage and whether it is the in-memory one.
\<close>

definition materialize ::
    "bool \<Rightarrow> bool option \<Rightarrow> bool \<Rightarrow> 'a dataset \<Rightarrow> 'a op_node option \<Rightarrow> (string \<Rightarrow> string option) \<Rightarrow>
     string list \<Rightarrow> (('a, 'k, 'v) dsc \<times> string list) result" where
  "materialize hot storage scaling target node tags inited =
     (if scaling then Inl ValueError
      else case node of
        None \<Rightarrow> Inl AttributeError
      | Some n \<Rightarrow>
          rbind (init_stream_graph tags (dataset_schema target) n (sc_init, inited)) (\<lambda>(s, ctx, inited').
            case storage of
              None \<Rightarrow> Inl ValueError
            | Some simple \<Rightarrow>
                if \<not> simple then Inl ValueError
                else rbind (api_sink (SinkFn (ds_name target) (dataset_schema target) hot) s ctx) (\<lambda>(k, ctx').
                  Inr (ctx', inited'))))"

section \<open>Declarations give consistent schemas\<close>

lemma validate_field_names_ok:
  "validate_field_names names n fs = Inr u \<Longrightarrow>
   distinct (map f_name fs) \<and> set names \<inter> f_name ` set fs = {} \<and> n = 0 \<and>
   f_name ` set fs \<inter> set RESERVED_FIELD_NAMES = {}"
proof (induction names n fs rule: validate_field_names.induct)
  case (2 names n f fs)
  from 2 have "f_name f \<notin> set names" by (auto split: if_splits)
  with 2 show ?case by (auto simp: set_add_def split: if_splits)
qed (auto split: if_splits)

lemma flagged_timestamp_spec:
  "flagged_timestamp cur fs =
     (case filter f_timestamp fs of
        [] \<Rightarrow> Inr cur
      | [f] \<Rightarrow> if cur = None then Inr (Some (f_name f)) else Inl ValueError
      | _ \<Rightarrow> Inl ValueError)"
  by (induction fs arbitrary: cur) (auto split: list.splits)

lemma typed_timestamp_spec:
  "typed_timestamp cur fs =
     (case filter is_datetime fs of
        [] \<Rightarrow> Inr (cur, fs)
      | [f] \<Rightarrow> if cur = None
               then Inr (Some (f_name f), map (\<lambda>g. if is_datetime g then g\<lparr>f_timestamp := True\<rparr> else g) fs)
               else Inl ValueError
      | _ \<Rightarrow> Inl ValueError)"
proof (induction fs arbitrary: cur)
  case (Cons f fs)
  have "map (\<lambda>g. if is_datetime g then g\<lparr>f_timestamp := True\<rparr> else g) fs = fs" if "filter is_datetime fs = []"
    using that by (intro map_idI) (auto simp: filter_empty_conv)
  with Cons show ?case by (auto split: list.splits)
qed simp

lemma get_field_ok:
  "get_field attr n t = Inr f \<Longrightarrow>
   f_name f = n \<and> f_dtype f = t \<and> f_key f = (case attr of Some (k, _) \<Rightarrow> k | None \<Rightarrow> False) \<and>
   f_timestamp f = (case attr of Some (_, ts) \<Rightarrow> ts | None \<Rightarrow> False)"
  by (auto simp: get_field_def Let_def split: if_splits option.splits)

lemma get_fields_names:
  "rmap (\<lambda>(n, t). get_field (attrs n) n t) anns = Inr fs \<Longrightarrow> map f_name fs = map fst anns"
  by (induction anns arbitrary: fs) (auto split: sum.splits dest: get_field_ok)

lemma set_timestamp_field_ok:
  assumes "set_timestamp_field fs = Inr (ts, fs')"
  shows "map f_name fs' = map f_name fs" "map f_key fs' = map f_key fs" "map f_dtype fs' = map f_dtype fs"
    and "\<exists>f. f_name f = ts \<and> (filter f_timestamp fs = [f] \<or>
      filter f_timestamp fs = [] \<and> filter is_datetime fs = [f])"
proof -
  let ?mark = "\<lambda>g. if is_datetime g then g\<lparr>f_timestamp := True\<rparr> else g"
  from assms have "(fs' = fs \<or> fs' = map ?mark fs) \<and>
      (\<exists>f. f_name f = ts \<and> (filter f_timestamp fs = [f] \<or> filter f_timestamp fs = [] \<and> filter is_datetime fs = [f]))"
    by (auto simp: set_timestamp_field_def flagged_timestamp_spec typed_timestamp_spec
        split: option.splits list.splits if_splits)
  then show "map f_name fs' = map f_name fs" "map f_key fs' = map f_key fs" "map f_dtype fs' = map f_dtype fs"
    "\<exists>f. f_name f = ts \<and> (filter f_timestamp fs = [f] \<or> filter f_timestamp fs = [] \<and> filter is_datetime fs = [f])"
    by (auto simp: o_def)
qed

lemma mset_split_key:
  assumes "distinct (map f_name fs)" "ts \<in> f_name ` set fs" "\<forall>f \<in> set fs. f_name f = ts \<longrightarrow> \<not> f_key f"
  shows "mset (map f_name (filter f_key fs) @ map f_name (filter (\<lambda>f. \<not> f_key f \<and> f_name f \<noteq> ts) fs) @ [ts]) =
    mset (map f_name fs)"
proof -
  have "filter (\<lambda>f. f_name f = ts) fs = [f]" if "f \<in> set fs" "f_name f = ts" for f
    using assms(1) that by (induction fs) (auto simp: filter_empty_conv image_iff)
  with assms(2) obtain f where f: "filter (\<lambda>f. f_name f = ts) fs = [f]" "f_name f = ts" by auto
  have "mset fs = mset (filter f_key fs) + mset (filter (\<lambda>f. \<not> f_key f \<and> f_name f \<noteq> ts) fs) + mset (filter (\<lambda>f. f_name f = ts) fs)"
    using assms(3) by (induction fs) auto
  then have "image_mset f_name (mset fs) = image_mset f_name (mset (filter f_key fs) +
      mset (filter (\<lambda>f. \<not> f_key f \<and> f_name f \<noteq> ts) fs) + mset (filter (\<lambda>f. f_name f = ts) fs))" by (rule arg_cong)
  with f show ?thesis by (simp only: mset_append mset_map image_mset_union mset.simps list.map append_assoc) simp
qed

text \<open>
  A dataset declaration that is accepted has pairwise different field names, none of them
  reserved; its timestamp is the one field flagged as such or, when none is flagged, the one
  field of datetime type; and unless the timestamp is also a key its schema lists every
  declared field exactly once.
\<close>

theorem create_dataset_schema:
  assumes "create_dataset name annotations attrs = Inr d"
  shows "distinct (map fst annotations) \<and> set (map fst annotations) \<inter> set RESERVED_FIELD_NAMES = {} \<and>
    map f_name (ds_fields d) = map fst annotations \<and>
    (\<exists>flds f. rmap (\<lambda>(n, t). get_field (attrs n) n t) annotations = Inr flds \<and>
      f_name f = ds_timestamp_field d \<and>
      (filter f_timestamp flds = [f] \<or> filter f_timestamp flds = [] \<and> filter is_datetime flds = [f])) \<and>
    (ds_timestamp_field d \<notin> set (ds_key_fields d) \<longrightarrow>
      mset (schema_fields (dataset_schema d)) = mset (map fst annotations))"
proof -
  from assms obtain fs fs' ts where fs: "rmap (\<lambda>(n, t). get_field (attrs n) n t) annotations = Inr fs"
    and v: "validate_field_names [] 0 fs = Inr ()" and ts: "set_timestamp_field fs = Inr (ts, fs')"
    and d: "d = \<lparr>ds_name = name, ds_fields = fs', ds_timestamp_field = ts,
        ds_key_fields = map f_name (filter f_key fs'), ds_connectors = None\<rparr>"
    by (auto simp: create_dataset_def)
  note names = get_fields_names [OF fs] and ok = validate_field_names_ok [OF v] and t = set_timestamp_field_ok [OF ts]
  from ok names have "distinct (map fst annotations)" by metis
  moreover from ok names have "set (map fst annotations) \<inter> set RESERVED_FIELD_NAMES = {}" by (metis set_map)
  moreover from t(1) names d have n: "map f_name (ds_fields d) = map fst annotations" by simp
  moreover from t(4) fs d have "\<exists>flds f. rmap (\<lambda>(n, t). get_field (attrs n) n t) annotations = Inr flds \<and>
      f_name f = ds_timestamp_field d \<and>
      (filter f_timestamp flds = [f] \<or> filter f_timestamp flds = [] \<and> filter is_datetime flds = [f])" by auto
  moreover have "mset (schema_fields (dataset_schema d)) = mset (map fst annotations)"
    if nk: "ds_timestamp_field d \<notin> set (ds_key_fields d)"
  proof -
    have "distinct (map f_name fs')" using ok t(1) by simp
    moreover have "ts \<in> f_name ` set fs'"
      using t(4) t(1) by (metis filter_eq_ConsD list.set_intros(1) list.set_map rev_image_eqI in_set_conv_decomp)
    moreover have "\<forall>f \<in> set fs'. f_name f = ts \<longrightarrow> \<not> f_key f" using nk d by auto
    ultimately have "mset (map f_name (filter f_key fs') @
        map f_name (filter (\<lambda>f. \<not> f_key f \<and> f_name f \<noteq> ts) fs') @ [ts]) = mset (map f_name fs')"
      by (rule mset_split_key)
    with n d show ?thesis
      by (simp add: schema_fields_def dataset_schema_def dict_keys_def o_def)
  qed
  ultimately show ?thesis by blast
qed

definition sample_dataset :: "string \<Rightarrow> 'a dataset result" where
  "sample_dataset name =
     create_dataset name [(''user_id'', TOther ''str''), (''ts'', TDatetime), (''name'', TOther ''str'')]
       (\<lambda>n. if n = ''user_id'' then Some (True, False) else None)"

lemma sample_dataset_value:
  "sample_dataset name = Inr
     \<lparr>ds_name = name,
      ds_fields =
        [\<lparr>f_name = ''user_id'', f_key = True, f_timestamp = False, f_dtype = TOther ''str''\<rparr>,
         \<lparr>f_name = ''ts'', f_key = False, f_timestamp = True, f_dtype = TDatetime\<rparr>,
         \<lparr>f_name = ''name'', f_key = False, f_timestamp = False, f_dtype = TOther ''str''\<rparr>],
      ds_timestamp_field = ''ts'', ds_key_fields = [''user_id''], ds_connectors = None\<rparr>"
  by (simp add: sample_dataset_def create_dataset_def get_field_def set_timestamp_field_def is_datetime_def
      is_optional_def Let_def RESERVED_FIELD_NAMES_def set_add_def)

theorem create_dataset_schema_witness:
  "\<exists>d :: nat dataset. sample_dataset ''U'' = Inr d \<and>
     mset (schema_fields (dataset_schema d)) = {#''user_id'', ''ts'', ''name''#}"
proof -
  obtain d :: "nat dataset" where d: "sample_dataset ''U'' = Inr d" "ds_timestamp_field d = ''ts''" "ds_key_fields d = [''user_id'']"
    by (simp add: sample_dataset_value)
  from create_dataset_schema [OF d(1) [unfolded sample_dataset_def]] d show ?thesis by simp
qed

section \<open>Compiled pipelines are stream programs\<close>

lemma on_stream_ok:
  "on_stream f (s, ctx, ini) = Inr (s', ctx', ini') \<longleftrightarrow> f s ctx = Inr (s', ctx') \<and> ini' = ini"
  by (auto simp: on_stream_def)

lemma init_join_program:
  "stream_program ctx \<Longrightarrow> init_join on lo ro same l r ctx = Inr (s, ctx') \<Longrightarrow> stream_program ctx'"
  unfolding init_join_def by auto (metis stream_program.key_by stream_program.join)

lemma init_aggregate_program:
  "stream_program ctx \<Longrightarrow> init_aggregate aggs t s ctx = Inr (s', ctx') \<Longrightarrow> stream_program ctx'"
  unfolding init_aggregate_def by (auto intro: stream_program.keyed_transform)

lemma dataset_init_program:
  "stream_program ctx \<Longrightarrow> dataset_init_stream tag d (ctx, ini) = Inr (s, ctx', ini') \<Longrightarrow> stream_program ctx'"
  unfolding dataset_init_stream_def to_stream_source_def
  by (auto split: option.splits if_splits intro: stream_program.source)

lemma init_stream_graph_program:
  assumes "init_stream_graph tags target n (ctx, ini) = Inr (s, ctx', ini')" "stream_program ctx"
  shows "stream_program ctx'"
  using assms
proof (induction tags target n "(ctx, ini)" arbitrary: ctx ini s ctx' ini' rule: init_stream_graph.induct)
  case 1
  then show ?case by (auto intro: dataset_init_program)
next
  case 5
  then show ?case by (fastforce simp: on_stream_ok intro: init_aggregate_program)
next
  case 7
  then show ?case by (fastforce simp: on_stream_ok intro: init_join_program)
qed (fastforce simp: on_stream_ok intro: stream_program.transform stream_program.key_by)+

text \<open>An API call that succeeds, keeps the streams there are and adds one of the given kind.\<close>

definition yields ::
    "('o, 'k, 'v) streaming_context \<Rightarrow> stream_kind \<Rightarrow> (nat \<times> ('o, 'k, 'v) streaming_context) result \<Rightarrow> bool" where
  "yields sc kind r \<longleftrightarrow> (\<exists>s sc' st. r = Inr (s, sc') \<and>
     map_of (sc_streams sc) \<subseteq>\<^sub>m map_of (sc_streams sc') \<and>
     map_of (sc_streams sc') s = Some st \<and> st_kind st = kind)"

lemma new_stream_yields:
  assumes "stream_program sc" "\<And>p. input = Some p \<Longrightarrow> map_of (sc_streams sc) p \<noteq> None"
  shows "yields sc kind (new_stream kind input right op part sc)"
proof -
  have "map_of (sc_streams sc) (Suc (sc_id_generator sc)) = None"
    using context_okD [OF stream_program_ok [OF assms(1)]] by (metis Suc_n_not_le_n option.exhaust)
  with assms(2) show ?thesis
    by (cases input) (auto simp: yields_def new_stream_def generate_id_def Let_def map_le_def dom_def)
qed

lemma api_yields:
  assumes "stream_program sc" "map_of (sc_streams sc) s = Some st" "st_kind st \<noteq> STREAM_SINK"
  shows "yields sc DATA_STREAM (api_transform n f s sc)" "yields sc KEY_DATA_STREAM (api_key_by g s sc)"
    and "yields sc STREAM_SINK (api_sink h s sc)"
proof -
  have new: "yields sc kind (new_stream kind (Some s) right op part sc)" for kind right op part
    using assms(1,2) by (intro new_stream_yields) auto
  have m: "stream_method is_data_stream s sc = Inr ()"
    using assms(2,3) by (simp add: stream_method_def is_data_stream_def)
  from m new show "yields sc DATA_STREAM (api_transform n f s sc)" by (simp add: api_transform_def)
  from m new show "yields sc KEY_DATA_STREAM (api_key_by g s sc)" by (simp add: api_key_by_def)
  from new [of STREAM_SINK] m show "yields sc STREAM_SINK (api_sink h s sc)"
    unfolding yields_def api_sink_def by fastforce
qed

lemma api_keyed_yields:
  assumes "stream_program sc" "map_of (sc_streams sc) s = Some st" "st_kind st = KEY_DATA_STREAM"
  shows "yields sc DATA_STREAM (init_aggregate aggs t s sc)"
    and "map_of (sc_streams sc) r \<noteq> None \<Longrightarrow> yields sc JOIN_STREAM (api_join h s r sc)"
proof -
  have new: "yields sc kind (new_stream kind (Some s) right op part sc)" for kind right op part
    using assms(1,2) by (intro new_stream_yields) auto
  have m: "stream_method (\<lambda>k. k = KEY_DATA_STREAM) s sc = Inr ()"
    using assms(2,3) by (simp add: stream_method_def)
  from m new assms show "yields sc DATA_STREAM (init_aggregate aggs t s sc)"
    by (simp add: init_aggregate_def api_keyed_transform_def)
  from m new show "map_of (sc_streams sc) r \<noteq> None \<Longrightarrow> yields sc JOIN_STREAM (api_join h s r sc)"
    by (auto simp: api_join_def)
qed

lemma yieldsE:
  assumes "yields sc kind r"
  obtains s sc' st where "r = Inr (s, sc')" "map_of (sc_streams sc) \<subseteq>\<^sub>m map_of (sc_streams sc')"
    "map_of (sc_streams sc') s = Some st" "st_kind st = kind"
  using assms unfolding yields_def by blast

lemma map_le_Some: "m \<subseteq>\<^sub>m m' \<Longrightarrow> m x = Some y \<Longrightarrow> m' x = Some y"
  by (metis domI map_le_def)

lemma init_join_yields:
  assumes "stream_program sc" "map_of (sc_streams sc) l = Some sl" "st_kind sl \<noteq> STREAM_SINK"
    "map_of (sc_streams sc) r = Some sr" "st_kind sr \<noteq> STREAM_SINK"
  shows "yields sc JOIN_STREAM (init_join on lo ro same l r sc)"
proof -
  from api_yields(2) [OF assms(1-3)] obtain kl sc1 s1 where 1: "api_key_by (KeyFn (join_key on lo)) l sc = Inr (kl, sc1)"
    "map_of (sc_streams sc) \<subseteq>\<^sub>m map_of (sc_streams sc1)" "map_of (sc_streams sc1) kl = Some s1" "st_kind s1 = KEY_DATA_STREAM"
    by (rule yieldsE)
  have p1: "stream_program sc1" using assms(1) 1(1) by (rule stream_program.key_by)
  have r1: "map_of (sc_streams sc1) r = Some sr" using 1(2) assms(4) by (rule map_le_Some)
  from api_yields(2) [OF p1 r1 assms(5)] obtain kr sc2 s2 where 2: "api_key_by (KeyFn (join_key on ro)) r sc1 = Inr (kr, sc2)"
    "map_of (sc_streams sc1) \<subseteq>\<^sub>m map_of (sc_streams sc2)" "map_of (sc_streams sc2) kr = Some s2" "st_kind s2 = KEY_DATA_STREAM"
    by (rule yieldsE)
  have p2: "stream_program sc2" using p1 2(1) by (rule stream_program.key_by)
  have "map_of (sc_streams sc2) kl = Some s1" using 2(2) 1(3) by (rule map_le_Some)
  from api_keyed_yields(2) [OF p2 this 1(4), of kr "JoinFn same"] 2(3) have "yields sc2 JOIN_STREAM (api_join (JoinFn same) kl kr sc2)"
    by simp
  with 1 2 show ?thesis unfolding yields_def init_join_def by auto (meson map_le_trans)
qed

text \<open>
  The pipelines that compile: every dataset is a source whose tag selects a usable connector,
  and aggregations are over groups, as the node constructors only allow.
\<close>

definition connector_ok :: "'a connector \<Rightarrow> bool" where
  "connector_ok c = (case c of MockOfflineConnector items \<Rightarrow> items \<noteq> [] | MockOnlineConnector items d \<Rightarrow> items \<noteq> [] | _ \<Rightarrow> True)"

definition dataset_ok :: "(string \<Rightarrow> string option) \<Rightarrow> 'a dataset \<Rightarrow> bool" where
  "dataset_ok tags d =
     (case ds_connectors d of
        None \<Rightarrow> False
      | Some cs \<Rightarrow> (case select_connector (tags (ds_name d)) cs of Inl e \<Rightarrow> False | Inr c \<Rightarrow> connector_ok c))"

fun is_group :: "'a op_node \<Rightarrow> bool" where
  "is_group (NGroupBy p ks) = True"
| "is_group _ = False"

fun node_ok :: "(string \<Rightarrow> string option) \<Rightarrow> 'a op_node \<Rightarrow> bool" where
  "node_ok tags (NDataset d) = dataset_ok tags d"
| "node_ok tags (NTransform p f ns) = node_ok tags p"
| "node_ok tags (NAssign p c t f) = node_ok tags p"
| "node_ok tags (NFilter p f) = node_ok tags p"
| "node_ok tags (NAggregate p aggs) = (is_group p \<and> node_ok tags p)"
| "node_ok tags (NGroupBy p ks) = node_ok tags p"
| "node_ok tags (NJoin l r on left_on right_on same) = (node_ok tags l \<and> node_ok tags r)"
| "node_ok tags (NRename p cs) = node_ok tags p"
| "node_ok tags (NDrop p cs) = node_ok tags p"
| "node_ok tags (NDropNull p cs) = node_ok tags p"

fun node_datasets :: "'a op_node \<Rightarrow> string list" where
  "node_datasets (NDataset d) = [ds_name d]"
| "node_datasets (NTransform p f ns) = node_datasets p"
| "node_datasets (NAssign p c t f) = node_datasets p"
| "node_datasets (NFilter p f) = node_datasets p"
| "node_datasets (NAggregate p aggs) = node_datasets p"
| "node_datasets (NGroupBy p ks) = node_datasets p"
| "node_datasets (NJoin l r on left_on right_on same) = node_datasets l @ node_datasets r"
| "node_datasets (NRename p cs) = node_datasets p"
| "node_datasets (NDrop p cs) = node_datasets p"
| "node_datasets (NDropNull p cs) = node_datasets p"

text \<open>A compiled node: its stream is there, older streams are kept, its datasets are recorded.\<close>

definition compiled ::
    "'a op_node \<Rightarrow> ('a, 'k, 'v) dsc \<Rightarrow> string list \<Rightarrow> (nat \<times> ('a, 'k, 'v) dsc \<times> string list) result \<Rightarrow> bool" where
  "compiled n ctx ini r \<longleftrightarrow> (\<exists>s ctx' st. r = Inr (s, ctx', ini @ node_datasets n) \<and>
     map_of (sc_streams ctx) \<subseteq>\<^sub>m map_of (sc_streams ctx') \<and>
     map_of (sc_streams ctx') s = Some st \<and> st_kind st \<noteq> STREAM_SINK \<and>
     (is_group n \<longrightarrow> st_kind st = KEY_DATA_STREAM))"

lemma compiled_step:
  assumes "compiled p ctx ini (init_stream_graph tags target p (ctx, ini))" "stream_program ctx"
    and "\<And>s ctx' st. stream_program ctx' \<Longrightarrow> map_of (sc_streams ctx') s = Some st \<Longrightarrow> st_kind st \<noteq> STREAM_SINK \<Longrightarrow>
      (is_group p \<Longrightarrow> st_kind st = KEY_DATA_STREAM) \<Longrightarrow> yields ctx' kind (f s ctx')"
    and "kind \<noteq> STREAM_SINK" "is_group n \<Longrightarrow> kind = KEY_DATA_STREAM" "node_datasets n = node_datasets p"
  shows "compiled n ctx ini (rbind (init_stream_graph tags target p (ctx, ini)) (on_stream f))"
proof -
  from assms(1) obtain s ctx' st where 1: "init_stream_graph tags target p (ctx, ini) = Inr (s, ctx', ini @ node_datasets p)"
    "map_of (sc_streams ctx) \<subseteq>\<^sub>m map_of (sc_streams ctx')" "map_of (sc_streams ctx') s = Some st"
    "st_kind st \<noteq> STREAM_SINK" "is_group p \<longrightarrow> st_kind st = KEY_DATA_STREAM" unfolding compiled_def by blast
  have "stream_program ctx'" using 1(1) assms(2) by (rule init_stream_graph_program)
  with 1(3-5) assms(3) have "yields ctx' kind (f s ctx')" by blast
  then obtain s2 ctx2 st2 where "f s ctx' = Inr (s2, ctx2)" "map_of (sc_streams ctx') \<subseteq>\<^sub>m map_of (sc_streams ctx2)"
    "map_of (sc_streams ctx2) s2 = Some st2" "st_kind st2 = kind" by (rule yieldsE)
  with 1 assms(4-6) show ?thesis
    unfolding compiled_def by (auto simp: on_stream_def intro: map_le_trans)
qed

lemma dataset_init_compiled:
  assumes "stream_program ctx" "dataset_ok tags d" "ds_name d \<notin> set ini"
  shows "compiled (NDataset d) ctx ini (dataset_init_stream (tags (ds_name d)) d (ctx, ini))"
proof -
  from assms(2) obtain cs c where c: "ds_connectors d = Some cs" "select_connector (tags (ds_name d)) cs = Inr c" "connector_ok c"
    by (auto simp: dataset_ok_def split: option.splits sum.splits)
  have "yields ctx STREAM_SOURCE (api_source f ctx)" for f
    unfolding api_source_def by (rule new_stream_yields [OF assms(1)]) simp
  with c(3) have "yields ctx STREAM_SOURCE (to_stream_source c (ds_timestamp_field d) ctx)"
    by (cases c) (simp_all add: to_stream_source_def connector_ok_def)
  then obtain s ctx' st where "to_stream_source c (ds_timestamp_field d) ctx = Inr (s, ctx')"
    "map_of (sc_streams ctx) \<subseteq>\<^sub>m map_of (sc_streams ctx')" "map_of (sc_streams ctx') s = Some st" "st_kind st = STREAM_SOURCE"
    by (rule yieldsE)
  with c assms(3) show ?thesis by (simp add: compiled_def dataset_init_stream_def)
qed

lemma init_join_compiled:
  fixes ctx :: "('a, 'k, 'v) dsc"
  assumes "compiled l ctx ini (init_stream_graph tags target l (ctx, ini))" "stream_program ctx"
    and "\<And>ctx' :: ('a, 'k, 'v) dsc. stream_program ctx' \<Longrightarrow>
      compiled r ctx' (ini @ node_datasets l) (init_stream_graph tags target r (ctx', ini @ node_datasets l))"
  shows "compiled (NJoin l r on lo ro same) ctx ini (init_stream_graph tags target (NJoin l r on lo ro same) (ctx, ini))"
proof -
  from assms(1) obtain sl ctx1 st1 where 1: "init_stream_graph tags target l (ctx, ini) = Inr (sl, ctx1, ini @ node_datasets l)"
    "map_of (sc_streams ctx) \<subseteq>\<^sub>m map_of (sc_streams ctx1)" "map_of (sc_streams ctx1) sl = Some st1" "st_kind st1 \<noteq> STREAM_SINK"
    unfolding compiled_def by blast
  have p1: "stream_program ctx1" using 1(1) assms(2) by (rule init_stream_graph_program)
  from assms(3) [OF p1] obtain sr ctx2 st2 where 2:
    "init_stream_graph tags target r (ctx1, ini @ node_datasets l) = Inr (sr, ctx2, (ini @ node_datasets l) @ node_datasets r)"
    "map_of (sc_streams ctx1) \<subseteq>\<^sub>m map_of (sc_streams ctx2)" "map_of (sc_streams ctx2) sr = Some st2" "st_kind st2 \<noteq> STREAM_SINK"
    unfolding compiled_def by blast
  have p2: "stream_program ctx2" using 2(1) p1 by (rule init_stream_graph_program)
  have "map_of (sc_streams ctx2) sl = Some st1" using 2(2) 1(3) by (rule map_le_Some)
  from init_join_yields [OF p2 this 1(4) 2(3,4), of on lo ro same] obtain s ctx3 st3 where
    "init_join on lo ro same sl sr ctx2 = Inr (s, ctx3)" "map_of (sc_streams ctx2) \<subseteq>\<^sub>m map_of (sc_streams ctx3)"
    "map_of (sc_streams ctx3) s = Some st3" "st_kind st3 = JOIN_STREAM" by (rule yieldsE)
  with 1 2 show ?thesis unfolding compiled_def
    by (auto simp: on_stream_def) (meson map_le_trans)
qed

lemma compiled_transform:
  assumes "compiled p ctx ini (init_stream_graph tags target p (ctx, ini))" "stream_program ctx"
    and "\<not> is_group n" "node_datasets n = node_datasets p"
  shows "compiled n ctx ini (rbind (init_stream_graph tags target p (ctx, ini)) (on_stream (api_transform nm f)))"
  by (rule compiled_step [OF assms(1,2), where kind = DATA_STREAM]) (use assms(3,4) in \<open>simp_all add: api_yields\<close>)

lemma init_stream_graph_compiled:
  fixes ctx :: "('a, 'k, 'v) dsc"
  assumes "stream_program ctx" "node_ok tags n" "distinct (node_datasets n)" "set ini \<inter> set (node_datasets n) = {}"
  shows "compiled n ctx ini (init_stream_graph tags target n (ctx, ini))"
  using assms
proof (induction n arbitrary: ctx ini)
  case (NDataset d)
  then show ?case by (simp add: dataset_init_compiled)
next
  case (NAggregate p aggs)
  then have "compiled p ctx ini (init_stream_graph tags target p (ctx, ini))" by simp
  from compiled_step [OF this NAggregate.prems(1), where n = "NAggregate p aggs" and f = "init_aggregate aggs target" and kind = DATA_STREAM]
    NAggregate.prems(2)
  show ?case by (simp add: api_keyed_yields)
next
  case (NGroupBy p ks)
  then have "compiled p ctx ini (init_stream_graph tags target p (ctx, ini))" by simp
  from compiled_step [OF this NGroupBy.prems(1), where n = "NGroupBy p ks" and f = "api_key_by (KeyFn (group_by_key ks))" and kind = KEY_DATA_STREAM]
  show ?case by (simp add: api_yields)
next
  case (NJoin l r on lo ro same)
  show ?case
  proof (rule init_join_compiled)
    show "compiled l ctx ini (init_stream_graph tags target l (ctx, ini))"
      using NJoin.prems by (intro NJoin.IH(1)) auto
    show "stream_program ctx" by (rule NJoin.prems(1))
    show "compiled r ctx' (ini @ node_datasets l) (init_stream_graph tags target r (ctx', ini @ node_datasets l))"
      if "stream_program ctx'" for ctx' :: "('a, 'k, 'v) dsc"
      using NJoin.prems that by (intro NJoin.IH(2)) auto
  qed
qed (simp_all add: compiled_transform)

lemma new_stream_sinks:
  "new_stream kind input right op part sc = Inr (i, sc') \<Longrightarrow> sc_stream_sinks sc' = sc_stream_sinks sc"
  by (auto simp: new_stream_def generate_id_def Let_def split: option.splits)

lemma init_stream_graph_sinks:
  "init_stream_graph tags target n (ctx, ini) = Inr (s, ctx', ini') \<Longrightarrow> sc_stream_sinks ctx' = sc_stream_sinks ctx"
proof (induction n arbitrary: ctx ini s ctx' ini')
  case (NDataset d)
  then show ?case
    by (auto simp: dataset_init_stream_def to_stream_source_def api_source_def split: option.splits if_splits dest: new_stream_sinks)
next
  case (NJoin l r on lo ro same)
  then obtain sl c1 i1 sr c2 i2 where j: "init_stream_graph tags target l (ctx, ini) = Inr (sl, c1, i1)"
    "init_stream_graph tags target r (c1, i1) = Inr (sr, c2, i2)" "init_join on lo ro same sl sr c2 = Inr (s, ctx')"
    by (auto simp: on_stream_ok)
  from j(3) have "sc_stream_sinks ctx' = sc_stream_sinks c2"
    by (auto simp: init_join_def api_key_by_def api_join_def dest!: new_stream_sinks)
  with NJoin.IH(1) [OF j(1)] NJoin.IH(2) [OF j(2)] show ?case by simp
qed (fastforce simp: on_stream_ok api_transform_def api_key_by_def init_aggregate_def api_keyed_transform_def dest!: new_stream_sinks)+

text \<open>Conversely, a node that compiles uses no dataset twice and none that has a stream already.\<close>

lemma init_stream_graph_datasets:
  assumes "init_stream_graph tags target n (ctx, ini) = Inr (s, ctx', ini')"
  shows "ini' = ini @ node_datasets n \<and> distinct (node_datasets n) \<and> set ini \<inter> set (node_datasets n) = {}"
  using assms
proof (induction n arbitrary: ctx ini s ctx' ini')
  case (NDataset d)
  then show ?case by (auto simp: dataset_init_stream_def split: option.splits if_splits)
next
  case (NJoin l r on lo ro same)
  then obtain sl c1 i1 sr c2 i2 where "init_stream_graph tags target l (ctx, ini) = Inr (sl, c1, i1)"
    "init_stream_graph tags target r (c1, i1) = Inr (sr, c2, i2)" "ini' = i2"
    by (auto simp: on_stream_ok)
  from NJoin.IH(1) [OF this(1)] NJoin.IH(2) [OF this(2)] this(3) show ?case by auto
qed (fastforce simp: on_stream_ok)+


definition sample_source :: "string \<Rightarrow> nat dataset" where
  "sample_source name =
     (projr (sample_dataset name))\<lparr>ds_connectors := Some [(''default'', MockOfflineConnector [[(''user_id'', 1)]])]\<rparr>"


lemma materialize_init:
  assumes "materialize hot storage scaling target (Some n) tags inited = Inr (c :: ('a, 'k, 'v) dsc, i)"
  shows "\<exists>s (c' :: ('a, 'k, 'v) dsc). init_stream_graph tags (dataset_schema target) n (sc_init, inited) = Inr (s, c', i)"
  using assms by (auto simp: materialize_def split: if_splits option.splits)

text \<open>
  A source dataset can be compiled once per process: after a pipeline has been
  materialised, materialising any pipeline that uses one of its sources again raises, because
  the dataset object keeps its stream.
\<close>

theorem materialize_source_once:
  assumes "materialize hot storage scaling target (Some n) tags inited = Inr (ctx, inited')"
    and "set (node_datasets n) \<inter> set (node_datasets n2) \<noteq> {}"
  shows "\<not> is_ok (materialize hot2 storage2 scaling2 target2 (Some n2) tags2 inited' :: (('a, 'k, 'v) dsc \<times> string list) result)"
proof
  assume "is_ok (materialize hot2 storage2 scaling2 target2 (Some n2) tags2 inited' :: (('a, 'k, 'v) dsc \<times> string list) result)"
  then obtain c :: "('a, 'k, 'v) dsc" and i where
    "materialize hot2 storage2 scaling2 target2 (Some n2) tags2 inited' = Inr (c, i)" by (auto simp: is_ok_iff)
  from materialize_init [OF this] have "set inited' \<inter> set (node_datasets n2) = {}"
    using init_stream_graph_datasets by blast
  moreover from materialize_init [OF assms(1)] have "inited' = inited @ node_datasets n"
    using init_stream_graph_datasets by blast
  ultimately show False using assms(2) by auto
qed

theorem materialize_source_once_witness:
  "\<not> is_ok (materialize True (Some True) False (sample_source ''T'') (Some (NDataset (sample_source ''A''))) (\<lambda>_. None)
      (snd (projr (materialize False (Some True) False (sample_source ''T'') (Some (NDataset (sample_source ''A''))) (\<lambda>_. None) []
         :: ((nat, nat, nat) dsc \<times> string list) result))) :: ((nat, nat, nat) dsc \<times> string list) result)"
proof -
  have "is_ok (materialize False (Some True) False (sample_source ''T'') (Some (NDataset (sample_source ''A''))) (\<lambda>_. None) []
      :: ((nat, nat, nat) dsc \<times> string list) result)"
    by (simp add: materialize_def dataset_init_stream_def sample_source_def sample_dataset_value select_connector_def
        dict_values_def to_stream_source_def api_source_def new_stream_def generate_id_def Let_def api_sink_def stream_method_def
        is_data_stream_def)
  then obtain c :: "(nat, nat, nat) dsc" and i where
    m: "materialize False (Some True) False (sample_source ''T'') (Some (NDataset (sample_source ''A''))) (\<lambda>_. None) [] = Inr (c, i)"
    by (auto simp: is_ok_iff)
  from materialize_source_once [OF m, of "NDataset (sample_source ''A'')"] m show ?thesis by simp
qed

section \<open>Joined events\<close>

text \<open>Events none of whose fields carries one of the two prefixes.\<close>

definition unprefixed :: "string \<Rightarrow> bool" where
  "unprefixed f \<longleftrightarrow> \<not> prefix ''left_'' f \<and> \<not> prefix ''right_'' f"

definition clean_event :: "'a event \<Rightarrow> bool" where
  "clean_event e \<longleftrightarrow> wf_dict e \<and> (\<forall>f \<in> fst ` set e. unprefixed f)"

lemma prefix_duplicate_neq [simp]:
  "prefix_duplicate_field f b = prefix_duplicate_field g c \<longleftrightarrow> f = g \<and> b = c"
  by (auto simp: prefix_duplicate_field_def)

lemma unprefixed_neq [simp]:
  "unprefixed f \<Longrightarrow> f \<noteq> prefix_duplicate_field g b" "unprefixed f \<Longrightarrow> prefix_duplicate_field g b \<noteq> f"
  by (auto simp: unprefixed_def prefix_duplicate_field_def prefix_def)

lemma clean_event_prefixed: "clean_event e \<Longrightarrow> map_of e (prefix_duplicate_field f b) = None"
  using unprefixed_neq by (fastforce simp: clean_event_def map_of_eq_None_iff)

lemma unprefixed_prefixed [simp]: "\<not> unprefixed (prefix_duplicate_field g b)"
  using unprefixed_neq(1) by blast

lemma map_of_delete: "map_of (AList.delete k d) x = (if x = k then None else map_of d x)"
  by (simp add: delete_conv')

text \<open>What the loop over the shared fields makes of the two events.\<close>

definition fields_split :: "string list \<Rightarrow> 'a event \<Rightarrow> 'a event \<Rightarrow> 'a event \<Rightarrow> 'a event \<Rightarrow> bool" where
  "fields_split ks l r l' r' \<longleftrightarrow> wf_dict r' \<and>
     (\<forall>x. map_of r' x = (if x \<in> set ks then None else map_of r x)) \<and>
     (\<forall>k \<in> set ks. map_of l' k = None \<and> map_of l' (prefix_duplicate_field k True) = map_of l k \<and>
       map_of l' (prefix_duplicate_field k False) = map_of r k) \<and>
     (\<forall>x. x \<notin> set ks \<and> (\<forall>k \<in> set ks. \<forall>b. x \<noteq> prefix_duplicate_field k b) \<longrightarrow> map_of l' x = map_of l x)"

lemma fields_splitD:
  assumes "fields_split ks l r l' r'"
  shows "wf_dict r'" "map_of r' x = (if x \<in> set ks then None else map_of r x)"
    "k \<in> set ks \<Longrightarrow> map_of l' k = None"
    "k \<in> set ks \<Longrightarrow> map_of l' (prefix_duplicate_field k True) = map_of l k"
    "k \<in> set ks \<Longrightarrow> map_of l' (prefix_duplicate_field k False) = map_of r k"
    "x \<notin> set ks \<Longrightarrow> (\<And>k b. k \<in> set ks \<Longrightarrow> x \<noteq> prefix_duplicate_field k b) \<Longrightarrow> map_of l' x = map_of l x"
  using assms unfolding fields_split_def by blast+

lemma join_fields:
  assumes "distinct ks" "\<forall>k \<in> set ks. unprefixed k" "wf_dict r"
    and "\<forall>k \<in> set ks. map_of l (prefix_duplicate_field k True) = None \<and>
      map_of l (prefix_duplicate_field k False) = None \<and> map_of r (prefix_duplicate_field k False) = None"
  shows "\<exists>l' r'. rfold join_field ks (l, r) = Inr (l', r') \<and> fields_split ks l r l' r'"
  using assms
proof (induction ks arbitrary: l r)
  case (Cons k ks)
  let ?L = "\<lambda>k. prefix_duplicate_field k True" and ?R = "\<lambda>k. prefix_duplicate_field k False"
  define l1 where "l1 = (case map_of l k of None \<Rightarrow> l | Some v \<Rightarrow> AList.delete k (AList.update (?L k) v l))"
  define l2 where "l2 = (case map_of r k of None \<Rightarrow> l1 | Some v \<Rightarrow> AList.update (?R k) v l1)"
  define r2 where "r2 = (case map_of r k of None \<Rightarrow> r | Some v \<Rightarrow> AList.delete k r)"
  from Cons.prems(2) have u: "unprefixed k" "\<forall>j \<in> set ks. unprefixed j" by simp_all
  from Cons.prems(1) have d: "k \<notin> set ks" "distinct ks" by simp_all
  have m1: "map_of l1 x = (if x = k then None else if x = ?L k then map_of l k else map_of l x)" for x
    using Cons.prems(4) u(1) by (auto simp: l1_def map_of_delete split: option.splits)
  have m2: "map_of l2 x = (if x = ?R k then map_of r k else map_of l1 x)" for x
    using Cons.prems(4) m1 u(1) by (auto simp: l2_def split: option.splits)
  have mr: "map_of r2 x = (if x = k then None else map_of r x)" for x
    by (auto simp: r2_def map_of_delete split: option.splits)
  have step: "join_field k (l, r) = Inr (l2, r2)"
    using Cons.prems(4) by (auto simp: join_field_def l2_def l1_def r2_def dict_mem_def Let_def split: option.splits)
  have wf: "wf_dict r2" using Cons.prems(3) by (simp add: r2_def split: option.splits)
  have "\<forall>j \<in> set ks. map_of l2 (?L j) = None \<and> map_of l2 (?R j) = None \<and> map_of r2 (?R j) = None"
  proof
    fix j assume j: "j \<in> set ks"
    with d have "j \<noteq> k" by auto
    with j Cons.prems(4) u(1) show "map_of l2 (?L j) = None \<and> map_of l2 (?R j) = None \<and> map_of r2 (?R j) = None"
      by (simp add: m1 m2 mr)
  qed
  from Cons.IH [OF d(2) u(2) wf this] obtain l' r' where
    run: "rfold join_field ks (l2, r2) = Inr (l', r')" and "fields_split ks l2 r2 l' r'" by blast
  note ih = fields_splitD [OF this(2)]
  have pk: "prefix_duplicate_field k b \<notin> set ks" for b using u(2) unprefixed_neq(1) by blast
  have old: "map_of l' k = map_of l2 k" "map_of l' (?L k) = map_of l2 (?L k)" "map_of l' (?R k) = map_of l2 (?R k)"
    using d(1) u(1) pk by (auto intro!: ih(6))
  have "map_of l' j = None \<and> map_of l' (?L j) = map_of l j \<and> map_of l' (?R j) = map_of r j" if "j \<in> set (k # ks)" for j
  proof (cases "j = k")
    case True
    then show ?thesis using old u(1) by (simp add: m1 m2)
  next
    case False
    with that have j: "j \<in> set ks" "unprefixed j" using u(2) by auto
    with False ih(3-5) [OF j(1)] show ?thesis by (simp add: m1 m2 mr)
  qed
  moreover have "map_of l' x = map_of l x"
    if "x \<notin> set (k # ks)" "\<forall>k \<in> set (k # ks). \<forall>b. x \<noteq> prefix_duplicate_field k b" for x
  proof -
    from that have "map_of l' x = map_of l2 x" by (intro ih(6)) auto
    with that show ?thesis by (simp add: m1 m2)
  qed
  moreover have "map_of r' x = (if x \<in> set (k # ks) then None else map_of r x)" for x by (simp add: ih(2) mr)
  ultimately have "fields_split (k # ks) l r l' r'" using ih(1) unfolding fields_split_def by blast
  with step run show ?case by simp
qed (simp add: fields_split_def)

lemma map_of_dict_merge: "wf_dict b \<Longrightarrow> map_of (dict_merge a b) = map_of a ++ map_of b"
  unfolding dict_merge_def
proof (induction b arbitrary: a)
  case (Cons kv b)
  obtain k v where kv: "kv = (k, v)" by (cases kv)
  with Cons.prems have "map_of b k = None" "wf_dict b" by (auto simp: wf_dict_def map_of_eq_None_iff)
  with Cons.IH kv show ?case by (auto simp: fun_eq_iff map_add_def split: option.splits)
qed simp

lemma stream_join_func_spec:
  assumes "distinct same" "\<forall>k \<in> set same. unprefixed k" "wf_dict right"
    and "\<forall>k \<in> set same. \<forall>b. map_of left (prefix_duplicate_field k b) = None"
    and "\<forall>k \<in> set same. \<forall>b. map_of right (prefix_duplicate_field k b) = None"
  shows "\<exists>left' right' out. stream_join_func same left right = Inr ((left', right'), out) \<and>
    fields_split same left right left' right' \<and>
    (\<forall>k \<in> set same. map_of out k = None \<and> map_of out (prefix_duplicate_field k True) = map_of left k \<and>
      map_of out (prefix_duplicate_field k False) = map_of right k) \<and>
    (\<forall>x. x \<notin> set same \<and> (\<forall>k \<in> set same. \<forall>b. x \<noteq> prefix_duplicate_field k b) \<longrightarrow>
      map_of out x = (map_of left ++ map_of right) x)"
proof -
  have "\<forall>k \<in> set same. map_of left (prefix_duplicate_field k True) = None \<and>
      map_of left (prefix_duplicate_field k False) = None \<and> map_of right (prefix_duplicate_field k False) = None"
    using assms(4,5) by simp
  from join_fields [OF assms(1-3) this] obtain l' r' where
    1: "rfold join_field same (left, right) = Inr (l', r')" "fields_split same left right l' r'" by blast
  note split = fields_splitD [OF 1(2)]
  have out: "map_of (dict_merge l' r') x = (case map_of r' x of None \<Rightarrow> map_of l' x | Some v \<Rightarrow> Some v)" for x
    by (simp add: map_of_dict_merge [OF split(1)] map_add_def)
  have "map_of (dict_merge l' r') k = None \<and> map_of (dict_merge l' r') (prefix_duplicate_field k True) = map_of left k \<and>
      map_of (dict_merge l' r') (prefix_duplicate_field k False) = map_of right k" if "k \<in> set same" for k
    using that split(3-5) [OF that] assms(5) by (simp add: out split(2))
  moreover have "map_of (dict_merge l' r') x = (map_of left ++ map_of right) x"
    if "x \<notin> set same \<and> (\<forall>k \<in> set same. \<forall>b. x \<noteq> prefix_duplicate_field k b)" for x
  proof -
    from that have "map_of l' x = map_of left x" by (intro split(6)) auto
    with that show ?thesis by (simp add: out split(2) map_add_def split: option.splits)
  qed
  moreover have "stream_join_func same left right = Inr ((l', r'), dict_merge l' r')"
    using 1(1) by (simp add: stream_join_func_def)
  ultimately show ?thesis using 1(2) by blast
qed



text \<open>Copying the fields of an event into a new one.\<close>

lemma map_of_copy_prefixed:
  "wf_dict d \<Longrightarrow> f \<in> set same \<Longrightarrow> (\<forall>g \<in> fst ` set d. unprefixed g) \<Longrightarrow>
   map_of (fold (copy_field b same s) d out) (prefix_duplicate_field f b) =
     (case map_of d f of Some v \<Rightarrow> Some v | None \<Rightarrow> map_of out (prefix_duplicate_field f b))"
proof (induction d arbitrary: out)
  case (Cons gv d)
  obtain g v where gv: "gv = (g, v)" by (cases gv)
  with Cons.prems have g: "map_of d g = None" "wf_dict d" "unprefixed g" "\<forall>g \<in> fst ` set d. unprefixed g"
    by (auto simp: wf_dict_def map_of_eq_None_iff)
  with Cons.IH [OF g(2) Cons.prems(2) g(4), of "copy_field b same s gv out"] Cons.prems(2) gv show ?case
    by (auto simp: copy_field_def split: option.splits)
qed auto

lemma map_of_copy_other:
  "wf_dict d \<Longrightarrow> (\<And>f. f \<in> set same \<Longrightarrow> x \<noteq> prefix_duplicate_field f b) \<Longrightarrow>
   map_of (fold (copy_field b same s) d out) x =
     (if x \<notin> set same \<and> x \<in> set (schema_fields s)
      then (case map_of d x of Some v \<Rightarrow> Some v | None \<Rightarrow> map_of out x) else map_of out x)"
proof (induction d arbitrary: out)
  case (Cons gv d)
  obtain g v where gv: "gv = (g, v)" by (cases gv)
  with Cons.prems have g: "map_of d g = None" "wf_dict d" by (auto simp: wf_dict_def map_of_eq_None_iff)
  with Cons.IH [OF g(2) Cons.prems(2), of "copy_field b same s gv out"] Cons.prems(2) gv show ?case
    by (auto simp: copy_field_def split: option.splits)
qed auto

text \<open>
  The newer join function computes the same joined event as the one in use whenever every
  field of the two events is shared or belongs to the joined schema, without changing the
  events it is given.
\<close>

theorem join_func_new_equivalent:
  assumes "distinct same" "clean_event left" "clean_event right"
    and "set same = fst ` set left \<inter> fst ` set right"
    and "\<forall>f \<in> fst ` set left \<union> fst ` set right. f \<notin> set same \<longrightarrow> f \<in> set (schema_fields s)"
  shows "\<exists>st out. stream_join_func same left right = Inr (st, out) \<and>
    map_of (stream_join_func_new same s left right) = map_of out"
proof -
  have u: "\<forall>k \<in> set same. unprefixed k" using assms(2,4) by (auto simp: clean_event_def)
  have wf: "wf_dict right" "wf_dict left" and ul: "\<forall>f \<in> fst ` set left. unprefixed f" and ur: "\<forall>f \<in> fst ` set right. unprefixed f"
    using assms(2,3) by (auto simp: clean_event_def)
  from stream_join_func_spec [OF assms(1) u wf(1), of left] obtain l' r' out where
    j: "stream_join_func same left right = Inr ((l', r'), out)"
    "\<And>k. k \<in> set same \<Longrightarrow> map_of out k = None \<and> map_of out (prefix_duplicate_field k True) = map_of left k \<and>
      map_of out (prefix_duplicate_field k False) = map_of right k"
    "\<And>x. x \<notin> set same \<Longrightarrow> (\<forall>k \<in> set same. \<forall>b. x \<noteq> prefix_duplicate_field k b) \<Longrightarrow>
      map_of out x = (map_of left ++ map_of right) x"
    unfolding clean_event_prefixed [OF assms(2)] clean_event_prefixed [OF assms(3)] by blast
  have "map_of (stream_join_func_new same s left right) x = map_of out x" for x
  proof (cases "\<exists>k \<in> set same. \<exists>b. x = prefix_duplicate_field k b")
    case True
    then obtain k b where k: "k \<in> set same" "x = prefix_duplicate_field k b" by blast
    then have "map_of left k \<noteq> None" "map_of right k \<noteq> None" using assms(4) by (auto simp: map_of_eq_None_iff)
    with k j(2) [OF k(1)] u clean_event_prefixed [OF assms(2)] clean_event_prefixed [OF assms(3)] show ?thesis
      unfolding stream_join_func_new_def
      by (cases b) (auto simp: map_of_copy_prefixed [OF wf(2) k(1) ul] map_of_copy_prefixed [OF wf(1) k(1) ur]
          map_of_copy_other [OF wf(1)] map_of_copy_other [OF wf(2)])
  next
    case False
    then have x: "x \<noteq> prefix_duplicate_field f b" if "f \<in> set same" for f b using that by blast
    have new: "map_of (stream_join_func_new same s left right) x =
        (if x \<notin> set same \<and> x \<in> set (schema_fields s)
         then (case map_of right x of Some v \<Rightarrow> Some v | None \<Rightarrow> map_of left x) else None)"
      unfolding stream_join_func_new_def
      by (simp add: map_of_copy_other [OF wf(1) x] map_of_copy_other [OF wf(2) x] split: option.splits)
    show ?thesis
    proof (cases "x \<in> set same")
      case True
      with new j(2) show ?thesis by simp
    next
      case False
      with j(3) x have "map_of out x = (map_of left ++ map_of right) x" by blast
      moreover have "map_of left x = None \<and> map_of right x = None" if "x \<notin> set (schema_fields s)"
        using that False assms(5) by (auto simp: map_of_eq_None_iff)
      ultimately show ?thesis using new False by (auto simp: map_add_def split: option.splits)
    qed
  qed
  with j(1) show ?thesis by blast
qed

theorem join_func_new_equivalent_witness:
  "\<exists>st out. stream_join_func [''id''] [(''id'', 1::nat)] [(''id'', 1), (''y'', 3)] = Inr (st, out) \<and>
     map_of (stream_join_func_new [''id''] \<lparr>sch_keys = [], sch_values = [(''y'', TNone)], sch_timestamp = ''t''\<rparr>
       [(''id'', 1)] [(''id'', 1), (''y'', 3)]) = map_of out"
  by (rule join_func_new_equivalent)
    (simp_all add: clean_event_def wf_dict_def unprefixed_def schema_fields_def dict_keys_def)

text \<open>
  A right event that has been joined once has lost its shared fields: joined again, with
  another left event, it yields an event without the right copies of those fields.
\<close>

theorem rejoin_loses_right_fields:
  assumes "distinct same" "clean_event left" "clean_event left2" "clean_event right" "\<forall>k \<in> set same. unprefixed k"
    and "stream_join_func same left right = Inr ((left', right'), out)" "f \<in> set same"
  shows "\<exists>st out2. stream_join_func same left2 right' = Inr (st, out2) \<and> map_of out2 (''right_'' @ f) = None"
proof -
  have wf: "wf_dict right" using assms(4) by (simp add: clean_event_def)
  from stream_join_func_spec [OF assms(1,5) wf, of left] have "fields_split same left right left' right'"
    unfolding clean_event_prefixed [OF assms(2)] clean_event_prefixed [OF assms(4)] using assms(6) by auto
  note split = fields_splitD [OF this]
  have right': "\<forall>k \<in> set same. \<forall>b. map_of right' (prefix_duplicate_field k b) = None"
    by (simp add: split(2) clean_event_prefixed [OF assms(4)])
  have left2: "\<forall>k \<in> set same. \<forall>b. map_of left2 (prefix_duplicate_field k b) = None"
    by (simp add: clean_event_prefixed [OF assms(3)])
  from stream_join_func_spec [OF assms(1,5) split(1) left2 right'] obtain st out2 where
    "stream_join_func same left2 right' = Inr (st, out2)" "map_of out2 (prefix_duplicate_field f False) = map_of right' f"
    using assms(7) by blast
  moreover have "map_of right' f = None" using assms(7) by (simp add: split(2))
  ultimately show ?thesis by (auto simp: prefix_duplicate_field_def)
qed

theorem rejoin_loses_right_fields_witness:
  "\<exists>st out2. stream_join_func [''id''] [(''id'', 1::nat), (''x'', 5)]
      (snd (fst (projr (stream_join_func [''id''] [(''id'', 1), (''x'', 2)] [(''id'', 1), (''y'', 3)])))) = Inr (st, out2) \<and>
    map_of out2 ''right_id'' = None"
proof -
  have "\<exists>l o'. stream_join_func [''id''] [(''id'', 1::nat), (''x'', 2)] [(''id'', 1), (''y'', 3)] = Inr ((l, [(''y'', 3)]), o')"
    by (simp add: stream_join_func_def join_field_def prefix_duplicate_field_def dict_mem_def Let_def)
  then obtain l o' where j: "stream_join_func [''id''] [(''id'', 1::nat), (''x'', 2)] [(''id'', 1), (''y'', 3)] = Inr ((l, [(''y'', 3)]), o')"
    by blast
  have "unprefixed ''id''" "unprefixed ''x''" "unprefixed ''y''" by (simp_all add: unprefixed_def)
  with rejoin_loses_right_fields [OF _ _ _ _ _ j, of "[(''id'', 1), (''x'', 5)]" "''id''"] j show ?thesis
    by (simp add: clean_event_def wf_dict_def)
qed

section \<open>Aggregated events\<close>

lemma rfold_copy:
  "rfold (\<lambda>k res. case map_of src k of None \<Rightarrow> Inl e | Some v \<Rightarrow> Inr (AList.update k v res)) ks res = Inr res' \<Longrightarrow>
   (\<forall>k \<in> set ks. map_of src k \<noteq> None) \<and> (\<forall>x. map_of res' x = (if x \<in> set ks then map_of src x else map_of res x))"
  by (induction ks arbitrary: res) (auto split: option.splits)

lemma rfold_copy_ok:
  "\<forall>k \<in> set ks. map_of src k \<noteq> None \<Longrightarrow>
   \<exists>res'. rfold (\<lambda>k res. case map_of src k of None \<Rightarrow> Inl e | Some v \<Rightarrow> Inr (AList.update k v res)) ks res = Inr res'"
  by (induction ks arbitrary: res) (auto split: option.splits)

lemma rfold_copy_iff:
  "(\<exists>res'. rfold (\<lambda>k res. case map_of src k of None \<Rightarrow> Inl e | Some v \<Rightarrow> Inr (AList.update k v res)) ks res = Inr res') \<longleftrightarrow>
   (\<forall>k \<in> set ks. map_of src k \<noteq> None)"
  by (blast dest: rfold_copy intro: rfold_copy_ok)

text \<open>
  The event a window aggregation emits is built exactly when the record has every key of
  the target schema and some value that reads as a time, and every aggregate field was
  computed; it then has the record's keys, the first value of the record that reads as a time
  as its timestamp, whatever field it comes from, the aggregates, and nothing else.
\<close>

theorem aggregate_output_event:
  fixes r :: "('k, 'a event) srec"
  assumes "distinct (schema_fields os)"
  shows "(is_ok (output_window_func is_time os aggs r) \<longleftrightarrow>
      (\<forall>k \<in> set (dict_keys (sch_keys os)). map_of (rec_value r) k \<noteq> None) \<and>
      (\<exists>v \<in> set (dict_values (rec_value r)). is_time v) \<and>
      (\<forall>v \<in> set (dict_keys (sch_values os)). map_of aggs v \<noteq> None)) \<and>
    (\<forall>out. output_window_func is_time os aggs r = Inr out \<longrightarrow>
      rec_event_time out = rec_event_time r \<and> rec_stream_name out = rec_stream_name r \<and>
      (\<forall>f. map_of (rec_value out) f =
        (if f \<in> set (dict_keys (sch_keys os)) then map_of (rec_value r) f
         else if f = sch_timestamp os then Some (hd (filter is_time (dict_values (rec_value r))))
         else if f \<in> set (dict_keys (sch_values os)) then map_of aggs f else None)))"
proof -
  let ?copy = "\<lambda>src ks res. rfold (\<lambda>k res. case map_of src k of None \<Rightarrow> Inl RuntimeError
      | Some v \<Rightarrow> Inr (AList.update k v res)) ks res :: 'a event result"
  let ?K = "dict_keys (sch_keys os)" and ?V = "dict_keys (sch_values os)" and ?rv = "rec_value r"
  have d: "sch_timestamp os \<notin> set ?K" "sch_timestamp os \<notin> set ?V" "set ?K \<inter> set ?V = {}"
    using assms by (auto simp: schema_fields_def)
  have run: "output_window_func is_time os aggs r = Inr out \<longleftrightarrow>
      (\<exists>a c v vs. ?copy ?rv ?K [] = Inr a \<and> filter is_time (dict_values ?rv) = v # vs \<and>
        ?copy aggs ?V (AList.update (sch_timestamp os) v a) = Inr c \<and>
        out = set_stream_name (rec_stream_name r) (Record c (rec_event_time r) None))" for out
    by (cases "filter is_time (dict_values ?rv)") (auto simp: output_window_func_def Let_def)
  have time: "(\<exists>v \<in> set (dict_values ?rv). is_time v) \<longleftrightarrow> (\<exists>v vs. filter is_time (dict_values ?rv) = v # vs)"
    using filter_empty_conv [where P = is_time and xs = "dict_values ?rv"] neq_Nil_conv [of "filter is_time (dict_values ?rv)"] by blast
  have "is_ok (output_window_func is_time os aggs r) \<longleftrightarrow> (\<exists>out. output_window_func is_time os aggs r = Inr out)"
    by (rule is_ok_iff)
  also have "\<dots> \<longleftrightarrow> (\<forall>k \<in> set ?K. map_of ?rv k \<noteq> None) \<and> (\<exists>v vs. filter is_time (dict_values ?rv) = v # vs) \<and>
      (\<forall>v \<in> set ?V. map_of aggs v \<noteq> None)"
  proof -
    have "(\<exists>out. output_window_func is_time os aggs r = Inr out) \<longleftrightarrow>
        (\<exists>a v vs. ?copy ?rv ?K [] = Inr a \<and> filter is_time (dict_values ?rv) = v # vs \<and>
          (\<exists>c. ?copy aggs ?V (AList.update (sch_timestamp os) v a) = Inr c))"
      unfolding run by blast
    also have "\<dots> \<longleftrightarrow> (\<exists>a. ?copy ?rv ?K [] = Inr a) \<and> (\<exists>v vs. filter is_time (dict_values ?rv) = v # vs) \<and>
        (\<forall>v \<in> set ?V. map_of aggs v \<noteq> None)"
      unfolding rfold_copy_iff [where src = aggs] by blast
    finally show ?thesis unfolding rfold_copy_iff .
  qed
  finally have ok: "is_ok (output_window_func is_time os aggs r) \<longleftrightarrow> (\<forall>k \<in> set ?K. map_of ?rv k \<noteq> None) \<and>
      (\<exists>v vs. filter is_time (dict_values ?rv) = v # vs) \<and> (\<forall>v \<in> set ?V. map_of aggs v \<noteq> None)" .
  have "rec_event_time out = rec_event_time r \<and> rec_stream_name out = rec_stream_name r \<and>
      (\<forall>f. map_of (rec_value out) f =
        (if f \<in> set ?K then map_of ?rv f
         else if f = sch_timestamp os then Some (hd (filter is_time (dict_values ?rv)))
         else if f \<in> set ?V then map_of aggs f else None))"
    if "output_window_func is_time os aggs r = Inr out" for out
  proof -
    from that [unfolded run] obtain a c v vs where 1: "?copy ?rv ?K [] = Inr a" "filter is_time (dict_values ?rv) = v # vs"
      "?copy aggs ?V (AList.update (sch_timestamp os) v a) = Inr c"
      "out = set_stream_name (rec_stream_name r) (Record c (rec_event_time r) None)" by blast
    have "map_of c f = (if f \<in> set ?V then map_of aggs f else if f = sch_timestamp os then Some v
        else if f \<in> set ?K then map_of ?rv f else None)" for f
      using rfold_copy [OF 1(3)] rfold_copy [OF 1(1)] by simp
    with 1(2,4) d show ?thesis by (auto simp: set_stream_name_def Record_def)
  qed
  with ok time show ?thesis by blast
qed

theorem aggregate_output_event_witness:
  "\<exists>out. output_window_func (\<lambda>v. v = ''2024'') \<lparr>sch_keys = [(''id'', TNone)], sch_values = [(''n'', TNone)], sch_timestamp = ''t''\<rparr>
      [(''n'', ''3'')] (Record [(''id'', ''7''), (''born'', ''2024''), (''at'', ''2025'')] None None :: (nat, string event) srec) = Inr out \<and>
    map_of (rec_value out) ''t'' = Some ''2024''"
proof -
  let ?s = "\<lparr>sch_keys = [(''id'', TNone)], sch_values = [(''n'', TNone)], sch_timestamp = ''t''\<rparr>"
  let ?r = "Record [(''id'', ''7''), (''born'', ''2024''), (''at'', ''2025'')] None None :: (nat, string event) srec"
  have "distinct (schema_fields ?s)" by (simp add: schema_fields_def dict_keys_def)
  note spec = aggregate_output_event [OF this, of "\<lambda>v. v = ''2024''" "[(''n'', ''3'')]" ?r]
  have "is_ok (output_window_func (\<lambda>v. v = ''2024'') ?s [(''n'', ''3'')] ?r)"
    using spec by (simp add: dict_keys_def dict_values_def Record_def)
  with spec show ?thesis by (auto simp: is_ok_iff dict_keys_def dict_values_def Record_def)
qed

end
