(* ===== verification/Buffers.thy ===== *)
theory Buffers
  imports Volga_Prelude "HOL-Library.Word"
begin

unbundle bit_operations_syntax

text \<open>
  The byte format of the buffered transport (\<open>network_deprecated/buffer/buffer.py\<close> and
  \<open>buffer/serialization\<close>): variable-length integers, padded channel ids and the buffer layout
  [channel id, 16 bytes][buffer id][payload size][message id, message size, bytes]*. A byte is
  an \<open>8 word\<close>; lengths and ids are naturals, as the code only encodes those.
\<close>

type_synonym bytes = "8 word list"

section \<open>Variable-length integers\<close>

text \<open>Seven bits per byte, low bits first, the top bit set on all bytes but the last.\<close>

function encode_int :: "nat \<Rightarrow> bytes" where
  "encode_int number =
     (let towrite = number AND 127; rest = drop_bit 7 number
      in if rest \<noteq> 0 then word_of_nat (towrite OR 128) # encode_int rest else [word_of_nat towrite])"
  by pat_completeness auto

termination
proof (relation "measure id", goal_cases)
  case (2 number towrite rest)
  then show ?case by (cases "number = 0") (simp_all add: drop_bit_eq_div)
qed simp

declare encode_int.simps [simp del]

text \<open>\<open>ord(b[pos:pos+1])\<close> raises past the end.\<close>

function decode_loop :: "bytes \<Rightarrow> nat \<Rightarrow> nat \<Rightarrow> nat \<Rightarrow> (nat \<times> nat) result" where
  "decode_loop b pos shift acc =
     (if pos < length b
      then let i = unat (b ! pos); acc' = acc OR push_bit shift (i AND 127)
           in if i AND 128 = 0 then Inr (acc', pos + 1) else decode_loop b (pos + 1) (shift + 7) acc'
      else Inl TypeError)"
  by pat_completeness auto

termination by (relation "measure (\<lambda>(b, pos, _, _). length b - pos)") auto

declare decode_loop.simps [simp del]

definition decode_bytes :: "bytes \<Rightarrow> nat \<Rightarrow> (nat \<times> nat) result" where
  "decode_bytes b start = decode_loop b start 0 0"

lemma encode_int_neq_Nil [simp]: "encode_int n \<noteq> []"
  by (subst encode_int.simps) (simp add: Let_def)

lemma and_127: "(n::nat) AND 127 = take_bit 7 n"
proof -
  have "(127::nat) = mask 7" by (simp add: mask_eq_exp_minus_1)
  then show ?thesis by (simp add: take_bit_eq_mask)
qed

lemma or_take_drop:
  "take_bit s n OR push_bit s (take_bit 7 (drop_bit s n)) = take_bit (s + 7) (n :: nat)"
  by (rule bit_eqI) (auto simp: bit_simps)

lemma bit_128 [simp]: "bit (128 :: nat) n \<longleftrightarrow> n = 7"
  using bit_exp_iff [of 7 n, where 'a = nat] by auto

text \<open>The two kinds of bytes the encoder writes, as the decoder reads them.\<close>

lemma byte_more:
  fixes m :: nat
  shows "unat (word_of_nat (take_bit 7 m OR 128) :: 8 word) AND 127 = take_bit 7 m"
    "unat (word_of_nat (take_bit 7 m OR 128) :: 8 word) AND 128 \<noteq> 0"
proof -
  have u: "unat (word_of_nat (take_bit 7 m OR 128) :: 8 word) = take_bit 7 m OR 128"
  proof -
    have "take_bit 8 (take_bit 7 m OR 128) = take_bit 7 m OR (128 :: nat)"
      by (simp add: take_bit_or min_def take_bit_eq_mod [of 8 128])
    then show ?thesis by (simp add: unat_of_nat take_bit_eq_mod)
  qed
  show "unat (word_of_nat (take_bit 7 m OR 128) :: 8 word) AND 127 = take_bit 7 m"
    unfolding u and_127 by (simp add: take_bit_or take_bit_eq_mod [of 7 128])
  have "bit (unat (word_of_nat (take_bit 7 m OR 128) :: 8 word) AND 128) 7"
    unfolding u by (simp add: bit_simps)
  then show "unat (word_of_nat (take_bit 7 m OR 128) :: 8 word) AND 128 \<noteq> 0" by (metis bit_0_eq bot_apply bot_bool_def)
qed

lemma byte_last:
  fixes m :: nat
  shows "unat (word_of_nat (take_bit 7 m) :: 8 word) AND 127 = take_bit 7 m"
    "unat (word_of_nat (take_bit 7 m) :: 8 word) AND 128 = 0"
proof -
  have u: "unat (word_of_nat (take_bit 7 m) :: 8 word) = take_bit 7 m"
  proof -
    have "take_bit 7 m < 2 ^ 7" by (rule take_bit_nat_less_exp)
    then show ?thesis by (simp add: unat_of_nat)
  qed
  show "unat (word_of_nat (take_bit 7 m) :: 8 word) AND 127 = take_bit 7 m" unfolding u and_127 by simp
  show "unat (word_of_nat (take_bit 7 m) :: 8 word) AND 128 = 0"
    unfolding u by (rule bit_eqI) (auto simp: bit_simps)
qed

lemma decode_encode_loop:
  "decode_loop (pre @ encode_int (drop_bit s n) @ post) (length pre) s (take_bit s n) =
     Inr (n, length pre + length (encode_int (drop_bit s n)))"
proof (induction "drop_bit s n" arbitrary: pre s rule: encode_int.induct)
  case 1
  let ?m = "drop_bit s n" and ?r = "drop_bit 7 (drop_bit s n)"
  have r: "?r = drop_bit (s + 7) n" by (simp add: ac_simps)
  show ?case
  proof (cases "?r = 0")
    case True
    then have enc: "encode_int ?m = [word_of_nat (take_bit 7 ?m)]"
      by (subst encode_int.simps) (simp add: Let_def and_127)
    have "take_bit (s + 7) n = n" using bits_ident [of "s + 7" n] True unfolding r by simp
    then show ?thesis unfolding enc
      by (subst decode_loop.simps) (simp add: Let_def byte_last or_take_drop nth_append del: push_bit_and)
  next
    case False
    then have enc: "encode_int ?m = word_of_nat (take_bit 7 ?m OR 128) # encode_int ?r"
      by (subst encode_int.simps) (simp add: Let_def and_127)
    let ?pre = "pre @ [word_of_nat (take_bit 7 ?m OR 128)]"
    have "decode_loop (?pre @ encode_int (drop_bit (s + 7) n) @ post) (length ?pre) (s + 7) (take_bit (s + 7) n) =
        Inr (n, length ?pre + length (encode_int (drop_bit (s + 7) n)))"
      using False by (intro "1"(1)) (auto simp: Let_def and_127 add.commute)
    then show ?thesis unfolding enc r
      by (subst decode_loop.simps) (simp add: Let_def byte_more or_take_drop nth_append del: push_bit_and)
  qed
qed

lemma decode_encode: "decode_bytes (pre @ encode_int n @ post) (length pre) = Inr (n, length pre + length (encode_int n))"
  using decode_encode_loop [of pre 0 n post] by (simp add: decode_bytes_def)

lemma decode_loop_pos: "decode_loop b pos shift acc = Inr (n, p) \<Longrightarrow> pos < p"
proof (induction b pos shift acc rule: decode_loop.induct)
  case (1 b pos shift acc)
  from 1(2) show ?case
    by (subst (asm) decode_loop.simps) (use 1(1) in \<open>fastforce simp: Let_def split: if_splits\<close>)
qed

lemma decode_bytes_pos: "decode_bytes b pos = Inr (n, p) \<Longrightarrow> pos < p"
  unfolding decode_bytes_def by (rule decode_loop_pos)

section \<open>Encodings that know their end\<close>

text \<open>
  A decoder that reads a value at a position and says where it ends undoes an encoder, whatever
  surrounds the encoding. Such codecs compose.
\<close>

locale codec =
  fixes enc :: "'a \<Rightarrow> bytes"
    and dec :: "bytes \<Rightarrow> nat \<Rightarrow> ('a \<times> nat) result"
  assumes dec_enc: "dec (pre @ enc x @ post) (length pre) = Inr (x, length pre + length (enc x))"
begin

lemma dec_at: "b = pre @ enc x @ post \<Longrightarrow> pos = length pre \<Longrightarrow> dec b pos = Inr (x, pos + length (enc x))"
  by (simp add: dec_enc)

lemma enc_inject: "enc x = enc y \<longleftrightarrow> x = y"
proof
  assume "enc x = enc y"
  with dec_enc [of "[]" x "[]"] dec_enc [of "[]" y "[]"] show "x = y" by simp
qed simp

end

interpretation varint: codec encode_int decode_bytes
  by unfold_locales (rule decode_encode)

text \<open>
  Reading a variable-length integer at the position where it was written, with any bytes
  before and after it, gives the number and the position behind it; different numbers have
  different encodings.
\<close>

theorem varint_roundtrip:
  "decode_bytes (pre @ encode_int n @ post) (length pre) = Inr (n, length pre + length (encode_int n)) \<and>
   (encode_int n = encode_int m \<longleftrightarrow> n = m)"
  using varint.dec_enc varint.enc_inject by blast

section \<open>Text in bytes\<close>

text \<open>UTF-8 for the characters of \<open>string\<close>, code points below 256.\<close>

definition utf8_char :: "char \<Rightarrow> bytes" where
  "utf8_char c =
     (let n = of_char c :: nat
      in if n < 128 then [word_of_nat n] else [word_of_nat (192 + n div 64), word_of_nat (128 + n mod 64)])"

definition utf8_encode :: "string \<Rightarrow> bytes" where
  "utf8_encode s = concat (map utf8_char s)"

text \<open>A byte sequence that is not the encoding of such a text does not decode.\<close>

fun utf8_decode :: "bytes \<Rightarrow> string result" where
  "utf8_decode [] = Inr []"
| "utf8_decode (w # ws) =
     (if unat w < 128 then rbind (utf8_decode ws) (\<lambda>s. Inr (char_of (unat w) # s))
      else case ws of
        [] \<Rightarrow> Inl ValueError
      | v # vs \<Rightarrow>
          if 194 \<le> unat w \<and> unat w \<le> 195 \<and> 128 \<le> unat v \<and> unat v < 192
          then rbind (utf8_decode vs) (\<lambda>s. Inr (char_of (64 * (unat w - 192) + (unat v - 128)) # s))
          else Inl ValueError)"

definition str_to_bytes :: "string \<Rightarrow> nat option \<Rightarrow> bytes result" where
  "str_to_bytes s pad_to_size =
     (let b = utf8_encode s
      in case pad_to_size of
           None \<Rightarrow> Inr b
         | Some n \<Rightarrow> if n < length b then Inl ValueError else Inr (b @ replicate (n - length b) 32))"

text \<open>\<open>str.strip()\<close>: the characters below 256 that Python counts as white space.\<close>

definition is_space :: "char \<Rightarrow> bool" where
  "is_space c = ((of_char c :: nat) \<in> {9..13} \<union> {28..32} \<union> {133, 160})"

definition strip :: "string \<Rightarrow> string" where
  "strip s = rev (dropWhile is_space (rev (dropWhile is_space s)))"

definition bytes_to_str :: "bytes \<Rightarrow> bool \<Rightarrow> string result" where
  "bytes_to_str b strip_padding =
     rbind (utf8_decode b) (\<lambda>s. Inr (if strip_padding then strip s else s))"

lemma unat_small: "n < 256 \<Longrightarrow> unat (word_of_nat n :: 8 word) = n"
  by (simp add: unat_of_nat)

lemma utf8_decode_char: "utf8_decode (utf8_char c @ ws) = rbind (utf8_decode ws) (\<lambda>s. Inr (c # s))"
proof -
  let ?n = "of_char c :: nat"
  have n: "?n < 256" by (metis of_char_of of_char_mod_256 mod_less_divisor zero_less_numeral)
  show ?thesis
  proof (cases "?n < 128")
    case True
    then show ?thesis by (simp add: utf8_char_def unat_small)
  next
    case False
    have d: "?n div 64 < 4" "2 \<le> ?n div 64" "?n mod 64 < 64"
      using n False by (auto simp: div_less_iff_less_mult less_eq_div_iff_mult_less_eq)
    define w v where "w = (word_of_nat (192 + ?n div 64) :: 8 word)" and "v = (word_of_nat (128 + ?n mod 64) :: 8 word)"
    have u: "unat w = 192 + ?n div 64" "unat v = 128 + ?n mod 64"
      unfolding w_def v_def by (rule unat_small, use d in linarith)+
    have "utf8_char c = [w, v]" using False by (simp add: utf8_char_def w_def v_def Let_def)
    moreover have "64 * (unat w - 192) + (unat v - 128) = ?n" by (simp add: u)
    ultimately show ?thesis using d by (simp add: u)
  qed
qed

lemma utf8_roundtrip: "utf8_decode (utf8_encode s) = Inr s"
  by (induction s) (simp_all add: utf8_encode_def utf8_decode_char)

lemma utf8_decode_append:
  "utf8_decode (utf8_encode s @ ws) = rbind (utf8_decode ws) (\<lambda>t. Inr (s @ t))"
proof (induction s)
  case Nil
  then show ?case by (cases "utf8_decode ws") (simp_all add: utf8_encode_def)
next
  case (Cons c s)
  then show ?case by (cases "utf8_decode ws") (simp_all add: utf8_encode_def utf8_decode_char)
qed

lemma utf8_spaces: "utf8_decode (replicate n 32) = Inr (replicate n (CHR '' ''))"
proof -
  have "char_of (32 :: nat) = CHR '' ''" using char_of_char [of "CHR '' ''", where 'a = nat] by simp
  then show ?thesis by (induction n) simp_all
qed

lemma is_space_blank [simp]: "is_space (CHR '' '')"
  by (simp add: is_space_def)

text \<open>Texts that \<open>strip\<close> leaves alone.\<close>

definition stripped :: "string \<Rightarrow> bool" where
  "stripped s \<longleftrightarrow> s = [] \<or> \<not> is_space (hd s) \<and> \<not> is_space (last s)"

lemma strip_padded: "stripped s \<Longrightarrow> strip (s @ replicate n (CHR '' '')) = s"
proof (cases "s = []")
  case True
  have "dropWhile is_space (replicate n (CHR '' '')) = []" by simp
  with True show ?thesis by (simp add: strip_def)
next
  case False
  assume "stripped s"
  with False have s: "\<not> is_space (hd s)" "\<not> is_space (last s)" by (simp_all add: stripped_def)
  have "dropWhile is_space (s @ replicate n (CHR '' '')) = s @ replicate n (CHR '' '')"
    using s(1) False by (cases s) simp_all
  moreover have "dropWhile is_space (replicate n (CHR '' '') @ rev s) = rev s"
    using s(2) False by (cases s rule: rev_cases) (simp_all add: dropWhile_append)
  ultimately show ?thesis by (simp add: strip_def)
qed

lemma padded_id_roundtrip:
  assumes "str_to_bytes s (Some n) = Inr b" "stripped s"
  shows "bytes_to_str b True = Inr s" "length b = n"
proof -
  from assms(1) have b: "b = utf8_encode s @ replicate (n - length (utf8_encode s)) 32" "length (utf8_encode s) \<le> n"
    by (auto simp: str_to_bytes_def Let_def split: if_splits)
  from b assms(2) show "bytes_to_str b True = Inr s"
    by (simp add: bytes_to_str_def utf8_decode_append utf8_spaces strip_padded)
  from b show "length b = n" by simp
qed

section \<open>Buffers\<close>

definition CHANNEL_ID_HEADER_LENGTH :: nat where
  "CHANNEL_ID_HEADER_LENGTH = 16"

definition serialize_msg_bytes ::
    "string \<Rightarrow> nat \<Rightarrow> bytes \<Rightarrow> nat \<Rightarrow> nat \<Rightarrow> bool \<Rightarrow> bytes result" where
  "serialize_msg_bytes channel_id buffer_id msg_bytes msg_id buffer_size with_header =
     (let msg_id_bytes = encode_int msg_id;
          msg_size = length msg_bytes;
          msg_size_bytes = encode_int msg_size
      in if with_header
         then let buffer_id_bytes = encode_int buffer_id
              in rbind (str_to_bytes channel_id (Some CHANNEL_ID_HEADER_LENGTH)) (\<lambda>channel_id_bytes.
                 let payload_size = length msg_id_bytes + length msg_size_bytes + length msg_bytes;
                     payload_size_bytes = encode_int payload_size
                 in if msg_size + CHANNEL_ID_HEADER_LENGTH + length buffer_id_bytes + length payload_size_bytes
                         + length msg_id_bytes + length msg_size_bytes > buffer_size
                    then Inl RuntimeError
                    else Inr (channel_id_bytes @ buffer_id_bytes @ payload_size_bytes @ msg_id_bytes @
                              msg_size_bytes @ msg_bytes))
         else Inr (msg_id_bytes @ msg_size_bytes @ msg_bytes))"

definition get_channel_id :: "bytes \<Rightarrow> string result" where
  "get_channel_id buffer = bytes_to_str (take CHANNEL_ID_HEADER_LENGTH buffer) True"

definition get_buffer_id_pos :: "bytes \<Rightarrow> (nat \<times> nat) result" where
  "get_buffer_id_pos buffer = decode_bytes buffer CHANNEL_ID_HEADER_LENGTH"

definition get_buffer_id :: "bytes \<Rightarrow> nat result" where
  "get_buffer_id buffer = rbind (get_buffer_id_pos buffer) (\<lambda>(i, _). Inr i)"

definition get_payload_size :: "bytes \<Rightarrow> (nat \<times> nat) result" where
  "get_payload_size buffer = rbind (get_buffer_id_pos buffer) (\<lambda>(_, offset). decode_bytes buffer offset)"

definition read_msg :: "bytes \<Rightarrow> nat \<Rightarrow> ((nat \<times> bytes) \<times> nat) result" where
  "read_msg buffer offset =
     rbind (decode_bytes buffer offset) (\<lambda>(msg_id, offset).
     rbind (decode_bytes buffer offset) (\<lambda>(msg_size, offset).
       Inr ((msg_id, py_slice offset (offset + msg_size) buffer), offset + msg_size)))"

lemma read_msg_pos: "read_msg buffer offset = Inr (m, p) \<Longrightarrow> offset < p"
  by (fastforce simp: read_msg_def dest: decode_bytes_pos)

function payload_loop :: "bytes \<Rightarrow> nat \<Rightarrow> nat \<Rightarrow> (nat \<times> bytes) list result" where
  "payload_loop buffer payload_end offset =
     (if offset < payload_end
      then (case read_msg buffer offset of
              Inl e \<Rightarrow> Inl e
            | Inr (m, offset') \<Rightarrow> rbind (payload_loop buffer payload_end offset') (\<lambda>ms. Inr (m # ms)))
      else Inr [])"
  by pat_completeness auto

termination
  by (relation "measure (\<lambda>(_, e, offset). e - offset)") (auto dest!: read_msg_pos)

declare payload_loop.simps [simp del]

definition get_payload :: "bytes \<Rightarrow> (nat \<times> bytes) list result" where
  "get_payload buffer =
     rbind (get_payload_size buffer) (\<lambda>(payload_size, offset).
       payload_loop buffer (offset + payload_size) offset)"

definition append_msg_bytes :: "bytes \<Rightarrow> bytes \<Rightarrow> nat \<Rightarrow> bytes result" where
  "append_msg_bytes buffer payload buffer_size =
     (if length buffer + length payload > buffer_size then Inl RuntimeError
      else rbind (get_buffer_id_pos buffer) (\<lambda>(_, size_start).
           rbind (get_payload_size buffer) (\<lambda>(payload_size, size_end).
             Inr (take size_start buffer @ encode_int (payload_size + length payload) @
                  drop size_end buffer @ payload))))"

text \<open>
  The JSON serializer (\<open>orjson\<close>) is a pair of functions \<open>dumps\<close> and \<open>loads\<close>.
\<close>

definition serialize_msg ::
    "('m \<Rightarrow> bytes) \<Rightarrow> string \<Rightarrow> nat \<Rightarrow> 'm \<Rightarrow> nat \<Rightarrow> nat \<Rightarrow> bool \<Rightarrow> bytes result" where
  "serialize_msg dumps channel_id buffer_id msg msg_id buffer_size with_header =
     serialize_msg_bytes channel_id buffer_id (dumps msg) msg_id buffer_size with_header"

definition deser :: "(bytes \<Rightarrow> 'm result) \<Rightarrow> bytes \<Rightarrow> 'm list result" where
  "deser loads buffer = rbind (get_payload buffer) (rmap (\<lambda>(_, data). loads data))"

text \<open>Acknowledgements: a padded channel id and the JSON text of the batch.\<close>

definition ack_ser :: "(string \<times> nat list \<Rightarrow> bytes) \<Rightarrow> string \<Rightarrow> nat list \<Rightarrow> bytes result" where
  "ack_ser dumps channel_id acks =
     rbind (str_to_bytes channel_id (Some CHANNEL_ID_HEADER_LENGTH)) (\<lambda>channel_id_bytes.
       Inr (channel_id_bytes @ dumps (channel_id, acks)))"

definition ack_de :: "(bytes \<Rightarrow> (string \<times> nat list) result) \<Rightarrow> bytes \<Rightarrow> (string \<times> nat list) result" where
  "ack_de loads raw = loads (drop CHANNEL_ID_HEADER_LENGTH raw)"

section \<open>The buffer format\<close>

text \<open>What a buffer with the given channel, id and messages looks like.\<close>

definition msg_enc :: "nat \<times> bytes \<Rightarrow> bytes" where
  "msg_enc m = encode_int (fst m) @ encode_int (length (snd m)) @ snd m"

definition payload_of :: "(nat \<times> bytes) list \<Rightarrow> bytes" where
  "payload_of ms = concat (map msg_enc ms)"

definition header_of :: "string \<Rightarrow> bytes" where
  "header_of ch = utf8_encode ch @ replicate (CHANNEL_ID_HEADER_LENGTH - length (utf8_encode ch)) 32"

definition channel_ok :: "string \<Rightarrow> bool" where
  "channel_ok ch \<longleftrightarrow> stripped ch \<and> length (utf8_encode ch) \<le> CHANNEL_ID_HEADER_LENGTH"

definition buffer_of :: "string \<Rightarrow> nat \<Rightarrow> (nat \<times> bytes) list \<Rightarrow> bytes" where
  "buffer_of ch bid ms =
     header_of ch @ encode_int bid @ encode_int (length (payload_of ms)) @ payload_of ms"

lemma header_of_ok:
  assumes "channel_ok ch"
  shows "str_to_bytes ch (Some CHANNEL_ID_HEADER_LENGTH) = Inr (header_of ch)"
    "length (header_of ch) = CHANNEL_ID_HEADER_LENGTH" "bytes_to_str (header_of ch) True = Inr ch"
proof -
  show 1: "str_to_bytes ch (Some CHANNEL_ID_HEADER_LENGTH) = Inr (header_of ch)"
    using assms by (simp add: channel_ok_def str_to_bytes_def header_of_def Let_def)
  from padded_id_roundtrip [OF 1] assms
  show "length (header_of ch) = CHANNEL_ID_HEADER_LENGTH" "bytes_to_str (header_of ch) True = Inr ch"
    by (simp_all add: channel_ok_def)
qed

lemma msg_codec: "read_msg (pre @ msg_enc m @ post) (length pre) = Inr (m, length pre + length (msg_enc m))"
proof -
  obtain i d where m: "m = (i, d)" by (cases m)
  let ?b = "pre @ msg_enc m @ post"
  have 1: "decode_bytes ?b (length pre) = Inr (i, length pre + length (encode_int i))"
    by (rule varint.dec_at [of _ pre _ "encode_int (length d) @ d @ post"]) (simp_all add: m msg_enc_def)
  have 2: "decode_bytes ?b (length pre + length (encode_int i)) =
      Inr (length d, length pre + length (encode_int i) + length (encode_int (length d)))"
    by (rule varint.dec_at [of _ "pre @ encode_int i" _ "d @ post"]) (simp_all add: m msg_enc_def)
  show ?thesis using 1 2 by (simp add: read_msg_def m py_slice_def msg_enc_def)
qed

interpretation message: codec msg_enc read_msg
  by unfold_locales (rule msg_codec)

lemma payload_loop_all:
  "payload_loop (pre @ payload_of ms) (length pre + length (payload_of ms)) (length pre) = Inr ms"
proof (induction ms arbitrary: pre)
  case Nil
  then show ?case by (subst payload_loop.simps) (simp add: payload_of_def)
next
  case (Cons m ms)
  have "read_msg (pre @ payload_of (m # ms)) (length pre) = Inr (m, length pre + length (msg_enc m))"
    by (rule message.dec_at [of _ pre _ "payload_of ms"]) (simp_all add: payload_of_def)
  moreover have "msg_enc m \<noteq> []" by (simp add: msg_enc_def)
  ultimately show ?case using Cons.IH [of "pre @ msg_enc m"]
    by (subst payload_loop.simps) (simp add: payload_of_def add.assoc)
qed

lemma buffer_of_fields:
  assumes "channel_ok ch"
  shows "get_channel_id (buffer_of ch bid ms) = Inr ch"
    and "get_buffer_id (buffer_of ch bid ms) = Inr bid"
    and "get_buffer_id_pos (buffer_of ch bid ms) = Inr (bid, CHANNEL_ID_HEADER_LENGTH + length (encode_int bid))"
    and "get_payload_size (buffer_of ch bid ms) = Inr (length (payload_of ms),
      CHANNEL_ID_HEADER_LENGTH + length (encode_int bid) + length (encode_int (length (payload_of ms))))"
    and "get_payload (buffer_of ch bid ms) = Inr ms"
proof -
  note h = header_of_ok [OF assms]
  show "get_channel_id (buffer_of ch bid ms) = Inr ch"
    using h(2,3) by (simp add: get_channel_id_def buffer_of_def)
  show p: "get_buffer_id_pos (buffer_of ch bid ms) = Inr (bid, CHANNEL_ID_HEADER_LENGTH + length (encode_int bid))"
    unfolding get_buffer_id_pos_def
    by (rule varint.dec_at [of _ "header_of ch" _ "encode_int (length (payload_of ms)) @ payload_of ms"])
      (simp_all add: buffer_of_def h(2))
  then show "get_buffer_id (buffer_of ch bid ms) = Inr bid" by (simp add: get_buffer_id_def)
  have "decode_bytes (buffer_of ch bid ms) (CHANNEL_ID_HEADER_LENGTH + length (encode_int bid)) = Inr (length (payload_of ms),
      CHANNEL_ID_HEADER_LENGTH + length (encode_int bid) + length (encode_int (length (payload_of ms))))"
    by (rule varint.dec_at [of _ "header_of ch @ encode_int bid" _ "payload_of ms"]) (simp_all add: buffer_of_def h(2))
  with p show s: "get_payload_size (buffer_of ch bid ms) = Inr (length (payload_of ms),
      CHANNEL_ID_HEADER_LENGTH + length (encode_int bid) + length (encode_int (length (payload_of ms))))"
    by (simp add: get_payload_size_def)
  show "get_payload (buffer_of ch bid ms) = Inr ms"
    using s payload_loop_all [of "header_of ch @ encode_int bid @ encode_int (length (payload_of ms))" ms]
    by (simp add: get_payload_def buffer_of_def h(2) add.assoc)
qed

lemma serialize_header:
  assumes "channel_ok ch"
  shows "serialize_msg_bytes ch bid d i bsize True =
    (if length (buffer_of ch bid [(i, d)]) > bsize then Inl RuntimeError else Inr (buffer_of ch bid [(i, d)]))"
  using header_of_ok [OF assms]
  by (auto simp: serialize_msg_bytes_def Let_def buffer_of_def payload_of_def msg_enc_def ac_simps)

lemma serialize_no_header: "serialize_msg_bytes ch bid d i bsize False = Inr (msg_enc (i, d))"
  by (simp add: serialize_msg_bytes_def Let_def msg_enc_def)

lemma append_buffer_of:
  assumes "channel_ok ch"
  shows "append_msg_bytes (buffer_of ch bid ms) (msg_enc m) bsize =
    (if length (buffer_of ch bid ms) + length (msg_enc m) > bsize then Inl RuntimeError
     else Inr (buffer_of ch bid (ms @ [m])))"
proof -
  note f = buffer_of_fields [OF assms] and h = header_of_ok(2) [OF assms]
  have "take (CHANNEL_ID_HEADER_LENGTH + length (encode_int bid)) (buffer_of ch bid ms) = header_of ch @ encode_int bid"
    by (simp add: buffer_of_def h)
  moreover have "drop (CHANNEL_ID_HEADER_LENGTH + length (encode_int bid) + length (encode_int (length (payload_of ms))))
      (buffer_of ch bid ms) = payload_of ms"
    by (simp add: buffer_of_def h)
  moreover have "payload_of (ms @ [m]) = payload_of ms @ msg_enc m" by (simp add: payload_of_def)
  ultimately show ?thesis by (simp add: append_msg_bytes_def f buffer_of_def [of ch bid "ms @ [m]"])
qed

text \<open>Starting a buffer with a message and appending the others to it.\<close>

fun append_all :: "nat \<Rightarrow> bytes \<Rightarrow> (nat \<times> bytes) list \<Rightarrow> bytes result" where
  "append_all bsize b [] = Inr b"
| "append_all bsize b ((i, d) # ms) =
     rbind (serialize_msg_bytes [] 0 d i bsize False) (\<lambda>payload.
     rbind (append_msg_bytes b payload bsize) (\<lambda>b'. append_all bsize b' ms))"

definition fill_buffer :: "string \<Rightarrow> nat \<Rightarrow> nat \<Rightarrow> nat \<times> bytes \<Rightarrow> (nat \<times> bytes) list \<Rightarrow> bytes result" where
  "fill_buffer ch bid bsize m ms =
     rbind (serialize_msg_bytes ch bid (snd m) (fst m) bsize True) (\<lambda>b. append_all bsize b ms)"

lemma append_all_buffer_of:
  "channel_ok ch \<Longrightarrow> append_all bsize (buffer_of ch bid ms) ms' = Inr b \<Longrightarrow> b = buffer_of ch bid (ms @ ms')"
proof (induction ms' arbitrary: ms)
  case (Cons m ms')
  then show ?case using Cons.IH [of "ms @ [m]"]
    by (cases m) (auto simp: serialize_no_header append_buffer_of split: if_splits)
qed simp

text \<open>
  C30. A buffer that was started with a first message and extended message by message reads
  back as what was put in: its channel, its id and all its messages with their ids, in order.
\<close>

theorem buffer_roundtrip:
  assumes "channel_ok ch" "fill_buffer ch bid bsize m ms = Inr b"
  shows "get_channel_id b = Inr ch \<and> get_buffer_id b = Inr bid \<and> get_payload b = Inr (m # ms)"
proof -
  from assms have "b = buffer_of ch bid (m # ms)"
    by (auto simp: fill_buffer_def serialize_header split: if_splits dest: append_all_buffer_of)
  with buffer_of_fields [OF assms(1)] show ?thesis by simp
qed

lemma utf8_ascii: "(of_char c :: nat) < 128 \<Longrightarrow> utf8_encode (c # s) = word_of_nat (of_char c) # utf8_encode s"
  by (simp add: utf8_encode_def utf8_char_def)

lemma channel_ok_c1: "channel_ok ''c1''" "header_of ''c1'' = [99, 49] @ replicate 14 32"
proof -
  have e: "utf8_encode ''c1'' = [99, 49]" by (simp add: utf8_ascii) (simp add: utf8_encode_def)
  show "channel_ok ''c1''" by (simp add: channel_ok_def e stripped_def is_space_def CHANNEL_ID_HEADER_LENGTH_def)
  show "header_of ''c1'' = [99, 49] @ replicate 14 32" by (simp add: header_of_def e CHANNEL_ID_HEADER_LENGTH_def)
qed

lemma encode_small: "n < 128 \<Longrightarrow> encode_int n = [word_of_nat n]"
proof -
  assume n: "n < 128"
  have "n AND 127 = n" using n by (simp add: and_127 take_bit_eq_mod)
  moreover have "drop_bit 7 n = 0" using n by (simp add: drop_bit_eq_div)
  ultimately show ?thesis by (subst encode_int.simps) simp
qed

theorem buffer_roundtrip_witness:
  "\<exists>b. fill_buffer ''c1'' 3 100 (0, [7]) [(1, [8, 9])] = Inr b \<and>
     get_channel_id b = Inr ''c1'' \<and> get_buffer_id b = Inr 3 \<and> get_payload b = Inr [(0, [7]), (1, [8, 9])]"
proof -
  have "\<exists>b. fill_buffer ''c1'' 3 100 (0, [7]) [(1, [8, 9])] = Inr b"
    using channel_ok_c1
    by (simp add: fill_buffer_def serialize_header serialize_no_header append_buffer_of)
      (simp add: buffer_of_def payload_of_def msg_enc_def encode_small)
  then obtain b where b: "fill_buffer ''c1'' 3 100 (0, [7]) [(1, [8, 9])] = Inr b" by blast
  from buffer_roundtrip [OF channel_ok_c1(1) b] b show ?thesis by blast
qed

text \<open>
  Appending may push a buffer over its size: the check adds the message to the old
  length, but the size field in front of the payload can grow by the append, and by as much
  the new buffer is longer than the check allowed for.
\<close>

theorem append_length:
  assumes "channel_ok ch" "append_msg_bytes (buffer_of ch bid ms) (msg_enc m) bsize = Inr b"
  shows "length (buffer_of ch bid ms) + length (msg_enc m) \<le> bsize \<and>
    length b = length (buffer_of ch bid ms) + length (msg_enc m) +
      (length (encode_int (length (payload_of ms) + length (msg_enc m))) - length (encode_int (length (payload_of ms))))"
proof -
  have mono: "length (encode_int a) \<le> length (encode_int (a + c))" for a c
  proof (induction a arbitrary: c rule: encode_int.induct)
    case (1 a)
    show ?case
    proof (cases "drop_bit 7 a = 0")
      case True
      then have "length (encode_int a) = 1" by (subst encode_int.simps) (simp add: Let_def)
      then show ?thesis by (simp add: Suc_le_eq)
    next
      case False
      obtain e where e: "drop_bit 7 (a + c) = drop_bit 7 a + e"
        by (metis drop_bit_eq_div div_le_mono le_add1 le_Suc_ex)
      have "length (encode_int a) = Suc (length (encode_int (drop_bit 7 a)))"
        using False by (subst encode_int.simps) (simp add: Let_def)
      also have "\<dots> \<le> Suc (length (encode_int (drop_bit 7 a + e)))" using 1 False by simp
      also have "\<dots> = length (encode_int (a + c))"
        using False e by (subst (2) encode_int.simps) (simp add: Let_def)
      finally show ?thesis .
    qed
  qed
  from assms have "b = buffer_of ch bid (ms @ [m])" "length (buffer_of ch bid ms) + length (msg_enc m) \<le> bsize"
    by (auto simp: append_buffer_of split: if_splits)
  then show ?thesis using mono [of "length (payload_of ms)" "length (msg_enc m)"]
    by (simp add: buffer_of_def payload_of_def)
qed

theorem append_length_witness:
  "\<exists>b. append_msg_bytes (buffer_of ''c1'' 0 [(0, replicate 125 0)]) (msg_enc (1, [])) 147 = Inr b \<and> length b = 148"
proof -
  have b: "append_msg_bytes (buffer_of ''c1'' 0 [(0, replicate 125 0)]) (msg_enc (1, [])) 147 =
      Inr (buffer_of ''c1'' 0 ([(0, replicate 125 0)] @ [(1, [])]))"
    using channel_ok_c1
    by (subst append_buffer_of) (simp_all add: buffer_of_def payload_of_def msg_enc_def encode_small)
  have e: "length (encode_int 129) = 2"
    by (subst encode_int.simps) (simp add: Let_def drop_bit_eq_div encode_small)
  from append_length [OF channel_ok_c1(1) b] b channel_ok_c1(2) show ?thesis
    by (simp add: buffer_of_def payload_of_def msg_enc_def encode_small e)
qed

end
