(* ===== verification/Buffer_Queues.thy ===== *)
theory Buffer_Queues
  imports Buffers
begin

text \<open>
  Buffer memory accounting and the per-channel buffer queues of the sending side
  (\<open>network_deprecated/buffer/buffer_memory_tracker.py\<close>, \<open>buffer_queues.py\<close>,
  \<open>buffering_policy.py\<close>). Every operation of the queues touches the entries of one channel
  under that channel's lock, so the state is that of one channel; the clock readings are
  arguments. The tracker is the one the data writer always supplies. Operations that can raise after changing the state give the state as well.
\<close>

section \<open>The memory tracker\<close>

record mem_tracker =
  mt_capacity_per_in_channel :: int
  mt_capacity_per_out :: int
  mt_shared_dict :: "(string, int) dict"

definition remaining_for :: "string \<Rightarrow> bool \<Rightarrow> mem_tracker \<Rightarrow> int" where
  "remaining_for key in_ch t =
     (case map_of (mt_shared_dict t) key of
        None \<Rightarrow> if in_ch then mt_capacity_per_in_channel t else mt_capacity_per_out t
      | Some v \<Rightarrow> v)"

definition try_acquire :: "string \<Rightarrow> int \<Rightarrow> bool \<Rightarrow> mem_tracker \<Rightarrow> bool \<times> mem_tracker" where
  "try_acquire key amount in_ch t =
     (let remaining = remaining_for key in_ch t
      in if amount \<le> remaining
         then (True, t\<lparr>mt_shared_dict := AList.update key (remaining - amount) (mt_shared_dict t)\<rparr>)
         else (False, t))"

definition release :: "string \<Rightarrow> int \<Rightarrow> mem_tracker \<Rightarrow> mem_tracker result" where
  "release key amount t =
     (case map_of (mt_shared_dict t) key of
        None \<Rightarrow> Inl RuntimeError
      | Some remaining \<Rightarrow> Inr (t\<lparr>mt_shared_dict := AList.update key (remaining + amount) (mt_shared_dict t)\<rparr>))"

definition get_capacity :: "string \<Rightarrow> mem_tracker \<Rightarrow> int option" where
  "get_capacity key t = map_of (mt_shared_dict t) key"

section \<open>Buffer queues\<close>

datatype buffering_policy = BufferPerMessagePolicy | PeriodicPartialFlushPolicy rat

record buffer_queue =
  bq_channel_id :: string
  bq_buffer_size :: nat
  bq_policy :: buffering_policy
  bq_msg_id_seq :: nat
  bq_buffer_id_seq :: nat
  bq_queue :: "bytes list"
  bq_last_update_ts :: "rat option"
  bq_schedule_index :: int
  bq_should_cut_buffer :: bool
  bq_pops :: "nat list"
  bq_tracker :: mem_tracker

definition bq_init :: "string \<Rightarrow> nat \<Rightarrow> buffering_policy \<Rightarrow> mem_tracker \<Rightarrow> buffer_queue" where
  "bq_init ch bsize policy t =
     \<lparr>bq_channel_id = ch, bq_buffer_size = bsize, bq_policy = policy, bq_msg_id_seq = 0,
      bq_buffer_id_seq = 0, bq_queue = [], bq_last_update_ts = None, bq_schedule_index = 0,
      bq_should_cut_buffer = False, bq_pops = [], bq_tracker = t\<rparr>"

text \<open>\<open>append_msg\<close> gives the message and buffer ids, or nothing under backpressure.\<close>

definition needs_new_buffer :: "nat \<Rightarrow> buffer_queue \<Rightarrow> bool" where
  "needs_new_buffer payload_len q \<longleftrightarrow>
     bq_queue q = [] \<or> bq_policy q = BufferPerMessagePolicy \<or>
     int (bq_buffer_size q) - int (length (last (bq_queue q))) < int payload_len"

definition append_msg ::
    "('m \<Rightarrow> bytes) \<Rightarrow> rat \<Rightarrow> 'm \<Rightarrow> buffer_queue \<Rightarrow> (nat \<times> nat) option result \<times> buffer_queue" where
  "append_msg dumps now message q =
     (let msg_id = bq_msg_id_seq q; buffer_id = bq_buffer_id_seq q; ch = bq_channel_id q
      in case serialize_msg dumps ch buffer_id message msg_id (bq_buffer_size q) False of
           Inl e \<Rightarrow> (Inl e, q)
         | Inr payload \<Rightarrow>
             if \<not> needs_new_buffer (length payload) q \<and> \<not> bq_should_cut_buffer q
             then (case append_msg_bytes (last (bq_queue q)) payload (bq_buffer_size q) of
                     Inl e \<Rightarrow> (Inl e, q)
                   | Inr b \<Rightarrow> (Inr (Some (msg_id, buffer_id)),
                       q\<lparr>bq_queue := butlast (bq_queue q) @ [b], bq_msg_id_seq := msg_id + 1,
                         bq_last_update_ts := Some now\<rparr>))
             else (case try_acquire ch 1 True (bq_tracker q) of
                     (False, t) \<Rightarrow> (Inr None, q\<lparr>bq_tracker := t\<rparr>)
                   | (True, t) \<Rightarrow>
                       (case serialize_msg dumps ch buffer_id message msg_id (bq_buffer_size q) True of
                          Inl e \<Rightarrow> (Inl e, q\<lparr>bq_tracker := t\<rparr>)
                        | Inr b \<Rightarrow> (Inr (Some (msg_id, buffer_id)),
                            q\<lparr>bq_queue := bq_queue q @ [b], bq_msg_id_seq := msg_id + 1,
                              bq_buffer_id_seq := buffer_id + 1, bq_last_update_ts := Some now,
                              bq_should_cut_buffer := False, bq_tracker := t\<rparr>))))"

definition schedule_next :: "rat \<Rightarrow> buffer_queue \<Rightarrow> (bytes option \<times> buffer_queue) result" where
  "schedule_next now q =
     (let num_schedulable = int (length (bq_queue q)) - bq_schedule_index q;
          q' = q\<lparr>bq_schedule_index := bq_schedule_index q + 1\<rparr>
      in if num_schedulable < 0 then Inl RuntimeError
         else if num_schedulable = 0 then Inr (None, q)
         else (case bq_policy q of
                 PeriodicPartialFlushPolicy flush_period_s \<Rightarrow>
                   if num_schedulable = 1
                   then (case bq_last_update_ts q of
                           None \<Rightarrow> Inl TypeError
                         | Some ts \<Rightarrow>
                             if now - ts \<ge> flush_period_s
                             then rbind (py_index (bq_queue q) (bq_schedule_index q)) (\<lambda>b.
                                    Inr (Some b, q'\<lparr>bq_should_cut_buffer := True\<rparr>))
                             else Inr (None, q))
                   else rbind (py_index (bq_queue q) (bq_schedule_index q)) (\<lambda>b. Inr (Some b, q'))
               | BufferPerMessagePolicy \<Rightarrow>
                   rbind (py_index (bq_queue q) (bq_schedule_index q)) (\<lambda>b. Inr (Some b, q'))))"

text \<open>The popping loop over the queue, with the schedule index, the recorded pops and the tracker.\<close>

fun pop_loop ::
    "string \<Rightarrow> bytes list \<Rightarrow> int \<Rightarrow> nat list \<Rightarrow> mem_tracker \<Rightarrow>
     (bytes list \<times> int \<times> nat list \<times> mem_tracker) result" where
  "pop_loop ch [] idx pops t = Inr ([], idx, pops, t)"
| "pop_loop ch (b # bs) idx pops t =
     rbind (get_buffer_id b) (\<lambda>i.
       if i \<in> set pops
       then if idx - 1 < 0 then Inl RuntimeError
            else rbind (release ch 1 t) (\<lambda>t'. pop_loop ch bs (idx - 1) (removeAll i pops) t')
       else Inr (b # bs, idx, pops, t))"

definition pop_buffer :: "nat \<Rightarrow> buffer_queue \<Rightarrow> buffer_queue result" where
  "pop_buffer buffer_id q =
     (let pops = (if buffer_id \<in> set (bq_pops q) then bq_pops q else bq_pops q @ [buffer_id])
      in if bq_queue q = [] then Inl RuntimeError
         else rbind (pop_loop (bq_channel_id q) (bq_queue q) (bq_schedule_index q) pops (bq_tracker q))
                (\<lambda>(bs, idx, pops', t).
                   Inr (q\<lparr>bq_queue := bs, bq_schedule_index := idx, bq_pops := pops', bq_tracker := t\<rparr>)))"

section \<open>Memory accounting\<close>

text \<open>A run of acquisitions (\<open>True\<close>) and releases of what is held; the number held at the end.\<close>

fun account_run ::
    "('t \<Rightarrow> bool \<times> 't) \<Rightarrow> ('t \<Rightarrow> 't result) \<Rightarrow> bool list \<Rightarrow> 't \<Rightarrow> nat \<Rightarrow> ('t \<times> nat) result" where
  "account_run acquire give_back [] t held = Inr (t, held)"
| "account_run acquire give_back (True # ops) t held =
     (case acquire t of (ok, t') \<Rightarrow> account_run acquire give_back ops t' (if ok then held + 1 else held))"
| "account_run acquire give_back (False # ops) t held =
     (if held = 0 then account_run acquire give_back ops t held
      else rbind (give_back t) (\<lambda>t'. account_run acquire give_back ops t' (held - 1)))"

text \<open>
  What clients of the tracker rely on: an acquisition succeeds exactly when a unit is left and
  takes one, and what was acquired can be released.
\<close>

locale memory_account =
  fixes acquire :: "'t \<Rightarrow> bool \<times> 't"
    and give_back :: "'t \<Rightarrow> 't result"
    and avail :: "'t \<Rightarrow> int"
    and used :: "'t \<Rightarrow> bool"
  assumes acquire_ok: "1 \<le> avail t \<Longrightarrow> \<exists>t'. acquire t = (True, t') \<and> avail t' = avail t - 1 \<and> used t'"
    and acquire_full: "avail t < 1 \<Longrightarrow> acquire t = (False, t)"
    and give_back_ok: "used t \<Longrightarrow> \<exists>t'. give_back t = Inr t' \<and> avail t' = avail t + 1 \<and> used t'"
begin

lemma account_conserved:
  assumes "0 \<le> avail t" "0 < held \<Longrightarrow> used t"
  shows "\<exists>t' held'. account_run acquire give_back ops t held = Inr (t', held') \<and> avail t' + int held' = avail t + int held \<and> 0 \<le> avail t'"
  using assms
proof (induction ops arbitrary: t held)
  case (Cons op ops)
  show ?case
  proof (cases op)
    case op: True
    show ?thesis
    proof (cases "1 \<le> avail t")
      case True
      with acquire_ok obtain t' where "acquire t = (True, t')" "avail t' = avail t - 1" "used t'" by blast
      with Cons.IH [of t' "Suc held"] True op show ?thesis by simp
    next
      case False
      with acquire_full have "acquire t = (False, t)" by simp
      with Cons op show ?thesis by simp
    qed
  next
    case op: False
    show ?thesis
    proof (cases "held = 0")
      case False
      with Cons.prems(2) give_back_ok obtain t' where "give_back t = Inr t'" "avail t' = avail t + 1" "used t'" by blast
      with Cons.IH [of t' "held - 1"] Cons.prems(1) False op show ?thesis by (simp add: of_nat_diff)
    qed (use Cons.IH [of t 0] Cons.prems op in simp)
  qed
qed simp

end

definition mt_used :: "string \<Rightarrow> mem_tracker \<Rightarrow> bool" where
  "mt_used key t \<longleftrightarrow> map_of (mt_shared_dict t) key \<noteq> None"

interpretation tracker: memory_account "try_acquire key 1 in_ch" "release key 1" "remaining_for key in_ch" "mt_used key"
  for key in_ch
  by unfold_locales (auto simp: try_acquire_def release_def remaining_for_def mt_used_def Let_def)

text \<open>
  Whatever the sequence of acquisitions and releases of units of one key, what is held and
  what is left add up to the key's capacity, so never more than the capacity is held, and no
  release of a held unit raises.
\<close>

theorem tracker_conserves_capacity:
  assumes "map_of (mt_shared_dict t) key = None" "0 \<le> mt_capacity_per_in_channel t"
  shows "\<exists>t' held. account_run (try_acquire key 1 True) (release key 1) ops t 0 = Inr (t', held) \<and>
    remaining_for key True t' + int held = mt_capacity_per_in_channel t \<and>
    int held \<le> mt_capacity_per_in_channel t"
proof -
  have "remaining_for key True t = mt_capacity_per_in_channel t" using assms(1) by (simp add: remaining_for_def)
  with assms(2) tracker.account_conserved [of key True t 0 ops] show ?thesis by fastforce
qed

theorem tracker_conserves_capacity_witness:
  "\<exists>t' held. account_run (try_acquire ''k'' 1 True) (release ''k'' 1) [True, True, False]
      \<lparr>mt_capacity_per_in_channel = 1, mt_capacity_per_out = 1, mt_shared_dict = []\<rparr> 0 = Inr (t', held) \<and>
    remaining_for ''k'' True t' + int held = 1 \<and> int held \<le> 1"
  using tracker_conserves_capacity [of "\<lparr>mt_capacity_per_in_channel = 1, mt_capacity_per_out = 1, mt_shared_dict = []\<rparr>"
      "''k''" "[True, True, False]"] by simp

section \<open>What a queue holds\<close>

text \<open>
  \<open>B\<close> lists the messages of all buffers ever started, by buffer id; the queue holds those from
  id \<open>b0\<close> on. Scheduled buffers are not extended any more: the last buffer may only be
  extended while it is not scheduled.
\<close>

definition bq_rep :: "(nat \<times> bytes) list list \<Rightarrow> nat \<Rightarrow> buffer_queue \<Rightarrow> bool" where
  "bq_rep B b0 q \<longleftrightarrow>
     channel_ok (bq_channel_id q) \<and> bq_buffer_id_seq q = length B \<and> b0 \<le> length B \<and>
     bq_queue q = map (\<lambda>i. buffer_of (bq_channel_id q) i (B ! i)) [b0..<length B] \<and>
     map fst (concat B) = [0..<bq_msg_id_seq q] \<and>
     0 \<le> bq_schedule_index q \<and> int b0 + bq_schedule_index q \<le> int (length B) \<and>
     (int b0 + bq_schedule_index q = int (length B) \<longrightarrow> b0 < length B \<longrightarrow>
        bq_should_cut_buffer q \<or> bq_policy q = BufferPerMessagePolicy) \<and>
     distinct (bq_pops q) \<and> (\<forall>i \<in> set (bq_pops q). b0 \<le> i \<and> int i < int b0 + bq_schedule_index q) \<and>
     (b0 < length B \<longrightarrow> bq_last_update_ts q \<noteq> None)"

text \<open>Units taken and never given back, by messages that did not fit, only lower what is left.\<close>

definition bq_mem :: "(nat \<times> bytes) list list \<Rightarrow> nat \<Rightarrow> buffer_queue \<Rightarrow> bool" where
  "bq_mem B b0 q \<longleftrightarrow>
     0 \<le> remaining_for (bq_channel_id q) True (bq_tracker q) \<and>
     remaining_for (bq_channel_id q) True (bq_tracker q) \<le>
       mt_capacity_per_in_channel (bq_tracker q) - int (length B - b0) \<and>
     (B \<noteq> [] \<longrightarrow> mt_used (bq_channel_id q) (bq_tracker q))"

lemma bq_rep_init: "channel_ok ch \<Longrightarrow> bq_rep [] 0 (bq_init ch bsize policy t)"
  by (simp add: bq_rep_def bq_init_def)

lemma bq_queue_last:
  "bq_rep B b0 q \<Longrightarrow> bq_queue q \<noteq> [] \<Longrightarrow>
   last (bq_queue q) = buffer_of (bq_channel_id q) (length B - 1) (last B) \<and> B \<noteq> [] \<and> b0 < length B"
  by (auto simp: bq_rep_def last_map last_conv_nth)

lemma nth_append_last: "B \<noteq> [] \<Longrightarrow> i < length B \<Longrightarrow>
  (butlast B @ [last B @ [m]]) ! i = (if i = length B - 1 then last B @ [m] else B ! i)"
  by (auto simp: nth_append nth_butlast)

lemma append_extend:
  assumes "bq_rep B b0 q" "\<not> needs_new_buffer (length (msg_enc m)) q" "\<not> bq_should_cut_buffer q"
    and "fst m = bq_msg_id_seq q"
  defines "B' \<equiv> butlast B @ [last B @ [m]]"
  shows "\<exists>b. append_msg_bytes (last (bq_queue q)) (msg_enc m) (bq_buffer_size q) = Inr b \<and>
    bq_rep B' b0 (q\<lparr>bq_queue := butlast (bq_queue q) @ [b], bq_msg_id_seq := fst m + 1, bq_last_update_ts := Some now\<rparr>) \<and>
    concat B' = concat B @ [m] \<and> length B' = length B \<and>
    (\<forall>i. int i < int b0 + bq_schedule_index q \<longrightarrow> B' ! i = B ! i)"
proof -
  let ?ch = "bq_channel_id q"
  from assms(2) have ne: "bq_queue q \<noteq> []" and fits: "length (last (bq_queue q)) + length (msg_enc m) \<le> bq_buffer_size q"
    and per: "bq_policy q \<noteq> BufferPerMessagePolicy" by (auto simp: needs_new_buffer_def)
  from bq_queue_last [OF assms(1) ne]
  have last: "last (bq_queue q) = buffer_of ?ch (length B - 1) (last B)" "B \<noteq> []" "b0 < length B" by simp_all
  have ok: "channel_ok ?ch" using assms(1) by (simp add: bq_rep_def)
  have b: "append_msg_bytes (last (bq_queue q)) (msg_enc m) (bq_buffer_size q) = Inr (buffer_of ?ch (length B - 1) (last B @ [m]))"
    using append_buffer_of [OF ok] fits last(1) by simp
  have len: "length B' = length B" using last(2) by (simp add: B'_def)
  have con: "concat B' = concat B @ [m]"
    using last(2) by (metis B'_def append_assoc append_butlast_last_id concat.simps concat_append append_Nil2)
  have B': "B' ! i = (if i = length B - 1 then last B @ [m] else B ! i)" if "i < length B" for i
    using nth_append_last [OF last(2) that] by (simp add: B'_def)
  have sched: "int b0 + bq_schedule_index q < int (length B)"
    using assms(1,3) per last(3) by (auto simp: bq_rep_def)
  have keep: "\<forall>i. int i < int b0 + bq_schedule_index q \<longrightarrow> B' ! i = B ! i" using sched B' by auto
  have q: "butlast (bq_queue q) @ [buffer_of ?ch (length B - 1) (last B @ [m])] =
      map (\<lambda>i. buffer_of ?ch i (B' ! i)) [b0..<length B']"
  proof -
    have split: "[b0..<length B] = [b0..<length B - 1] @ [length B - 1]"
      using last(3) by (metis Suc_diff_1 less_imp_Suc_add upt_Suc_append zero_less_Suc add_diff_cancel_left' le_add1 le_SucE less_eq_Suc_le not_less_eq_eq)
    have "bq_queue q = map (\<lambda>i. buffer_of ?ch i (B ! i)) [b0..<length B]" using assms(1) by (simp add: bq_rep_def)
    then have "butlast (bq_queue q) = map (\<lambda>i. buffer_of ?ch i (B ! i)) [b0..<length B - 1]" by (simp add: split)
    also have "\<dots> = map (\<lambda>i. buffer_of ?ch i (B' ! i)) [b0..<length B - 1]" using B' by (intro map_cong refl) (auto simp: less_diff_conv)
    finally show ?thesis using last(2,3) by (simp add: len split B')
  qed
  have "bq_rep B' b0 (q\<lparr>bq_queue := butlast (bq_queue q) @ [buffer_of ?ch (length B - 1) (last B @ [m])],
      bq_msg_id_seq := fst m + 1, bq_last_update_ts := Some now\<rparr>)"
    using assms(1,4) q len con sched unfolding bq_rep_def by simp
  with b keep con len show ?thesis by blast
qed

lemma append_fresh:
  assumes "bq_rep B b0 q" "fst m = bq_msg_id_seq q"
  shows "bq_rep (B @ [[m]]) b0 (q\<lparr>bq_queue := bq_queue q @ [buffer_of (bq_channel_id q) (length B) [m]],
      bq_msg_id_seq := fst m + 1, bq_buffer_id_seq := length B + 1, bq_last_update_ts := Some now,
      bq_should_cut_buffer := False, bq_tracker := t\<rparr>)"
proof -
  have "bq_queue q = map (\<lambda>i. buffer_of (bq_channel_id q) i (B ! i)) [b0..<length B]" "b0 \<le> length B"
    using assms(1) by (simp_all add: bq_rep_def)
  then have "bq_queue q @ [buffer_of (bq_channel_id q) (length B) [m]] =
      map (\<lambda>i. buffer_of (bq_channel_id q) i ((B @ [[m]]) ! i)) [b0..<length (B @ [[m]])]"
    by (simp add: nth_append)
  with assms show ?thesis unfolding bq_rep_def by simp
qed

text \<open>
  Appending: the message is added behind all earlier ones and scheduled buffers keep their
  messages, or there is backpressure, or a message that does not fit is refused.
\<close>

definition append_outcome ::
    "(nat \<times> bytes) list list \<Rightarrow> nat \<Rightarrow> nat \<times> bytes \<Rightarrow> buffer_queue \<Rightarrow> (nat \<times> nat) option result \<Rightarrow> buffer_queue \<Rightarrow> bool" where
  "append_outcome B b0 m q res q' \<longleftrightarrow>
     bq_channel_id q' = bq_channel_id q \<and> bq_schedule_index q' = bq_schedule_index q \<and> bq_pops q' = bq_pops q \<and>
     mt_capacity_per_in_channel (bq_tracker q') = mt_capacity_per_in_channel (bq_tracker q) \<and>
     (case res of
        Inl e \<Rightarrow> e = RuntimeError \<and> bq_rep B b0 q' \<and> bq_mem B b0 q'
      | Inr None \<Rightarrow> q' = q
      | Inr (Some r) \<Rightarrow> r = (bq_msg_id_seq q, length B) \<and>
          (\<exists>B'. bq_rep B' b0 q' \<and> bq_mem B' b0 q' \<and> concat B' = concat B @ [m] \<and> length B \<le> length B' \<and>
            (\<forall>i. int i < int b0 + bq_schedule_index q \<longrightarrow> B' ! i = B ! i)))"

lemma try_acquire_mem:
  assumes "bq_mem B b0 q" "b0 \<le> length B" "try_acquire (bq_channel_id q) 1 True (bq_tracker q) = (True, t)"
  shows "mt_capacity_per_in_channel t = mt_capacity_per_in_channel (bq_tracker q)"
    and "mt_used (bq_channel_id q) t" "0 \<le> remaining_for (bq_channel_id q) True t"
    and "remaining_for (bq_channel_id q) True t \<le> mt_capacity_per_in_channel t - int (length B - b0) - 1"
  using assms by (auto simp: bq_mem_def try_acquire_def remaining_for_def mt_used_def Let_def split: if_splits)

lemma append_msg_outcome:
  assumes "bq_rep B b0 q" "bq_mem B b0 q" "append_msg dumps now msg q = (res, q')"
  shows "append_outcome B b0 (bq_msg_id_seq q, dumps msg) q res q'"
proof -
  let ?m = "(bq_msg_id_seq q, dumps msg)" and ?ch = "bq_channel_id q"
  have ok: "channel_ok ?ch" and len: "bq_buffer_id_seq q = length B" "b0 \<le> length B"
    using assms(1) by (simp_all add: bq_rep_def)
  note ser = serialize_msg_def serialize_no_header serialize_header [OF ok]
  show ?thesis
  proof (cases "\<not> needs_new_buffer (length (msg_enc ?m)) q \<and> \<not> bq_should_cut_buffer q")
    case True
    from append_extend [OF assms(1), of ?m now] True obtain b where
      b: "append_msg_bytes (last (bq_queue q)) (msg_enc ?m) (bq_buffer_size q) = Inr b"
      "bq_rep (butlast B @ [last B @ [?m]]) b0
        (q\<lparr>bq_queue := butlast (bq_queue q) @ [b], bq_msg_id_seq := bq_msg_id_seq q + 1, bq_last_update_ts := Some now\<rparr>)"
      "concat (butlast B @ [last B @ [?m]]) = concat B @ [?m]" "length (butlast B @ [last B @ [?m]]) = length B"
      "\<forall>i. int i < int b0 + bq_schedule_index q \<longrightarrow> (butlast B @ [last B @ [?m]]) ! i = B ! i" by auto
    let ?q = "q\<lparr>bq_queue := butlast (bq_queue q) @ [b], bq_msg_id_seq := bq_msg_id_seq q + 1, bq_last_update_ts := Some now\<rparr>"
    have r: "res = Inr (Some (bq_msg_id_seq q, length B))" "q' = ?q"
      using assms(3) True b(1) len(1) by (simp_all add: append_msg_def Let_def ser)
    have "B \<noteq> []" using b(4) by auto
    then have "bq_mem (butlast B @ [last B @ [?m]]) b0 ?q" using assms(2) b(4) by (simp add: bq_mem_def)
    with b r show ?thesis unfolding append_outcome_def by auto
  next
    case False
    obtain okm t where a: "try_acquire ?ch 1 True (bq_tracker q) = (okm, t)" by fastforce
    show ?thesis
    proof (cases okm)
      case F: False
      with a have "t = bq_tracker q" by (auto simp: try_acquire_def Let_def split: if_splits)
      with assms(3) False a F have "res = Inr None" "q' = q" by (auto simp: append_msg_def Let_def ser)
      then show ?thesis by (simp add: append_outcome_def)
    next
      case T: True
      have tm: "mt_capacity_per_in_channel t = mt_capacity_per_in_channel (bq_tracker q)" "mt_used ?ch t"
        "0 \<le> remaining_for ?ch True t" "remaining_for ?ch True t \<le> mt_capacity_per_in_channel t - int (length B - b0) - 1"
        using try_acquire_mem [OF assms(2) len(2)] a T by auto
      show ?thesis
      proof (cases "length (buffer_of ?ch (length B) [?m]) > bq_buffer_size q")
        case big: True
        with assms(3) False a T len(1) have "res = Inl RuntimeError" "q' = q\<lparr>bq_tracker := t\<rparr>"
          by (auto simp: append_msg_def Let_def ser)
        moreover have "bq_rep B b0 (q\<lparr>bq_tracker := t\<rparr>)" using assms(1) by (simp add: bq_rep_def)
        moreover have "bq_mem B b0 (q\<lparr>bq_tracker := t\<rparr>)" using tm by (simp add: bq_mem_def)
        ultimately show ?thesis using tm(1) by (simp add: append_outcome_def)
      next
        case small: False
        let ?q = "q\<lparr>bq_queue := bq_queue q @ [buffer_of ?ch (length B) [?m]], bq_msg_id_seq := bq_msg_id_seq q + 1,
          bq_buffer_id_seq := length B + 1, bq_last_update_ts := Some now, bq_should_cut_buffer := False, bq_tracker := t\<rparr>"
        from assms(3) False a T len(1) small have "res = Inr (Some (bq_msg_id_seq q, length B))" "q' = ?q"
          by (auto simp: append_msg_def Let_def ser)
        moreover have "bq_rep (B @ [[?m]]) b0 ?q" using append_fresh [OF assms(1), of ?m] by simp
        moreover have "bq_mem (B @ [[?m]]) b0 ?q" using tm len(2) by (simp add: bq_mem_def of_nat_diff)
        moreover have "\<forall>i. int i < int b0 + bq_schedule_index q \<longrightarrow> (B @ [[?m]]) ! i = B ! i"
          using assms(1) by (auto simp: bq_rep_def nth_append)
        ultimately show ?thesis using tm(1) unfolding append_outcome_def by auto
      qed
    qed
  qed
qed

lemma schedule_next_outcome:
  assumes "bq_rep B b0 q"
  shows "\<exists>r q'. schedule_next now q = Inr (r, q') \<and>
    (case r of
       None \<Rightarrow> q' = q
     | Some b \<Rightarrow> bq_rep B b0 q' \<and> bq_schedule_index q' = bq_schedule_index q + 1 \<and>
         bq_channel_id q' = bq_channel_id q \<and> bq_pops q' = bq_pops q \<and> bq_tracker q' = bq_tracker q \<and>
         b0 + nat (bq_schedule_index q) < length B \<and>
         b = buffer_of (bq_channel_id q) (b0 + nat (bq_schedule_index q)) (B ! (b0 + nat (bq_schedule_index q))))"
proof -
  let ?n = "nat (bq_schedule_index q)" and ?len = "length (bq_queue q)"
  have rep: "?len = length B - b0" "b0 \<le> length B" "0 \<le> bq_schedule_index q" "int b0 + bq_schedule_index q \<le> int (length B)"
    using assms by (simp_all add: bq_rep_def)
  show ?thesis
  proof (cases "?n < ?len")
    case False
    with rep have "int ?len - bq_schedule_index q = 0" by (simp add: of_nat_diff nat_le_iff)
    then show ?thesis by (simp add: schedule_next_def)
  next
    case True
    have get: "py_index (bq_queue q) (bq_schedule_index q) = Inr (bq_queue q ! ?n)"
      using py_index_nat [OF True] rep(3) by simp
    have b: "bq_queue q ! ?n = buffer_of (bq_channel_id q) (b0 + ?n) (B ! (b0 + ?n))" "b0 + ?n < length B"
      using assms True rep by (auto simp: bq_rep_def)
    have ts: "bq_last_update_ts q \<noteq> None" using assms b(2) by (auto simp: bq_rep_def)
    have rep': "bq_rep B b0 (q\<lparr>bq_schedule_index := bq_schedule_index q + 1, bq_should_cut_buffer := True\<rparr>)"
      using assms b(2) rep(3) by (auto simp: bq_rep_def)
    have rep'': "bq_rep B b0 (q\<lparr>bq_schedule_index := bq_schedule_index q + 1\<rparr>)"
      if "int ?len - bq_schedule_index q \<noteq> 1 \<or> bq_policy q = BufferPerMessagePolicy"
      using assms b(2) rep that by (auto simp: bq_rep_def)
    have pos: "\<not> int ?len - bq_schedule_index q < 0" "int ?len - bq_schedule_index q \<noteq> 0"
      using True rep(3) by auto
    show ?thesis
    proof (cases "bq_policy q")
      case BufferPerMessagePolicy
      with get b rep'' pos show ?thesis by (simp add: schedule_next_def Let_def)
    next
      case (PeriodicPartialFlushPolicy f)
      show ?thesis
      proof (cases "int ?len - bq_schedule_index q = 1")
        case True
        with PeriodicPartialFlushPolicy get b rep' ts show ?thesis by (auto simp: schedule_next_def Let_def)
      next
        case False
        with PeriodicPartialFlushPolicy get b rep'' pos show ?thesis by (simp add: schedule_next_def Let_def)
      qed
    qed
  qed
qed

lemma release_unit:
  "mt_used key t \<Longrightarrow> \<exists>t'. release key 1 t = Inr t' \<and> mt_used key t' \<and>
   mt_capacity_per_in_channel t' = mt_capacity_per_in_channel t \<and>
   remaining_for key True t' = remaining_for key True t + 1"
  by (auto simp: release_def mt_used_def remaining_for_def)

lemma pop_loop_outcome:
  assumes "channel_ok ch" "b0 \<le> n" "\<forall>i \<in> set P. b0 \<le> i \<and> int i < int b0 + idx" "mt_used ch t"
  shows "\<exists>b1 P' t'. pop_loop ch (map (\<lambda>i. buffer_of ch i (B ! i)) [b0..<n]) idx P t =
      Inr (map (\<lambda>i. buffer_of ch i (B ! i)) [b1..<n], idx - int (b1 - b0), P', t') \<and>
    b0 \<le> b1 \<and> b1 \<le> n \<and> set P' \<union> {b0..<b1} = set P \<union> {b0..<b1} \<and> {b0..<b1} \<subseteq> set P \<and>
    (\<forall>i \<in> set P'. b1 \<le> i) \<and> (distinct P \<longrightarrow> distinct P') \<and> mt_used ch t' \<and>
    mt_capacity_per_in_channel t' = mt_capacity_per_in_channel t \<and>
    remaining_for ch True t' = remaining_for ch True t + int (b1 - b0)"
  using assms
proof (induction "n - b0" arbitrary: b0 idx P t)
  case 0
  then show ?case by (intro exI [of _ b0] exI [of _ P] exI [of _ t]) simp
next
  case (Suc k)
  then have lt: "b0 < n" by simp
  then have up: "[b0..<n] = b0 # [Suc b0..<n]" by (simp add: upt_conv_Cons)
  have gid: "get_buffer_id (buffer_of ch b0 (B ! b0)) = Inr b0" by (rule buffer_of_fields(2) [OF Suc.prems(1)])
  show ?case
  proof (cases "b0 \<in> set P")
    case False
    then show ?thesis using gid Suc.prems up
      by (intro exI [of _ b0] exI [of _ P] exI [of _ t]) (auto simp: le_less)
  next
    case True
    obtain t1 where t1: "release ch 1 t = Inr t1" "mt_used ch t1"
      "mt_capacity_per_in_channel t1 = mt_capacity_per_in_channel t" "remaining_for ch True t1 = remaining_for ch True t + 1"
      using release_unit [OF Suc.prems(4)] by blast
    have pre: "\<forall>i \<in> set (removeAll b0 P). Suc b0 \<le> i \<and> int i < int (Suc b0) + (idx - 1)"
      using Suc.prems(3) by (auto simp: Suc_le_eq le_less)
    have k: "k = n - Suc b0" "Suc b0 \<le> n" using Suc.hyps(2) lt by simp_all
    from Suc.hyps(1) [OF k(1) Suc.prems(1) k(2) pre t1(2)] obtain b1 P' t' where ih:
      "pop_loop ch (map (\<lambda>i. buffer_of ch i (B ! i)) [Suc b0..<n]) (idx - 1) (removeAll b0 P) t1 =
        Inr (map (\<lambda>i. buffer_of ch i (B ! i)) [b1..<n], idx - 1 - int (b1 - Suc b0), P', t')"
      "Suc b0 \<le> b1" "b1 \<le> n" "set P' \<union> {Suc b0..<b1} = set (removeAll b0 P) \<union> {Suc b0..<b1}"
      "{Suc b0..<b1} \<subseteq> set (removeAll b0 P)" "\<forall>i \<in> set P'. b1 \<le> i"
      "distinct (removeAll b0 P) \<longrightarrow> distinct P'" "mt_used ch t'" "mt_capacity_per_in_channel t' = mt_capacity_per_in_channel t1"
      "remaining_for ch True t' = remaining_for ch True t1 + int (b1 - Suc b0)" by blast
    have idx: "\<not> idx - 1 < 0" using Suc.prems(3) True by auto
    have int: "idx - 1 - int (b1 - Suc b0) = idx - int (b1 - b0)" "int (b1 - Suc b0) + 1 = int (b1 - b0)"
      using ih(2) by (auto simp: of_nat_diff)
    have range: "{b0..<b1} = insert b0 {Suc b0..<b1}" using ih(2) by auto
    have "pop_loop ch (map (\<lambda>i. buffer_of ch i (B ! i)) [b0..<n]) idx P t =
        Inr (map (\<lambda>i. buffer_of ch i (B ! i)) [b1..<n], idx - int (b1 - b0), P', t')"
      using ih(1) gid True t1(1) idx int(1) by (simp add: up)
    moreover have "set P' \<union> {b0..<b1} = set P \<union> {b0..<b1}" using ih(4) range True by auto
    moreover have "{b0..<b1} \<subseteq> set P" using ih(5) range True by auto
    moreover have "distinct P \<longrightarrow> distinct P'" using ih(7) by (simp add: distinct_removeAll)
    moreover have "remaining_for ch True t' = remaining_for ch True t + int (b1 - b0)" using ih(10) t1(4) int(2) by simp
    ultimately show ?thesis using ih(2,3,6,8,9) t1(3) by (intro exI [of _ b1] exI [of _ P'] exI [of _ t']) auto
  qed
qed

lemma pop_buffer_outcome:
  assumes "bq_rep B b0 q" "bq_mem B b0 q" "b0 \<le> i" "int i < int b0 + bq_schedule_index q"
  shows "\<exists>b1 q'. pop_buffer i q = Inr q' \<and> bq_rep B b1 q' \<and> bq_mem B b1 q' \<and> b0 \<le> b1 \<and>
    int b1 + bq_schedule_index q' = int b0 + bq_schedule_index q \<and>
    set (bq_pops q') \<union> {b0..<b1} = insert i (set (bq_pops q)) \<and> bq_channel_id q' = bq_channel_id q \<and>
    mt_capacity_per_in_channel (bq_tracker q') = mt_capacity_per_in_channel (bq_tracker q)"
proof -
  let ?ch = "bq_channel_id q"
  let ?P = "if i \<in> set (bq_pops q) then bq_pops q else bq_pops q @ [i]"
  have rep: "channel_ok ?ch" "b0 \<le> length B" "0 \<le> bq_schedule_index q" "int b0 + bq_schedule_index q \<le> int (length B)"
    "bq_queue q = map (\<lambda>i. buffer_of ?ch i (B ! i)) [b0..<length B]"
    "distinct (bq_pops q)" "\<forall>i \<in> set (bq_pops q). b0 \<le> i \<and> int i < int b0 + bq_schedule_index q"
    using assms(1) by (simp_all add: bq_rep_def)
  have lt: "b0 < length B" using assms(3,4) rep(4) by linarith
  have P: "\<forall>j \<in> set ?P. b0 \<le> j \<and> int j < int b0 + bq_schedule_index q" "distinct ?P" "set ?P = insert i (set (bq_pops q))"
    using rep(6,7) assms(3,4) by auto
  have used: "mt_used ?ch (bq_tracker q)" using assms(2) lt by (auto simp: bq_mem_def)
  from pop_loop_outcome [OF rep(1,2) P(1) used] obtain b1 P' t' where l:
    "pop_loop ?ch (bq_queue q) (bq_schedule_index q) ?P (bq_tracker q) =
      Inr (map (\<lambda>i. buffer_of ?ch i (B ! i)) [b1..<length B], bq_schedule_index q - int (b1 - b0), P', t')"
    "b0 \<le> b1" "b1 \<le> length B" "set P' \<union> {b0..<b1} = set ?P \<union> {b0..<b1}" "{b0..<b1} \<subseteq> set ?P"
    "\<forall>i \<in> set P'. b1 \<le> i" "distinct ?P \<longrightarrow> distinct P'" "mt_used ?ch t'"
    "mt_capacity_per_in_channel t' = mt_capacity_per_in_channel (bq_tracker q)"
    "remaining_for ?ch True t' = remaining_for ?ch True (bq_tracker q) + int (b1 - b0)"
    unfolding rep(5) by blast
  let ?q = "q\<lparr>bq_queue := map (\<lambda>i. buffer_of ?ch i (B ! i)) [b1..<length B],
    bq_schedule_index := bq_schedule_index q - int (b1 - b0), bq_pops := P', bq_tracker := t'\<rparr>"
  have "pop_buffer i q = Inr ?q" using l(1) lt rep(5) by (auto simp: pop_buffer_def Let_def)
  moreover have sched: "int b1 + bq_schedule_index ?q = int b0 + bq_schedule_index q" using l(2) by (simp add: of_nat_diff)
  moreover have sub: "set P' \<subseteq> set ?P"
  proof
    fix x assume x: "x \<in> set P'"
    with l(6) have "x \<notin> {b0..<b1}" by auto
    with x l(4) show "x \<in> set ?P" by blast
  qed
  moreover have "b1 \<le> nat (int b0 + bq_schedule_index q)"
  proof (cases "b1 = b0")
    case False
    with l(2) have "b1 - 1 \<in> {b0..<b1}" by auto
    with l(5) have "b1 - 1 \<in> set ?P" by blast
    with P(1) have "int (b1 - 1) < int b0 + bq_schedule_index q" by blast
    with False l(2) show ?thesis by linarith
  qed (use rep(3) in simp)
  moreover have "bq_rep B b1 ?q"
  proof -
    have "\<forall>j \<in> set P'. b1 \<le> j \<and> int j < int b0 + bq_schedule_index q" using P(1) sub l(6) by blast
    moreover have "distinct P'" using P(2) l(7) by blast
    moreover have "0 \<le> bq_schedule_index ?q" using sched \<open>b1 \<le> nat _\<close> rep(3) by simp
    ultimately show ?thesis using assms(1) l(2,3) sched unfolding bq_rep_def by (simp add: add.commute)
  qed
  moreover have "bq_mem B b1 ?q" using assms(2) l(2,3,8-10) by (auto simp: bq_mem_def of_nat_diff)
  moreover have "set P' \<union> {b0..<b1} = insert i (set (bq_pops q))" using l(4,5) P(3) by auto
  ultimately show ?thesis using l(2,9) by (intro exI [of _ b1] exI [of _ ?q]) simp
qed

text \<open>
  A message too big for a buffer is refused, but the unit of memory taken for its buffer
  is not given back: each such attempt shrinks the channel's capacity by one for good.
\<close>

theorem oversized_message_leaks_memory:
  assumes "channel_ok (bq_channel_id q)" "1 \<le> remaining_for (bq_channel_id q) True (bq_tracker q)"
    and "needs_new_buffer (length (msg_enc (bq_msg_id_seq q, dumps msg))) q \<or> bq_should_cut_buffer q"
    and "length (buffer_of (bq_channel_id q) (bq_buffer_id_seq q) [(bq_msg_id_seq q, dumps msg)]) > bq_buffer_size q"
  shows "\<exists>t. append_msg dumps now msg q = (Inl RuntimeError, q\<lparr>bq_tracker := t\<rparr>) \<and>
    remaining_for (bq_channel_id q) True t = remaining_for (bq_channel_id q) True (bq_tracker q) - 1"
proof -
  from tracker.acquire_ok [OF assms(2)] obtain t where
    t: "try_acquire (bq_channel_id q) 1 True (bq_tracker q) = (True, t)"
    "remaining_for (bq_channel_id q) True t = remaining_for (bq_channel_id q) True (bq_tracker q) - 1" by blast
  have "append_msg dumps now msg q = (Inl RuntimeError, q\<lparr>bq_tracker := t\<rparr>)"
    using assms(3,4) t(1)
    by (auto simp: append_msg_def Let_def serialize_msg_def serialize_no_header serialize_header [OF assms(1)])
  with t(2) show ?thesis by blast
qed

theorem oversized_message_leaks_memory_witness:
  "\<exists>t. append_msg (\<lambda>_ :: nat. []) 0 5 (bq_init ''c1'' 10 BufferPerMessagePolicy
        \<lparr>mt_capacity_per_in_channel = 2, mt_capacity_per_out = 1, mt_shared_dict = []\<rparr>) =
      (Inl RuntimeError, (bq_init ''c1'' 10 BufferPerMessagePolicy
        \<lparr>mt_capacity_per_in_channel = 2, mt_capacity_per_out = 1, mt_shared_dict = []\<rparr>)\<lparr>bq_tracker := t\<rparr>) \<and>
    remaining_for ''c1'' True t = 1"
  using oversized_message_leaks_memory [of "bq_init ''c1'' 10 BufferPerMessagePolicy
        \<lparr>mt_capacity_per_in_channel = 2, mt_capacity_per_out = 1, mt_shared_dict = []\<rparr>" "\<lambda>_ :: nat. []" 5 0] channel_ok_c1
  by (simp add: bq_init_def remaining_for_def needs_new_buffer_def buffer_of_def)

end
