(* ===== verification/Data_Transfer.thy ===== *)
theory Data_Transfer
  imports Buffer_Queues "HOL-Library.Sublist"
begin

text \<open>
  The acknowledged transfer of buffers between a data writer and a data reader
  (\<open>network_deprecated/transfer/local/data_writer.py\<close> and \<open>data_reader.py\<close>), for one channel.
  Clock readings and whether a non-blocking send succeeds are arguments of the handlers. The
  step relation composes the handlers over a network that may lose, repeat and reorder what
  was sent, which includes what the sockets do.
\<close>

section \<open>The writer\<close>

definition IN_FLIGHT_LIMIT_PER_CHANNEL :: nat where
  "IN_FLIGHT_LIMIT_PER_CHANNEL = 1000"

definition IN_FLIGHT_TIMEOUT_S :: rat where
  "IN_FLIGHT_TIMEOUT_S = 5"

record data_writer =
  dw_queue :: buffer_queue
  dw_in_flight :: "(nat, rat \<times> bytes) dict"

text \<open>
  \<open>_write_message\<close>: raises when the loop did not start (\<open>running\<close>), then one attempt and,
  when blocking, attempts until one succeeds or the timeout has passed. An attempt carries its
  clock reading and what the other threads did to the queue before it; \<open>None\<close> stands for a call
  that has not returned after the given attempts. \<open>write_record\<close> ignores the result.
\<close>

fun write_loop ::
    "('m \<Rightarrow> bytes) \<Rightarrow> rat \<Rightarrow> rat \<Rightarrow> 'm \<Rightarrow> (rat \<times> (buffer_queue \<Rightarrow> buffer_queue)) list \<Rightarrow> buffer_queue \<Rightarrow>
     bool result option \<times> buffer_queue" where
  "write_loop dumps start timeout msg [] q = (None, q)"
| "write_loop dumps start timeout msg ((now, env) # attempts) q =
     (if now - start > timeout then (Some (Inr False), q)
      else case append_msg dumps now msg (env q) of
        (Inl e, q') \<Rightarrow> (Some (Inl e), q')
      | (Inr (Some _), q') \<Rightarrow> (Some (Inr True), q')
      | (Inr None, q') \<Rightarrow> write_loop dumps start timeout msg attempts q')"

definition write_message ::
    "('m \<Rightarrow> bytes) \<Rightarrow> bool \<Rightarrow> bool \<Rightarrow> rat \<Rightarrow> rat \<Rightarrow> 'm \<Rightarrow> (rat \<times> (buffer_queue \<Rightarrow> buffer_queue)) list \<Rightarrow>
     buffer_queue \<Rightarrow> bool result option \<times> buffer_queue" where
  "write_message dumps running block timeout now msg attempts q =
     (if \<not> running then (Some (Inl RuntimeError), q)
      else case append_msg dumps now msg q of
        (Inl e, q') \<Rightarrow> (Some (Inl e), q')
      | (Inr (Some _), q') \<Rightarrow> (Some (Inr True), q')
      | (Inr None, q') \<Rightarrow>
          if block then write_loop dumps now timeout msg attempts q' else (Some (Inr False), q'))"

text \<open>
  \<open>send\<close>: the first timed-out in-flight buffer, else the next scheduled one; \<open>sent\<close> tells
  whether the socket took it, and the result holds what went to the network.
\<close>

definition writer_send ::
    "rat \<Rightarrow> rat \<Rightarrow> rat \<Rightarrow> bool \<Rightarrow> data_writer \<Rightarrow> (data_writer \<times> bytes option) result" where
  "writer_send t t2 now sent w =
     (case find (\<lambda>(i, ts, b). t - ts > IN_FLIGHT_TIMEOUT_S) (dw_in_flight w) of
        Some (i, ts, b) \<Rightarrow>
          Inr (w\<lparr>dw_in_flight := AList.update i (t, b) (dw_in_flight w)\<rparr>, if sent then Some b else None)
      | None \<Rightarrow>
          if length (dw_in_flight w) > IN_FLIGHT_LIMIT_PER_CHANNEL then Inr (w, None)
          else rbind (schedule_next now (dw_queue w)) (\<lambda>(r, q).
            case r of
              None \<Rightarrow> Inr (w\<lparr>dw_queue := q\<rparr>, None)
            | Some b \<Rightarrow>
                rbind (get_buffer_id b) (\<lambda>i.
                  if dict_mem i (dw_in_flight w) then Inl RuntimeError
                  else Inr (w\<lparr>dw_queue := q, dw_in_flight := AList.update i (t2, b) (dw_in_flight w)\<rparr>,
                            if sent then Some b else None))))"

definition ack_step :: "nat \<Rightarrow> data_writer \<Rightarrow> data_writer result" where
  "ack_step i w =
     (case map_of (dw_in_flight w) i of
        None \<Rightarrow> Inr w
      | Some (ts, b) \<Rightarrow>
          rbind (get_buffer_id b) (\<lambda>j.
            if i \<noteq> j then Inl RuntimeError
            else rbind (pop_buffer i (dw_queue w)) (\<lambda>q.
              Inr (w\<lparr>dw_in_flight := AList.delete i (dw_in_flight w), dw_queue := q\<rparr>))))"

definition writer_rcv :: "nat list \<Rightarrow> data_writer \<Rightarrow> data_writer result" where
  "writer_rcv acks w = rfold ack_step acks w"

section \<open>The reader\<close>

record data_reader =
  dr_name :: string
  dr_output_queue :: "bytes list"
  dr_watermark :: int
  dr_out_of_order :: "(nat, bytes) dict"
  dr_acks_queue :: "nat list"
  dr_tracker :: mem_tracker

text \<open>
  The loop that moves buffers in sequence from the out-of-order store to the output queue. It
  acknowledges \<open>buffer_id\<close>, the buffer just received, for each of them.
\<close>

function drain ::
    "string \<Rightarrow> nat \<Rightarrow> (nat, bytes) dict \<Rightarrow> nat \<Rightarrow> bytes list \<Rightarrow> nat list \<Rightarrow> mem_tracker \<Rightarrow>
     nat \<times> bytes list \<times> nat list \<times> mem_tracker" where
  "drain name buffer_id ooo next_wm out acks t =
     (case map_of ooo next_wm of
        None \<Rightarrow> (next_wm, out, acks, t)
      | Some b \<Rightarrow>
          (case try_acquire name 1 False t of
             (False, t') \<Rightarrow> (next_wm, out, acks, t')
           | (True, t') \<Rightarrow> drain name buffer_id ooo (next_wm + 1) (out @ [b]) (acks @ [buffer_id]) t'))"
  by pat_completeness auto

termination
proof (relation "measure (\<lambda>(_, _, ooo, n, _, _, _). card {k \<in> fst ` set ooo. n \<le> k})", goal_cases)
  case (2 name i ooo n out acks t b t')
  have "n \<in> fst ` set ooo" using map_of_SomeD [OF 2(1)] by force
  then have "{k \<in> fst ` set ooo. n + 1 \<le> k} \<subset> {k \<in> fst ` set ooo. n \<le> k}" 
    by (intro psubsetI) (auto dest: equalityD2 [THEN subsetD, of _ _ n])
  then show ?case by (simp add: psubset_card_mono)
qed simp

declare drain.simps [simp del]

definition reader_rcv :: "bytes option \<Rightarrow> data_reader \<Rightarrow> data_reader result" where
  "reader_rcv data r =
     (let wm = dr_watermark r; ooo = dr_out_of_order r
      in rbind (case try_acquire (dr_name r) 1 False (dr_tracker r) of
                  (True, t) \<Rightarrow> rbind (release (dr_name r) 1 t) (\<lambda>t'. Inr (True, t'))
                | (False, t) \<Rightarrow> Inr (False, t)) (\<lambda>(has_mem, t).
         if (ooo = [] \<or> dict_mem (nat (wm + 1)) ooo) \<and> \<not> has_mem then Inr (r\<lparr>dr_tracker := t\<rparr>)
         else case data of
           None \<Rightarrow> Inr (r\<lparr>dr_tracker := t\<rparr>)
         | Some buffer \<Rightarrow>
             rbind (get_buffer_id buffer) (\<lambda>i.
               if int i \<le> wm \<or> dict_mem i ooo
               then Inr (r\<lparr>dr_tracker := t, dr_acks_queue := dr_acks_queue r @ [i]\<rparr>)
               else let ooo' = AList.update i buffer ooo
                    in case drain (dr_name r) i ooo' (nat (wm + 1)) (dr_output_queue r) (dr_acks_queue r) t of
                         (next_wm, out, acks, t') \<Rightarrow>
                           Inr (r\<lparr>dr_output_queue := out, dr_acks_queue := acks, dr_tracker := t',
                                  dr_out_of_order := fold AList.delete [nat (wm + 1)..<next_wm] ooo',
                                  dr_watermark := int next_wm - 1\<rparr>))))"

definition reader_send :: "nat \<Rightarrow> bool \<Rightarrow> data_reader \<Rightarrow> data_reader \<times> nat list option" where
  "reader_send ack_batch_size sent r =
     (if length (dr_acks_queue r) < ack_batch_size then (r, None)
      else if sent then (r\<lparr>dr_acks_queue := []\<rparr>, Some (dr_acks_queue r))
      else (r, None))"

definition read_message :: "(bytes \<Rightarrow> 'm result) \<Rightarrow> data_reader \<Rightarrow> ('m list \<times> data_reader) result" where
  "read_message loads r =
     (case dr_output_queue r of
        [] \<Rightarrow> Inr ([], r)
      | buffer # rest \<Rightarrow>
          rbind (get_channel_id buffer) (\<lambda>_.
          rbind (release (dr_name r) 1 (dr_tracker r)) (\<lambda>t.
          rbind (deser loads buffer) (\<lambda>msgs.
            Inr (msgs, r\<lparr>dr_output_queue := rest, dr_tracker := t\<rparr>)))))"

section \<open>The protocol\<close>

record 'm xfer =
  x_writer :: data_writer
  x_reader :: data_reader
  x_sent :: "bytes list"
  x_acked :: "nat list list"
  x_accepted :: "'m list"
  x_read :: "'m list"

definition x_init :: "string \<Rightarrow> nat \<Rightarrow> buffering_policy \<Rightarrow> mem_tracker \<Rightarrow> string \<Rightarrow> mem_tracker \<Rightarrow> 'm xfer" where
  "x_init ch bsize policy wt name rt =
     \<lparr>x_writer = \<lparr>dw_queue = bq_init ch bsize policy wt, dw_in_flight = []\<rparr>,
      x_reader = \<lparr>dr_name = name, dr_output_queue = [], dr_watermark = -1, dr_out_of_order = [],
                  dr_acks_queue = [], dr_tracker = rt\<rparr>,
      x_sent = [], x_acked = [], x_accepted = [], x_read = []\<rparr>"

inductive xfer_step :: "('m \<Rightarrow> bytes) \<Rightarrow> (bytes \<Rightarrow> 'm result) \<Rightarrow> 'm xfer \<Rightarrow> 'm xfer \<Rightarrow> bool"
  for dumps loads where
  write_ok:
    "append_msg dumps now m (dw_queue (x_writer s)) = (Inr (Some ids), q) \<Longrightarrow>
     xfer_step dumps loads s (s\<lparr>x_writer := (x_writer s)\<lparr>dw_queue := q\<rparr>, x_accepted := x_accepted s @ [m]\<rparr>)"
| write_refused:
    "append_msg dumps now m (dw_queue (x_writer s)) = (res, q) \<Longrightarrow> res = Inr None \<or> res = Inl e \<Longrightarrow>
     xfer_step dumps loads s (s\<lparr>x_writer := (x_writer s)\<lparr>dw_queue := q\<rparr>\<rparr>)"
| send:
    "writer_send t t2 now sent (x_writer s) = Inr (w, out) \<Longrightarrow>
     xfer_step dumps loads s (s\<lparr>x_writer := w, x_sent := x_sent s @ (case out of None \<Rightarrow> [] | Some b \<Rightarrow> [b])\<rparr>)"
| ack:
    "acks \<in> set (x_acked s) \<Longrightarrow> writer_rcv acks (x_writer s) = Inr w \<Longrightarrow>
     xfer_step dumps loads s (s\<lparr>x_writer := w\<rparr>)"
| receive:
    "data = None \<or> (\<exists>b \<in> set (x_sent s). data = Some b) \<Longrightarrow> reader_rcv data (x_reader s) = Inr r \<Longrightarrow>
     xfer_step dumps loads s (s\<lparr>x_reader := r\<rparr>)"
| send_acks:
    "reader_send batch sent (x_reader s) = (r, out) \<Longrightarrow>
     xfer_step dumps loads s (s\<lparr>x_reader := r, x_acked := x_acked s @ (case out of None \<Rightarrow> [] | Some a \<Rightarrow> [a])\<rparr>)"
| read:
    "read_message loads (x_reader s) = Inr (ms, r) \<Longrightarrow>
     xfer_step dumps loads s (s\<lparr>x_reader := r, x_read := x_read s @ ms\<rparr>)"

inductive_cases xfer_stepE: "xfer_step dumps loads s s'"

definition xfer_reachable ::
    "('m \<Rightarrow> bytes) \<Rightarrow> (bytes \<Rightarrow> 'm result) \<Rightarrow> 'm xfer \<Rightarrow> 'm xfer \<Rightarrow> bool" where
  "xfer_reachable dumps loads = (xfer_step dumps loads)\<^sup>*\<^sup>*"

text \<open>The steps as an executable function of what happens next.\<close>

datatype 'm xfer_op = WriteMsg rat 'm | SendNext rat rat rat bool | AckBatch nat | Receive "nat option" | SendAcks nat bool | ReadMsg

fun xfer_exec :: "('m \<Rightarrow> bytes) \<Rightarrow> (bytes \<Rightarrow> 'm result) \<Rightarrow> 'm xfer_op \<Rightarrow> 'm xfer \<Rightarrow> 'm xfer option" where
  "xfer_exec dumps loads (WriteMsg now m) s =
     (case append_msg dumps now m (dw_queue (x_writer s)) of
        (Inr (Some _), q) \<Rightarrow> Some (s\<lparr>x_writer := (x_writer s)\<lparr>dw_queue := q\<rparr>, x_accepted := x_accepted s @ [m]\<rparr>)
      | (_, q) \<Rightarrow> Some (s\<lparr>x_writer := (x_writer s)\<lparr>dw_queue := q\<rparr>\<rparr>))"
| "xfer_exec dumps loads (SendNext t t2 now sent) s =
     (case writer_send t t2 now sent (x_writer s) of
        Inl _ \<Rightarrow> None
      | Inr (w, out) \<Rightarrow> Some (s\<lparr>x_writer := w, x_sent := x_sent s @ (case out of None \<Rightarrow> [] | Some b \<Rightarrow> [b])\<rparr>))"
| "xfer_exec dumps loads (AckBatch i) s =
     (if i < length (x_acked s)
      then (case writer_rcv (x_acked s ! i) (x_writer s) of Inl _ \<Rightarrow> None | Inr w \<Rightarrow> Some (s\<lparr>x_writer := w\<rparr>))
      else None)"
| "xfer_exec dumps loads (Receive None) s =
     (case reader_rcv None (x_reader s) of Inl _ \<Rightarrow> None | Inr r \<Rightarrow> Some (s\<lparr>x_reader := r\<rparr>))"
| "xfer_exec dumps loads (Receive (Some i)) s =
     (if i < length (x_sent s)
      then (case reader_rcv (Some (x_sent s ! i)) (x_reader s) of Inl _ \<Rightarrow> None | Inr r \<Rightarrow> Some (s\<lparr>x_reader := r\<rparr>))
      else None)"
| "xfer_exec dumps loads (SendAcks batch sent) s =
     (case reader_send batch sent (x_reader s) of
        (r, out) \<Rightarrow> Some (s\<lparr>x_reader := r, x_acked := x_acked s @ (case out of None \<Rightarrow> [] | Some a \<Rightarrow> [a])\<rparr>))"
| "xfer_exec dumps loads ReadMsg s =
     (case read_message loads (x_reader s) of
        Inl _ \<Rightarrow> None
      | Inr (ms, r) \<Rightarrow> Some (s\<lparr>x_reader := r, x_read := x_read s @ ms\<rparr>))"

fun xfer_run :: "('m \<Rightarrow> bytes) \<Rightarrow> (bytes \<Rightarrow> 'm result) \<Rightarrow> 'm xfer_op list \<Rightarrow> 'm xfer \<Rightarrow> 'm xfer option" where
  "xfer_run dumps loads [] s = Some s"
| "xfer_run dumps loads (x # xs) s = (case xfer_exec dumps loads x s of None \<Rightarrow> None | Some s' \<Rightarrow> xfer_run dumps loads xs s')"

lemma xfer_exec_sound: "xfer_exec dumps loads x s = Some s' \<Longrightarrow> xfer_step dumps loads s s'"
  by (induction dumps loads x s rule: xfer_exec.induct)
    (auto split: sum.splits option.splits prod.splits if_splits
      intro: xfer_step.intros xfer_step.send [where out = None, simplified] xfer_step.send [where out = "Some b" for b, simplified]
        xfer_step.ack [OF nth_mem] xfer_step.receive [OF disjI2 [OF bexI [OF refl nth_mem]]]
        xfer_step.send_acks [where out = None, simplified] xfer_step.send_acks [where out = "Some a" for a, simplified])

lemma xfer_run_sound: "xfer_run dumps loads xs s = Some s' \<Longrightarrow> xfer_reachable dumps loads s s'"
  unfolding xfer_reachable_def
  by (induction xs arbitrary: s)
    (auto split: option.splits dest: xfer_exec_sound intro: converse_rtranclp_into_rtranclp)

section \<open>The writer's invariant\<close>

text \<open>
  \<open>B\<close> lists the messages of all buffers by id, the queue starts at \<open>b0\<close> and the first \<open>n\<close>
  buffers have been scheduled. A buffer is gone from the writer when it was popped or its
  pop is recorded.
\<close>

abbreviation buf :: "string \<Rightarrow> (nat \<times> bytes) list list \<Rightarrow> nat \<Rightarrow> bytes" where
  "buf ch B i \<equiv> buffer_of ch i (B ! i)"

definition gone :: "nat \<Rightarrow> data_writer \<Rightarrow> nat \<Rightarrow> bool" where
  "gone b0 w i \<longleftrightarrow> i < b0 \<or> i \<in> set (bq_pops (dw_queue w))"

definition writer_inv :: "string \<Rightarrow> (nat \<times> bytes) list list \<Rightarrow> nat \<Rightarrow> nat \<Rightarrow> data_writer \<Rightarrow> bool" where
  "writer_inv ch B b0 n w \<longleftrightarrow>
     bq_rep B b0 (dw_queue w) \<and> bq_mem B b0 (dw_queue w) \<and> bq_channel_id (dw_queue w) = ch \<and>
     int n = int b0 + bq_schedule_index (dw_queue w) \<and> wf_dict (dw_in_flight w) \<and>
     (\<forall>i ts b. map_of (dw_in_flight w) i = Some (ts, b) \<longrightarrow>
        b = buf ch B i \<and> b0 \<le> i \<and> i < n \<and> i \<notin> set (bq_pops (dw_queue w)))"

lemma writer_invD:
  assumes "writer_inv ch B b0 n w"
  shows "bq_rep B b0 (dw_queue w)" "bq_mem B b0 (dw_queue w)" "bq_channel_id (dw_queue w) = ch"
    "int n = int b0 + bq_schedule_index (dw_queue w)" "wf_dict (dw_in_flight w)" "channel_ok ch" "n \<le> length B"
    "map_of (dw_in_flight w) i = Some (ts, b) \<Longrightarrow> b = buf ch B i"
    "map_of (dw_in_flight w) i = Some (ts, b) \<Longrightarrow> b0 \<le> i \<and> i < n \<and> i \<notin> set (bq_pops (dw_queue w))"
  using assms unfolding writer_inv_def bq_rep_def by auto

lemma writer_append:
  assumes "writer_inv ch B b0 n w" "append_msg dumps now m (dw_queue w) = (res, q)"
  shows "case res of
      Inr (Some _) \<Rightarrow> (\<exists>B' i. writer_inv ch B' b0 n (w\<lparr>dw_queue := q\<rparr>) \<and> concat B' = concat B @ [(i, dumps m)] \<and>
        (\<forall>j < n. B' ! j = B ! j))
    | _ \<Rightarrow> writer_inv ch B b0 n (w\<lparr>dw_queue := q\<rparr>)"
    and "bq_pops q = bq_pops (dw_queue w)"
proof -
  note inv = writer_invD [OF assms(1)]
  from append_msg_outcome [OF inv(1,2) assms(2)]
  have out: "append_outcome B b0 (bq_msg_id_seq (dw_queue w), dumps m) (dw_queue w) res q" .
  then show pops: "bq_pops q = bq_pops (dw_queue w)" by (simp add: append_outcome_def)
  have same: "bq_channel_id q = ch" "int n = int b0 + bq_schedule_index q"
    using out inv(3,4) by (simp_all add: append_outcome_def)
  have in_flight: "\<forall>i ts b. map_of (dw_in_flight w) i = Some (ts, b) \<longrightarrow>
      b = buf ch B i \<and> b0 \<le> i \<and> i < n \<and> i \<notin> set (bq_pops q)"
    using inv(8,9) pops by metis
  have step: "writer_inv ch B' b0 n (w\<lparr>dw_queue := q\<rparr>)"
    if "bq_rep B' b0 q" "bq_mem B' b0 q" "\<forall>j < n. B' ! j = B ! j" for B'
    unfolding writer_inv_def using that same inv(5) in_flight by simp
  show "case res of
      Inr (Some _) \<Rightarrow> (\<exists>B' i. writer_inv ch B' b0 n (w\<lparr>dw_queue := q\<rparr>) \<and> concat B' = concat B @ [(i, dumps m)] \<and>
        (\<forall>j < n. B' ! j = B ! j))
    | _ \<Rightarrow> writer_inv ch B b0 n (w\<lparr>dw_queue := q\<rparr>)"
  proof (cases res)
    case (Inl e)
    with out have "bq_rep B b0 q" "bq_mem B b0 q" by (simp_all add: append_outcome_def)
    from step [OF this] Inl show ?thesis by simp
  next
    case (Inr o')
    show ?thesis
    proof (cases o')
      case None
      with Inr out have "q = dw_queue w" by (simp add: append_outcome_def)
      with Inr None assms(1) show ?thesis by simp
    next
      case (Some r)
      with Inr out obtain B' where B': "bq_rep B' b0 q" "bq_mem B' b0 q"
        "concat B' = concat B @ [(bq_msg_id_seq (dw_queue w), dumps m)]"
        "\<forall>i. int i < int b0 + bq_schedule_index (dw_queue w) \<longrightarrow> B' ! i = B ! i"
        by (auto simp: append_outcome_def)
      from B'(4) inv(4) have "\<forall>j < n. B' ! j = B ! j" by simp
      with step [OF B'(1,2)] B'(3) Inr Some show ?thesis by auto
    qed
  qed
qed

lemma in_flight_update:
  assumes "writer_inv ch B b0 n w" "b0 \<le> i" "i < n'" "i \<notin> set (bq_pops q)" "n \<le> n'"
    and "bq_rep B b0 q" "bq_mem B b0 q" "bq_channel_id q = ch" "int n' = int b0 + bq_schedule_index q"
    and "bq_pops q = bq_pops (dw_queue w)"
  shows "writer_inv ch B b0 n' (w\<lparr>dw_queue := q, dw_in_flight := AList.update i (t, buf ch B i) (dw_in_flight w)\<rparr>)"
  unfolding writer_inv_def using assms writer_invD(5,8,9) [OF assms(1)]
  by (auto split: if_splits) (metis less_le_trans)+

lemma writer_send_ok:
  assumes "writer_inv ch B b0 n w"
  shows "\<exists>w' out n'. writer_send t t2 now sent w = Inr (w', out) \<and> writer_inv ch B b0 n' w' \<and> n \<le> n' \<and>
    bq_pops (dw_queue w') = bq_pops (dw_queue w) \<and> (\<forall>b. out = Some b \<longrightarrow> (\<exists>i < n'. b = buf ch B i))"
proof -
  note inv = writer_invD [OF assms]
  let ?late = "\<lambda>(i, ts, b). t - ts > IN_FLIGHT_TIMEOUT_S"
  show ?thesis
  proof (cases "find ?late (dw_in_flight w)")
    case (Some x)
    obtain i ts b where x: "x = (i, ts, b)" by (cases x)
    from Some x have "(i, ts, b) \<in> set (dw_in_flight w)" by (auto simp: find_Some_iff in_set_conv_nth)
    with inv(5) have m: "map_of (dw_in_flight w) i = Some (ts, b)" by (simp add: wf_dict_def)
    have b: "b = buf ch B i" "b0 \<le> i" "i < n" "i \<notin> set (bq_pops (dw_queue w))" using inv(8,9) [OF m] by simp_all
    have "writer_inv ch B b0 n (w\<lparr>dw_queue := dw_queue w, dw_in_flight := AList.update i (t, buf ch B i) (dw_in_flight w)\<rparr>)"
      by (rule in_flight_update [OF assms b(2-4) order_refl inv(1-4) refl])
    with Some x b show ?thesis by (auto simp: writer_send_def)
  next
    case None
    show ?thesis
    proof (cases "length (dw_in_flight w) > IN_FLIGHT_LIMIT_PER_CHANNEL")
      case True
      with None assms show ?thesis by (auto simp: writer_send_def)
    next
      case False
      let ?q = "dw_queue w"
      obtain r q where s: "schedule_next now ?q = Inr (r, q)" "case r of None \<Rightarrow> q = ?q
        | Some b \<Rightarrow> bq_rep B b0 q \<and> bq_schedule_index q = bq_schedule_index ?q + 1 \<and>
            bq_channel_id q = bq_channel_id ?q \<and> bq_pops q = bq_pops ?q \<and> bq_tracker q = bq_tracker ?q \<and>
            b0 + nat (bq_schedule_index ?q) < length B \<and>
            b = buffer_of (bq_channel_id ?q) (b0 + nat (bq_schedule_index ?q)) (B ! (b0 + nat (bq_schedule_index ?q)))"
        using schedule_next_outcome [OF inv(1), of now] by blast
      show ?thesis
      proof (cases r)
        case R: None
        with s None False assms show ?thesis by (auto simp: writer_send_def)
      next
        case R: (Some b)
        have "0 \<le> bq_schedule_index ?q" using inv(1) by (simp add: bq_rep_def)
        then have n: "b0 + nat (bq_schedule_index ?q) = n" using inv(4) by linarith
        from s(2) R n inv(3) have q: "bq_rep B b0 q" "bq_schedule_index q = bq_schedule_index ?q + 1" "bq_channel_id q = ch"
          "bq_pops q = bq_pops ?q" "bq_tracker q = bq_tracker ?q" "b = buf ch B n" by simp_all
        have gid: "get_buffer_id b = Inr n" unfolding q(6) by (rule buffer_of_fields(2) [OF inv(6)])
        have fresh: "\<not> dict_mem n (dw_in_flight w)" using inv(9) by (auto simp: dict_mem_def)
        have mem: "bq_mem B b0 q" using inv(2,3) q(3,5) by (simp add: bq_mem_def)
        have n': "int (Suc n) = int b0 + bq_schedule_index q" using inv(4) q(2) by simp
        have pops: "n \<notin> set (bq_pops q)" using q(4) inv(1,4) by (auto simp: bq_rep_def)
        have "b0 \<le> n" using n by simp
        have "writer_inv ch B b0 (Suc n) (w\<lparr>dw_queue := q, dw_in_flight := AList.update n (t2, buf ch B n) (dw_in_flight w)\<rparr>)"
          by (rule in_flight_update [OF assms \<open>b0 \<le> n\<close> _ pops _ q(1) mem q(3) n' q(4)]) simp_all
        with s(1) R None False gid fresh q(4,6) show ?thesis
          by (intro exI [of _ "w\<lparr>dw_queue := q, dw_in_flight := AList.update n (t2, buf ch B n) (dw_in_flight w)\<rparr>"]
              exI [of _ "if sent then Some b else None"] exI [of _ "Suc n"]) (auto simp: writer_send_def)
      qed
    qed
  qed
qed

lemma ack_step_ok:
  assumes "writer_inv ch B b0 n w"
  shows "\<exists>w' b1. ack_step i w = Inr w' \<and> writer_inv ch B b1 n w' \<and> (\<forall>j. gone b1 w' j \<longrightarrow> gone b0 w j \<or> j = i)"
proof (cases "map_of (dw_in_flight w) i")
  case None
  with assms show ?thesis by (auto simp: ack_step_def)
next
  case (Some x)
  note inv = writer_invD [OF assms]
  obtain ts b where x: "x = (ts, b)" by (cases x)
  with Some inv(8,9) have b: "b = buf ch B i" "b0 \<le> i" "i < n" by blast+
  have gid: "get_buffer_id b = Inr i" unfolding b(1) by (rule buffer_of_fields(2) [OF inv(6)])
  have "int i < int b0 + bq_schedule_index (dw_queue w)" using b(3) inv(4) by simp
  from pop_buffer_outcome [OF inv(1,2) b(2) this] obtain b1 q where
    q: "pop_buffer i (dw_queue w) = Inr q" "bq_rep B b1 q" "bq_mem B b1 q" "b0 \<le> b1"
    "int b1 + bq_schedule_index q = int b0 + bq_schedule_index (dw_queue w)"
    "set (bq_pops q) \<union> {b0..<b1} = insert i (set (bq_pops (dw_queue w)))" "bq_channel_id q = bq_channel_id (dw_queue w)" by blast
  let ?w = "w\<lparr>dw_in_flight := AList.delete i (dw_in_flight w), dw_queue := q\<rparr>"
  have fl: "j \<notin> set (bq_pops q) \<and> b1 \<le> j" if "map_of (dw_in_flight w) j = Some y" "j \<noteq> i" for j y
  proof -
    obtain ts' b' where "y = (ts', b')" by (cases y)
    with inv(9) that(1) have "b0 \<le> j" "j \<notin> set (bq_pops (dw_queue w))" by blast+
    with that(2) q(6) have "j \<notin> set (bq_pops q) \<union> {b0..<b1}" by simp
    with \<open>b0 \<le> j\<close> show ?thesis by auto
  qed
  have "writer_inv ch B b1 n ?w"
    unfolding writer_inv_def using q inv fl by (auto simp: delete_conv')
  moreover have "\<forall>j. gone b1 ?w j \<longrightarrow> gone b0 w j \<or> j = i"
  proof (intro allI impI)
    fix j assume "gone b1 ?w j"
    then have "j < b0 \<or> j \<in> set (bq_pops q) \<union> {b0..<b1}" by (auto simp: gone_def)
    then show "gone b0 w j \<or> j = i" unfolding q(6) by (auto simp: gone_def)
  qed
  moreover have "ack_step i w = Inr ?w" using Some x gid q(1) by (simp add: ack_step_def)
  ultimately show ?thesis by blast
qed

lemma writer_rcv_ok:
  assumes "writer_inv ch B b0 n w"
  shows "\<exists>w' b1. writer_rcv acks w = Inr w' \<and> writer_inv ch B b1 n w' \<and> (\<forall>j. gone b1 w' j \<longrightarrow> gone b0 w j \<or> j \<in> set acks)"
  using assms
proof (induction acks arbitrary: w b0)
  case (Cons i acks)
  from ack_step_ok [OF Cons.prems, of i] obtain w1 b1 where
    1: "ack_step i w = Inr w1" "writer_inv ch B b1 n w1" "\<forall>j. gone b1 w1 j \<longrightarrow> gone b0 w j \<or> j = i" by blast
  from Cons.IH [OF 1(2)] obtain w2 b2 where
    2: "writer_rcv acks w1 = Inr w2" "writer_inv ch B b2 n w2" "\<forall>j. gone b2 w2 j \<longrightarrow> gone b1 w1 j \<or> j \<in> set acks" by blast
  with 1 show ?case by (intro exI [of _ w2] exI [of _ b2]) (auto simp: writer_rcv_def)
qed (auto simp: writer_rcv_def)

end
