(* ===== verification/Transfer_Proof.thy ===== *)
theory Transfer_Proof
  imports Data_Transfer
begin

text \<open>
  Correctness of the acknowledged transfer: the reader's invariant, the invariant of the whole
  protocol and what follows from it in every reachable state.
\<close>

section \<open>The reader's invariant\<close>

text \<open>
  Everything below \<open>w\<close> went to the output queue in order, of which the first \<open>k\<close> buffers were
  read; out-of-order buffers lie between \<open>w\<close> and the number \<open>n\<close> of scheduled buffers. The reader
  has a buffer when it passed the watermark or waits out of order.
\<close>

definition reader_has :: "data_reader \<Rightarrow> nat \<Rightarrow> bool" where
  "reader_has r i \<longleftrightarrow> int i \<le> dr_watermark r \<or> dict_mem i (dr_out_of_order r)"

definition reader_mem :: "int \<Rightarrow> data_reader \<Rightarrow> bool" where
  "reader_mem cap r \<longleftrightarrow> mt_capacity_per_out (dr_tracker r) = cap \<and>
     0 \<le> remaining_for (dr_name r) False (dr_tracker r) \<and>
     remaining_for (dr_name r) False (dr_tracker r) + int (length (dr_output_queue r)) = cap \<and>
     (dr_output_queue r \<noteq> [] \<longrightarrow> mt_used (dr_name r) (dr_tracker r))"

definition reader_inv ::
    "string \<Rightarrow> (nat \<times> bytes) list list \<Rightarrow> int \<Rightarrow> nat \<Rightarrow> nat \<Rightarrow> nat \<Rightarrow> data_reader \<Rightarrow> bool" where
  "reader_inv ch B cap n k w r \<longleftrightarrow>
     dr_watermark r = int w - 1 \<and> k \<le> w \<and> w \<le> n \<and> wf_dict (dr_out_of_order r) \<and>
     (\<forall>i b. map_of (dr_out_of_order r) i = Some b \<longrightarrow> b = buf ch B i \<and> w \<le> i \<and> i < n) \<and>
     dr_output_queue r = map (buf ch B) [k..<w] \<and>
     (\<forall>i \<in> set (dr_acks_queue r). reader_has r i) \<and> reader_mem cap r"

lemma reader_invD:
  assumes "reader_inv ch B cap n k w r"
  shows "dr_watermark r = int w - 1" "k \<le> w" "w \<le> n" "wf_dict (dr_out_of_order r)"
    "\<And>i b. map_of (dr_out_of_order r) i = Some b \<Longrightarrow> b = buf ch B i \<and> w \<le> i \<and> i < n"
    "dr_output_queue r = map (buf ch B) [k..<w]" "\<And>i. i \<in> set (dr_acks_queue r) \<Longrightarrow> reader_has r i"
    "reader_mem cap r"
  using assms unfolding reader_inv_def by blast+

lemma acquire_unit:
  assumes "try_acquire key 1 False t = (ok, t')" "0 \<le> remaining_for key False t"
  shows "if ok then remaining_for key False t' = remaining_for key False t - 1 \<and> 0 \<le> remaining_for key False t' \<and>
      mt_capacity_per_out t' = mt_capacity_per_out t \<and> mt_used key t' else t' = t"
  using assms by (auto simp: try_acquire_def Let_def remaining_for_def mt_used_def split: if_splits)

lemma release_out_unit:
  assumes "mt_used key t"
  shows "\<exists>t'. release key 1 t = Inr t' \<and> mt_used key t' \<and> mt_capacity_per_out t' = mt_capacity_per_out t \<and>
    remaining_for key False t' = remaining_for key False t + 1"
  using assms by (auto simp: release_def mt_used_def remaining_for_def)

lemma drain_spec:
  assumes "drain name i ooo w out acks t = (w', out', acks', t')" "0 \<le> remaining_for name False t"
    and "\<And>j b. map_of ooo j = Some b \<Longrightarrow> b = f j"
  shows "w \<le> w' \<and> (\<forall>j \<in> {w..<w'}. dict_mem j ooo) \<and> out' = out @ map f [w..<w'] \<and>
    set acks' \<subseteq> insert i (set acks) \<and> 0 \<le> remaining_for name False t' \<and>
    remaining_for name False t' + int (w' - w) = remaining_for name False t \<and>
    mt_capacity_per_out t' = mt_capacity_per_out t \<and> (mt_used name t \<or> w < w' \<longrightarrow> mt_used name t')"
  using assms
proof (induction name i ooo w out acks t rule: drain.induct)
  case (1 name i ooo w out acks t)
  show ?case
  proof (cases "map_of ooo w")
    case None
    with "1.prems"(1,2) show ?thesis by (subst (asm) drain.simps) auto
  next
    case (Some b)
    obtain ok t1 where a: "try_acquire name 1 False t = (ok, t1)" by (cases "try_acquire name 1 False t") simp
    note u = acquire_unit [OF a \<open>0 \<le> remaining_for name False t\<close>]
    show ?thesis
    proof (cases ok)
      case False
      with u a Some "1.prems"(1,2) show ?thesis by (subst (asm) drain.simps) auto
    next
      case True
      with u have t1: "remaining_for name False t1 = remaining_for name False t - 1" "0 \<le> remaining_for name False t1"
        "mt_capacity_per_out t1 = mt_capacity_per_out t" "mt_used name t1" by simp_all
      have rec: "drain name i ooo (w + 1) (out @ [b]) (acks @ [i]) t1 = (w', out', acks', t')"
        using "1.prems"(1) Some a True by (subst (asm) drain.simps) simp
      have b: "b = f w" using "1.prems"(3) [OF Some] .
      note IH = "1.IH" [OF Some a [symmetric] _ rec t1(2) "1.prems"(3)] True
      have "w + 1 \<le> w'" using IH by blast
      then have w': "{w..<w'} = insert w {w + 1..<w'}" "[w..<w'] = w # [w + 1..<w']" "w < w'"
        "int (w' - w) = int (w' - (w + 1)) + 1"
        by (auto simp: upt_conv_Cons)
      show ?thesis unfolding w'(1,2,4) using IH b t1 w'(3) Some by (auto simp: dict_mem_def)
    qed
  qed
qed

lemma probe_ok:
  assumes "0 \<le> remaining_for key False t"
  shows "\<exists>h t'. (case try_acquire key 1 False t of
        (True, t1) \<Rightarrow> rbind (release key 1 t1) (\<lambda>t'. Inr (True, t'))
      | (False, t1) \<Rightarrow> Inr (False, t1)) = Inr (h, t') \<and>
    remaining_for key False t' = remaining_for key False t \<and> mt_capacity_per_out t' = mt_capacity_per_out t \<and>
    (mt_used key t \<longrightarrow> mt_used key t')"
proof -
  obtain ok t1 where a: "try_acquire key 1 False t = (ok, t1)" by (cases "try_acquire key 1 False t")
  note u = acquire_unit [OF a assms]
  show ?thesis
  proof (cases ok)
    case True
    with u release_out_unit [of key t1] obtain t2 where "release key 1 t1 = Inr t2" "mt_used key t2"
      "mt_capacity_per_out t2 = mt_capacity_per_out t" "remaining_for key False t2 = remaining_for key False t" by auto
    with a True show ?thesis by auto
  qed (use u a in auto)
qed

lemma reader_has_less: "reader_inv ch B cap n k w r \<Longrightarrow> reader_has r i \<Longrightarrow> i < n"
  using reader_invD(1,3,5) [of ch B cap n k w r] by (fastforce simp: reader_has_def dict_mem_def)

lemma reader_ack_known:
  assumes "reader_inv ch B cap n k w r" "reader_has r i" "reader_mem cap (r\<lparr>dr_tracker := t\<rparr>)"
  shows "reader_inv ch B cap n k w (r\<lparr>dr_tracker := t, dr_acks_queue := dr_acks_queue r @ [i]\<rparr>)"
  using assms by (auto simp: reader_inv_def reader_has_def reader_mem_def)

lemma map_of_delete_keys: "map_of (fold AList.delete ks d) i = (if i \<in> set ks then None else map_of d i)"
  by (induction ks arbitrary: d) (auto simp: delete_conv')

lemma wf_dict_delete_keys: "wf_dict d \<Longrightarrow> wf_dict (fold AList.delete ks d)"
  by (induction ks arbitrary: d) auto

text \<open>Storing a new buffer and moving what is now in sequence to the output queue.\<close>

lemma reader_store:
  assumes inv: "reader_inv ch B cap n k w r" and mem: "reader_mem cap (r\<lparr>dr_tracker := t\<rparr>)"
    and i: "i < n" "\<not> reader_has r i"
    and d: "drain (dr_name r) i (AList.update i (buf ch B i) (dr_out_of_order r)) w (dr_output_queue r) (dr_acks_queue r) t =
        (w', out, acks, t')"
  defines "r' \<equiv> r\<lparr>dr_output_queue := out, dr_acks_queue := acks, dr_tracker := t',
      dr_out_of_order := fold AList.delete [w..<w'] (AList.update i (buf ch B i) (dr_out_of_order r)),
      dr_watermark := int w' - 1\<rparr>"
  shows "reader_inv ch B cap n k w' r' \<and> (\<forall>j. reader_has r j \<or> j = i \<longrightarrow> reader_has r' j)"
proof -
  note v = reader_invD [OF inv]
  let ?ooo = "AList.update i (buf ch B i) (dr_out_of_order r)"
  have ooo: "b = buf ch B j \<and> w \<le> j \<and> j < n" if "map_of ?ooo j = Some b" for j b
    using that i v(1) v(5) [of j b] by (auto simp: reader_has_def split: if_splits)
  have "0 \<le> remaining_for (dr_name r) False t" using mem by (simp add: reader_mem_def)
  from drain_spec [OF d this, of "buf ch B"] ooo
  have s: "w \<le> w'" "\<forall>j \<in> {w..<w'}. dict_mem j ?ooo" "out = dr_output_queue r @ map (buf ch B) [w..<w']"
    "set acks \<subseteq> insert i (set (dr_acks_queue r))" "0 \<le> remaining_for (dr_name r) False t'"
    "remaining_for (dr_name r) False t' + int (w' - w) = remaining_for (dr_name r) False t"
    "mt_capacity_per_out t' = mt_capacity_per_out t"
    "mt_used (dr_name r) t \<or> w < w' \<longrightarrow> mt_used (dr_name r) t'" by blast+
  have n: "w' \<le> n"
  proof (rule ccontr)
    assume "\<not> w' \<le> n"
    with v(3) have "n \<in> {w..<w'}" by simp
    with s(2) have "dict_mem n ?ooo" by blast
    then show False using ooo [of n] by (auto simp: dict_mem_def)
  qed
  have has: "reader_has r' j" if "reader_has r j \<or> j = i" for j
    using that v(1) s(1) by (auto simp: reader_has_def r'_def dict_mem_def map_of_delete_keys)
  have "map_of (dr_out_of_order r') j = Some b \<Longrightarrow> b = buf ch B j \<and> w' \<le> j \<and> j < n" for j b
    using ooo [of j b] by (auto simp: r'_def map_of_delete_keys split: if_splits)
  moreover have "wf_dict (dr_out_of_order r')" using v(4) by (simp add: r'_def wf_dict_delete_keys)
  moreover have "out = map (buf ch B) [k..<w']"
  proof -
    have "[k..<w'] = [k..<w] @ [w..<w']" using upt_add_eq_append [OF v(2), of "w' - w"] s(1) by simp
    with s(3) v(6) show ?thesis by simp
  qed
  moreover have "\<forall>j \<in> set acks. reader_has r' j" using s(4) v(7) has by blast
  moreover have "reader_mem cap r'"
  proof -
    have "mt_capacity_per_out t = cap" "remaining_for (dr_name r) False t + int (length (dr_output_queue r)) = cap"
      "dr_output_queue r \<noteq> [] \<longrightarrow> mt_used (dr_name r) t" using mem by (simp_all add: reader_mem_def)
    moreover have "length out = length (dr_output_queue r) + (w' - w)" using s(3) by simp
    moreover have "out \<noteq> [] \<longrightarrow> mt_used (dr_name r) t'" using s(3,8) mem by (fastforce simp: reader_mem_def)
    ultimately show ?thesis using s(5-7) by (simp add: reader_mem_def r'_def)
  qed
  moreover have "dr_watermark r' = int w' - 1" "dr_output_queue r' = out" "dr_acks_queue r' = acks"
    by (simp_all add: r'_def)
  moreover have "k \<le> w'" using s(1) v(2) by simp
  ultimately have "reader_inv ch B cap n k w' r'" unfolding reader_inv_def using n by blast
  with has show ?thesis by blast
qed

lemma reader_rcv_ok:
  assumes inv: "reader_inv ch B cap n k w r" and ch: "channel_ok ch"
    and data: "data = None \<or> (\<exists>i < n. data = Some (buf ch B i))"
  shows "\<exists>r' w'. reader_rcv data r = Inr r' \<and> reader_inv ch B cap n k w' r' \<and> (\<forall>i. reader_has r i \<longrightarrow> reader_has r' i)"
proof -
  note v = reader_invD [OF inv]
  have "0 \<le> remaining_for (dr_name r) False (dr_tracker r)" using v(8) by (simp add: reader_mem_def)
  from probe_ok [OF this] obtain h t where
    p: "(case try_acquire (dr_name r) 1 False (dr_tracker r) of
        (True, t1) \<Rightarrow> rbind (release (dr_name r) 1 t1) (\<lambda>t'. Inr (True, t'))
      | (False, t1) \<Rightarrow> Inr (False, t1)) = Inr (h, t)"
    "remaining_for (dr_name r) False t = remaining_for (dr_name r) False (dr_tracker r)"
    "mt_capacity_per_out t = mt_capacity_per_out (dr_tracker r)" "mt_used (dr_name r) (dr_tracker r) \<longrightarrow> mt_used (dr_name r) t"
    by blast
  have mem: "reader_mem cap (r\<lparr>dr_tracker := t\<rparr>)" using v(8) p(2-4) by (simp add: reader_mem_def)
  have same: "reader_inv ch B cap n k w (r\<lparr>dr_tracker := t\<rparr>)"
    using inv mem by (auto simp: reader_inv_def reader_has_def)
  have nat_wm: "nat (dr_watermark r + 1) = w" using v(1) by simp
  let ?idle = "(dr_out_of_order r = [] \<or> dict_mem w (dr_out_of_order r)) \<and> \<not> h"
  show ?thesis
  proof (cases "?idle \<or> data = None")
    case True
    then have "reader_rcv data r = Inr (r\<lparr>dr_tracker := t\<rparr>)"
      unfolding reader_rcv_def Let_def p(1) nat_wm by auto
    with same show ?thesis by (auto simp: reader_has_def)
  next
    case False
    with data obtain i where i: "i < n" "data = Some (buf ch B i)" by blast
    have gid: "get_buffer_id (buf ch B i) = Inr i" by (rule buffer_of_fields(2) [OF ch])
    show ?thesis
    proof (cases "reader_has r i")
      case True
      with False i gid have "reader_rcv data r = Inr (r\<lparr>dr_tracker := t, dr_acks_queue := dr_acks_queue r @ [i]\<rparr>)"
        unfolding reader_rcv_def Let_def p(1) nat_wm by (auto simp: reader_has_def)
      with reader_ack_known [OF inv True mem] show ?thesis by (auto simp: reader_has_def)
    next
      case new: False
      obtain w' out acks t' where d: "drain (dr_name r) i (AList.update i (buf ch B i) (dr_out_of_order r)) w
          (dr_output_queue r) (dr_acks_queue r) t = (w', out, acks, t')"
        by (metis prod_cases4)
      note st = reader_store [OF inv mem i(1) new d]
      from False i gid new d have "reader_rcv data r =
          Inr (r\<lparr>dr_output_queue := out, dr_acks_queue := acks, dr_tracker := t',
            dr_out_of_order := fold AList.delete [w..<w'] (AList.update i (buf ch B i) (dr_out_of_order r)),
            dr_watermark := int w' - 1\<rparr>)"
        unfolding reader_rcv_def Let_def p(1) nat_wm by (auto simp: reader_has_def)
      with st show ?thesis by blast
    qed
  qed
qed

lemma reader_send_ok:
  assumes "reader_inv ch B cap n k w r" "reader_send batch sent r = (r', out)"
  shows "reader_inv ch B cap n k w r'" "reader_has r' = reader_has r"
    "out = Some acks \<Longrightarrow> i \<in> set acks \<Longrightarrow> reader_has r i"
proof -
  have r': "r' = r \<or> r' = r\<lparr>dr_acks_queue := []\<rparr>" using assms(2) by (auto simp: reader_send_def split: if_splits)
  then show has: "reader_has r' = reader_has r" by (auto simp: reader_has_def fun_eq_iff)
  from r' show "reader_inv ch B cap n k w r'"
    using assms(1) by (auto simp: reader_inv_def reader_mem_def)
  show "reader_has r i" if "out = Some acks" "i \<in> set acks"
    using that assms reader_invD(7) [OF assms(1)] by (auto simp: reader_send_def split: if_splits)
qed

lemma read_message_ok:
  assumes inv: "reader_inv ch B cap n k w r" and ch: "channel_ok ch"
    and loads: "\<And>m. loads (dumps m) = Inr m"
    and B: "k < w \<longrightarrow> map snd (B ! k) = map dumps ms"
  shows "\<exists>out r'. read_message loads r = Inr (out, r') \<and>
    (if k < w then out = ms \<and> reader_inv ch B cap n (Suc k) w r' \<and> reader_has r' = reader_has r
     else out = [] \<and> r' = r)"
proof (cases "k < w")
  case False
  with reader_invD(6) [OF inv] show ?thesis by (simp add: read_message_def)
next
  case True
  note v = reader_invD [OF inv]
  have out: "dr_output_queue r = buf ch B k # map (buf ch B) [Suc k..<w]" using v(6) True by (simp add: upt_conv_Cons)
  with v(8) have used: "mt_used (dr_name r) (dr_tracker r)" by (simp add: reader_mem_def)
  from release_out_unit [OF used] obtain t where t: "release (dr_name r) 1 (dr_tracker r) = Inr t" "mt_used (dr_name r) t"
    "mt_capacity_per_out t = mt_capacity_per_out (dr_tracker r)"
    "remaining_for (dr_name r) False t = remaining_for (dr_name r) False (dr_tracker r) + 1" by blast
  have "deser loads (buf ch B k) = Inr ms"
  proof -
    have "rmap (\<lambda>(_, d). loads d) xs = Inr ms" if "map snd xs = map dumps ms" for xs
      using that by (induction xs arbitrary: ms) (auto simp: loads)
    with B True buffer_of_fields(5) [OF ch] show ?thesis by (simp add: deser_def)
  qed
  with out t(1) buffer_of_fields(1) [OF ch]
  have "read_message loads r = Inr (ms, r\<lparr>dr_output_queue := map (buf ch B) [Suc k..<w], dr_tracker := t\<rparr>)"
    (is "_ = Inr (ms, ?r)") by (simp add: read_message_def)
  moreover have "reader_has ?r = reader_has r" by (auto simp: reader_has_def fun_eq_iff)
  moreover have "reader_inv ch B cap n (Suc k) w ?r"
    using inv out t(2-) True by (auto simp: reader_inv_def reader_mem_def reader_has_def)
  ultimately show ?thesis using True by auto
qed

lemma reader_inv_cong:
  assumes "reader_inv ch B cap n k w r" "\<forall>j < n. B' ! j = B ! j" "n \<le> n'"
  shows "reader_inv ch B' cap n' k w r"
proof -
  note v = reader_invD [OF assms(1)]
  have "map_of (dr_out_of_order r) i = Some b \<Longrightarrow> b = buf ch B' i \<and> w \<le> i \<and> i < n'" for i b
    using v(5) [of i b] assms(2,3) by fastforce
  moreover have "dr_output_queue r = map (buf ch B') [k..<w]" using v(3,6) assms(2) by simp
  moreover have "w \<le> n'" using v(3) assms(3) by simp
  ultimately show ?thesis unfolding reader_inv_def using v(1,2,4,7,8) by blast
qed

section \<open>The invariant of the protocol\<close>

text \<open>
  What was sent are scheduled buffers, what was acknowledged is at the reader, what is gone from the writer
  is at the reader, the buffers hold the accepted messages in order and the first \<open>k\<close> of them were read.
\<close>

definition xfer_inv :: "('m \<Rightarrow> bytes) \<Rightarrow> string \<Rightarrow> int \<Rightarrow> (nat \<times> bytes) list list \<Rightarrow> nat \<Rightarrow> nat \<Rightarrow> nat \<Rightarrow> nat \<Rightarrow> 'm xfer \<Rightarrow> bool" where
  "xfer_inv dumps ch cap B b0 n k w s \<longleftrightarrow>
     writer_inv ch B b0 n (x_writer s) \<and> reader_inv ch B cap n k w (x_reader s) \<and>
     (\<forall>b \<in> set (x_sent s). \<exists>i < n. b = buf ch B i) \<and>
     (\<forall>acks \<in> set (x_acked s). \<forall>i \<in> set acks. reader_has (x_reader s) i) \<and>
     (\<forall>i. gone b0 (x_writer s) i \<longrightarrow> reader_has (x_reader s) i) \<and>
     map snd (concat B) = map dumps (x_accepted s) \<and>
     x_read s = take (length (concat (take k B))) (x_accepted s)"

lemma xfer_invD:
  assumes "xfer_inv dumps ch cap B b0 n k w s"
  shows "writer_inv ch B b0 n (x_writer s)" "reader_inv ch B cap n k w (x_reader s)"
    "\<And>b. b \<in> set (x_sent s) \<Longrightarrow> \<exists>i < n. b = buf ch B i"
    "\<And>acks i. acks \<in> set (x_acked s) \<Longrightarrow> i \<in> set acks \<Longrightarrow> reader_has (x_reader s) i"
    "\<And>i. gone b0 (x_writer s) i \<Longrightarrow> reader_has (x_reader s) i"
    "map snd (concat B) = map dumps (x_accepted s)" "x_read s = take (length (concat (take k B))) (x_accepted s)"
  using assms unfolding xfer_inv_def by blast+

lemma concat_segment:
  assumes "k < length B" "map g (concat B) = map f xs"
  defines "a \<equiv> length (concat (take k B))"
  shows "map g (B ! k) = map f (take (length (B ! k)) (drop a xs))"
    and "take (length (concat (take (Suc k) B))) xs = take a xs @ take (length (B ! k)) (drop a xs)"
proof -
  have c: "concat B = concat (take k B) @ B ! k @ concat (drop (Suc k) B)"
    using arg_cong [OF id_take_nth_drop [OF assms(1)], of concat] by simp
  have "map f (take (length (B ! k)) (drop a xs)) = take (length (B ! k)) (drop a (map g (concat B)))"
    unfolding assms(2) by (simp add: take_map drop_map)
  also have "\<dots> = map g (B ! k)" unfolding c a_def by simp
  finally show "map g (B ! k) = map f (take (length (B ! k)) (drop a xs))" by simp
  show "take (length (concat (take (Suc k) B))) xs = take a xs @ take (length (B ! k)) (drop a xs)"
    using assms(1) by (simp add: a_def take_Suc_conv_app_nth take_add)
qed

lemma xfer_write:
  assumes inv: "xfer_inv dumps ch cap B b0 n k w s"
    and app: "append_msg dumps now m (dw_queue (x_writer s)) = (Inr (Some ids), q)"
  shows "\<exists>B'. xfer_inv dumps ch cap B' b0 n k w
    (s\<lparr>x_writer := (x_writer s)\<lparr>dw_queue := q\<rparr>, x_accepted := x_accepted s @ [m]\<rparr>)"
proof -
  note v = xfer_invD [OF inv]
  from writer_append [OF v(1) app] obtain B' i where
    B': "writer_inv ch B' b0 n ((x_writer s)\<lparr>dw_queue := q\<rparr>)" "concat B' = concat B @ [(i, dumps m)]" "\<forall>j < n. B' ! j = B ! j"
    and pops: "bq_pops q = bq_pops (dw_queue (x_writer s))" by auto
  have k: "k \<le> n" using reader_invD(2,3) [OF v(2)] by simp
  have n: "n \<le> length B" "n \<le> length B'" using writer_invD(7) [OF v(1)] writer_invD(7) [OF B'(1)] by simp_all
  have tk: "take k B' = take k B" using k n B'(3) by (intro nth_equalityI) auto
  have "length (concat (take k B)) \<le> length (concat B)" by (metis append_take_drop_id concat_append length_append le_add1)
  also have "\<dots> = length (x_accepted s)" using arg_cong [OF v(6), of length] by simp
  finally have len: "length (concat (take k B)) \<le> length (x_accepted s)" .
  have sent: "\<forall>b \<in> set (x_sent s). \<exists>i < n. b = buf ch B' i"
  proof
    fix b assume "b \<in> set (x_sent s)"
    with v(3) obtain i where "i < n" "b = buf ch B i" by blast
    with B'(3) show "\<exists>i < n. b = buf ch B' i" by (intro exI [of _ i]) simp
  qed
  have gone: "gone b0 ((x_writer s)\<lparr>dw_queue := q\<rparr>) j \<longleftrightarrow> gone b0 (x_writer s) j" for j using pops by (simp add: gone_def)
  show ?thesis
    unfolding xfer_inv_def using B'(1,2) reader_inv_cong [OF v(2) B'(3) order_refl] sent gone v(4-7) tk len
    by (intro exI [of _ B']) simp
qed

lemma xfer_send:
  assumes inv: "xfer_inv dumps ch cap B b0 n k w s" and snd: "writer_send t t2 now sent (x_writer s) = Inr (wr, out)"
  shows "\<exists>n'. xfer_inv dumps ch cap B b0 n' k w
    (s\<lparr>x_writer := wr, x_sent := x_sent s @ (case out of None \<Rightarrow> [] | Some b \<Rightarrow> [b])\<rparr>)"
proof -
  note v = xfer_invD [OF inv]
  from writer_send_ok [OF v(1), of t t2 now sent] snd obtain n' where
    n': "writer_inv ch B b0 n' wr" "n \<le> n'" "bq_pops (dw_queue wr) = bq_pops (dw_queue (x_writer s))"
    "\<forall>b. out = Some b \<longrightarrow> (\<exists>i < n'. b = buf ch B i)" by auto
  have "\<exists>i < n'. b = buf ch B i" if "b \<in> set (x_sent s) \<or> out = Some b" for b
    using that v(3) n'(2,4) less_le_trans by blast
  then have "\<forall>b \<in> set (x_sent s @ (case out of None \<Rightarrow> [] | Some b \<Rightarrow> [b])). \<exists>i < n'. b = buf ch B i"
    by (auto split: option.splits)
  moreover have "gone b0 wr j \<longleftrightarrow> gone b0 (x_writer s) j" for j using n'(3) by (simp add: gone_def)
  moreover have "reader_inv ch B cap n' k w (x_reader s)" using reader_inv_cong [OF v(2) _ n'(2)] by simp
  ultimately show ?thesis unfolding xfer_inv_def using n'(1) v(4-7) by (intro exI [of _ n']) simp
qed

lemma xfer_ack:
  assumes inv: "xfer_inv dumps ch cap B b0 n k w s"
    and acks: "acks \<in> set (x_acked s)" and rcv: "writer_rcv acks (x_writer s) = Inr wr"
  shows "\<exists>b1. xfer_inv dumps ch cap B b1 n k w (s\<lparr>x_writer := wr\<rparr>)"
proof -
  note v = xfer_invD [OF inv]
  from writer_rcv_ok [OF v(1), of acks] rcv obtain b1 where
    b1: "writer_inv ch B b1 n wr" "\<forall>j. gone b1 wr j \<longrightarrow> gone b0 (x_writer s) j \<or> j \<in> set acks" by auto
  then have "\<forall>i. gone b1 wr i \<longrightarrow> reader_has (x_reader s) i" using v(4) [OF acks] v(5) by blast
  then show ?thesis unfolding xfer_inv_def using b1(1) v by (intro exI [of _ b1]) simp
qed

text \<open>Steps of the reader that only add to what it has.\<close>

lemma xfer_reader:
  assumes inv: "xfer_inv dumps ch cap B b0 n k w s"
    and r: "reader_inv ch B cap n k' w' r" "\<And>i. reader_has (x_reader s) i \<Longrightarrow> reader_has r i"
    and acks: "\<And>i. i \<in> set (concat acked) \<Longrightarrow> reader_has r i"
    and rd: "rd = take (length (concat (take k' B))) (x_accepted s)"
    and s': "s' = s\<lparr>x_reader := r, x_acked := x_acked s @ acked, x_read := rd\<rparr>"
  shows "xfer_inv dumps ch cap B b0 n k' w' s'"
  unfolding s' using xfer_invD [OF inv] assms unfolding xfer_inv_def by auto

lemma xfer_step_inv:
  assumes inv: "xfer_inv dumps ch cap B b0 n k w s" and step: "xfer_step dumps loads s s'"
    and loads: "\<And>m. loads (dumps m) = Inr m"
  shows "\<exists>B b0 n k w. xfer_inv dumps ch cap B b0 n k w s'"
  using step
proof cases
  note v = xfer_invD [OF inv]
  have ch: "channel_ok ch" using writer_invD(6) [OF v(1)] .
  {
    case (write_ok now m ids q)
    with xfer_write [OF inv] show ?thesis by blast
  next
    case (write_refused now m res q e)
    with writer_append [OF v(1) write_refused(2)] have "writer_inv ch B b0 n ((x_writer s)\<lparr>dw_queue := q\<rparr>)"
      "bq_pops q = bq_pops (dw_queue (x_writer s))" by auto
    with v have "xfer_inv dumps ch cap B b0 n k w s'" unfolding xfer_inv_def write_refused(1) by (simp add: gone_def)
    then show ?thesis by blast
  next
    case (send t t2 now sent wr out)
    with xfer_send [OF inv] show ?thesis by blast
  next
    case (ack acks wr)
    with xfer_ack [OF inv] show ?thesis by blast
  next
    case (receive data r)
    have "data = None \<or> (\<exists>i < n. data = Some (buf ch B i))" using receive(2) v(3) by auto
    from reader_rcv_ok [OF v(2) ch this] receive(3) obtain w' where
      "reader_inv ch B cap n k w' r" "\<forall>i. reader_has (x_reader s) i \<longrightarrow> reader_has r i" by auto
    then have "xfer_inv dumps ch cap B b0 n k w' s'"
      by (intro xfer_reader [OF inv _ _ _ v(7), where acked = "[]"]) (auto simp: receive(1))
    then show ?thesis by blast
  next
    case (send_acks batch sent r out)
    note r = reader_send_ok [OF v(2) send_acks(2)]
    let ?acked = "case out of None \<Rightarrow> [] | Some a \<Rightarrow> [a]"
    have "reader_has r i" if "i \<in> set (concat ?acked)" for i
      using that r(2,3) by (auto split: option.splits)
    with r(2) have "xfer_inv dumps ch cap B b0 n k w s'"
      by (intro xfer_reader [OF inv r(1) _ _ v(7), where acked = ?acked]) (auto simp: send_acks(1))
    then show ?thesis by blast
  next
    case (read ms r)
    note kw = reader_invD(2,3) [OF v(2)]
    show ?thesis
    proof (cases "k < w")
      case True
      then have k: "k < length B" using kw writer_invD(7) [OF v(1)] by simp
      note seg = concat_segment [OF k v(6)]
      from read_message_ok [OF v(2) ch loads impI [OF seg(1)]] read(2) True
      have r: "ms = take (length (B ! k)) (drop (length (concat (take k B))) (x_accepted s))"
        "reader_inv ch B cap n (Suc k) w r" "reader_has r = reader_has (x_reader s)" by auto
      have "x_read s @ ms = take (length (concat (take (Suc k) B))) (x_accepted s)" using seg(2) v(7) r(1) by simp
      from xfer_reader [OF inv r(2) _ _ this, where acked = "[]" and s' = s'] r(3)
      have "xfer_inv dumps ch cap B b0 n (Suc k) w s'" by (simp add: read(1))
      then show ?thesis by blast
    next
      case False
      with read_message_ok [OF v(2) ch loads, of "[]"] read(2) have "ms = []" "r = x_reader s" by auto
      then have "s' = s" by (simp add: read(1))
      with inv show ?thesis by blast
    qed
  }
qed

lemma xfer_init_inv:
  assumes "channel_ok ch" "map_of (mt_shared_dict wt) ch = None" "0 \<le> mt_capacity_per_in_channel wt"
    and "map_of (mt_shared_dict rt) name = None" "0 \<le> mt_capacity_per_out rt"
  shows "xfer_inv dumps ch (mt_capacity_per_out rt) [] 0 0 0 0 (x_init ch bsize policy wt name rt)"
  using assms bq_rep_init [of ch bsize policy wt]
  by (simp add: xfer_inv_def x_init_def writer_inv_def reader_inv_def reader_mem_def bq_mem_def remaining_for_def
      gone_def bq_init_def)

lemma xfer_reachable_inv:
  assumes "xfer_reachable dumps loads (x_init ch bsize policy wt name rt) s" "\<And>m. loads (dumps m) = Inr m"
    and "channel_ok ch" "map_of (mt_shared_dict wt) ch = None" "0 \<le> mt_capacity_per_in_channel wt"
    and "map_of (mt_shared_dict rt) name = None" "0 \<le> mt_capacity_per_out rt"
  shows "\<exists>B b0 n k w. xfer_inv dumps ch (mt_capacity_per_out rt) B b0 n k w s"
  using assms(1) unfolding xfer_reachable_def
proof (induction rule: rtranclp_induct)
  case base
  from xfer_init_inv [OF assms(3-7)] show ?case by blast
next
  case (step s s')
  with xfer_step_inv [OF _ step(2) assms(2)] show ?case by blast
qed

section \<open>Capacities\<close>

lemma acquire_capacity: "try_acquire key a b t = (ok, t') \<Longrightarrow> mt_capacity_per_in_channel t' = mt_capacity_per_in_channel t"
  by (auto simp: try_acquire_def Let_def split: if_splits)

lemma release_capacity: "release key a t = Inr t' \<Longrightarrow> mt_capacity_per_in_channel t' = mt_capacity_per_in_channel t"
  by (auto simp: release_def split: option.splits)

abbreviation queue_capacity :: "buffer_queue \<Rightarrow> int" where
  "queue_capacity q \<equiv> mt_capacity_per_in_channel (bq_tracker q)"

lemma append_capacity: "append_msg dumps now m q = (res, q') \<Longrightarrow> queue_capacity q' = queue_capacity q"
  by (auto simp: append_msg_def Let_def dest: acquire_capacity split: sum.splits if_splits prod.splits bool.splits)

lemma schedule_capacity: "schedule_next now q = Inr (b, q') \<Longrightarrow> queue_capacity q' = queue_capacity q"
  by (auto simp: schedule_next_def Let_def split: buffering_policy.splits if_splits option.splits)

lemma pop_loop_capacity:
  "pop_loop ch bs idx pops t = Inr (bs', idx', pops', t') \<Longrightarrow> mt_capacity_per_in_channel t' = mt_capacity_per_in_channel t"
  by (induction ch bs idx pops t rule: pop_loop.induct) (auto dest: release_capacity split: if_splits)

lemma ack_step_capacity:
  "ack_step i w = Inr w' \<Longrightarrow> queue_capacity (dw_queue w') = queue_capacity (dw_queue w)"
  by (auto simp: ack_step_def pop_buffer_def Let_def dest!: pop_loop_capacity split: option.splits if_splits)

lemma writer_rcv_capacity:
  "writer_rcv acks w = Inr w' \<Longrightarrow> queue_capacity (dw_queue w') = queue_capacity (dw_queue w)"
  unfolding writer_rcv_def by (induction acks arbitrary: w) (auto dest: ack_step_capacity split: sum.splits)

lemma writer_send_capacity:
  assumes "writer_send t t2 now sent w = Inr (w', out)"
  shows "queue_capacity (dw_queue w') = queue_capacity (dw_queue w)"
proof -
  have "dw_queue w' = dw_queue w \<or> (\<exists>r. schedule_next now (dw_queue w) = Inr (r, dw_queue w'))"
    using assms by (cases "schedule_next now (dw_queue w)")
      (force simp: writer_send_def split: option.splits if_splits)+
  then show ?thesis by (auto dest: schedule_capacity)
qed

lemma xfer_capacity:
  assumes "xfer_reachable dumps loads s s'"
  shows "queue_capacity (dw_queue (x_writer s')) = queue_capacity (dw_queue (x_writer s))"
  using assms unfolding xfer_reachable_def
proof (induction rule: rtranclp_induct)
  case (step s1 s2)
  from step(2) have "queue_capacity (dw_queue (x_writer s2)) = queue_capacity (dw_queue (x_writer s1))"
    by cases (auto dest: append_capacity writer_send_capacity writer_rcv_capacity)
  with step(3) show ?case by simp
qed simp

section \<open>What the protocol guarantees\<close>

text \<open>
  A run on messages of one byte, with room for one buffer at the reader: the socket does not take the first
  buffer at once, so the second one overtakes it.
\<close>

definition byte_dumps :: "8 word \<Rightarrow> bytes" where
  "byte_dumps m = [m]"

definition byte_loads :: "bytes \<Rightarrow> 8 word result" where
  "byte_loads bs = (case bs of [m] \<Rightarrow> Inr m | _ \<Rightarrow> Inl ValueError)"

definition small_tracker :: mem_tracker where
  "small_tracker = \<lparr>mt_capacity_per_in_channel = 2, mt_capacity_per_out = 1, mt_shared_dict = []\<rparr>"

definition byte_init :: "8 word xfer" where
  "byte_init = x_init ''c1'' 40 BufferPerMessagePolicy small_tracker ''r'' small_tracker"

definition byte_ops :: "8 word xfer_op list" where
  "byte_ops = [WriteMsg 0 7, WriteMsg 0 9, SendNext 0 0 0 False, SendNext 1 1 1 True, Receive (Some 0),
     SendNext (11 / 2) (11 / 2) (11 / 2) True, Receive (Some 1), ReadMsg, SendAcks 1 True, AckBatch 0,
     SendNext 10 10 10 True, Receive (Some 2), SendAcks 1 True, AckBatch 1]"

definition byte_end :: "8 word xfer" where
  "byte_end = the (xfer_run byte_dumps byte_loads byte_ops byte_init)"

lemma byte_loads_dumps: "byte_loads (byte_dumps m) = Inr m"
  by (simp add: byte_loads_def byte_dumps_def)

lemma byte_run_eval:
  "map_option (\<lambda>s. (x_accepted s, x_read s, bq_queue (dw_queue (x_writer s)), bq_schedule_index (dw_queue (x_writer s)),
      dw_in_flight (x_writer s), dr_output_queue (x_reader s), map get_buffer_id (x_sent s), dr_watermark (x_reader s),
      map fst (dr_out_of_order (x_reader s)), bq_buffer_id_seq (dw_queue (x_writer s)), x_acked s)) (xfer_run byte_dumps byte_loads byte_ops byte_init) =
   Some ([7, 9], [7], [], 0, [], [], [Inr 1, Inr 0, Inr 1], 0, [1], 2, [[0], [1]])"
  by code_simp

lemma byte_run: "xfer_run byte_dumps byte_loads byte_ops byte_init = Some byte_end"
  using byte_run_eval by (auto simp: byte_end_def)

lemma byte_end_facts:
  "x_accepted byte_end = [7, 9]" "x_read byte_end = [7]" "bq_queue (dw_queue (x_writer byte_end)) = []"
  "bq_schedule_index (dw_queue (x_writer byte_end)) = 0" "dw_in_flight (x_writer byte_end) = []"
  "dr_output_queue (x_reader byte_end) = []" "map get_buffer_id (x_sent byte_end) = [Inr 1, Inr 0, Inr 1]"
  "dr_watermark (x_reader byte_end) = 0" "map fst (dr_out_of_order (x_reader byte_end)) = [1]" "bq_buffer_id_seq (dw_queue (x_writer byte_end)) = 2"
  "x_acked byte_end = [[0], [1]]"
  using byte_run_eval unfolding byte_run by simp_all

lemma byte_reachable: "xfer_reachable byte_dumps byte_loads byte_init byte_end"
  by (rule xfer_run_sound [OF byte_run])

lemma small_tracker_facts:
  "map_of (mt_shared_dict small_tracker) key = None" "0 \<le> mt_capacity_per_in_channel small_tracker"
  "0 \<le> mt_capacity_per_out small_tracker" "mt_capacity_per_in_channel small_tracker = 2" "mt_capacity_per_out small_tracker = 1"
  by (simp_all add: small_tracker_def)

lemmas byte_hyps = byte_reachable [unfolded byte_init_def] byte_loads_dumps channel_ok_c1(1) small_tracker_facts(1,2) small_tracker_facts(1,3)

text \<open>
  C3. Messages are read in the order in which the writer accepted them, none twice and none
  invented: in every reachable state what was read is a prefix of what was accepted, however
  sends fail and buffers and acknowledgements are lost, repeated or reordered, under both buffering policies.
\<close>

theorem transfer_exactly_once_in_order:
  assumes "xfer_reachable dumps loads (x_init ch bsize policy wt name rt) s" "\<And>m. loads (dumps m) = Inr m"
    and "channel_ok ch" "map_of (mt_shared_dict wt) ch = None" "0 \<le> mt_capacity_per_in_channel wt"
    and "map_of (mt_shared_dict rt) name = None" "0 \<le> mt_capacity_per_out rt"
  shows "prefix (x_read s) (x_accepted s)"
proof -
  from xfer_reachable_inv [OF assms] obtain B b0 n k w where "xfer_inv dumps ch (mt_capacity_per_out rt) B b0 n k w s" by blast
  from xfer_invD(7) [OF this] show ?thesis by (simp add: take_is_prefix)
qed

theorem transfer_exactly_once_in_order_witness: "prefix (x_read byte_end) (x_accepted byte_end) \<and> x_read byte_end = [7]"
  using transfer_exactly_once_in_order [OF byte_hyps] byte_end_facts by simp

text \<open>
  C21. No accepted message is lost on the way: in every reachable state each buffer the writer
  ever started is still in its queue or is at the reader, in the output queue, read, or waiting for its turn.
\<close>

theorem transfer_no_loss:
  assumes "xfer_reachable dumps loads (x_init ch bsize policy wt name rt) s" "\<And>m. loads (dumps m) = Inr m"
    and "channel_ok ch" "map_of (mt_shared_dict wt) ch = None" "0 \<le> mt_capacity_per_in_channel wt"
    and "map_of (mt_shared_dict rt) name = None" "0 \<le> mt_capacity_per_out rt"
    and "i < bq_buffer_id_seq (dw_queue (x_writer s))"
  shows "Inr i \<in> set (map get_buffer_id (bq_queue (dw_queue (x_writer s)))) \<or>
    int i \<le> dr_watermark (x_reader s) \<or> dict_mem i (dr_out_of_order (x_reader s))"
proof -
  from xfer_reachable_inv [OF assms(1-7)] obtain B b0 n k w where
    inv: "xfer_inv dumps ch (mt_capacity_per_out rt) B b0 n k w s" by blast
  note v = xfer_invD [OF inv]
  from writer_invD(1,3) [OF v(1)] have q: "bq_buffer_id_seq (dw_queue (x_writer s)) = length B"
    "bq_queue (dw_queue (x_writer s)) = map (buf ch B) [b0..<length B]"
    by (simp_all add: bq_rep_def)
  show ?thesis
  proof (cases "i < b0")
    case True
    then have "gone b0 (x_writer s) i" by (simp add: gone_def)
    from v(5) [OF this] show ?thesis by (simp add: reader_has_def)
  next
    case False
    then have "i \<in> set [b0..<length B]" using assms(8) q(1) by simp
    then have "get_buffer_id (buf ch B i) \<in> set (map get_buffer_id (bq_queue (dw_queue (x_writer s))))" unfolding q(2) by force
    then show ?thesis by (simp add: buffer_of_fields(2) [OF assms(3)])
  qed
qed

theorem transfer_no_loss_witness:
  "int 1 \<le> dr_watermark (x_reader byte_end) \<or> dict_mem 1 (dr_out_of_order (x_reader byte_end))"
  using transfer_no_loss [OF byte_hyps, of 1] byte_end_facts(3,10) by simp



text \<open>
  C23. Memory stays bounded: the writer's queue never exceeds the capacity of its channel, there
  are never more buffers in flight than in the queue, and the reader's output queue never
  exceeds the reader's capacity.
\<close>

theorem transfer_memory_bounds:
  assumes "xfer_reachable dumps loads (x_init ch bsize policy wt name rt) s" "\<And>m. loads (dumps m) = Inr m"
    and "channel_ok ch" "map_of (mt_shared_dict wt) ch = None" "0 \<le> mt_capacity_per_in_channel wt"
    and "map_of (mt_shared_dict rt) name = None" "0 \<le> mt_capacity_per_out rt"
  shows "length (dw_in_flight (x_writer s)) \<le> length (bq_queue (dw_queue (x_writer s))) \<and>
    int (length (bq_queue (dw_queue (x_writer s)))) \<le> mt_capacity_per_in_channel wt \<and>
    int (length (dr_output_queue (x_reader s))) \<le> mt_capacity_per_out rt"
proof -
  from xfer_reachable_inv [OF assms(1-7)] obtain B b0 n k w where
    inv: "xfer_inv dumps ch (mt_capacity_per_out rt) B b0 n k w s" by blast
  note v = xfer_invD [OF inv] and wi = writer_invD [OF xfer_invD(1) [OF inv]]
  have q: "length (bq_queue (dw_queue (x_writer s))) = length B - b0" using wi(1) by (simp add: bq_rep_def)
  have "queue_capacity (dw_queue (x_writer s)) = mt_capacity_per_in_channel wt"
    using xfer_capacity [OF assms(1)] by (simp add: x_init_def bq_init_def)
  then have "int (length (bq_queue (dw_queue (x_writer s)))) \<le> mt_capacity_per_in_channel wt"
    using wi(2) q by (simp add: bq_mem_def)
  moreover have "length (dw_in_flight (x_writer s)) \<le> length B - b0"
  proof -
    have "i \<in> {b0..<n}" if "i \<in> fst ` set (dw_in_flight (x_writer s))" for i
    proof -
      from that obtain ts b where "map_of (dw_in_flight (x_writer s)) i = Some (ts, b)"
        using dict_mem_iff [of i "dw_in_flight (x_writer s)"] by (auto simp: dict_mem_def)
      from wi(9) [OF this] show ?thesis by simp
    qed
    then have "card (fst ` set (dw_in_flight (x_writer s))) \<le> card {b0..<n}" by (intro card_mono subsetI) simp_all
    then show ?thesis using wi(5,7) distinct_card [of "map fst (dw_in_flight (x_writer s))"] by (simp add: wf_dict_def)
  qed
  moreover have "int (length (dr_output_queue (x_reader s))) \<le> mt_capacity_per_out rt"
    using reader_invD(8) [OF v(2)] by (simp add: reader_mem_def)
  ultimately show ?thesis using q by simp
qed

theorem transfer_memory_bounds_witness:
  "length (dw_in_flight (x_writer byte_end)) \<le> length (bq_queue (dw_queue (x_writer byte_end))) \<and>
   int (length (bq_queue (dw_queue (x_writer byte_end)))) \<le> 2 \<and> int (length (dr_output_queue (x_reader byte_end))) \<le> 1"
  using transfer_memory_bounds [OF byte_hyps] by (simp add: small_tracker_facts)

section \<open>Progress and its limit\<close>


definition byte_mid :: "8 word xfer" where
  "byte_mid = the (xfer_run byte_dumps byte_loads (take 3 byte_ops @ [SendNext 6 6 6 True]) byte_init)"

lemma byte_mid_facts:
  "xfer_reachable byte_dumps byte_loads byte_init byte_mid" "map get_buffer_id (x_sent byte_mid) = [Inr 0]"
  "dr_watermark (x_reader byte_mid) = -1" "dr_out_of_order (x_reader byte_mid) = []"
  "remaining_for (dr_name (x_reader byte_mid)) False (dr_tracker (x_reader byte_mid)) = 1"
proof -
  have "map_option (\<lambda>s. (map get_buffer_id (x_sent s), dr_watermark (x_reader s), dr_out_of_order (x_reader s),
      remaining_for (dr_name (x_reader s)) False (dr_tracker (x_reader s))))
    (xfer_run byte_dumps byte_loads (take 3 byte_ops @ [SendNext 6 6 6 True]) byte_init) = Some ([Inr 0], -1, [], 1)" by code_simp
  moreover from this have run: "xfer_run byte_dumps byte_loads (take 3 byte_ops @ [SendNext 6 6 6 True]) byte_init = Some byte_mid"
    by (auto simp: byte_mid_def)
  ultimately show "map get_buffer_id (x_sent byte_mid) = [Inr 0]"
    "dr_watermark (x_reader byte_mid) = -1" "dr_out_of_order (x_reader byte_mid) = []"
    "remaining_for (dr_name (x_reader byte_mid)) False (dr_tracker (x_reader byte_mid)) = 1" by simp_all
  from xfer_run_sound [OF run] show "xfer_reachable byte_dumps byte_loads byte_init byte_mid" .
qed


text \<open>
  Everything was acknowledged, nothing is left to read, and all buffers that were sent are at the reader: then
  no step but an accepted write changes what was read.
\<close>

definition stalled :: "'m xfer \<Rightarrow> bool" where
  "stalled s \<longleftrightarrow>
     bq_queue (dw_queue (x_writer s)) = [] \<and> bq_schedule_index (dw_queue (x_writer s)) = 0 \<and>
     dw_in_flight (x_writer s) = [] \<and> dr_output_queue (x_reader s) = [] \<and>
     (\<forall>b \<in> set (x_sent s). \<exists>i. get_buffer_id b = Inr i \<and> reader_has (x_reader s) i)"

lemma append_refused:
  "append_msg dumps now m q = (res, q') \<Longrightarrow> res = Inr None \<or> res = Inl e \<Longrightarrow>
   bq_queue q' = bq_queue q \<and> bq_schedule_index q' = bq_schedule_index q"
  by (auto simp: append_msg_def Let_def split: sum.splits if_splits prod.splits bool.splits)

lemma reader_rcv_known:
  assumes "reader_rcv data r = Inr r'" "\<And>b. data = Some b \<Longrightarrow> \<exists>i. get_buffer_id b = Inr i \<and> reader_has r i"
  shows "dr_output_queue r' = dr_output_queue r \<and> reader_has r' = reader_has r"
proof -
  have "dr_output_queue r' = dr_output_queue r \<and> dr_watermark r' = dr_watermark r \<and> dr_out_of_order r' = dr_out_of_order r"
  proof (cases data)
    case None
    with assms(1) show ?thesis by (auto simp: reader_rcv_def Let_def split: if_splits)
  next
    case (Some b)
    with assms(2) obtain i where "get_buffer_id b = Inr i" "reader_has r i" by blast
    with assms(1) Some show ?thesis by (auto simp: reader_rcv_def reader_has_def Let_def split: if_splits)
  qed
  then show ?thesis by (auto simp: reader_has_def fun_eq_iff)
qed

lemma stalled_step:
  assumes "stalled s" "xfer_step dumps loads s s'" "x_accepted s' = x_accepted s"
  shows "stalled s' \<and> x_read s' = x_read s"
  using assms(2)
proof cases
  note st = assms(1) [unfolded stalled_def]
  {
    case (write_ok now m ids q)
    with assms(3) show ?thesis by simp
  next
    case (write_refused now m res q e)
    with append_refused [OF write_refused(2,3)] st show ?thesis by (simp add: stalled_def)
  next
    case (send t t2 now sent w out)
    have "schedule_next now (dw_queue (x_writer s)) = Inr (None, dw_queue (x_writer s))" using st by (simp add: schedule_next_def)
    with send(2) st have "w = x_writer s" "out = None" by (simp_all add: writer_send_def)
    with assms(1) show ?thesis by (simp add: send(1) stalled_def)
  next
    case (ack acks w)
    have "rfold ack_step acks (x_writer s) = Inr (x_writer s)" using st by (induction acks) (simp_all add: ack_step_def)
    with ack(3) have "w = x_writer s" by (simp add: writer_rcv_def)
    with assms(1) show ?thesis by (simp add: ack(1) stalled_def)
  next
    case (receive data r)
    then have "dr_output_queue r = dr_output_queue (x_reader s) \<and> reader_has r = reader_has (x_reader s)"
      using st by (intro reader_rcv_known [OF receive(3)]) auto
    with st show ?thesis by (simp add: receive(1) stalled_def)
  next
    case (send_acks batch sent r out)
    then have "r = x_reader s \<or> r = (x_reader s)\<lparr>dr_acks_queue := []\<rparr>" by (auto simp: reader_send_def split: if_splits)
    with st show ?thesis by (auto simp: send_acks(1) stalled_def reader_has_def)
  next
    case (read ms r)
    with st have "ms = []" "r = x_reader s" by (auto simp: read_message_def)
    with assms(1) show ?thesis by (simp add: read(1) stalled_def)
  }
qed

definition quiet_step :: "('m \<Rightarrow> bytes) \<Rightarrow> (bytes \<Rightarrow> 'm result) \<Rightarrow> 'm xfer \<Rightarrow> 'm xfer \<Rightarrow> bool" where
  "quiet_step dumps loads s s' \<longleftrightarrow> xfer_step dumps loads s s' \<and> x_accepted s' = x_accepted s"

lemma stalled_forever:
  assumes "(quiet_step dumps loads)\<^sup>*\<^sup>* s s'" "stalled s"
  shows "stalled s' \<and> x_read s' = x_read s"
  using assms by (induction rule: rtranclp_induct) (auto simp: quiet_step_def dest: stalled_step)

text \<open>
  The limit of progress: a buffer that waits out of order for lack of memory is acknowledged when it is
  sent again, but no longer moved to the output queue. There is a run after which
  the writer holds nothing, one of two accepted messages was read, and whatever happens without another
  accepted message, the second one is never read.
\<close>

theorem acked_tail_never_read:
  "\<exists>s. xfer_reachable byte_dumps byte_loads byte_init s \<and> x_accepted s = [7, 9] \<and>
     bq_queue (dw_queue (x_writer s)) = [] \<and> dw_in_flight (x_writer s) = [] \<and>
     x_read ` {s'. (quiet_step byte_dumps byte_loads)\<^sup>*\<^sup>* s s'} = {[7]}"
proof -
  have "\<exists>i. get_buffer_id b = Inr i \<and> reader_has (x_reader byte_end) i" if "b \<in> set (x_sent byte_end)" for b
  proof -
    have "get_buffer_id b \<in> set [Inr 1, Inr 0, Inr 1]" using that byte_end_facts(7) by (metis image_eqI list.set_map)
    moreover have "reader_has (x_reader byte_end) 0" by (simp add: reader_has_def byte_end_facts)
    moreover have "1 \<in> fst ` set (dr_out_of_order (x_reader byte_end))"
      using byte_end_facts(9) by (metis list.set_intros(1) list.set_map)
    then have "reader_has (x_reader byte_end) 1" by (simp add: reader_has_def dict_mem_iff)
    ultimately show ?thesis by auto
  qed
  then have "stalled byte_end" by (simp add: stalled_def byte_end_facts)
  then have "x_read ` {s'. (quiet_step byte_dumps byte_loads)\<^sup>*\<^sup>* byte_end s'} = {[7]}"
    using stalled_forever byte_end_facts(2) by fastforce
  with byte_reachable byte_end_facts(1,3,5) show ?thesis by blast
qed

text \<open>
  A blocking write returns by its timeout, and a record that met backpressure until then is reported as not written
  and leaves the queue as the other threads left it; the caller ignores the report.
\<close>

theorem write_times_out:
  assumes "append_msg dumps now msg q = (Inr None, q)"
    and "\<forall>(t, env) \<in> set attempts. t - now \<le> timeout \<longrightarrow> append_msg dumps t msg (env q) = (Inr None, q)"
    and "\<exists>(t, env) \<in> set attempts. timeout < t - now"
  shows "write_message dumps True True timeout now msg attempts q = (Some (Inr False), q)"
proof -
  have "write_loop dumps now timeout msg attempts q = (Some (Inr False), q)"
    using assms(2,3)
  proof (induction attempts)
    case (Cons a attempts)
    obtain t env where a: "a = (t, env)" by (cases a)
    show ?case
    proof (cases "timeout < t - now")
      case False
      with Cons.prems(1) a have "append_msg dumps t msg (env q) = (Inr None, q)" by simp
      with Cons False a show ?thesis by simp
    qed (simp add: a)
  qed simp
  with assms(1) show ?thesis by (simp add: write_message_def)
qed

theorem write_times_out_witness:
  "write_message byte_dumps True True 5 0 7 [(1, id), (6, id)]
     (bq_init ''c1'' 40 BufferPerMessagePolicy (small_tracker\<lparr>mt_capacity_per_in_channel := 0\<rparr>)) =
   (Some (Inr False), bq_init ''c1'' 40 BufferPerMessagePolicy (small_tracker\<lparr>mt_capacity_per_in_channel := 0\<rparr>))"
proof -
  let ?q = "bq_init ''c1'' 40 BufferPerMessagePolicy (small_tracker\<lparr>mt_capacity_per_in_channel := 0\<rparr>)"
  have "append_msg byte_dumps t 7 ?q = (Inr None, ?q)" for t
    by (simp add: append_msg_def bq_init_def Let_def serialize_msg_def serialize_no_header needs_new_buffer_def
        try_acquire_def remaining_for_def small_tracker_def)
  then show ?thesis by (intro write_times_out) auto
qed

end
