(* ===== verification/Graph_Optimizer.thy ===== *)
theory Graph_Optimizer
  imports Job_Graph
begin

text \<open>
  Operator chaining on the job graph (\<open>streaming/api/job_graph/job_graph_optimizer.py\<close>): the
  depth-first division into chains, the merge of each chain into one vertex and the new edges
  between chains. The main results say that the chains partition the vertices and that every
  edge of the job graph is either inside one chain or kept as an edge between chains.
\<close>

section \<open>The optimizer\<close>

record ('o, 'k, 'v) opt_state =
  os_visited :: "nat list"
  os_chain_set :: "(nat, 'o job_vertex list) dict"
  os_tail_edges_map :: "(nat, ('k, 'v) job_edge list) dict"

definition opt_init :: "('o, 'k, 'v) opt_state" where
  "opt_init = \<lparr>os_visited = [], os_chain_set = [], os_tail_edges_map = []\<rparr>"

definition vertex_map :: "('o, 'k, 'v) job_graph \<Rightarrow> nat \<rightharpoonup> 'o job_vertex" where
  "vertex_map g = map_of (rev (map (\<lambda>v. (jv_vertex_id v, v)) (jg_job_vertices g)))"

text \<open>Appending to the list a dictionary holds for a key, creating it when absent.\<close>

definition dict_append :: "'a \<Rightarrow> 'b \<Rightarrow> ('a, 'b list) dict \<Rightarrow> ('a, 'b list) dict" where
  "dict_append k x d = (case map_of d k of
                          Some xs \<Rightarrow> AList.update k (xs @ [x]) d
                        | None \<Rightarrow> AList.update k [x] d)"

definition add_vertex_to_chain_set ::
    "nat \<Rightarrow> 'o job_vertex \<Rightarrow> ('o, 'k, 'v) opt_state \<Rightarrow> ('o, 'k, 'v) opt_state" where
  "add_vertex_to_chain_set root_id v st =
     st\<lparr>os_chain_set := dict_append root_id v (os_chain_set st)\<rparr>"

definition tail_edge :: "('k, 'v) job_edge \<Rightarrow> nat \<Rightarrow> nat \<Rightarrow> ('k, 'v) job_edge" where
  "tail_edge e src_operator_id target_operator_id =
     (JobEdge (je_source_vertex_id e) (je_target_vertex_id e) (je_partition e)
        (Some src_operator_id) (Some target_operator_id))
       \<lparr>je_is_join_right_edge := je_is_join_right_edge e\<rparr>"

definition add_tail_edge ::
    "nat \<Rightarrow> ('k, 'v) job_edge \<Rightarrow> nat \<Rightarrow> nat \<Rightarrow> ('o, 'k, 'v) opt_state \<Rightarrow> ('o, 'k, 'v) opt_state" where
  "add_tail_edge head_vertex_id e src_operator_id target_operator_id st =
     st\<lparr>os_tail_edges_map :=
          dict_append head_vertex_id (tail_edge e src_operator_id target_operator_id)
            (os_tail_edges_map st)\<rparr>"

definition can_chain ::
    "('o, 'k, 'v) job_graph \<Rightarrow> 'o job_vertex \<Rightarrow> 'o job_vertex \<Rightarrow> ('k, 'v) job_edge \<Rightarrow> bool" where
  "can_chain g src tgt e =
     (if jv_parallelism src \<noteq> jv_parallelism tgt then False
      else if length (get_vertex_input_edges g (jv_vertex_id tgt)) > 1 \<or>
              length (get_vertex_output_edges g (jv_vertex_id src)) > 1 then False
      else is_forward (je_partition e))"

text \<open>The body of the loop over a vertex's output edges, with the recursive call as argument.\<close>

definition divide_edge ::
    "(nat \<Rightarrow> 'o job_vertex \<Rightarrow> ('o, 'k, 'v) opt_state \<Rightarrow> ('o, 'k, 'v) opt_state result) \<Rightarrow>
     ('o, 'k, 'v) job_graph \<Rightarrow> nat \<Rightarrow> 'o job_vertex \<Rightarrow> ('k, 'v) job_edge \<Rightarrow>
     ('o, 'k, 'v) opt_state \<Rightarrow> ('o, 'k, 'v) opt_state result" where
  "divide_edge recurse g head_id src e st =
     (let target_id = je_target_vertex_id e
      in case vertex_map g target_id of
           None \<Rightarrow> Inl KeyError
         | Some tgt \<Rightarrow>
             if can_chain g src tgt e
             then recurse head_id tgt (add_vertex_to_chain_set head_id tgt st)
             else let st1 = add_tail_edge head_id e (jv_vertex_id src) (je_target_operator_id e) st
                  in if target_id \<in> set (os_visited st1) then Inr st1
                     else recurse target_id tgt
                            (add_vertex_to_chain_set target_id tgt
                              (st1\<lparr>os_visited := target_id # os_visited st1\<rparr>)))"

text \<open>\<open>divide_vertices\<close>; the first argument is the recursion depth the interpreter allows.\<close>

primrec divide_vertices ::
    "nat \<Rightarrow> ('o, 'k, 'v) job_graph \<Rightarrow> nat \<Rightarrow> 'o job_vertex \<Rightarrow> ('o, 'k, 'v) opt_state \<Rightarrow>
     ('o, 'k, 'v) opt_state result" where
  "divide_vertices 0 g head_id src st = Inl RecursionError"
| "divide_vertices (Suc depth) g head_id src st =
     rfold (divide_edge (divide_vertices depth g) g head_id src)
       (get_vertex_output_edges g (jv_vertex_id src)) st"

definition change_partition :: "('k, 'v) partition \<Rightarrow> ('k, 'v) partition" where
  "change_partition p = (if is_forward p then init_round_robin else p)"

definition reset_edge :: "nat \<Rightarrow> ('k, 'v) job_edge \<Rightarrow> ('k, 'v) job_edge" where
  "reset_edge head_id e =
     (JobEdge head_id (je_target_vertex_id e) (change_partition (je_partition e))
        (Some (je_source_operator_id e)) (Some (je_target_operator_id e)))
       \<lparr>je_is_join_right_edge := je_is_join_right_edge e\<rparr>"

text \<open>\<open>reset_edges\<close>: the stable sort by \<open>is_join_right_edge\<close> puts the right edges last.\<close>

definition reset_edges :: "(nat, ('k, 'v) job_edge list) dict \<Rightarrow> ('k, 'v) job_edge list" where
  "reset_edges tails =
     (let es = concat (map (\<lambda>(h, ts). map (reset_edge h) ts) tails)
      in filter (\<lambda>e. \<not> je_is_join_right_edge e) es @ filter je_is_join_right_edge es)"

definition merge_chain :: "'o job_vertex list \<Rightarrow> 'o job_vertex result" where
  "merge_chain tree_list =
     (case tree_list of
        [] \<Rightarrow> Inl IndexError
      | [v] \<Rightarrow> Inr v
      | v # vs \<Rightarrow> rbind (new_chained_operator (map jv_stream_operator tree_list)) (\<lambda>operator.
          Inr (v\<lparr>jv_stream_operator := operator\<rparr>)))"

definition optimize ::
    "nat \<Rightarrow> ('o, 'k, 'v) job_graph \<Rightarrow> ('o, 'k, 'v) job_graph result" where
  "optimize depth g =
     rbind (rfold (\<lambda>v st. divide_vertices depth g (jv_vertex_id v) v
                            (add_vertex_to_chain_set (jv_vertex_id v) v st))
              (get_source_vertices g) opt_init) (\<lambda>st.
     rbind (rmap merge_chain (dict_values (os_chain_set st))) (\<lambda>vs.
       Inr \<lparr>jg_job_vertices = vs, jg_job_edges = reset_edges (os_tail_edges_map st)\<rparr>))"

section \<open>Chain edges\<close>

definition chain_edge :: "('o, 'k, 'v) job_graph \<Rightarrow> ('k, 'v) job_edge \<Rightarrow> bool" where
  "chain_edge g e \<longleftrightarrow>
     (case (vertex_map g (je_source_vertex_id e), vertex_map g (je_target_vertex_id e)) of
        (Some src, Some tgt) \<Rightarrow> can_chain g src tgt e
      | _ \<Rightarrow> False)"

lemma vertex_map_Some:
  assumes "graph_wf g"
  shows "vertex_map g i = Some v \<longleftrightarrow> v \<in> set (jg_job_vertices g) \<and> jv_vertex_id v = i"
proof -
  let ?l = "rev (map (\<lambda>v. (jv_vertex_id v, v)) (jg_job_vertices g))"
  have "distinct (map fst ?l)"
    using assms by (simp add: graph_wf_def rev_map [symmetric] o_def)
  then have "map_of ?l i = Some v \<longleftrightarrow> (i, v) \<in> set ?l" by (rule map_of_eq_Some_iff)
  then show ?thesis by (auto simp: vertex_map_def)
qed

lemma vertex_map_vids:
  assumes "graph_wf g" "i \<in> vids g"
  obtains v where "vertex_map g i = Some v" "v \<in> set (jg_job_vertices g)" "jv_vertex_id v = i"
  using assms vertex_map_Some [OF assms(1)] by (auto simp: vids_def)

lemma graph_wf_edge:
  assumes "graph_wf g" "e \<in> set (jg_job_edges g)"
  shows "je_source_vertex_id e \<in> vids g" "je_target_vertex_id e \<in> vids g"
    "je_source_vertex_id e < je_target_vertex_id e" "je_target_operator_id e = je_target_vertex_id e"
  using assms by (auto simp: graph_wf_def)

lemma edge_eqI:
  assumes "graph_wf g" "e \<in> set (jg_job_edges g)" "f \<in> set (jg_job_edges g)" "epair e = epair f"
  shows "e = f"
  using assms by (auto simp: graph_wf_def distinct_map inj_on_def)

lemma short_filter_unique:
  "length (filter P xs) \<le> 1 \<Longrightarrow> x \<in> set xs \<Longrightarrow> y \<in> set xs \<Longrightarrow> P x \<Longrightarrow> P y \<Longrightarrow> x = y"
  by (induction xs) (auto simp: filter_empty_conv split: if_splits)

lemma chain_edge_degrees:
  assumes "graph_wf g" "chain_edge g e"
  shows "length (get_vertex_output_edges g (je_source_vertex_id e)) \<le> 1"
    "length (get_vertex_input_edges g (je_target_vertex_id e)) \<le> 1"
    "is_forward (je_partition e)"
proof -
  from assms obtain s t where "vertex_map g (je_source_vertex_id e) = Some s"
    "vertex_map g (je_target_vertex_id e) = Some t" "can_chain g s t e"
    by (auto simp: chain_edge_def split: option.splits)
  moreover from this have "jv_vertex_id s = je_source_vertex_id e" "jv_vertex_id t = je_target_vertex_id e"
    using vertex_map_Some [OF assms(1)] by auto
  ultimately show "length (get_vertex_output_edges g (je_source_vertex_id e)) \<le> 1"
    "length (get_vertex_input_edges g (je_target_vertex_id e)) \<le> 1"
    "is_forward (je_partition e)"
    by (auto simp: can_chain_def split: if_splits)
qed

lemma chain_edge_unique:
  assumes "graph_wf g" "chain_edge g e" "e \<in> set (jg_job_edges g)" "f \<in> set (jg_job_edges g)"
  shows "je_source_vertex_id f = je_source_vertex_id e \<Longrightarrow> f = e"
    and "je_target_vertex_id f = je_target_vertex_id e \<Longrightarrow> f = e"
  using chain_edge_degrees [OF assms(1,2)] assms(3,4)
  by (auto simp: get_vertex_output_edges_def get_vertex_input_edges_def
      intro: short_filter_unique [of "\<lambda>x. je_source_vertex_id x = je_source_vertex_id e" "jg_job_edges g"]
        short_filter_unique [of "\<lambda>x. je_target_vertex_id x = je_target_vertex_id e" "jg_job_edges g"])

section \<open>Counting what a division adds\<close>

definition added :: "('o, 'k, 'v) opt_state \<Rightarrow> nat multiset" where
  "added st = mset (concat (map (map jv_vertex_id) (dict_values (os_chain_set st))))"

definition tails :: "('o, 'k, 'v) opt_state \<Rightarrow> ('k, 'v) job_edge multiset" where
  "tails st = mset (concat (dict_values (os_tail_edges_map st)))"

lemma mset_concat_dict_append:
  "mset (concat (dict_values (dict_append k x d))) = add_mset x (mset (concat (dict_values d)))"
  by (induction d) (auto simp: dict_append_def dict_values_def split: option.splits if_splits)

lemma mset_concat_map_dict_append:
  "mset (concat (map (map f) (dict_values (dict_append k x d)))) =
   add_mset (f x) (mset (concat (map (map f) (dict_values d))))"
  using arg_cong [OF mset_concat_dict_append [of k x d], of "image_mset f"]
  by (simp add: mset_map map_concat [symmetric])

lemma added_simps [simp]:
  "added (add_vertex_to_chain_set k v st) = add_mset (jv_vertex_id v) (added st)"
  "added (add_tail_edge h e s t st) = added st"
  "added (st\<lparr>os_visited := vs\<rparr>) = added st"
  by (simp_all add: added_def add_vertex_to_chain_set_def add_tail_edge_def mset_concat_map_dict_append)

lemma tails_simps [simp]:
  "tails (add_vertex_to_chain_set k v st) = tails st"
  "tails (add_tail_edge h e s t st) = add_mset (tail_edge e s t) (tails st)"
  "tails (st\<lparr>os_visited := vs\<rparr>) = tails st"
  by (simp_all add: tails_def add_vertex_to_chain_set_def add_tail_edge_def mset_concat_dict_append)

lemma visited_simps [simp]:
  "os_visited (add_vertex_to_chain_set k v st) = os_visited st"
  "os_visited (add_tail_edge h e s t st) = os_visited st"
  by (simp_all add: add_vertex_to_chain_set_def add_tail_edge_def)

text \<open>The edges of a list that stay edges between chains, as recorded in the tail map.\<close>

definition kept :: "('o, 'k, 'v) job_graph \<Rightarrow> ('k, 'v) job_edge list \<Rightarrow> ('k, 'v) job_edge multiset" where
  "kept g F = mset (map (\<lambda>e. tail_edge e (je_source_vertex_id e) (je_target_operator_id e))
                     (filter (\<lambda>e. \<not> chain_edge g e) F))"

text \<open>
  \<open>divided g F st st' N\<close>: processing the edges \<open>F\<close> led from \<open>st\<close> to \<open>st'\<close> and added the
  vertices \<open>N\<close> to chains. A chained vertex is added once for each time its predecessor is
  processed; any other vertex when it is first visited.
\<close>

definition divided ::
    "('o, 'k, 'v) job_graph \<Rightarrow> ('k, 'v) job_edge list \<Rightarrow> ('o, 'k, 'v) opt_state \<Rightarrow>
     ('o, 'k, 'v) opt_state \<Rightarrow> nat multiset \<Rightarrow> bool" where
  "divided g F st st' N \<longleftrightarrow>
     added st' = added st + N \<and> set (os_visited st) \<subseteq> set (os_visited st') \<and>
     set_mset N \<subseteq> vids g \<and>
     (\<forall>e \<in> set (jg_job_edges g). chain_edge g e \<longrightarrow>
        count N (je_target_vertex_id e) = count N (je_source_vertex_id e) + count (mset F) e) \<and>
     (\<forall>v. (\<forall>e \<in> set (jg_job_edges g). chain_edge g e \<longrightarrow> je_target_vertex_id e \<noteq> v) \<longrightarrow>
        count N v = (if v \<in> set (os_visited st') - set (os_visited st) then 1 else 0)) \<and>
     (\<forall>v \<in> set (os_visited st') - set (os_visited st).
        \<exists>e \<in> set (jg_job_edges g). \<not> chain_edge g e \<and> je_target_vertex_id e = v) \<and>
     (\<forall>e \<in> set (jg_job_edges g). \<not> chain_edge g e \<and> (e \<in> set F \<or> je_source_vertex_id e \<in># N) \<longrightarrow>
        je_target_vertex_id e \<in> set (os_visited st')) \<and>
     tails st' = tails st + kept g F + (\<Sum>u \<in># N. kept g (get_vertex_output_edges g u))"

lemma divided_Nil: "divided g [] st st {#}"
  by (simp add: divided_def kept_def)

lemma divided_append:
  assumes "divided g F st st1 N" "divided g F' st1 st2 N'"
  shows "divided g (F @ F') st st2 (N + N')"
proof -
  note d1 = assms(1) [unfolded divided_def] and d2 = assms(2) [unfolded divided_def]
  from d1 d2 have mono: "set (os_visited st) \<subseteq> set (os_visited st1)" "set (os_visited st1) \<subseteq> set (os_visited st2)"
    by blast+
  have "added st2 = added st + (N + N')" using d1 d2 by (simp add: add.assoc)
  moreover have "set_mset (N + N') \<subseteq> vids g" using d1 d2 by auto
  moreover have "\<forall>e \<in> set (jg_job_edges g). chain_edge g e \<longrightarrow>
      count (N + N') (je_target_vertex_id e) = count (N + N') (je_source_vertex_id e) + count (mset (F @ F')) e"
    using d1 d2 by simp
  moreover have "count (N + N') v = (if v \<in> set (os_visited st2) - set (os_visited st) then 1 else 0)"
    if "\<forall>e \<in> set (jg_job_edges g). chain_edge g e \<longrightarrow> je_target_vertex_id e \<noteq> v" for v
  proof -
    from that d1 have "count N v = (if v \<in> set (os_visited st1) - set (os_visited st) then 1 else 0)" by blast
    moreover from that d2 have "count N' v = (if v \<in> set (os_visited st2) - set (os_visited st1) then 1 else 0)" by blast
    ultimately show ?thesis using mono by auto
  qed
  moreover have "\<forall>v \<in> set (os_visited st2) - set (os_visited st).
      \<exists>e \<in> set (jg_job_edges g). \<not> chain_edge g e \<and> je_target_vertex_id e = v"
    using d1 d2 by blast
  moreover have "\<forall>e \<in> set (jg_job_edges g). \<not> chain_edge g e \<and> (e \<in> set (F @ F') \<or> je_source_vertex_id e \<in># N + N') \<longrightarrow>
      je_target_vertex_id e \<in> set (os_visited st2)"
    using d1 d2 by (metis Un_iff set_append set_mset_union subsetD)
  moreover have "tails st2 = tails st + kept g (F @ F') + (\<Sum>u \<in># N + N'. kept g (get_vertex_output_edges g u))"
    using d1 d2 by (simp add: kept_def ac_simps)
  ultimately show ?thesis using mono unfolding divided_def by blast
qed

lemma count_output_edges:
  assumes "graph_wf g" "e \<in> set (jg_job_edges g)"
  shows "count (mset (get_vertex_output_edges g u)) e = (if je_source_vertex_id e = u then 1 else 0)"
proof -
  have "distinct (jg_job_edges g)" using assms(1) by (auto simp: graph_wf_def distinct_map)
  then have "distinct (get_vertex_output_edges g u)" by (simp add: get_vertex_output_edges_def)
  then show ?thesis using assms(2)
    by (simp add: distinct_count_atmost_1 get_vertex_output_edges_def)
qed

text \<open>One chained edge: the target joins the chain and its own edges follow.\<close>

lemma divided_chain:
  assumes wf: "graph_wf g" and e: "e \<in> set (jg_job_edges g)" "chain_edge g e"
    and t: "jv_vertex_id t = je_target_vertex_id e"
    and d: "divided g (get_vertex_output_edges g (jv_vertex_id t)) (add_vertex_to_chain_set h t st) st' N"
  shows "divided g [e] st st' (add_mset (jv_vertex_id t) N)"
proof -
  note d' = d [unfolded divided_def]
  let ?t = "je_target_vertex_id e"
  have "count (add_mset ?t N) (je_target_vertex_id f) =
      count (add_mset ?t N) (je_source_vertex_id f) + count (mset [e]) f"
    if "f \<in> set (jg_job_edges g)" "chain_edge g f" for f
  proof -
    have "je_target_vertex_id f = ?t \<longleftrightarrow> f = e"
      using chain_edge_unique(2) [OF wf e(2,1) that(1)] by blast
    moreover have "count N (je_target_vertex_id f) =
        count N (je_source_vertex_id f) + (if je_source_vertex_id f = ?t then 1 else 0)"
      using d' that count_output_edges [OF wf that(1), of ?t] t by simp
    ultimately show ?thesis by auto
  qed
  moreover have "count (add_mset ?t N) v = (if v \<in> set (os_visited st') - set (os_visited st) then 1 else 0)"
    if "\<forall>f \<in> set (jg_job_edges g). chain_edge g f \<longrightarrow> je_target_vertex_id f \<noteq> v" for v
    using d' that e by auto
  moreover have "\<forall>f \<in> set (jg_job_edges g). \<not> chain_edge g f \<and> (f \<in> set [e] \<or> je_source_vertex_id f \<in># add_mset ?t N) \<longrightarrow>
      je_target_vertex_id f \<in> set (os_visited st')"
    using d' e(2) t by (auto simp: get_vertex_output_edges_def)
  moreover have "set_mset (add_mset ?t N) \<subseteq> vids g"
    using d' graph_wf_edge(2) [OF wf e(1)] by auto
  moreover have "kept g [e] = {#}" using e(2) by (simp add: kept_def)
  ultimately show ?thesis
    using d' unfolding divided_def t by (simp add: ac_simps t)
qed

text \<open>One edge to a vertex of another chain, visited before or now.\<close>

lemma divided_visited:
  assumes wf: "graph_wf g" and e: "e \<in> set (jg_job_edges g)" "\<not> chain_edge g e"
    and v: "je_target_vertex_id e \<in> set (os_visited st)" and s: "s = je_source_vertex_id e"
  shows "divided g [e] st (add_tail_edge h e s (je_target_operator_id e) st) {#}"
  using assms unfolding divided_def by (auto simp: kept_def)

lemma divided_new:
  assumes wf: "graph_wf g" and e: "e \<in> set (jg_job_edges g)" "\<not> chain_edge g e"
    and new: "je_target_vertex_id e \<notin> set (os_visited st)" and s: "s = je_source_vertex_id e"
    and t: "jv_vertex_id t = je_target_vertex_id e"
    and d: "divided g (get_vertex_output_edges g (jv_vertex_id t))
      (add_vertex_to_chain_set (je_target_vertex_id e) t
        ((add_tail_edge h e s (je_target_operator_id e) st)
          \<lparr>os_visited := je_target_vertex_id e # os_visited st\<rparr>)) st' N"
  shows "divided g [e] st st' (add_mset (jv_vertex_id t) N)"
proof -
  note d' = d [unfolded divided_def]
  let ?t = "je_target_vertex_id e"
  have no: "je_target_vertex_id f \<noteq> ?t" if "f \<in> set (jg_job_edges g)" "chain_edge g f" for f
    using chain_edge_unique(2) [OF wf that(2,1) e(1)] e(2) that(2) by metis
  have "count (add_mset ?t N) (je_target_vertex_id f) =
      count (add_mset ?t N) (je_source_vertex_id f) + count (mset [e]) f"
    if "f \<in> set (jg_job_edges g)" "chain_edge g f" for f
  proof -
    have "count N (je_target_vertex_id f) =
        count N (je_source_vertex_id f) + (if je_source_vertex_id f = ?t then 1 else 0)"
      using d' that count_output_edges [OF wf that(1), of ?t] t by simp
    moreover have "f \<noteq> e" using that(2) e(2) by auto
    ultimately show ?thesis using no [OF that] by auto
  qed
  moreover have "count (add_mset ?t N) v = (if v \<in> set (os_visited st') - set (os_visited st) then 1 else 0)"
    if "\<forall>f \<in> set (jg_job_edges g). chain_edge g f \<longrightarrow> je_target_vertex_id f \<noteq> v" for v
    using d' that new by auto
  moreover have "\<forall>v \<in> set (os_visited st') - set (os_visited st).
      \<exists>f \<in> set (jg_job_edges g). \<not> chain_edge g f \<and> je_target_vertex_id f = v"
    using d' e by auto
  moreover have "\<forall>f \<in> set (jg_job_edges g). \<not> chain_edge g f \<and> (f \<in> set [e] \<or> je_source_vertex_id f \<in># add_mset ?t N) \<longrightarrow>
      je_target_vertex_id f \<in> set (os_visited st')"
    using d' t by (auto simp: get_vertex_output_edges_def)
  moreover have "set_mset (add_mset ?t N) \<subseteq> vids g"
    using d' graph_wf_edge(2) [OF wf e(1)] by auto
  moreover have "kept g [e] = {#tail_edge e s (je_target_operator_id e)#}"
    using e(2) s by (simp add: kept_def)
  ultimately show ?thesis
    using d' unfolding divided_def t by (simp add: ac_simps t)
qed

section \<open>The shape of the chains\<close>

definition linked :: "('o, 'k, 'v) job_graph \<Rightarrow> 'o job_vertex \<Rightarrow> 'o job_vertex \<Rightarrow> bool" where
  "linked g u v \<longleftrightarrow>
     (\<exists>e \<in> set (jg_job_edges g). epair e = (jv_vertex_id u, jv_vertex_id v) \<and> chain_edge g e)"

definition chain_ok :: "('o, 'k, 'v) job_graph \<Rightarrow> nat \<Rightarrow> 'o job_vertex list \<Rightarrow> bool" where
  "chain_ok g h c \<longleftrightarrow> c \<noteq> [] \<and> jv_vertex_id (hd c) = h \<and> set c \<subseteq> set (jg_job_vertices g) \<and>
     successively (linked g) c"

definition chains_ok :: "('o, 'k, 'v) job_graph \<Rightarrow> ('o, 'k, 'v) opt_state \<Rightarrow> bool" where
  "chains_ok g st \<longleftrightarrow>
     wf_dict (os_chain_set st) \<and> wf_dict (os_tail_edges_map st) \<and>
     (\<forall>h c. map_of (os_chain_set st) h = Some c \<longrightarrow> chain_ok g h c \<and>
        (h \<in> set (os_visited st) \<or> get_vertex_input_edges g h = [])) \<and>
     (\<forall>h \<in> set (os_visited st). map_of (os_chain_set st) h \<noteq> None) \<and>
     (\<forall>h ts e. map_of (os_tail_edges_map st) h = Some ts \<and> e \<in> set ts \<longrightarrow>
        je_target_vertex_id e \<in> set (os_visited st) \<and>
        (\<exists>c. map_of (os_chain_set st) h = Some c \<and>
             je_source_vertex_id e \<in> jv_vertex_id ` set c))"

text \<open>Chains are never shortened.\<close>

definition grows :: "('o, 'k, 'v) opt_state \<Rightarrow> ('o, 'k, 'v) opt_state \<Rightarrow> bool" where
  "grows st st' \<longleftrightarrow> (\<forall>h c. map_of (os_chain_set st) h = Some c \<longrightarrow>
     (\<exists>c'. map_of (os_chain_set st') h = Some c' \<and> set c \<subseteq> set c'))"

lemma map_of_dict_append [simp]:
  "map_of (dict_append k x d) j =
     (if j = k then Some ((case map_of d k of Some xs \<Rightarrow> xs | None \<Rightarrow> []) @ [x]) else map_of d j)"
  by (auto simp: dict_append_def split: option.splits)

lemma wf_dict_append [simp, intro]: "wf_dict d \<Longrightarrow> wf_dict (dict_append k x d)"
  by (auto simp: dict_append_def split: option.splits)

lemma tail_edge_fields [simp]:
  "je_source_vertex_id (tail_edge e s t) = je_source_vertex_id e"
  "je_target_vertex_id (tail_edge e s t) = je_target_vertex_id e"
  "je_source_operator_id (tail_edge e s t) = s"
  "je_target_operator_id (tail_edge e s t) = t"
  "je_partition (tail_edge e s t) = je_partition e"
  "je_is_join_right_edge (tail_edge e s t) = je_is_join_right_edge e"
  by (simp_all add: tail_edge_def JobEdge_def)

lemma grows_refl [simp]: "grows st st"
  by (simp add: grows_def)

lemma grows_trans: "grows a b \<Longrightarrow> grows b c \<Longrightarrow> grows a c"
  unfolding grows_def by (meson order_trans)

lemma grows_add [simp]:
  "grows st (add_vertex_to_chain_set h v st)"
  "grows st (add_tail_edge h e s t st)"
  "grows st (st\<lparr>os_visited := vs\<rparr>)"
  by (auto simp: grows_def add_vertex_to_chain_set_def add_tail_edge_def)

lemma chains_ok_extend:
  assumes "chains_ok g st" "map_of (os_chain_set st) h = Some c" "linked g (last c) v"
    and "v \<in> set (jg_job_vertices g)"
  shows "chains_ok g (add_vertex_to_chain_set h v st)"
proof -
  have "chain_ok g h c" using assms(1,2) by (simp add: chains_ok_def)
  then have "chain_ok g h (c @ [v])"
    using assms(3,4) by (auto simp: chain_ok_def successively_append_iff)
  with assms(1,2) show ?thesis
    unfolding chains_ok_def add_vertex_to_chain_set_def by (auto split: if_splits) fastforce+
qed

lemma chains_ok_tail:
  assumes ok: "chains_ok g st" and c: "map_of (os_chain_set st) h = Some c"
    and e: "je_source_vertex_id e \<in> jv_vertex_id ` set c"
    and vs: "set (os_visited st) \<subseteq> set vs" "je_target_vertex_id e \<in> set vs"
    and new: "st' = (add_tail_edge h e s t st)\<lparr>os_visited := vs\<rparr>"
  shows "\<forall>h ts f. map_of (os_tail_edges_map st') h = Some ts \<and> f \<in> set ts \<longrightarrow>
    je_target_vertex_id f \<in> set (os_visited st') \<and>
    (\<exists>c. map_of (os_chain_set st') h = Some c \<and> je_source_vertex_id f \<in> jv_vertex_id ` set c)"
proof (intro allI impI)
  fix h' ts f assume f: "map_of (os_tail_edges_map st') h' = Some ts \<and> f \<in> set ts"
  show "je_target_vertex_id f \<in> set (os_visited st') \<and>
    (\<exists>c. map_of (os_chain_set st') h' = Some c \<and> je_source_vertex_id f \<in> jv_vertex_id ` set c)"
  proof (cases "h' = h \<and> f = tail_edge e s t")
    case True
    then show ?thesis using c e vs(2) by (simp add: new add_tail_edge_def)
  next
    case False
    with f have "\<exists>ts. map_of (os_tail_edges_map st) h' = Some ts \<and> f \<in> set ts"
      by (auto simp: new add_tail_edge_def split: if_splits option.splits)
    with ok vs(1) show ?thesis
      unfolding chains_ok_def by (auto simp: new add_tail_edge_def)
  qed
qed

lemma chains_ok_visited:
  assumes "chains_ok g st" "map_of (os_chain_set st) h = Some c"
    and "je_source_vertex_id e \<in> jv_vertex_id ` set c" "je_target_vertex_id e \<in> set (os_visited st)"
  shows "chains_ok g (add_tail_edge h e s t st)"
  using assms chains_ok_tail [OF assms(1-3) subset_refl assms(4) refl]
  unfolding chains_ok_def by (auto simp: add_tail_edge_def)

lemma chains_ok_new:
  assumes ok: "chains_ok g st" "map_of (os_chain_set st) h = Some c"
    and e: "je_source_vertex_id e \<in> jv_vertex_id ` set c" "e \<in> set (jg_job_edges g)"
    and new: "je_target_vertex_id e \<notin> set (os_visited st)"
    and v: "v \<in> set (jg_job_vertices g)" "jv_vertex_id v = je_target_vertex_id e"
  shows "chains_ok g (add_vertex_to_chain_set (je_target_vertex_id e) v
      ((add_tail_edge h e s t st)\<lparr>os_visited := je_target_vertex_id e # os_visited st\<rparr>))" (is "chains_ok g ?st2")
    and "map_of (os_chain_set (add_vertex_to_chain_set (je_target_vertex_id e) v
      ((add_tail_edge h e s t st)\<lparr>os_visited := je_target_vertex_id e # os_visited st\<rparr>))) (je_target_vertex_id e) = Some [v]"
proof -
  let ?t = "je_target_vertex_id e"
  let ?st1 = "(add_tail_edge h e s t st)\<lparr>os_visited := ?t # os_visited st\<rparr>"
  have "e \<in> set (get_vertex_input_edges g ?t)" using e(2) by (simp add: get_vertex_input_edges_def)
  then have "get_vertex_input_edges g ?t \<noteq> []" by auto
  with ok(1) new have fresh: "map_of (os_chain_set st) ?t = None"
    unfolding chains_ok_def by (cases "map_of (os_chain_set st) ?t") auto
  then show "map_of (os_chain_set ?st2) ?t = Some [v]"
    by (simp add: add_vertex_to_chain_set_def add_tail_edge_def)
  have tl: "\<forall>h ts f. map_of (os_tail_edges_map ?st1) h = Some ts \<and> f \<in> set ts \<longrightarrow>
      je_target_vertex_id f \<in> set (os_visited ?st1) \<and>
      (\<exists>c. map_of (os_chain_set ?st1) h = Some c \<and> je_source_vertex_id f \<in> jv_vertex_id ` set c)"
    by (rule chains_ok_tail [OF ok e(1)]) auto
  have "chain_ok g ?t [v]" using v by (simp add: chain_ok_def)
  with ok(1) fresh have "\<forall>h c. map_of (os_chain_set ?st2) h = Some c \<longrightarrow> chain_ok g h c \<and>
      (h \<in> set (os_visited ?st2) \<or> get_vertex_input_edges g h = [])"
    unfolding chains_ok_def by (auto simp: add_vertex_to_chain_set_def add_tail_edge_def)
  moreover have "\<forall>h ts f. map_of (os_tail_edges_map ?st2) h = Some ts \<and> f \<in> set ts \<longrightarrow>
      je_target_vertex_id f \<in> set (os_visited ?st2) \<and>
      (\<exists>c. map_of (os_chain_set ?st2) h = Some c \<and> je_source_vertex_id f \<in> jv_vertex_id ` set c)"
  proof (intro allI impI)
    fix h' ts f assume "map_of (os_tail_edges_map ?st2) h' = Some ts \<and> f \<in> set ts"
    then have "map_of (os_tail_edges_map ?st1) h' = Some ts \<and> f \<in> set ts"
      by (simp add: add_vertex_to_chain_set_def)
    with tl obtain c' where "je_target_vertex_id f \<in> set (os_visited ?st1)"
      "map_of (os_chain_set ?st1) h' = Some c'" "je_source_vertex_id f \<in> jv_vertex_id ` set c'" by blast
    with fresh show "je_target_vertex_id f \<in> set (os_visited ?st2) \<and>
      (\<exists>c. map_of (os_chain_set ?st2) h' = Some c \<and> je_source_vertex_id f \<in> jv_vertex_id ` set c)"
      by (auto simp: add_vertex_to_chain_set_def add_tail_edge_def)
  qed
  moreover have "\<forall>h \<in> set (os_visited ?st2). map_of (os_chain_set ?st2) h \<noteq> None"
    using ok(1) unfolding chains_ok_def by (auto simp: add_vertex_to_chain_set_def add_tail_edge_def)
  moreover have "wf_dict (os_chain_set ?st2)" "wf_dict (os_tail_edges_map ?st2)"
    using ok(1) by (simp_all add: chains_ok_def add_vertex_to_chain_set_def add_tail_edge_def)
  ultimately show "chains_ok g ?st2" unfolding chains_ok_def by blast
qed

section \<open>The division succeeds\<close>

definition later :: "('o, 'k, 'v) job_graph \<Rightarrow> nat \<Rightarrow> nat" where
  "later g i = card {j \<in> vids g. i < j}"

lemma finite_vids [simp]: "finite (vids g)"
  by (simp add: vids_def)

lemma later_less: "i < j \<Longrightarrow> j \<in> vids g \<Longrightarrow> later g j < later g i"
  unfolding later_def by (rule psubset_card_mono) auto

text \<open>What one call of \<open>divide_vertices\<close>, or one edge of its loop, achieves.\<close>

definition divides_to ::
    "('o, 'k, 'v) job_graph \<Rightarrow> ('k, 'v) job_edge list \<Rightarrow> ('o, 'k, 'v) opt_state \<Rightarrow>
     ('o, 'k, 'v) opt_state result \<Rightarrow> bool" where
  "divides_to g F st r \<longleftrightarrow>
     (\<exists>st' N. r = Inr st' \<and> divided g F st st' N \<and> chains_ok g st' \<and> grows st st')"

lemma can_chain_chain_edge:
  assumes "graph_wf g" "src \<in> set (jg_job_vertices g)" "je_source_vertex_id e = jv_vertex_id src"
    and "vertex_map g (je_target_vertex_id e) = Some tgt"
  shows "can_chain g src tgt e \<longleftrightarrow> chain_edge g e"
proof -
  have "vertex_map g (je_source_vertex_id e) = Some src"
    using assms(1-3) by (simp add: vertex_map_Some)
  with assms(4) show ?thesis by (simp add: chain_edge_def)
qed

lemma divide_edge_step:
  assumes wf: "graph_wf g" and src: "src \<in> set (jg_job_vertices g)"
    and e: "e \<in> set (get_vertex_output_edges g (jv_vertex_id src))"
    and ok: "chains_ok g st" and c: "map_of (os_chain_set st) h = Some c" "src \<in> set c"
    and last: "chain_edge g e \<Longrightarrow> last c = src"
    and rec: "\<And>h' tgt st' c'. tgt \<in> set (jg_job_vertices g) \<Longrightarrow> jv_vertex_id src < jv_vertex_id tgt \<Longrightarrow>
      chains_ok g st' \<Longrightarrow> map_of (os_chain_set st') h' = Some c' \<Longrightarrow> last c' = tgt \<Longrightarrow> c' \<noteq> [] \<Longrightarrow>
      divides_to g (get_vertex_output_edges g (jv_vertex_id tgt)) st' (recurse h' tgt st')"
  shows "divides_to g [e] st (divide_edge recurse g h src e st)"
proof -
  let ?t = "je_target_vertex_id e"
  have eg: "e \<in> set (jg_job_edges g)" and es: "je_source_vertex_id e = jv_vertex_id src"
    using e by (auto simp: get_vertex_output_edges_def)
  from vertex_map_vids [OF wf graph_wf_edge(2) [OF wf eg]] obtain tgt
    where tgt: "vertex_map g ?t = Some tgt" "tgt \<in> set (jg_job_vertices g)" "jv_vertex_id tgt = ?t" .
  have less: "jv_vertex_id src < jv_vertex_id tgt"
    using graph_wf_edge(3) [OF wf eg] es tgt(3) by simp
  note cc = can_chain_chain_edge [OF wf src es tgt(1)]
  have srcc: "je_source_vertex_id e \<in> jv_vertex_id ` set c" using c(2) es by auto
  show ?thesis
  proof (cases "chain_edge g e")
    case True
    let ?st1 = "add_vertex_to_chain_set h tgt st"
    have "linked g (last c) tgt"
      using True last eg es tgt(3) by (auto simp: linked_def epair_def)
    then have ok1: "chains_ok g ?st1" by (rule chains_ok_extend [OF ok c(1) _ tgt(2)])
    have "map_of (os_chain_set ?st1) h = Some (c @ [tgt])"
      using c(1) by (simp add: add_vertex_to_chain_set_def)
    from rec [OF tgt(2) less ok1 this] obtain st' N where r: "recurse h tgt ?st1 = Inr st'"
      "divided g (get_vertex_output_edges g (jv_vertex_id tgt)) ?st1 st' N" "chains_ok g st'" "grows ?st1 st'"
      by (auto simp: divides_to_def)
    have "divide_edge recurse g h src e st = Inr st'"
      using True cc tgt(1) r(1) by (simp add: divide_edge_def)
    moreover have "divided g [e] st st' (add_mset (jv_vertex_id tgt) N)"
      using divided_chain [OF wf eg True tgt(3) r(2)] .
    moreover have "grows st st'" by (rule grows_trans [OF _ r(4)]) simp
    ultimately show ?thesis using r(3) by (auto simp: divides_to_def)
  next
    case False
    show ?thesis
    proof (cases "?t \<in> set (os_visited st)")
      case True
      let ?st1 = "add_tail_edge h e (jv_vertex_id src) (je_target_operator_id e) st"
      have "divide_edge recurse g h src e st = Inr ?st1"
        using True False cc tgt(1) by (simp add: divide_edge_def)
      moreover have "divided g [e] st ?st1 {#}"
        by (rule divided_visited [OF wf eg False True]) (simp add: es)
      moreover have "chains_ok g ?st1" by (rule chains_ok_visited [OF ok c(1) srcc True])
      ultimately show ?thesis by (auto simp: divides_to_def)
    next
      case new: False
      let ?st2 = "add_vertex_to_chain_set ?t tgt
        ((add_tail_edge h e (jv_vertex_id src) (je_target_operator_id e) st)
          \<lparr>os_visited := ?t # os_visited st\<rparr>)"
      note n = chains_ok_new [OF ok c(1) srcc eg new tgt(2,3), of "jv_vertex_id src" "je_target_operator_id e"]
      from rec [OF tgt(2) less n] obtain st' N where r: "recurse ?t tgt ?st2 = Inr st'"
        "divided g (get_vertex_output_edges g (jv_vertex_id tgt)) ?st2 st' N" "chains_ok g st'" "grows ?st2 st'"
        by (auto simp: divides_to_def)
      have "divide_edge recurse g h src e st = Inr st'"
        using False new cc tgt(1) r(1) by (simp add: divide_edge_def)
      moreover have "divided g [e] st st' (add_mset (jv_vertex_id tgt) N)"
        by (rule divided_new [OF wf eg False new _ tgt(3) r(2)]) (simp add: es)
      moreover have "grows st ?st2"
        by (rule grows_trans [OF grows_trans [OF grows_add(2) grows_add(3)] grows_add(1)])
      then have "grows st st'" by (rule grows_trans [OF _ r(4)])
      ultimately show ?thesis using r(3) by (auto simp: divides_to_def)
    qed
  qed
qed

lemma divide_edges_loop:
  assumes "\<And>e st c. e \<in> set F \<Longrightarrow> chains_ok g st \<Longrightarrow> map_of (os_chain_set st) h = Some c \<Longrightarrow> src \<in> set c \<Longrightarrow>
      divides_to g [e] st (f e st)"
    and "chains_ok g st" "map_of (os_chain_set st) h = Some c" "src \<in> set c"
  shows "divides_to g F st (rfold f F st)"
  using assms
proof (induction F arbitrary: st c)
  case Nil
  then show ?case using divided_Nil by (auto simp: divides_to_def)
next
  case (Cons e F)
  from Cons.prems(1) [OF _ Cons.prems(2,3,4), of e] obtain st1 N1
    where s1: "f e st = Inr st1" "divided g [e] st st1 N1" "chains_ok g st1" "grows st st1"
    by (auto simp: divides_to_def)
  from s1(4) Cons.prems(3,4) obtain c1 where c1: "map_of (os_chain_set st1) h = Some c1" "src \<in> set c1"
    unfolding grows_def by blast
  have "divides_to g F st1 (rfold f F st1)"
    by (rule Cons.IH [OF _ s1(3) c1]) (rule Cons.prems(1), simp_all)
  then obtain st2 N2
    where s2: "rfold f F st1 = Inr st2" "divided g F st1 st2 N2" "chains_ok g st2" "grows st1 st2"
    by (auto simp: divides_to_def)
  have "divided g (e # F) st st2 (N1 + N2)" using divided_append [OF s1(2) s2(2)] by simp
  with s1 s2 grows_trans [OF s1(4) s2(4)] show ?case by (auto simp: divides_to_def)
qed

lemma divide_vertices_spec:
  assumes wf: "graph_wf g"
  shows "src \<in> set (jg_job_vertices g) \<Longrightarrow> later g (jv_vertex_id src) < depth \<Longrightarrow> chains_ok g st \<Longrightarrow>
    map_of (os_chain_set st) h = Some c \<Longrightarrow> last c = src \<Longrightarrow> c \<noteq> [] \<Longrightarrow>
    divides_to g (get_vertex_output_edges g (jv_vertex_id src)) st (divide_vertices depth g h src st)"
proof (induction depth arbitrary: h src st c)
  case (Suc depth)
  let ?out = "get_vertex_output_edges g (jv_vertex_id src)"
  have rec: "divides_to g (get_vertex_output_edges g (jv_vertex_id tgt)) st' (divide_vertices depth g h' tgt st')"
    if "tgt \<in> set (jg_job_vertices g)" "jv_vertex_id src < jv_vertex_id tgt" "chains_ok g st'"
      "map_of (os_chain_set st') h' = Some c'" "last c' = tgt" "c' \<noteq> []" for h' tgt st' c'
  proof -
    have "later g (jv_vertex_id tgt) < later g (jv_vertex_id src)"
      using that(1,2) by (intro later_less) (auto simp: vids_def)
    with Suc.prems(2) that show ?thesis by (intro Suc.IH) auto
  qed
  have src_in: "src \<in> set c" using Suc.prems(5,6) by auto
  note step = divide_edge_step [OF wf Suc.prems(1), where recurse = "divide_vertices depth g"]
  show ?case
  proof (cases "\<exists>e \<in> set ?out. chain_edge g e")
    case True
    then obtain e where e: "e \<in> set ?out" "chain_edge g e" by blast
    then have "length ?out \<le> 1"
      using chain_edge_degrees(1) [OF wf e(2)] by (simp add: get_vertex_output_edges_def)
    with e(1) have out: "?out = [e]" by (cases ?out) auto
    have "divides_to g [e] st (divide_edge (divide_vertices depth g) g h src e st)"
      by (rule step [OF e(1) Suc.prems(3,4) src_in Suc.prems(5)]) (rule rec)
    then show ?thesis by (simp only: divide_vertices.simps out rfold_single)
  next
    case False
    have "divides_to g ?out st (rfold (divide_edge (divide_vertices depth g) g h src) ?out st)"
    proof (rule divide_edges_loop [OF _ Suc.prems(3,4) src_in])
      fix e st c assume "e \<in> set ?out" "chains_ok g st" "map_of (os_chain_set st) h = Some c" "src \<in> set c"
      with False show "divides_to g [e] st (divide_edge (divide_vertices depth g) g h src e st)"
        by (intro step rec) auto
    qed
    then show ?thesis by simp
  qed
qed simp

section \<open>All sources\<close>

lemma divided_shift:
  assumes "divided g F a b N" "added a' = added a + X" "added b' = added b + X"
    and "os_visited a' = os_visited a" "os_visited b' = os_visited b"
    and "tails a' = tails a" "tails b' = tails b"
  shows "divided g F a' b' N"
  using assms unfolding divided_def by (simp add: ac_simps)

definition start_source ::
    "nat \<Rightarrow> ('o, 'k, 'v) job_graph \<Rightarrow> 'o job_vertex \<Rightarrow> ('o, 'k, 'v) opt_state \<Rightarrow>
     ('o, 'k, 'v) opt_state result" where
  "start_source depth g v st =
     divide_vertices depth g (jv_vertex_id v) v (add_vertex_to_chain_set (jv_vertex_id v) v st)"

lemma chains_ok_source:
  assumes ok: "chains_ok g st" and v: "v \<in> set (jg_job_vertices g)"
    and inp: "get_vertex_input_edges g (jv_vertex_id v) = []"
    and fresh: "map_of (os_chain_set st) (jv_vertex_id v) = None"
  shows "chains_ok g (add_vertex_to_chain_set (jv_vertex_id v) v st)"
proof -
  have "chain_ok g (jv_vertex_id v) [v]" using v by (simp add: chain_ok_def)
  with ok inp fresh show ?thesis
    unfolding chains_ok_def add_vertex_to_chain_set_def by (auto split: if_splits) fastforce+
qed

text \<open>A vertex without inputs occurs only as the head of its own chain.\<close>

lemma source_only_head:
  assumes ok: "chains_ok g st" and inp: "get_vertex_input_edges g i = []"
  shows "i \<in># added st \<longleftrightarrow> map_of (os_chain_set st) i \<noteq> None"
proof
  have nt: "je_target_vertex_id e \<noteq> i" if "e \<in> set (jg_job_edges g)" for e
    using inp that by (auto simp: get_vertex_input_edges_def filter_empty_conv)
  assume "i \<in># added st"
  then obtain h c u where u: "(h, c) \<in> set (os_chain_set st)" "u \<in> set c" "jv_vertex_id u = i"
    by (auto simp: added_def dict_values_def)
  then have hc: "map_of (os_chain_set st) h = Some c"
    using ok by (auto simp: chains_ok_def wf_dict_def)
  then have ck: "chain_ok g h c" using ok by (simp add: chains_ok_def)
  show "map_of (os_chain_set st) i \<noteq> None"
  proof (cases "u = hd c")
    case True
    with ck hc u(3) show ?thesis by (auto simp: chain_ok_def)
  next
    case False
    with ck u(2) obtain j where "Suc j < length c" "c ! Suc j = u"
      by (metis chain_ok_def hd_conv_nth in_set_conv_nth Suc_lessD not0_implies_Suc)
    with ck have "linked g (c ! j) u"
      by (auto simp: chain_ok_def successively_conv_nth)
    with nt u(3) show ?thesis by (auto simp: linked_def epair_def)
  qed
next
  assume "map_of (os_chain_set st) i \<noteq> None"
  then obtain c where c: "map_of (os_chain_set st) i = Some c" by blast
  with ok have "hd c \<in> set c" "jv_vertex_id (hd c) = i" by (auto simp: chains_ok_def chain_ok_def)
  moreover have "c \<in> set (dict_values (os_chain_set st))"
    using map_of_SomeD [OF c] by (force simp: dict_values_def)
  ultimately show "i \<in># added st" unfolding added_def by force
qed

lemma divided_no_source:
  assumes "divided g F st st' N" "get_vertex_input_edges g i = []"
  shows "i \<notin># N"
proof -
  have nt: "je_target_vertex_id e \<noteq> i" if "e \<in> set (jg_job_edges g)" for e
    using assms(2) that by (auto simp: get_vertex_input_edges_def filter_empty_conv)
  then have "count N i = (if i \<in> set (os_visited st') - set (os_visited st) then 1 else 0)"
    and "i \<notin> set (os_visited st') - set (os_visited st)"
    using assms(1) unfolding divided_def by blast+
  then show ?thesis by (simp add: count_eq_zero_iff [symmetric])
qed

lemma sources_loop:
  assumes wf: "graph_wf g"
  shows "set vs \<subseteq> set (jg_job_vertices g) \<Longrightarrow> distinct (map jv_vertex_id vs) \<Longrightarrow>
    (\<And>v. v \<in> set vs \<Longrightarrow> get_vertex_input_edges g (jv_vertex_id v) = []) \<Longrightarrow>
    (\<And>v. v \<in> set vs \<Longrightarrow> map_of (os_chain_set st) (jv_vertex_id v) = None) \<Longrightarrow>
    card (vids g) \<le> depth \<Longrightarrow> chains_ok g st \<Longrightarrow>
    \<exists>st' a N. rfold (start_source depth g) vs st = Inr st' \<and> chains_ok g st' \<and>
      divided g (concat (map (\<lambda>v. get_vertex_output_edges g (jv_vertex_id v)) vs)) a st' N \<and>
      added a = added st + mset (map jv_vertex_id vs) \<and> os_visited a = os_visited st \<and> tails a = tails st"
proof (induction vs arbitrary: st)
  case Nil
  then show ?case using divided_Nil by (intro exI [of _ st]) auto
next
  case (Cons v vs)
  let ?st0 = "add_vertex_to_chain_set (jv_vertex_id v) v st"
  have v: "v \<in> set (jg_job_vertices g)" "get_vertex_input_edges g (jv_vertex_id v) = []"
    "map_of (os_chain_set st) (jv_vertex_id v) = None"
    using Cons.prems(1) Cons.prems(3,4) [of v] by auto
  have ok0: "chains_ok g ?st0" by (rule chains_ok_source [OF Cons.prems(6) v])
  have c0: "map_of (os_chain_set ?st0) (jv_vertex_id v) = Some [v]"
    using v(3) by (simp add: add_vertex_to_chain_set_def)
  have "later g (jv_vertex_id v) < card (vids g)"
    unfolding later_def using v(1) by (intro psubset_card_mono) (auto simp: vids_def)
  with divide_vertices_spec [OF wf v(1) _ ok0 c0, of depth] Cons.prems(5) obtain st1 N1
    where s1: "start_source depth g v st = Inr st1" "chains_ok g st1"
      "divided g (get_vertex_output_edges g (jv_vertex_id v)) ?st0 st1 N1"
    by (auto simp: divides_to_def start_source_def)
  have "map_of (os_chain_set st1) (jv_vertex_id w) = None" if w: "w \<in> set vs" for w
  proof -
    have inp: "get_vertex_input_edges g (jv_vertex_id w) = []"
      and old: "map_of (os_chain_set st) (jv_vertex_id w) = None"
      using w Cons.prems(3,4) [of w] by auto
    have ne: "jv_vertex_id w \<noteq> jv_vertex_id v" using w Cons.prems(2) by (auto simp: image_iff)
    have "jv_vertex_id w \<notin># N1" by (rule divided_no_source [OF s1(3) inp])
    moreover have "jv_vertex_id w \<notin># added st" using source_only_head [OF Cons.prems(6) inp] old by simp
    ultimately have "jv_vertex_id w \<notin># added st1" using s1(3) ne by (simp add: divided_def)
    with source_only_head [OF s1(2) inp] show ?thesis by simp
  qed
  with Cons.IH [of st1] Cons.prems(1-3,5) s1(2) obtain st2 a2 N2
    where s2: "rfold (start_source depth g) vs st1 = Inr st2" "chains_ok g st2"
      "divided g (concat (map (\<lambda>v. get_vertex_output_edges g (jv_vertex_id v)) vs)) a2 st2 N2"
      "added a2 = added st1 + mset (map jv_vertex_id vs)" "os_visited a2 = os_visited st1" "tails a2 = tails st1"
    by auto
  let ?a = "fold (\<lambda>v. add_vertex_to_chain_set (jv_vertex_id v) v) vs ?st0"
  have a: "added (fold (\<lambda>v. add_vertex_to_chain_set (jv_vertex_id v) v) ws s) = added s + mset (map jv_vertex_id ws)"
    "os_visited (fold (\<lambda>v. add_vertex_to_chain_set (jv_vertex_id v) v) ws s) = os_visited s"
    "tails (fold (\<lambda>v. add_vertex_to_chain_set (jv_vertex_id v) v) ws s) = tails s" for ws and s :: "('a, 'b, 'c) opt_state"
    by (induction ws arbitrary: s) simp_all
  have "divided g (get_vertex_output_edges g (jv_vertex_id v)) ?a a2 N1"
    by (rule divided_shift [OF s1(3), where X = "mset (map jv_vertex_id vs)"]) (simp_all add: a s2)
  from divided_append [OF this s2(3)] s1(1) s2(1,2) show ?case
    by (intro exI [of _ st2] exI [of _ ?a] exI [of _ "N1 + N2"]) (simp add: a)
qed

section \<open>Every vertex is added once\<close>

lemma division_counts:
  assumes wf: "graph_wf g"
    and d: "divided g (concat (map (\<lambda>v. get_vertex_output_edges g (jv_vertex_id v)) (get_source_vertices g))) a st' N"
    and a: "os_visited a = []"
  shows "mset (map jv_vertex_id (get_source_vertices g)) + N = mset (map jv_vertex_id (jg_job_vertices g))"
    (is "?S + N = _")
proof (rule multiset_eqI)
  fix i
  let ?F = "concat (map (\<lambda>v. get_vertex_output_edges g (jv_vertex_id v)) (get_source_vertices g))"
  note d' = d [unfolded divided_def a]
  have dist: "distinct (map jv_vertex_id (jg_job_vertices g))" using wf by (simp add: graph_wf_def)
  have src: "i \<in># ?S \<longleftrightarrow> i \<in> vids g \<and> get_vertex_input_edges g i = []" for i
    using wf by (auto simp: graph_wf_def vids_def get_source_vertices_def)
  have srcc: "count ?S i = (if i \<in> vids g \<and> get_vertex_input_edges g i = [] then 1 else 0)" for i
  proof -
    have "distinct (map jv_vertex_id (get_source_vertices g))"
      using dist by (simp add: get_source_vertices_def distinct_map inj_on_def)
    then show ?thesis using src [of i] by (simp add: distinct_count_atmost_1)
  qed
  have F: "count (mset (concat (map (\<lambda>v. get_vertex_output_edges g (jv_vertex_id v)) vs))) e =
      count (mset (map jv_vertex_id vs)) (je_source_vertex_id e)" if "e \<in> set (jg_job_edges g)" for vs e
    by (induction vs) (simp_all add: count_output_edges [OF wf that])
  have "count (?S + N) i = 1" if "i \<in> vids g" for i
    using that
  proof (induction i rule: less_induct)
    case (less i)
    show ?case
    proof (cases "get_vertex_input_edges g i = []")
      case True
      with divided_no_source [OF d] have "count N i = 0" by (simp add: count_eq_zero_iff)
      with True less.prems srcc [of i] show ?thesis by simp
    next
      case False
      then have S0: "count ?S i = 0" using srcc [of i] by simp
      from False obtain e where e: "e \<in> set (jg_job_edges g)" "je_target_vertex_id e = i"
        by (auto simp: get_vertex_input_edges_def filter_empty_conv)
      let ?u = "je_source_vertex_id e"
      have IH: "count (?S + N) ?u = 1" using less.IH [of ?u] graph_wf_edge [OF wf e(1)] e(2) by simp
      show ?thesis
      proof (cases "chain_edge g e")
        case True
        then have "count N i = count N ?u + count (mset ?F) e" using d' e by blast
        with S0 IH F [OF e(1), of "get_source_vertices g"] show ?thesis by simp
      next
        case False
        have "\<forall>f \<in> set (jg_job_edges g). chain_edge g f \<longrightarrow> je_target_vertex_id f \<noteq> i"
          using chain_edge_unique(2) [OF wf _ _ e(1)] e(2) False by metis
        then have c: "count N i = (if i \<in> set (os_visited st') then 1 else 0)" using d' by auto
        have "e \<in># mset ?F \<or> ?u \<in># N"
          using IH F [OF e(1), of "get_source_vertices g"] by (metis count_eq_zero_iff count_union add_is_0 one_neq_zero)
        with d' False e have "i \<in> set (os_visited st')" by (metis set_mset_mset)
        with S0 c show ?thesis by simp
      qed
    qed
  qed
  moreover have "count (?S + N) i = 0" if "i \<notin> vids g"
  proof -
    have "i \<notin># N" using d' that by blast
    with that src [of i] show ?thesis by (simp add: count_eq_zero_iff)
  qed
  moreover have "count (mset (map jv_vertex_id (jg_job_vertices g))) i = (if i \<in> vids g then 1 else 0)"
    using dist by (simp add: distinct_count_atmost_1 vids_def)
  ultimately show "count (?S + N) i = count (mset (map jv_vertex_id (jg_job_vertices g))) i"
    by simp
qed

text \<open>The kept edges over all vertices are those of the whole graph.\<close>

lemma mset_by_source:
  "distinct is \<Longrightarrow> \<forall>e \<in> set es. f e \<in> set is \<Longrightarrow>
   (\<Sum>i \<in># mset is. mset (filter (\<lambda>e. f e = i) es)) = mset es"
proof (induction es)
  case (Cons e es)
  have "(\<Sum>i \<in># mset js. mset (filter (\<lambda>x. f x = i) (e # es))) =
      (\<Sum>i \<in># mset js. mset (filter (\<lambda>x. f x = i) es)) + replicate_mset (count (mset js) (f e)) e" for js
    by (induction js) simp_all
  moreover have "count (mset is) (f e) = 1"
    using Cons.prems by (simp add: distinct_count_atmost_1)
  ultimately show ?case using Cons by simp
qed simp

lemma kept_sum:
  "(\<Sum>i \<in># M. kept g (F i)) =
   image_mset (\<lambda>e. tail_edge e (je_source_vertex_id e) (je_target_operator_id e))
     (filter_mset (\<lambda>e. \<not> chain_edge g e) (\<Sum>i \<in># M. mset (F i)))"
  by (induction M) (simp_all add: kept_def)

lemma kept_all:
  assumes "graph_wf g"
  shows "(\<Sum>i \<in># mset (map jv_vertex_id (jg_job_vertices g)). kept g (get_vertex_output_edges g i)) =
    kept g (jg_job_edges g)"
proof -
  have "(\<Sum>i \<in># mset (map jv_vertex_id (jg_job_vertices g)). mset (get_vertex_output_edges g i)) =
      mset (jg_job_edges g)"
    unfolding get_vertex_output_edges_def
    using assms by (intro mset_by_source) (auto simp: graph_wf_def vids_def)
  then show ?thesis by (simp only: kept_sum) (simp add: kept_def)
qed

lemma kept_concat: "kept g (concat (map F vs)) = (\<Sum>v \<in># mset vs. kept g (F v))"
  by (induction vs) (simp_all add: kept_def)

text \<open>The state the division ends in.\<close>

lemma division_result:
  assumes wf: "graph_wf g" and depth: "card (vids g) \<le> depth"
  shows "\<exists>st. rfold (start_source depth g) (get_source_vertices g) opt_init = Inr st \<and>
    chains_ok g st \<and> added st = mset (map jv_vertex_id (jg_job_vertices g)) \<and>
    tails st = kept g (jg_job_edges g)"
proof -
  let ?vs = "get_source_vertices g"
  have "chains_ok g opt_init" by (simp add: chains_ok_def opt_init_def)
  moreover have "distinct (map jv_vertex_id ?vs)"
    using wf by (simp add: graph_wf_def get_source_vertices_def distinct_map inj_on_def)
  moreover have "get_vertex_input_edges g (jv_vertex_id v) = []" if "v \<in> set ?vs" for v
    using wf that by (auto simp: graph_wf_def get_source_vertices_def)
  ultimately obtain st a N where r: "rfold (start_source depth g) ?vs opt_init = Inr st" "chains_ok g st"
    "divided g (concat (map (\<lambda>v. get_vertex_output_edges g (jv_vertex_id v)) ?vs)) a st N"
    "added a = mset (map jv_vertex_id ?vs)" "os_visited a = []" "tails a = {#}"
    using sources_loop [OF wf, of ?vs opt_init depth] depth
    by (auto simp: get_source_vertices_def opt_init_def added_def tails_def dict_values_def)
  note all = division_counts [OF wf r(3,5)]
  have "added st = mset (map jv_vertex_id (jg_job_vertices g))"
    using r(3,4) all by (simp add: divided_def)
  moreover have "tails st = kept g (jg_job_edges g)"
  proof -
    have "tails st = (\<Sum>i \<in># mset (map jv_vertex_id ?vs) + N. kept g (get_vertex_output_edges g i))"
      using r(3,6) by (simp add: divided_def kept_concat image_mset.compositionality o_def)
    then show ?thesis by (simp only: all kept_all [OF wf])
  qed
  ultimately show ?thesis using r(1,2) by blast
qed

section \<open>The optimised graph\<close>

lemma merge_chain_ok:
  "c \<noteq> [] \<Longrightarrow> \<exists>v. merge_chain c = Inr v \<and> jv_vertex_id v = jv_vertex_id (hd c) \<and>
     jv_parallelism v = jv_parallelism (hd c) \<and> jv_vertex_type v = jv_vertex_type (hd c) \<and>
     jv_stream_operator v = (if length c = 1 then jv_stream_operator (hd c)
                             else ChainedOp (map jv_stream_operator c))"
  by (cases c rule: remdups_adj.cases) (auto simp: merge_chain_def new_chained_operator_def)

lemma chains_ok_value:
  assumes "chains_ok g st" "c \<in> set (dict_values (os_chain_set st))"
  shows "\<exists>h. map_of (os_chain_set st) h = Some c \<and> chain_ok g h c"
proof -
  from assms(2) obtain h where "(h, c) \<in> set (os_chain_set st)" by (auto simp: dict_values_def)
  moreover have "distinct (map fst (os_chain_set st))" using assms(1) by (simp add: chains_ok_def wf_dict_def)
  ultimately have "map_of (os_chain_set st) h = Some c" by simp
  with assms(1) show ?thesis by (auto simp: chains_ok_def)
qed

lemma chains_ok_lookup:
  assumes "chains_ok g st" "map_of (os_chain_set st) h = Some c"
  shows "c \<in> set (dict_values (os_chain_set st)) \<and> jv_vertex_id (hd c) = h"
proof -
  have "chain_ok g h c" using assms by (simp add: chains_ok_def)
  moreover have "c \<in> set (dict_values (os_chain_set st))"
    using map_of_SomeD [OF assms(2)] unfolding dict_values_def by (metis image_eqI list.set_map snd_conv)
  ultimately show ?thesis by (simp add: chain_ok_def)
qed

lemma optimize_of_division:
  assumes "rfold (start_source depth g) (get_source_vertices g) opt_init = Inr st" "chains_ok g st"
  shows "\<exists>vs. rmap merge_chain (dict_values (os_chain_set st)) = Inr vs \<and>
    optimize depth g = Inr \<lparr>jg_job_vertices = vs, jg_job_edges = reset_edges (os_tail_edges_map st)\<rparr>"
proof -
  have "c \<noteq> []" if "c \<in> set (dict_values (os_chain_set st))" for c
    using chains_ok_value [OF assms(2) that] by (auto simp: chain_ok_def)
  then have "is_ok (rmap merge_chain (dict_values (os_chain_set st)))"
    using merge_chain_ok by (intro rmap_ok) (fastforce simp: is_ok_iff)
  with assms(1) show ?thesis by (auto simp: is_ok_iff optimize_def start_source_def [abs_def])
qed

lemma linked_one_input:
  assumes "graph_wf g" "linked g u v" "v \<in> set (jg_job_vertices g)"
  shows "op_type (jv_stream_operator v) = ONE_INPUT_OP"
proof -
  from assms(2) obtain e where e: "e \<in> set (jg_job_edges g)" "je_target_vertex_id e = jv_vertex_id v" "chain_edge g e"
    by (auto simp: linked_def epair_def)
  then have "e \<in> set (get_vertex_input_edges g (jv_vertex_id v))" by (simp add: get_vertex_input_edges_def)
  with chain_edge_degrees(2) [OF assms(1) e(3)] e(2) have "get_vertex_input_edges g (jv_vertex_id v) = [e]"
    by (cases "get_vertex_input_edges g (jv_vertex_id v)") auto
  with chain_edge_degrees(3) [OF assms(1) e(3)] assms(1,3) show ?thesis
    unfolding graph_wf_def by blast
qed

lemma chain_tail_one_input:
  assumes "graph_wf g" "chain_ok g h c" "v \<in> set (tl c)"
  shows "op_type (jv_stream_operator v) = ONE_INPUT_OP"
proof -
  from assms(3) obtain i where "Suc i < length c" "c ! Suc i = v"
    by (metis in_set_conv_nth length_tl nth_tl less_diff_conv Suc_eq_plus1)
  with assms(2) have "linked g (c ! i) v" "v \<in> set (jg_job_vertices g)"
    by (auto simp: chain_ok_def successively_conv_nth)
  with linked_one_input [OF assms(1)] show ?thesis by blast
qed

text \<open>
  C7. Operator chaining partitions the job graph: for every well-formed graph the optimizer
  succeeds, each vertex of the graph is in exactly one chain, consecutive operators of a chain
  were connected by a forward edge between vertices of equal parallelism with no other
  connection there, every operator after the first takes one input (so opening the chain
  passes its assertion), and each chain becomes one vertex with the head's id, type and
  parallelism.
\<close>

theorem optimize_partitions_vertices:
  assumes "graph_wf g" and "card (vids g) \<le> depth"
  shows "\<exists>g' chains. optimize depth g = Inr g' \<and> rmap merge_chain chains = Inr (jg_job_vertices g') \<and>
    mset (concat chains) = mset (jg_job_vertices g) \<and>
    (\<forall>c \<in> set chains. c \<noteq> [] \<and> successively (linked g) c \<and>
       list_all (\<lambda>v. op_type (jv_stream_operator v) = ONE_INPUT_OP) (tl c))"
proof -
  from division_result [OF assms] obtain st where
    st: "rfold (start_source depth g) (get_source_vertices g) opt_init = Inr st" "chains_ok g st"
      "added st = mset (map jv_vertex_id (jg_job_vertices g))" by blast
  let ?chains = "dict_values (os_chain_set st)"
  have ck: "\<exists>h. chain_ok g h c" if "c \<in> set ?chains" for c
    using chains_ok_value [OF st(2) that] by blast
  from optimize_of_division [OF st(1,2)] obtain vs where vs: "rmap merge_chain ?chains = Inr vs"
    and opt: "optimize depth g = Inr \<lparr>jg_job_vertices = vs, jg_job_edges = reset_edges (os_tail_edges_map st)\<rparr>"
    by blast
  have ids: "mset (map jv_vertex_id (concat ?chains)) = mset (map jv_vertex_id (jg_job_vertices g))"
    using st(3) by (simp add: added_def map_concat)
  have sub: "set (concat ?chains) \<subseteq> set (jg_job_vertices g)" using ck by (fastforce simp: chain_ok_def)
  have dist: "distinct (map jv_vertex_id (jg_job_vertices g))" using assms(1) by (simp add: graph_wf_def)
  then have "distinct (map jv_vertex_id (concat ?chains))"
    using mset_eq_imp_distinct_iff [OF ids] by simp
  moreover have "set (concat ?chains) = set (jg_job_vertices g)"
  proof -
    have img: "jv_vertex_id ` set (concat ?chains) = jv_vertex_id ` set (jg_job_vertices g)"
      using mset_eq_setD [OF ids] by simp
    have "inj_on jv_vertex_id (set (jg_job_vertices g))" using dist by (simp add: distinct_map)
    from inj_on_image_eq_iff [OF this sub subset_refl] img show ?thesis by simp
  qed
  ultimately have "mset (concat ?chains) = mset (jg_job_vertices g)"
    using dist by (simp add: set_eq_iff_mset_eq_distinct [symmetric] distinct_map)
  moreover have "c \<noteq> [] \<and> successively (linked g) c \<and>
      list_all (\<lambda>v. op_type (jv_stream_operator v) = ONE_INPUT_OP) (tl c)" if "c \<in> set ?chains" for c
    using ck [OF that] chain_tail_one_input [OF assms(1)] by (auto simp: chain_ok_def list_all_iff)
  ultimately show ?thesis using opt vs by (intro exI conjI ballI) auto
qed

lemma sorted_false_then_true:
  "sorted (map f (filter (\<lambda>e. \<not> f e) es) @ map f (filter f es))"
proof -
  have "map f (filter (\<lambda>e. \<not> f e) es) = replicate (length (filter (\<lambda>e. \<not> f e) es)) False"
    by (induction es) auto
  moreover have "map f (filter f es) = replicate (length (filter f es)) True"
    by (induction es) auto
  ultimately show ?thesis by (simp add: sorted_append)
qed

text \<open>What an edge says about the data that flows over it.\<close>

definition edge_flow :: "('k, 'v) job_edge \<Rightarrow> nat \<times> nat \<times> ('k, 'v) partition \<times> bool" where
  "edge_flow e = (je_source_operator_id e, je_target_operator_id e, je_partition e, je_is_join_right_edge e)"

lemma reset_edge_fields [simp]:
  "je_source_vertex_id (reset_edge h e) = h"
  "je_target_vertex_id (reset_edge h e) = je_target_vertex_id e"
  "je_source_operator_id (reset_edge h e) = je_source_operator_id e"
  "je_target_operator_id (reset_edge h e) = je_target_operator_id e"
  "je_partition (reset_edge h e) = change_partition (je_partition e)"
  "je_is_join_right_edge (reset_edge h e) = je_is_join_right_edge e"
  by (simp_all add: reset_edge_def JobEdge_def)

lemma mset_reset_edges:
  "image_mset edge_flow (mset (reset_edges d)) =
   image_mset (\<lambda>e. (je_source_operator_id e, je_target_operator_id e,
                    change_partition (je_partition e), je_is_join_right_edge e))
     (mset (concat (dict_values d)))"
proof -
  have "mset (filter (\<lambda>e. \<not> je_is_join_right_edge e) es) + mset (filter je_is_join_right_edge es) = mset es"
    for es :: "('a, 'b) job_edge list"
    by (induction es) auto
  then have "image_mset edge_flow (mset (reset_edges d)) =
      image_mset edge_flow (mset (concat (map (\<lambda>(h, ts). map (reset_edge h) ts) d)))"
    by (simp add: reset_edges_def Let_def)
  also have "\<dots> = image_mset (\<lambda>e. (je_source_operator_id e, je_target_operator_id e,
      change_partition (je_partition e), je_is_join_right_edge e)) (mset (concat (dict_values d)))"
    by (induction d) (auto simp: dict_values_def edge_flow_def multiset.map_comp o_def)
  finally show ?thesis .
qed

lemma reset_edges_elem:
  "e \<in> set (reset_edges d) \<Longrightarrow> \<exists>h ts t. (h, ts) \<in> set d \<and> t \<in> set ts \<and> e = reset_edge h t"
  by (auto simp: reset_edges_def Let_def)

text \<open>
  C8. The optimizer keeps the data flow: the edges of the optimised graph are exactly the
  edges of the job graph that are not inside a chain, with the same operators on both ends,
  the same side of a join and the same partitioning (forwarding, which needs a chain, becomes
  round robin); each leaves the chain that holds its source operator and enters a chain at
  its head; and left edges come before right edges.
\<close>

theorem optimize_keeps_edges:
  assumes "graph_wf g" and "card (vids g) \<le> depth"
  shows "\<exists>g' chains. optimize depth g = Inr g' \<and> rmap merge_chain chains = Inr (jg_job_vertices g') \<and>
    image_mset edge_flow (mset (jg_job_edges g')) =
      image_mset (\<lambda>e. (je_source_vertex_id e, je_target_vertex_id e,
                       change_partition (je_partition e), je_is_join_right_edge e))
        (filter_mset (\<lambda>e. \<not> chain_edge g e) (mset (jg_job_edges g))) \<and>
    (\<forall>e \<in> set (jg_job_edges g').
       (\<exists>c \<in> set chains. jv_vertex_id (hd c) = je_source_vertex_id e \<and>
          je_source_operator_id e \<in> jv_vertex_id ` set c) \<and>
       (\<exists>c \<in> set chains. jv_vertex_id (hd c) = je_target_vertex_id e) \<and>
       \<not> is_forward (je_partition e)) \<and>
    sorted (map je_is_join_right_edge (jg_job_edges g'))"
proof -
  from division_result [OF assms] obtain st where
    st: "rfold (start_source depth g) (get_source_vertices g) opt_init = Inr st" "chains_ok g st"
      "tails st = kept g (jg_job_edges g)" by blast
  let ?chains = "dict_values (os_chain_set st)" and ?d = "os_tail_edges_map st"
  note lookup = chains_ok_lookup [OF st(2)]
  from optimize_of_division [OF st(1,2)] obtain vs where vs: "rmap merge_chain ?chains = Inr vs"
    and opt: "optimize depth g = Inr \<lparr>jg_job_vertices = vs, jg_job_edges = reset_edges ?d\<rparr>" by blast
  have "image_mset edge_flow (mset (reset_edges ?d)) =
      image_mset (\<lambda>e. (je_source_vertex_id e, je_target_vertex_id e,
                       change_partition (je_partition e), je_is_join_right_edge e))
        (filter_mset (\<lambda>e. \<not> chain_edge g e) (mset (jg_job_edges g)))"
    unfolding mset_reset_edges tails_def [symmetric] st(3) kept_def
    using assms(1) by (auto simp: multiset.map_comp o_def graph_wf_def intro!: image_mset_cong)
  moreover have "(\<exists>c \<in> set ?chains. jv_vertex_id (hd c) = je_source_vertex_id e \<and>
        je_source_operator_id e \<in> jv_vertex_id ` set c) \<and>
      (\<exists>c \<in> set ?chains. jv_vertex_id (hd c) = je_target_vertex_id e) \<and>
      \<not> is_forward (je_partition e)" if "e \<in> set (reset_edges ?d)" for e
  proof -
    from reset_edges_elem [OF that] obtain h ts t
      where t: "(h, ts) \<in> set ?d" "t \<in> set ts" "e = reset_edge h t" by blast
    then have "map_of ?d h = Some ts" using st(2) by (simp add: chains_ok_def wf_dict_def)
    with st(2) t(2) obtain c where c: "je_target_vertex_id t \<in> set (os_visited st)"
      "map_of (os_chain_set st) h = Some c" "je_source_vertex_id t \<in> jv_vertex_id ` set c"
      unfolding chains_ok_def by blast
    from c(1) st(2) obtain c' where c': "map_of (os_chain_set st) (je_target_vertex_id t) = Some c'"
      unfolding chains_ok_def by blast
    have "t \<in># tails st" using t by (force simp: tails_def dict_values_def)
    then have "je_source_operator_id t = je_source_vertex_id t" by (auto simp: st(3) kept_def)
    with c lookup [OF c(2)] lookup [OF c'] t(3) show ?thesis
      by (auto simp: change_partition_def is_forward_def init_round_robin_def)
  qed
  moreover have "sorted (map je_is_join_right_edge (reset_edges ?d))"
    by (simp add: reset_edges_def Let_def sorted_false_then_true)
  ultimately show ?thesis
    using opt vs
    by (intro exI [of _ "\<lparr>jg_job_vertices = vs, jg_job_edges = reset_edges ?d\<rparr>"] exI [of _ ?chains]) simp
qed

section \<open>A sample graph\<close>

definition sample_graph :: "(nat, nat, nat) job_graph" where
  "sample_graph =
     \<lparr>jg_job_vertices =
        [\<lparr>jv_vertex_id = 1, jv_parallelism = 2, jv_vertex_type = SOURCE_V,
          jv_stream_operator = Op ''SourceOperator'' SOURCE_OP 0\<rparr>,
         \<lparr>jv_vertex_id = 2, jv_parallelism = 2, jv_vertex_type = PROCESS_V,
          jv_stream_operator = Op ''MapOperator'' ONE_INPUT_OP 0\<rparr>,
         \<lparr>jv_vertex_id = 3, jv_parallelism = 1, jv_vertex_type = SINK_V,
          jv_stream_operator = Op ''SinkOperator'' ONE_INPUT_OP 0\<rparr>],
      jg_job_edges = [JobEdge 1 2 ForwardPartition None None, JobEdge 2 3 ForwardPartition None None]\<rparr>"

lemma sample_graph_wf: "graph_wf sample_graph"
  by (auto simp: graph_wf_def sample_graph_def vids_def epair_def JobEdge_def get_vertex_input_edges_def
      is_forward_def)

lemma sample_graph_vids: "card (vids sample_graph) \<le> 10"
  by (simp add: vids_def sample_graph_def)

theorem optimize_partitions_vertices_witness:
  "\<exists>g' chains. optimize 10 sample_graph = Inr g' \<and> rmap merge_chain chains = Inr (jg_job_vertices g') \<and>
    mset (concat chains) = mset (jg_job_vertices sample_graph) \<and>
    (\<forall>c \<in> set chains. c \<noteq> [] \<and> successively (linked sample_graph) c \<and>
       list_all (\<lambda>v. op_type (jv_stream_operator v) = ONE_INPUT_OP) (tl c))"
  by (rule optimize_partitions_vertices [OF sample_graph_wf sample_graph_vids])

theorem optimize_keeps_edges_witness:
  "\<exists>g' chains. optimize 10 sample_graph = Inr g' \<and> rmap merge_chain chains = Inr (jg_job_vertices g') \<and>
    image_mset edge_flow (mset (jg_job_edges g')) =
      image_mset (\<lambda>e. (je_source_vertex_id e, je_target_vertex_id e,
                       change_partition (je_partition e), je_is_join_right_edge e))
        (filter_mset (\<lambda>e. \<not> chain_edge sample_graph e) (mset (jg_job_edges sample_graph))) \<and>
    sorted (map je_is_join_right_edge (jg_job_edges g'))"
  using optimize_keeps_edges [OF sample_graph_wf sample_graph_vids] by blast

end
