(* ===== verification/Resources.thy ===== *)
theory Resources
  imports Volga_Prelude
begin

text \<open>
  Resource amounts and nodes (\<open>runtime/master/resource_manager/resource_manager.py\<close>). Floats
  are rationals. A configured amount is a text in the job configuration; \<open>float\<close> of it is
  a parameter of the operations that parse it.
\<close>

datatype py_num = PFloat rat | PStr string

text \<open>Comparing and subtracting: a text and a number do not mix.\<close>

fun num_le :: "py_num \<Rightarrow> py_num \<Rightarrow> bool result" where
  "num_le (PFloat a) (PFloat b) = Inr (a \<le> b)"
| "num_le _ _ = Inl TypeError"

fun num_sub :: "py_num \<Rightarrow> py_num \<Rightarrow> py_num result" where
  "num_sub (PFloat a) (PFloat b) = Inr (PFloat (a - b))"
| "num_sub _ _ = Inl TypeError"

fun num_add :: "py_num \<Rightarrow> py_num \<Rightarrow> py_num result" where
  "num_add (PFloat a) (PFloat b) = Inr (PFloat (a + b))"
| "num_add (PStr a) (PStr b) = Inr (PStr (a @ b))"
| "num_add _ _ = Inl TypeError"

record resources =
  num_cpus :: "py_num option"
  num_gpus :: "py_num option"
  memory :: "py_num option"

definition RESOURCE_KEY_CPU :: string where "RESOURCE_KEY_CPU = ''CPU''"
definition RESOURCE_KEY_MEM :: string where "RESOURCE_KEY_MEM = ''MEM''"
definition RESOURCE_KEY_GPU :: string where "RESOURCE_KEY_GPU = ''GPU''"

definition parse_entry ::
    "(string \<Rightarrow> rat result) \<Rightarrow> string \<Rightarrow> (string, string) dict \<Rightarrow> py_num option result" where
  "parse_entry to_float k d =
     (case map_of d k of
        None \<Rightarrow> Inr None
      | Some s \<Rightarrow> rbind (to_float s) (\<lambda>x. Inr (Some (PFloat x))))"

definition resources_from_dict ::
    "(string \<Rightarrow> rat result) \<Rightarrow> (string, string) dict \<Rightarrow> resources result" where
  "resources_from_dict to_float d =
     rbind (parse_entry to_float RESOURCE_KEY_CPU d) (\<lambda>cpu.
     rbind (parse_entry to_float RESOURCE_KEY_GPU d) (\<lambda>gpu.
     rbind (parse_entry to_float RESOURCE_KEY_MEM d) (\<lambda>mem.
       Inr \<lparr>num_cpus = cpu, num_gpus = gpu, memory = mem\<rparr>)))"

text \<open>One dimension of \<open>acquire_resources\<close> and of \<open>release_resources\<close>.\<close>

definition acquire_dim :: "py_num option \<Rightarrow> py_num option \<Rightarrow> py_num option result" where
  "acquire_dim own allocated =
     (case allocated of
        None \<Rightarrow> Inr own
      | Some a \<Rightarrow> (case own of
                     None \<Rightarrow> Inl AssertionError
                   | Some x \<Rightarrow> rbind (num_sub x a) (\<lambda>y. Inr (Some y))))"

definition release_dim :: "py_num option \<Rightarrow> py_num option \<Rightarrow> py_num option result" where
  "release_dim own released =
     (case released of
        None \<Rightarrow> Inr own
      | Some a \<Rightarrow> (case own of
                     None \<Rightarrow> Inr (Some a)
                   | Some x \<Rightarrow> rbind (num_add x a) (\<lambda>y. Inr (Some y))))"

definition acquire_resources :: "resources \<Rightarrow> resources \<Rightarrow> resources result" where
  "acquire_resources allocated r =
     rbind (acquire_dim (num_cpus r) (num_cpus allocated)) (\<lambda>cpu.
     rbind (acquire_dim (memory r) (memory allocated)) (\<lambda>mem.
     rbind (acquire_dim (num_gpus r) (num_gpus allocated)) (\<lambda>gpu.
       Inr \<lparr>num_cpus = cpu, num_gpus = gpu, memory = mem\<rparr>)))"

definition release_resources :: "resources \<Rightarrow> resources \<Rightarrow> resources result" where
  "release_resources released r =
     rbind (release_dim (num_cpus r) (num_cpus released)) (\<lambda>cpu.
     rbind (release_dim (memory r) (memory released)) (\<lambda>mem.
     rbind (release_dim (num_gpus r) (num_gpus released)) (\<lambda>gpu.
       Inr \<lparr>num_cpus = cpu, num_gpus = gpu, memory = mem\<rparr>)))"

definition combine_resources :: "resources list \<Rightarrow> resources result" where
  "combine_resources rs =
     rfold release_resources rs \<lparr>num_cpus = None, num_gpus = None, memory = None\<rparr>"

record node =
  node_id :: string
  node_name :: string
  node_address :: string
  node_is_head :: bool
  node_resources :: resources

definition allocate_execution_vertex :: "resources option \<Rightarrow> node \<Rightarrow> node result" where
  "allocate_execution_vertex vertex_resources n =
     (case vertex_resources of
        None \<Rightarrow> Inl RuntimeError
      | Some r \<Rightarrow> rbind (acquire_resources r (node_resources n)) (\<lambda>left.
          Inr (n\<lparr>node_resources := left\<rparr>)))"

text \<open>\<open>ResourceManager._fetch_nodes\<close> on what \<open>ray.nodes()\<close> reports.\<close>

record ray_node =
  ray_resources :: "(string, rat) dict"
  ray_address :: string
  ray_node_id :: string
  ray_node_name :: string
  ray_alive :: bool

definition fetch_node :: "ray_node \<Rightarrow> node" where
  "fetch_node n =
     \<lparr>node_id = ray_node_id n, node_name = ray_node_name n, node_address = ray_address n,
      node_is_head = dict_mem ''node:__internal_head__'' (ray_resources n),
      node_resources =
        \<lparr>num_cpus = map_option PFloat (map_of (ray_resources n) ''CPU''),
         num_gpus = map_option PFloat (map_of (ray_resources n) ''GPU''),
         memory = map_option PFloat (map_of (ray_resources n) ''memory'')\<rparr>\<rparr>"

definition fetch_nodes :: "ray_node list \<Rightarrow> node list" where
  "fetch_nodes all_nodes = map fetch_node (filter ray_alive all_nodes)"

section \<open>Dimensions\<close>

datatype dim = CPU | GPU | MEM

fun res_dim :: "dim \<Rightarrow> resources \<Rightarrow> py_num option" where
  "res_dim CPU r = num_cpus r"
| "res_dim GPU r = num_gpus r"
| "res_dim MEM r = memory r"

text \<open>The amount of a dimension: nothing counts as zero.\<close>

definition amount :: "py_num option \<Rightarrow> rat" where
  "amount x = (case x of Some (PFloat a) \<Rightarrow> a | _ \<Rightarrow> 0)"

lemma acquire_dim_amount:
  "acquire_dim own allocated = Inr left \<Longrightarrow> amount left = amount own - amount allocated"
  by (auto simp: acquire_dim_def amount_def elim!: num_sub.elims split: option.splits)

lemma acquire_resources_dim:
  "acquire_resources allocated r = Inr left \<Longrightarrow>
   acquire_dim (res_dim d r) (res_dim d allocated) = Inr (res_dim d left)"
  by (cases d) (auto simp: acquire_resources_def)

lemma acquire_resources_amount:
  assumes "acquire_resources allocated r = Inr left"
  shows "amount (res_dim d left) = amount (res_dim d r) - amount (res_dim d allocated)"
  using acquire_dim_amount [OF acquire_resources_dim [OF assms]] .

lemma release_dim_amount:
  "release_dim own released = Inr tot \<Longrightarrow> own = None \<or> (\<exists>a. own = Some (PFloat a)) \<Longrightarrow>
   released = None \<or> (\<exists>a. released = Some (PFloat a)) \<Longrightarrow>
   amount tot = amount own + amount released"
  by (auto simp: release_dim_def amount_def split: option.splits)

text \<open>Acquiring and releasing the same resources leaves the amounts as they were.\<close>

lemma acquire_release:
  assumes "acquire_resources allocated r = Inr left"
    and "\<And>d. res_dim d r = None \<longrightarrow> res_dim d allocated = None"
  shows "release_resources allocated left = Inr r"
proof -
  have "release_dim (res_dim d left) (res_dim d allocated) = Inr (res_dim d r)" for d
    using acquire_resources_dim [OF assms(1), of d] assms(2) [of d]
    by (auto simp: acquire_dim_def release_dim_def elim!: num_sub.elims split: option.splits)
  from this [of CPU] this [of MEM] this [of GPU] show ?thesis
    by (simp add: release_resources_def)
qed

end
