(* ===== verification/Execution_Graph.thy ===== *)
theory Execution_Graph
  imports Graph_Optimizer Resources
begin

text \<open>
  The physical graph (\<open>runtime/core/execution_graph/execution_graph.py\<close>): every job vertex
  becomes as many execution vertices as its parallelism, every job edge the complete
  bipartite set of execution edges, and vertices get the resources the configuration asks for.
\<close>

section \<open>Vertices and edges\<close>

record 'o exec_vertex =
  ev_job_vertex :: "'o job_vertex"
  ev_index :: nat
  ev_parallelism :: nat
  ev_resources :: "resources option"

definition exec_id :: "nat \<Rightarrow> nat \<Rightarrow> string" where
  "exec_id vertex_id index = str_nat vertex_id @ CHR ''_'' # str_nat index"

definition ev_id :: "'o exec_vertex \<Rightarrow> string" where
  "ev_id v = exec_id (jv_vertex_id (ev_job_vertex v)) (ev_index v)"

record ('k, 'v) exec_edge =
  ee_source :: string
  ee_target :: string
  ee_partition :: "('k, 'v) partition"

definition ee_id :: "('k, 'v) exec_edge \<Rightarrow> string" where
  "ee_id e = ee_source e @ CHR ''-'' # ee_target e"

text \<open>
  An execution edge is appended to the graph's list and at the same time to the output list of
  its source and the input list of its target, so these lists are the sublists of the graph's.
\<close>

record ('o, 'k, 'v) exec_graph =
  eg_by_id :: "(string, 'o exec_vertex) dict"
  eg_edges :: "('k, 'v) exec_edge list"
  eg_by_job_vertex :: "(nat, 'o exec_vertex list) dict"
  eg_max_parallelism :: nat

definition output_edges :: "('o, 'k, 'v) exec_graph \<Rightarrow> string \<Rightarrow> ('k, 'v) exec_edge list" where
  "output_edges g i = filter (\<lambda>e. ee_source e = i) (eg_edges g)"

definition input_edges :: "('o, 'k, 'v) exec_graph \<Rightarrow> string \<Rightarrow> ('k, 'v) exec_edge list" where
  "input_edges g i = filter (\<lambda>e. ee_target e = i) (eg_edges g)"

definition add_exec_vertex :: "'o exec_vertex \<Rightarrow> ('o, 'k, 'v) exec_graph \<Rightarrow> ('o, 'k, 'v) exec_graph" where
  "add_exec_vertex v g =
     g\<lparr>eg_by_job_vertex := dict_append (jv_vertex_id (ev_job_vertex v)) v (eg_by_job_vertex g),
       eg_by_id := AList.update (ev_id v) v (eg_by_id g)\<rparr>"

definition exec_vertices_of :: "'o job_vertex \<Rightarrow> 'o exec_vertex list" where
  "exec_vertices_of jv =
     map (\<lambda>i. \<lparr>ev_job_vertex = jv, ev_index = i, ev_parallelism = jv_parallelism jv, ev_resources = None\<rparr>)
       [0..<jv_parallelism jv]"

definition exec_partition :: "nat \<Rightarrow> ('k, 'v) partition \<Rightarrow> ('k, 'v) partition" where
  "exec_partition num_targets p =
     (if is_forward p \<and> num_targets > 1 then init_round_robin else p)"

definition expand_edge :: "('k, 'v) job_edge \<Rightarrow> ('o, 'k, 'v) exec_graph \<Rightarrow> ('o, 'k, 'v) exec_graph result" where
  "expand_edge e g =
     rbind (dict_get (eg_by_job_vertex g) (je_source_vertex_id e)) (\<lambda>srcs.
     rbind (if srcs = [] then Inr [] else dict_get (eg_by_job_vertex g) (je_target_vertex_id e)) (\<lambda>tgts.
       Inr (g\<lparr>eg_edges := eg_edges g @ concat (map (\<lambda>s. map (\<lambda>t.
                 \<lparr>ee_source = ev_id s, ee_target = ev_id t,
                  ee_partition = exec_partition (length tgts) (je_partition e)\<rparr>) tgts) srcs)\<rparr>)))"

definition from_job_graph :: "('o, 'k, 'v) job_graph \<Rightarrow> ('o, 'k, 'v) exec_graph result" where
  "from_job_graph jg =
     rbind (get_max_parallelism jg) (\<lambda>m.
       let g = fold add_exec_vertex (concat (map exec_vertices_of (jg_job_vertices jg)))
                 \<lparr>eg_by_id = [], eg_edges = [], eg_by_job_vertex = [], eg_max_parallelism = m\<rparr>
       in rfold expand_edge (jg_job_edges jg) g)"

definition eg_source_vertices :: "('o, 'k, 'v) exec_graph \<Rightarrow> 'o exec_vertex list" where
  "eg_source_vertices g =
     filter (\<lambda>v. jv_vertex_type (ev_job_vertex v) = SOURCE_V) (dict_values (eg_by_id g))"

definition eg_non_source_vertices :: "('o, 'k, 'v) exec_graph \<Rightarrow> 'o exec_vertex list" where
  "eg_non_source_vertices g =
     filter (\<lambda>v. jv_vertex_type (ev_job_vertex v) \<noteq> SOURCE_V) (dict_values (eg_by_id g))"

section \<open>Resources of the vertices\<close>

record resource_config =
  rc_default_worker_resources :: "(string, string) dict"
  rc_proposed_operator_resources :: "(string, (string, string) dict) dict option"

text \<open>
  The override for an operator: CPU and GPU are parsed, the memory text is stored as it is.
\<close>

definition override_resources ::
    "(string \<Rightarrow> rat result) \<Rightarrow> (string, string) dict \<Rightarrow> resources \<Rightarrow> resources result" where
  "override_resources to_float d r =
     rbind (case map_of d RESOURCE_KEY_CPU of
              None \<Rightarrow> Inr (num_cpus r)
            | Some s \<Rightarrow> rbind (to_float s) (\<lambda>x. Inr (Some (PFloat x)))) (\<lambda>cpu.
     rbind (case map_of d RESOURCE_KEY_GPU of
              None \<Rightarrow> Inr (num_gpus r)
            | Some s \<Rightarrow> rbind (to_float s) (\<lambda>x. Inr (Some (PFloat x)))) (\<lambda>gpu.
       Inr \<lparr>num_cpus = cpu, num_gpus = gpu,
            memory = (case map_of d RESOURCE_KEY_MEM of None \<Rightarrow> memory r | Some s \<Rightarrow> Some (PStr s))\<rparr>))"

definition vertex_resources ::
    "(string \<Rightarrow> rat result) \<Rightarrow> resource_config \<Rightarrow> 'o exec_vertex \<Rightarrow> resources result" where
  "vertex_resources to_float rc v =
     rbind (resources_from_dict to_float (rc_default_worker_resources rc)) (\<lambda>r.
       case rc_proposed_operator_resources rc of
         None \<Rightarrow> Inr r
       | Some proposed \<Rightarrow>
           (case map_of proposed (get_name (ev_job_vertex v)) of
              None \<Rightarrow> Inr r
            | Some d \<Rightarrow> override_resources to_float d r))"

definition set_resource ::
    "(string \<Rightarrow> rat result) \<Rightarrow> resource_config \<Rightarrow> 'o exec_vertex \<Rightarrow> 'o exec_vertex result" where
  "set_resource to_float rc v =
     rbind (vertex_resources to_float rc v) (\<lambda>r. Inr (v\<lparr>ev_resources := Some r\<rparr>))"

text \<open>
  \<open>set_resources\<close>: the vertex objects are shared by the two dictionaries, so both see the new
  resources.
\<close>

definition set_resources ::
    "(string \<Rightarrow> rat result) \<Rightarrow> resource_config \<Rightarrow> ('o, 'k, 'v) exec_graph \<Rightarrow>
     ('o, 'k, 'v) exec_graph result" where
  "set_resources to_float rc g =
     rbind (rmap (\<lambda>(i, v). rbind (set_resource to_float rc v) (\<lambda>v'. Inr (i, v'))) (eg_by_id g)) (\<lambda>by_id.
     rbind (rmap (\<lambda>(i, vs). rbind (rmap (set_resource to_float rc) vs) (\<lambda>vs'. Inr (i, vs')))
              (eg_by_job_vertex g)) (\<lambda>by_jv.
       Inr (g\<lparr>eg_by_id := by_id, eg_by_job_vertex := by_jv\<rparr>)))"

section \<open>Execution ids\<close>

lemma underscore_not_digit: "\<not> is_digit (CHR ''_'')"
  by (simp add: is_digit_def)

lemma minus_not_digit: "\<not> is_digit (CHR ''-'')"
  by (simp add: is_digit_def)

lemma exec_id_inject [simp]: "exec_id a i = exec_id b j \<longleftrightarrow> a = b \<and> i = j"
  unfolding exec_id_def
  by (subst append_sep_inject) (simp_all add: str_nat_not_digit underscore_not_digit)

lemma exec_id_no_minus: "CHR ''-'' \<notin> set (exec_id a i)"
  by (simp add: exec_id_def str_nat_not_digit minus_not_digit)

lemma ev_id_vertices: "v \<in> set (exec_vertices_of jv) \<Longrightarrow> \<exists>i < jv_parallelism jv. ev_id v = exec_id (jv_vertex_id jv) i"
  by (auto simp: exec_vertices_of_def ev_id_def)

lemma map_ev_id: "map ev_id (exec_vertices_of jv) = map (exec_id (jv_vertex_id jv)) [0..<jv_parallelism jv]"
  by (simp add: exec_vertices_of_def ev_id_def)

lemma distinct_ev_ids:
  "distinct (map jv_vertex_id jvs) \<Longrightarrow> distinct (map ev_id (concat (map exec_vertices_of jvs)))"
proof (induction jvs)
  case (Cons jv jvs)
  have "distinct (map ev_id (exec_vertices_of jv))"
    by (simp add: map_ev_id distinct_map inj_on_def)
  moreover have "ev_id v \<noteq> ev_id w" if "v \<in> set (exec_vertices_of jv)" "w \<in> set (exec_vertices_of jv')" "jv' \<in> set jvs" for v w jv'
    using that Cons.prems ev_id_vertices [OF that(1)] ev_id_vertices [OF that(2)] by (auto simp: image_iff)
  ultimately show ?case using Cons by auto
qed simp

section \<open>The expansion in closed form\<close>

definition graph_expandable :: "('o, 'k, 'v) job_graph \<Rightarrow> bool" where
  "graph_expandable jg \<longleftrightarrow> jg_job_vertices jg \<noteq> [] \<and>
     distinct (map jv_vertex_id (jg_job_vertices jg)) \<and> distinct (map epair (jg_job_edges jg)) \<and>
     (\<forall>v \<in> set (jg_job_vertices jg). 0 < jv_parallelism v) \<and>
     (\<forall>e \<in> set (jg_job_edges jg). je_source_vertex_id e \<in> vids jg \<and> je_target_vertex_id e \<in> vids jg)"

definition par_of :: "('o, 'k, 'v) job_graph \<Rightarrow> nat \<Rightarrow> nat" where
  "par_of jg i = (case vertex_map jg i of Some v \<Rightarrow> jv_parallelism v | None \<Rightarrow> 0)"

lemma expandable_vertex:
  assumes "graph_expandable jg" "i \<in> vids jg"
  obtains v where "vertex_map jg i = Some v" "v \<in> set (jg_job_vertices jg)" "jv_vertex_id v = i"
    "par_of jg i = jv_parallelism v" "0 < par_of jg i"
proof -
  let ?l = "rev (map (\<lambda>v. (jv_vertex_id v, v)) (jg_job_vertices jg))"
  from assms(2) obtain v where v: "v \<in> set (jg_job_vertices jg)" "jv_vertex_id v = i" by (auto simp: vids_def)
  have "distinct (map fst ?l)"
    using assms(1) by (simp add: graph_expandable_def rev_map [symmetric] o_def)
  moreover have "(i, v) \<in> set ?l" using v by auto
  ultimately have "vertex_map jg i = Some v" unfolding vertex_map_def by (rule map_of_is_SomeI)
  with that v assms(1) show ?thesis by (simp add: par_of_def graph_expandable_def)
qed

lemma fold_add_by_id:
  "distinct (map ev_id vs) \<Longrightarrow> (\<And>v. v \<in> set vs \<Longrightarrow> \<not> dict_mem (ev_id v) (eg_by_id g)) \<Longrightarrow>
   eg_by_id (fold add_exec_vertex vs g) = eg_by_id g @ map (\<lambda>v. (ev_id v, v)) vs"
proof (induction vs arbitrary: g)
  case (Cons v vs)
  have "eg_by_id (add_exec_vertex v g) = eg_by_id g @ [(ev_id v, v)]"
    using Cons.prems(2) [of v] by (simp add: add_exec_vertex_def update_fresh)
  moreover have "\<not> dict_mem (ev_id w) (eg_by_id (add_exec_vertex v g))" if "w \<in> set vs" for w
    using that Cons.prems(1) Cons.prems(2) [of w] by (auto simp: add_exec_vertex_def image_iff)
  ultimately show ?case using Cons by simp
qed simp

lemma fold_add_by_job_vertex:
  "map_of (eg_by_job_vertex (fold add_exec_vertex vs g)) i =
   (let xs = filter (\<lambda>v. jv_vertex_id (ev_job_vertex v) = i) vs
    in case map_of (eg_by_job_vertex g) i of
         Some ys \<Rightarrow> Some (ys @ xs)
       | None \<Rightarrow> if xs = [] then None else Some xs)"
  by (induction vs arbitrary: g) (auto simp: Let_def add_exec_vertex_def split: option.splits)

lemma fold_add_other [simp]:
  "eg_edges (fold add_exec_vertex vs g) = eg_edges g"
  "eg_max_parallelism (fold add_exec_vertex vs g) = eg_max_parallelism g"
  by (induction vs arbitrary: g) (simp_all add: add_exec_vertex_def)

lemma filter_exec_vertices:
  "distinct (map jv_vertex_id jvs) \<Longrightarrow> jv \<in> set jvs \<Longrightarrow>
   filter (\<lambda>v. jv_vertex_id (ev_job_vertex v) = jv_vertex_id jv) (concat (map exec_vertices_of jvs)) =
   exec_vertices_of jv"
proof (induction jvs)
  case (Cons w jvs)
  have own: "filter (\<lambda>v. jv_vertex_id (ev_job_vertex v) = k) (exec_vertices_of u) =
      (if jv_vertex_id u = k then exec_vertices_of u else [])" for k and u :: "'a job_vertex"
    by (auto simp: exec_vertices_of_def filter_map o_def)
  have none: "filter (\<lambda>v. jv_vertex_id (ev_job_vertex v) = k) (concat (map exec_vertices_of us)) = []"
    if "k \<notin> jv_vertex_id ` set us" for k and us :: "'a job_vertex list"
    using that by (induction us) (auto simp: own)
  show ?case
  proof (cases "jv = w")
    case True
    with Cons.prems show ?thesis by (simp add: own none)
  next
    case False
    with Cons.prems have "jv \<in> set jvs" "jv_vertex_id w \<noteq> jv_vertex_id jv" by (auto simp: image_iff)
    with Cons show ?thesis by (simp add: own)
  qed
qed simp

definition edges_of :: "('o, 'k, 'v) job_graph \<Rightarrow> ('k, 'v) job_edge \<Rightarrow> ('k, 'v) exec_edge list" where
  "edges_of jg e = concat (map (\<lambda>i. map (\<lambda>j.
       \<lparr>ee_source = exec_id (je_source_vertex_id e) i, ee_target = exec_id (je_target_vertex_id e) j,
        ee_partition = exec_partition (par_of jg (je_target_vertex_id e)) (je_partition e)\<rparr>)
     [0..<par_of jg (je_target_vertex_id e)]) [0..<par_of jg (je_source_vertex_id e)])"

lemma expand_edge_ok:
  assumes "map_of (eg_by_job_vertex g) (je_source_vertex_id e) = Some (exec_vertices_of s)"
    and "map_of (eg_by_job_vertex g) (je_target_vertex_id e) = Some (exec_vertices_of t)"
    and "jv_vertex_id s = je_source_vertex_id e" "par_of jg (je_source_vertex_id e) = jv_parallelism s"
    and "jv_vertex_id t = je_target_vertex_id e" "par_of jg (je_target_vertex_id e) = jv_parallelism t"
  shows "expand_edge e g = Inr (g\<lparr>eg_edges := eg_edges g @ edges_of jg e\<rparr>)"
proof (cases "exec_vertices_of s = []")
  case True
  then have "jv_parallelism s = 0" by (simp add: exec_vertices_of_def)
  with True assms show ?thesis by (simp add: expand_edge_def edges_of_def)
next
  case False
  with assms show ?thesis
    by (simp add: expand_edge_def edges_of_def exec_vertices_of_def ev_id_def o_def)
qed

lemma from_job_graph_closed:
  assumes "graph_expandable jg"
  shows "\<exists>eg. from_job_graph jg = Inr eg \<and>
    eg_by_id eg = map (\<lambda>v. (ev_id v, v)) (concat (map exec_vertices_of (jg_job_vertices jg))) \<and>
    eg_edges eg = concat (map (edges_of jg) (jg_job_edges jg)) \<and>
    (\<forall>jv \<in> set (jg_job_vertices jg). map_of (eg_by_job_vertex eg) (jv_vertex_id jv) = Some (exec_vertices_of jv)) \<and>
    (\<forall>jv \<in> set (jg_job_vertices jg). jv_parallelism jv \<le> eg_max_parallelism eg)"
proof -
  let ?vs = "concat (map exec_vertices_of (jg_job_vertices jg))"
  let ?m = "Max (set (map jv_parallelism (jg_job_vertices jg)))"
  let ?g = "fold add_exec_vertex ?vs \<lparr>eg_by_id = [], eg_edges = [], eg_by_job_vertex = [], eg_max_parallelism = ?m\<rparr>
    :: ('a, 'b, 'c) exec_graph"
  have dist: "distinct (map jv_vertex_id (jg_job_vertices jg))" and pos: "\<forall>v \<in> set (jg_job_vertices jg). 0 < jv_parallelism v"
    using assms by (auto simp: graph_expandable_def)
  have by_id: "eg_by_id ?g = map (\<lambda>v. (ev_id v, v)) ?vs"
    by (subst fold_add_by_id [OF distinct_ev_ids [OF dist]]) (simp_all add: dict_mem_def)
  have by_jv: "map_of (eg_by_job_vertex ?g) (jv_vertex_id jv) = Some (exec_vertices_of jv)"
    if "jv \<in> set (jg_job_vertices jg)" for jv
    using filter_exec_vertices [OF dist that] pos that
    by (simp add: fold_add_by_job_vertex Let_def) (simp add: exec_vertices_of_def)
  have "rfold expand_edge es g' = Inr (g'\<lparr>eg_edges := eg_edges g' @ concat (map (edges_of jg) es)\<rparr>)"
    if "set es \<subseteq> set (jg_job_edges jg)" "eg_by_job_vertex g' = eg_by_job_vertex ?g" for es g'
    using that
  proof (induction es arbitrary: g')
    case (Cons e es)
    then have "je_source_vertex_id e \<in> vids jg" "je_target_vertex_id e \<in> vids jg"
      using assms by (auto simp: graph_expandable_def)
    from expandable_vertex [OF assms this(1)] expandable_vertex [OF assms this(2)] obtain s t
      where st: "s \<in> set (jg_job_vertices jg)" "jv_vertex_id s = je_source_vertex_id e"
        "par_of jg (je_source_vertex_id e) = jv_parallelism s"
        "t \<in> set (jg_job_vertices jg)" "jv_vertex_id t = je_target_vertex_id e"
        "par_of jg (je_target_vertex_id e) = jv_parallelism t" by metis
    have "expand_edge e g' = Inr (g'\<lparr>eg_edges := eg_edges g' @ edges_of jg e\<rparr>)"
      by (rule expand_edge_ok [of _ _ s t])
        (use by_jv [OF st(1)] by_jv [OF st(4)] st Cons.prems(2) in simp_all)
    with Cons show ?case by simp
  qed simp
  from this [of "jg_job_edges jg" ?g] have "from_job_graph jg = Inr (?g\<lparr>eg_edges := concat (map (edges_of jg) (jg_job_edges jg))\<rparr>)"
    using assms by (simp add: from_job_graph_def get_max_parallelism_def graph_expandable_def Let_def)
  moreover have "\<forall>jv \<in> set (jg_job_vertices jg). jv_parallelism jv \<le> ?m" by simp
  ultimately show ?thesis using by_id by_jv by (simp del: fold_add_by_job_vertex)
qed

text \<open>Execution edges of one job edge, and of all.\<close>

lemma edges_of_ends:
  "map (\<lambda>x. (ee_source x, ee_target x)) (edges_of jg e) =
   map (\<lambda>(i, j). (exec_id (je_source_vertex_id e) i, exec_id (je_target_vertex_id e) j))
     (List.product [0..<par_of jg (je_source_vertex_id e)] [0..<par_of jg (je_target_vertex_id e)])"
  by (simp add: edges_of_def map_concat o_def List.product_concat_map)

lemma distinct_edge_ends:
  assumes "distinct (map epair es)"
  shows "distinct (map (\<lambda>x. (ee_source x, ee_target x)) (concat (map (edges_of jg) es)))"
  using assms
proof (induction es)
  case (Cons e es)
  have "distinct (map (\<lambda>x. (ee_source x, ee_target x)) (edges_of jg e))"
    unfolding edges_of_ends by (auto simp: distinct_map distinct_product inj_on_def)
  moreover have "set (map (\<lambda>x. (ee_source x, ee_target x)) (edges_of jg e)) \<inter>
      set (map (\<lambda>x. (ee_source x, ee_target x)) (concat (map (edges_of jg) es))) = {}"
  proof (rule ccontr)
    assume "\<not> ?thesis"
    then obtain x f y where x: "x \<in> set (edges_of jg e)" and f: "f \<in> set es" "y \<in> set (edges_of jg f)"
      "ee_source x = ee_source y" "ee_target x = ee_target y" by auto
    then have "epair f = epair e" by (auto simp: edges_of_def epair_def)
    with f(1) Cons.prems show False by (metis distinct.simps(2) image_eqI list.map(2) set_map)
  qed
  moreover have "distinct (map (\<lambda>x. (ee_source x, ee_target x)) (concat (map (edges_of jg) es)))"
    using Cons by simp
  ultimately show ?case
    by (simp only: list.map concat.simps map_append distinct_append simp_thms)
qed simp

lemma distinct_edge_ids:
  assumes "\<And>x. x \<in> set es \<Longrightarrow> CHR ''-'' \<notin> set (ee_source x)"
    and "distinct (map (\<lambda>x. (ee_source x, ee_target x)) es)"
  shows "distinct (map ee_id es)"
  using assms
  by (auto simp: distinct_map inj_on_def ee_id_def append_sep_inject)

lemma exec_edge_ids_distinct:
  assumes "graph_expandable jg" "from_job_graph jg = Inr g"
  shows "distinct (map ee_id (eg_edges g))"
proof -
  from from_job_graph_closed [OF assms(1)] assms(2) have es: "eg_edges g = concat (map (edges_of jg) (jg_job_edges jg))" by auto
  show ?thesis
  proof (rule distinct_edge_ids)
    show "CHR ''-'' \<notin> set (ee_source x)" if "x \<in> set (eg_edges g)" for x
      using that exec_id_no_minus unfolding es by (auto simp: edges_of_def)
    show "distinct (map (\<lambda>x. (ee_source x, ee_target x)) (eg_edges g))"
      unfolding es using assms(1) by (intro distinct_edge_ends) (simp add: graph_expandable_def)
  qed
qed

text \<open>
  C9. Expanding a job graph to the execution graph is exact: each job vertex gives as many
  execution vertices as its parallelism and all execution ids are different (so the
  dictionary by id loses none); each job edge gives every pair of a source and a target
  instance exactly once; execution edge ids are different; and forward partitioning is only
  left where the target has a single instance.
\<close>

theorem execution_graph_exact:
  assumes "graph_expandable jg"
  shows "\<exists>eg. from_job_graph jg = Inr eg \<and>
    distinct (dict_keys (eg_by_id eg)) \<and>
    length (eg_by_id eg) = sum_list (map jv_parallelism (jg_job_vertices jg)) \<and>
    distinct (map ee_id (eg_edges eg)) \<and>
    set (map (\<lambda>x. (ee_source x, ee_target x)) (eg_edges eg)) =
      {(exec_id (je_source_vertex_id e) i, exec_id (je_target_vertex_id e) j) | e i j.
         e \<in> set (jg_job_edges jg) \<and> i < par_of jg (je_source_vertex_id e) \<and>
         j < par_of jg (je_target_vertex_id e)} \<and>
    (\<forall>e \<in> set (jg_job_edges jg). \<forall>x \<in> set (edges_of jg e). x \<in> set (eg_edges eg) \<and>
       (is_forward (ee_partition x) \<longrightarrow> par_of jg (je_target_vertex_id e) = 1))"
proof -
  from from_job_graph_closed [OF assms] obtain eg where eg: "from_job_graph jg = Inr eg"
    "eg_by_id eg = map (\<lambda>v. (ev_id v, v)) (concat (map exec_vertices_of (jg_job_vertices jg)))"
    "eg_edges eg = concat (map (edges_of jg) (jg_job_edges jg))" by blast
  have dist: "distinct (map jv_vertex_id (jg_job_vertices jg))" "distinct (map epair (jg_job_edges jg))"
    using assms by (auto simp: graph_expandable_def)
  have "map fst (eg_by_id eg) = map ev_id (concat (map exec_vertices_of (jg_job_vertices jg)))"
    unfolding eg(2) by simp
  with distinct_ev_ids [OF dist(1)] have "distinct (dict_keys (eg_by_id eg))" by (simp add: dict_keys_def)
  moreover have "length (eg_by_id eg) = sum_list (map jv_parallelism (jg_job_vertices jg))"
    unfolding eg(2) by (simp add: length_concat o_def exec_vertices_of_def)
  moreover have "distinct (map ee_id (eg_edges eg))"
  proof (rule distinct_edge_ids)
    show "CHR ''-'' \<notin> set (ee_source x)" if "x \<in> set (eg_edges eg)" for x
      using that exec_id_no_minus unfolding eg(3) by (auto simp: edges_of_def)
    show "distinct (map (\<lambda>x. (ee_source x, ee_target x)) (eg_edges eg))"
      unfolding eg(3) by (rule distinct_edge_ends [OF dist(2)])
  qed
  moreover have "set (map (\<lambda>x. (ee_source x, ee_target x)) (eg_edges eg)) =
      {(exec_id (je_source_vertex_id e) i, exec_id (je_target_vertex_id e) j) | e i j.
         e \<in> set (jg_job_edges jg) \<and> i < par_of jg (je_source_vertex_id e) \<and>
         j < par_of jg (je_target_vertex_id e)}"
    unfolding eg(3) by (force simp: edges_of_def)
  moreover have "x \<in> set (eg_edges eg) \<and> (is_forward (ee_partition x) \<longrightarrow> par_of jg (je_target_vertex_id e) = 1)"
    if "e \<in> set (jg_job_edges jg)" "x \<in> set (edges_of jg e)" for e x
    using that unfolding eg(3)
    by (auto simp: edges_of_def exec_partition_def is_forward_def init_round_robin_def split: if_splits)
  ultimately show ?thesis using eg(1) by blast
qed

lemma sample_graph_expandable: "graph_expandable sample_graph"
  by (simp add: graph_expandable_def sample_graph_def vids_def epair_def JobEdge_def)

theorem execution_graph_exact_witness:
  "\<exists>eg. from_job_graph sample_graph = Inr eg \<and> distinct (dict_keys (eg_by_id eg)) \<and>
     length (eg_by_id eg) = 5 \<and> distinct (map ee_id (eg_edges eg))"
proof -
  have "sum_list (map jv_parallelism (jg_job_vertices sample_graph)) = 5" by (simp add: sample_graph_def)
  with execution_graph_exact [OF sample_graph_expandable] show ?thesis by auto
qed

end
