(* ===== verification/Node_Assignment.thy ===== *)
theory Node_Assignment
  imports Execution_Graph
begin

text \<open>
  Placement of execution vertices on nodes (\<open>runtime/master/resource_manager/\<close>
  \<open>node_assign_strategy.py\<close>). The two strategies search for a node differently and go through
  the vertices in a different order; allocation and the checks are the same, so the loop
  takes the search as an argument. Nodes are updated in place; an assignment maps a vertex id
  to the position of its node.
\<close>

section \<open>The strategies\<close>

definition enough_dim :: "py_num option \<Rightarrow> py_num option \<Rightarrow> bool result" where
  "enough_dim required own =
     (case required of
        None \<Rightarrow> Inr True
      | Some a \<Rightarrow> (case own of None \<Rightarrow> Inr False | Some x \<Rightarrow> num_le a x))"

definition has_enough_resources :: "resources \<Rightarrow> node \<Rightarrow> bool result" where
  "has_enough_resources r n =
     rbind (enough_dim (num_cpus r) (num_cpus (node_resources n))) (\<lambda>a.
     rbind (enough_dim (memory r) (memory (node_resources n))) (\<lambda>b.
     rbind (enough_dim (num_gpus r) (num_gpus (node_resources n))) (\<lambda>c.
       Inr (a \<and> b \<and> c))))"

text \<open>\<open>ParallelismFirst._find_matched_node\<close>: the current node index only moves forward.\<close>

fun pf_search :: "resources \<Rightarrow> node list \<Rightarrow> nat \<Rightarrow> (nat option \<times> nat) result" where
  "pf_search r [] i = Inr (None, i)"
| "pf_search r (n # ns) i =
     rbind (has_enough_resources r n) (\<lambda>b. if b then Inr (Some i, i) else pf_search r ns (i + 1))"

definition pf_find :: "nat \<Rightarrow> 'o exec_vertex \<Rightarrow> node list \<Rightarrow> (nat option \<times> nat) result" where
  "pf_find cur v nodes =
     (case ev_resources v of
        None \<Rightarrow> Inl AssertionError
      | Some r \<Rightarrow> pf_search r (drop cur nodes) cur)"

text \<open>\<open>OperatorFirst._find_matched_node\<close>: a node serves one operator only.\<close>

fun of_search ::
    "(string, nat) dict \<Rightarrow> nat \<Rightarrow> resources \<Rightarrow> node list \<Rightarrow> nat \<Rightarrow> (nat option \<times> (string, nat) dict) result"
  where
  "of_search owner operator_id r [] i = Inr (None, owner)"
| "of_search owner operator_id r (n # ns) i =
     (if map_of owner (node_id n) = None \<or> map_of owner (node_id n) = Some operator_id
      then rbind (has_enough_resources r n) (\<lambda>b.
             if b then Inr (Some i, AList.update (node_id n) operator_id owner)
             else of_search owner operator_id r ns (i + 1))
      else of_search owner operator_id r ns (i + 1))"

definition of_find ::
    "(string, nat) dict \<Rightarrow> 'o exec_vertex \<Rightarrow> node list \<Rightarrow> (nat option \<times> (string, nat) dict) result" where
  "of_find owner v nodes =
     (case ev_resources v of
        None \<Rightarrow> Inl AttributeError
      | Some r \<Rightarrow> of_search owner (jv_vertex_id (ev_job_vertex v)) r nodes 0)"

text \<open>The body of both assignment loops.\<close>

definition assign_vertex ::
    "('s \<Rightarrow> 'o exec_vertex \<Rightarrow> node list \<Rightarrow> (nat option \<times> 's) result) \<Rightarrow> 'o exec_vertex \<Rightarrow>
     's \<times> node list \<times> (string, nat) dict \<Rightarrow> ('s \<times> node list \<times> (string, nat) dict) result" where
  "assign_vertex find_node v st =
     (case st of (s, nodes, res) \<Rightarrow>
        rbind (find_node s v nodes) (\<lambda>(found, s').
          case found of
            None \<Rightarrow> Inl RuntimeError
          | Some i \<Rightarrow>
              if dict_mem (ev_id v) res then Inl AssertionError
              else rbind (allocate_execution_vertex (ev_resources v) (nodes ! i)) (\<lambda>n'.
                Inr (s', nodes[i := n'], AList.update (ev_id v) i res))))"

text \<open>Both strategies first add up the capacities for their error message.\<close>

definition total_capacity :: "node list \<Rightarrow> 'o exec_vertex list \<Rightarrow> unit result" where
  "total_capacity nodes vs =
     rbind (combine_resources (map node_resources nodes)) (\<lambda>_.
     rbind (rmap (\<lambda>v. case ev_resources v of None \<Rightarrow> Inl AttributeError | Some r \<Rightarrow> Inr r) vs) (\<lambda>rs.
     rbind (combine_resources rs) (\<lambda>_. Inr ())))"

definition column :: "'a list list \<Rightarrow> nat \<Rightarrow> 'a list" where
  "column groups i = concat (map (\<lambda>vs. if i \<ge> length vs then [] else [vs ! i]) groups)"

definition pf_order :: "nat \<Rightarrow> 'a list list \<Rightarrow> 'a list" where
  "pf_order max_parallelism groups = concat (map (column groups) [0..<max_parallelism])"

definition parallelism_first_assign ::
    "nat \<Rightarrow> node list \<Rightarrow> ('o, 'k, 'v) exec_graph \<Rightarrow>
     (nat \<times> node list \<times> (string, nat) dict) result" where
  "parallelism_first_assign curr_node_index nodes eg =
     (let groups = dict_values (eg_by_job_vertex eg)
      in rbind (total_capacity nodes (concat groups)) (\<lambda>_.
         rfold (assign_vertex pf_find) (pf_order (eg_max_parallelism eg) groups)
           (curr_node_index, nodes, [])))"

definition operator_first_assign ::
    "(string, nat) dict \<Rightarrow> node list \<Rightarrow> ('o, 'k, 'v) exec_graph \<Rightarrow>
     ((string, nat) dict \<times> node list \<times> (string, nat) dict) result" where
  "operator_first_assign node_to_operator nodes eg =
     (let groups = dict_values (eg_by_job_vertex eg)
      in rbind (total_capacity nodes (concat groups)) (\<lambda>_.
         rfold (assign_vertex of_find) (concat groups) (node_to_operator, nodes, [])))"

section \<open>The interface of a node search\<close>

definition node_amount :: "dim \<Rightarrow> node \<Rightarrow> rat" where
  "node_amount d n = amount (res_dim d (node_resources n))"

definition required_amount :: "dim \<Rightarrow> 'o exec_vertex \<Rightarrow> rat" where
  "required_amount d v = (case ev_resources v of None \<Rightarrow> 0 | Some r \<Rightarrow> amount (res_dim d r))"

definition nodes_nonneg :: "node list \<Rightarrow> bool" where
  "nodes_nonneg nodes \<longleftrightarrow> (\<forall>n \<in> set nodes. \<forall>d. 0 \<le> node_amount d n)"

text \<open>What the vertices assigned to a node need together.\<close>

definition load_on :: "dim \<Rightarrow> (string, nat) dict \<Rightarrow> 'o exec_vertex list \<Rightarrow> nat \<Rightarrow> rat" where
  "load_on d res vs i =
     sum_list (map (required_amount d) (filter (\<lambda>v. map_of res (ev_id v) = Some i) vs))"

lemma enough_dim_amount: "enough_dim r own = Inr True \<Longrightarrow> 0 \<le> amount own \<Longrightarrow> amount r \<le> amount own"
  by (auto simp: enough_dim_def amount_def elim!: num_le.elims split: option.splits)

lemma has_enough_amount:
  assumes "has_enough_resources r n = Inr True" "0 \<le> node_amount d n"
  shows "amount (res_dim d r) \<le> node_amount d n"
proof -
  have "enough_dim (res_dim d r) (res_dim d (node_resources n)) = Inr True"
    using assms(1) by (cases d) (auto simp: has_enough_resources_def)
  with assms(2) enough_dim_amount show ?thesis by (auto simp: node_amount_def)
qed

locale node_finder =
  fixes find_node :: "'s \<Rightarrow> 'o exec_vertex \<Rightarrow> node list \<Rightarrow> (nat option \<times> 's) result"
  assumes find_enough: "find_node s v nodes = Inr (Some i, s') \<Longrightarrow>
      i < length nodes \<and> (\<exists>r. ev_resources v = Some r \<and> has_enough_resources r (nodes ! i) = Inr True)"
begin

text \<open>One assignment takes exactly what the vertex needs from a node that has it.\<close>

lemma assign_step:
  assumes "assign_vertex find_node v (s, nodes, res) = Inr (s', nodes', res')" "nodes_nonneg nodes"
  shows "\<exists>i < length nodes. \<not> dict_mem (ev_id v) res \<and> res' = res @ [(ev_id v, i)] \<and>
    length nodes' = length nodes \<and> nodes_nonneg nodes' \<and> map node_id nodes' = map node_id nodes \<and>
    find_node s v nodes = Inr (Some i, s') \<and>
    (\<forall>k < length nodes. \<forall>d. node_amount d (nodes' ! k) =
       node_amount d (nodes ! k) - (if k = i then required_amount d v else 0))"
proof -
  from assms(1) obtain i n' where f: "find_node s v nodes = Inr (Some i, s')" "\<not> dict_mem (ev_id v) res"
    "allocate_execution_vertex (ev_resources v) (nodes ! i) = Inr n'"
    "nodes' = nodes[i := n']" "res' = AList.update (ev_id v) i res"
    by (auto simp: assign_vertex_def split: option.splits if_splits prod.splits)
  from find_enough [OF f(1)] obtain r where i: "i < length nodes" and r: "ev_resources v = Some r"
    "has_enough_resources r (nodes ! i) = Inr True" by blast
  from f(3) r(1) obtain left where left: "acquire_resources r (node_resources (nodes ! i)) = Inr left"
    "n' = (nodes ! i)\<lparr>node_resources := left\<rparr>" by (auto simp: allocate_execution_vertex_def)
  have am: "node_amount d n' = node_amount d (nodes ! i) - required_amount d v" for d
    using acquire_resources_amount [OF left(1), of d] left(2) r(1)
    by (simp add: node_amount_def required_amount_def)
  have nn: "0 \<le> node_amount d (nodes ! i)" for d using assms(2) i by (simp add: nodes_nonneg_def)
  have "0 \<le> node_amount d n'" for d
    using has_enough_amount [OF r(2) nn] r(1) by (simp add: am required_amount_def)
  then have "nodes_nonneg nodes'"
    using assms(2) set_update_subset_insert [of nodes i n'] unfolding nodes_nonneg_def f(4) by blast
  moreover have "map node_id nodes' = map node_id nodes"
    using i left(2) by (simp add: f(4) map_update list_update_same_conv)
  ultimately show ?thesis
    using i f(1,2,4,5) am by (auto simp: update_fresh nth_list_update)
qed

lemma assign_run:
  assumes "rfold (assign_vertex find_node) vs (s, nodes, []) = Inr (s', nodes', res)" "nodes_nonneg nodes"
  shows "dict_keys res = map ev_id vs \<and> distinct (map ev_id vs) \<and> length nodes' = length nodes \<and>
    nodes_nonneg nodes' \<and>
    (\<forall>i < length nodes. \<forall>d. node_amount d (nodes' ! i) = node_amount d (nodes ! i) - load_on d res vs i \<and>
       0 \<le> node_amount d (nodes' ! i))"
  using assms(1)
proof (induction vs arbitrary: s' nodes' res rule: rev_induct)
  case Nil
  with assms(2) show ?case by (auto simp: dict_keys_def load_on_def nodes_nonneg_def)
next
  case (snoc v vs)
  then obtain s1 nodes1 res1 where r1: "rfold (assign_vertex find_node) vs (s, nodes, []) = Inr (s1, nodes1, res1)"
    and r2: "assign_vertex find_node v (s1, nodes1, res1) = Inr (s', nodes', res)"
    by (auto simp: rfold_append rfold_single simp del: rfold.simps)
  from snoc.IH [OF r1] have IH: "dict_keys res1 = map ev_id vs" "distinct (map ev_id vs)"
    "length nodes1 = length nodes" "nodes_nonneg nodes1"
    "\<And>i d. i < length nodes \<Longrightarrow> node_amount d (nodes1 ! i) = node_amount d (nodes ! i) - load_on d res1 vs i \<and>
       0 \<le> node_amount d (nodes1 ! i)" by blast+
  from assign_step [OF r2 IH(4)] obtain i where i: "i < length nodes1" "\<not> dict_mem (ev_id v) res1"
    "res = res1 @ [(ev_id v, i)]" "length nodes' = length nodes1" "nodes_nonneg nodes'"
    "\<forall>k < length nodes1. \<forall>d. node_amount d (nodes' ! k) =
       node_amount d (nodes1 ! k) - (if k = i then required_amount d v else 0)" by blast
  have fresh: "ev_id v \<notin> set (map ev_id vs)" using i(2) arg_cong [OF IH(1), of set] by (simp add: dict_mem_iff dict_keys_def)
  have old: "map_of res (ev_id w) = map_of res1 (ev_id w)" if "w \<in> set vs" for w
  proof -
    have "ev_id w \<noteq> ev_id v" using that fresh by (metis image_eqI set_map)
    then show ?thesis by (simp add: i(3) map_add_def split: option.splits)
  qed
  have new: "map_of res (ev_id v) = Some i"
    using i(2) by (simp add: i(3) map_add_def dict_mem_def)
  have load: "load_on d res (vs @ [v]) k = load_on d res1 vs k + (if k = i then required_amount d v else 0)" for d k
  proof -
    have "filter (\<lambda>w. map_of res (ev_id w) = Some k) vs = filter (\<lambda>w. map_of res1 (ev_id w) = Some k) vs"
      by (rule filter_cong) (simp_all add: old)
    then show ?thesis by (auto simp: load_on_def new)
  qed
  have "0 \<le> node_amount d (nodes' ! k)" if "k < length nodes" for k d
    using i(4,5) IH(3) that by (simp add: nodes_nonneg_def)
  moreover have "node_amount d (nodes' ! k) = node_amount d (nodes ! k) - load_on d res (vs @ [v]) k"
    if "k < length nodes" for k d
    using IH(3,5) i(6) that by (simp add: load)
  moreover have "dict_keys res = map ev_id (vs @ [v])"
    using IH(1) by (simp add: i(3) dict_keys_def)
  moreover have "distinct (map ev_id (vs @ [v]))" using IH(2) fresh by simp
  ultimately show ?case using IH(3) i(4,5) by simp
qed

text \<open>No node is given more than it has.\<close>

lemma never_overcommits:
  assumes "rfold (assign_vertex find_node) vs (s, nodes, []) = Inr (s', nodes', res)" "nodes_nonneg nodes"
    and "i < length nodes"
  shows "load_on d res vs i \<le> node_amount d (nodes ! i)"
proof -
  have "node_amount d (nodes' ! i) = node_amount d (nodes ! i) - load_on d res vs i"
    "0 \<le> node_amount d (nodes' ! i)"
    using assign_run [OF assms(1,2)] assms(3) by blast+
  then show ?thesis by simp
qed

end

section \<open>Both strategies provide it\<close>

lemma pf_search_enough:
  "pf_search r ns i = Inr (Some k, j) \<Longrightarrow>
   i \<le> k \<and> k < i + length ns \<and> has_enough_resources r (ns ! (k - i)) = Inr True"
proof (induction ns arbitrary: i)
  case (Cons n ns)
  then obtain b where b: "has_enough_resources r n = Inr b" by auto
  show ?case
  proof (cases b)
    case False
    with b Cons.prems have "pf_search r ns (i + 1) = Inr (Some k, j)" by simp
    from Cons.IH [OF this] show ?thesis by (auto simp: nth_Cons' Suc_diff_le)
  qed (use b Cons.prems in auto)
qed simp

lemma of_search_enough:
  "of_search owner operator_id r ns i = Inr (Some k, owner') \<Longrightarrow>
   i \<le> k \<and> k < i + length ns \<and> has_enough_resources r (ns ! (k - i)) = Inr True \<and>
   (map_of owner (node_id (ns ! (k - i))) = None \<or> map_of owner (node_id (ns ! (k - i))) = Some operator_id) \<and>
   owner' = AList.update (node_id (ns ! (k - i))) operator_id owner"
proof (induction ns arbitrary: i)
  case (Cons n ns)
  let ?free = "map_of owner (node_id n) = None \<or> map_of owner (node_id n) = Some operator_id"
  show ?case
  proof (cases "?free \<and> has_enough_resources r n = Inr True")
    case True
    with Cons.prems show ?thesis by auto
  next
    case False
    with Cons.prems have "of_search owner operator_id r ns (i + 1) = Inr (Some k, owner')"
      by (auto split: if_splits)
    from Cons.IH [OF this] show ?thesis by (auto simp: nth_Cons' Suc_diff_le)
  qed
qed simp

interpretation pf: node_finder pf_find
proof
  fix s and v :: "'a exec_vertex" and nodes i s'
  assume "pf_find s v nodes = Inr (Some i, s')"
  then obtain r where r: "ev_resources v = Some r" "pf_search r (drop s nodes) s = Inr (Some i, s')"
    by (auto simp: pf_find_def split: option.splits)
  from pf_search_enough [OF r(2)] r(1)
  show "i < length nodes \<and> (\<exists>r. ev_resources v = Some r \<and> has_enough_resources r (nodes ! i) = Inr True)"
    by auto
qed

interpretation op_first: node_finder of_find
proof
  fix s and v :: "'a exec_vertex" and nodes i s'
  assume "of_find s v nodes = Inr (Some i, s')"
  then obtain r where r: "ev_resources v = Some r"
    "of_search s (jv_vertex_id (ev_job_vertex v)) r nodes 0 = Inr (Some i, s')"
    by (auto simp: of_find_def split: option.splits)
  from of_search_enough [OF r(2)] r(1)
  show "i < length nodes \<and> (\<exists>r. ev_resources v = Some r \<and> has_enough_resources r (nodes ! i) = Inr True)"
    by auto
qed

text \<open>Going through the groups column by column reaches every vertex once.\<close>

lemma columns_of_one: "concat (map (\<lambda>i. if i \<ge> length vs then [] else [vs ! i]) [0..<m]) = take m vs"
  by (induction m) (auto simp: take_Suc_conv_app_nth)

lemma mset_pf_order:
  assumes "\<forall>vs \<in> set groups. length vs \<le> m"
  shows "mset (pf_order m groups) = mset (concat groups)"
  using assms
proof (induction groups)
  case Nil
  then show ?case by (simp add: pf_order_def column_def)
next
  case (Cons vs groups)
  have "mset (concat (map (column (vs # groups)) is)) =
      mset (concat (map (\<lambda>i. if i \<ge> length vs then [] else [vs ! i]) is)) + mset (concat (map (column groups) is))" for "is"
    by (induction "is") (auto simp: column_def)
  then have "mset (pf_order m (vs # groups)) = mset (take m vs) + mset (pf_order m groups)"
    by (simp only: pf_order_def columns_of_one)
  with Cons show ?case by simp
qed

text \<open>
  C26. Parallelism-first placement assigns every execution vertex, each to one node, and never
  gives a node more CPU, GPU or memory than it has: the needs of the vertices placed on a node
  add up to at most the node's resources.
\<close>

theorem parallelism_first_capacity:
  assumes "parallelism_first_assign index nodes eg = Inr (index', nodes', res)" and "nodes_nonneg nodes"
    and "\<forall>vs \<in> set (dict_values (eg_by_job_vertex eg)). length vs \<le> eg_max_parallelism eg"
  shows "distinct (dict_keys res) \<and>
    mset (dict_keys res) = mset (map ev_id (concat (dict_values (eg_by_job_vertex eg)))) \<and>
    (\<forall>i < length nodes. \<forall>d.
       load_on d res (pf_order (eg_max_parallelism eg) (dict_values (eg_by_job_vertex eg))) i \<le>
       node_amount d (nodes ! i))"
proof -
  let ?vs = "pf_order (eg_max_parallelism eg) (dict_values (eg_by_job_vertex eg))"
  from assms(1) have run: "rfold (assign_vertex pf_find) ?vs (index, nodes, []) = Inr (index', nodes', res)"
    by (auto simp: parallelism_first_assign_def Let_def)
  have "mset (map ev_id ?vs) = mset (map ev_id (concat (dict_values (eg_by_job_vertex eg))))"
    using mset_pf_order [OF assms(3)] by simp
  with pf.assign_run [OF run assms(2)] pf.never_overcommits [OF run assms(2)] show ?thesis by simp
qed

text \<open>The nodes an operator-first run uses belong to the operators placed on them.\<close>

lemma of_run_owner:
  assumes "rfold (assign_vertex of_find) vs (owner, nodes, []) = Inr (owner', nodes', res)" "nodes_nonneg nodes"
  shows "map node_id nodes' = map node_id nodes \<and>
    (\<forall>v \<in> set vs. \<exists>i < length nodes. map_of res (ev_id v) = Some i \<and>
       map_of owner' (node_id (nodes ! i)) = Some (jv_vertex_id (ev_job_vertex v)))"
  using assms(1)
proof (induction vs arbitrary: owner' nodes' res rule: rev_induct)
  case (snoc v vs)
  then obtain owner1 nodes1 res1
    where r1: "rfold (assign_vertex of_find) vs (owner, nodes, []) = Inr (owner1, nodes1, res1)"
      and r2: "assign_vertex of_find v (owner1, nodes1, res1) = Inr (owner', nodes', res)"
    by (auto simp: rfold_append rfold_single simp del: rfold.simps)
  from op_first.assign_run [OF r1 assms(2)] have run: "length nodes1 = length nodes"
    "nodes_nonneg nodes1" "dict_keys res1 = map ev_id vs" by blast+
  note IH = snoc.IH [OF r1]
  from op_first.assign_step [OF r2 run(2)] obtain i where i: "i < length nodes1" "\<not> dict_mem (ev_id v) res1"
    "res = res1 @ [(ev_id v, i)]" "map node_id nodes' = map node_id nodes1"
    "of_find owner1 v nodes1 = Inr (Some i, owner')" by blast
  let ?op = "jv_vertex_id (ev_job_vertex v)"
  from i(5) obtain r where "of_search owner1 ?op r nodes1 0 = Inr (Some i, owner')"
    by (auto simp: of_find_def split: option.splits)
  from of_search_enough [OF this]
  have free: "map_of owner1 (node_id (nodes1 ! i)) = None \<or> map_of owner1 (node_id (nodes1 ! i)) = Some ?op"
    and owner': "owner' = AList.update (node_id (nodes1 ! i)) ?op owner1" by auto
  have ids: "node_id (nodes1 ! k) = node_id (nodes ! k)" if "k < length nodes" for k
    using IH that run(1) by (metis nth_map)
  have "\<exists>k < length nodes. map_of res (ev_id w) = Some k \<and>
      map_of owner' (node_id (nodes ! k)) = Some (jv_vertex_id (ev_job_vertex w))" if w: "w \<in> set vs" for w
  proof -
    from IH w obtain k where k: "k < length nodes" "map_of res1 (ev_id w) = Some k"
      "map_of owner1 (node_id (nodes ! k)) = Some (jv_vertex_id (ev_job_vertex w))" by blast
    have "map_of res (ev_id w) = Some k"
      using k(2) i(2) by (auto simp: i(3) map_add_def dict_mem_def)
    moreover have "map_of owner' (node_id (nodes ! k)) = Some (jv_vertex_id (ev_job_vertex w))"
      using k(3) free by (auto simp: owner')
    ultimately show ?thesis using k(1) by blast
  qed
  moreover have "map_of res (ev_id v) = Some i" using i(2) by (simp add: i(3) map_add_def dict_mem_def)
  moreover have "map_of owner' (node_id (nodes ! i)) = Some ?op" using ids i(1) run(1) by (simp add: owner')
  ultimately show ?case using IH i(1,4) run(1) by auto
qed simp

text \<open>
  C25. Operator-first placement assigns every execution vertex, never gives a node more than it
  has, and never shares a node between operators: two vertices on the same node are instances
  of the same job vertex.
\<close>

theorem operator_first_exclusive:
  assumes "operator_first_assign owner nodes eg = Inr (owner', nodes', res)" and "nodes_nonneg nodes"
  shows "dict_keys res = map ev_id (concat (dict_values (eg_by_job_vertex eg))) \<and> distinct (dict_keys res) \<and>
    (\<forall>i < length nodes. \<forall>d.
       load_on d res (concat (dict_values (eg_by_job_vertex eg))) i \<le> node_amount d (nodes ! i)) \<and>
    (\<forall>v \<in> set (concat (dict_values (eg_by_job_vertex eg))).
     \<forall>w \<in> set (concat (dict_values (eg_by_job_vertex eg))).
       map_of res (ev_id v) = map_of res (ev_id w) \<longrightarrow>
       jv_vertex_id (ev_job_vertex v) = jv_vertex_id (ev_job_vertex w))"
proof -
  let ?vs = "concat (dict_values (eg_by_job_vertex eg))"
  from assms(1) have run: "rfold (assign_vertex of_find) ?vs (owner, nodes, []) = Inr (owner', nodes', res)"
    by (auto simp: operator_first_assign_def Let_def)
  have "jv_vertex_id (ev_job_vertex v) = jv_vertex_id (ev_job_vertex w)"
    if vw: "v \<in> set ?vs" "w \<in> set ?vs" "map_of res (ev_id v) = map_of res (ev_id w)" for v w
  proof -
    note own = of_run_owner [OF run assms(2), THEN conjunct2]
    from bspec [OF own vw(1)] bspec [OF own vw(2)] vw(3) show ?thesis by auto
  qed
  moreover have "dict_keys res = map ev_id ?vs" "distinct (map ev_id ?vs)"
    using op_first.assign_run [OF run assms(2)] by blast+
  moreover have "\<forall>i < length nodes. \<forall>d. load_on d res ?vs i \<le> node_amount d (nodes ! i)"
    using op_first.never_overcommits [OF run assms(2)] by blast
  ultimately show ?thesis by (metis (no_types, lifting))
qed

section \<open>A memory override cannot be placed\<close>

definition numeric :: "py_num option \<Rightarrow> bool" where
  "numeric x = (case x of Some (PStr s) \<Rightarrow> False | _ \<Rightarrow> True)"

lemma enough_dim_numeric: "numeric r \<Longrightarrow> numeric own \<Longrightarrow> is_ok (enough_dim r own)"
  by (auto simp: enough_dim_def numeric_def split: option.splits py_num.splits)

text \<open>
  A per-operator memory setting makes placement fail: the configured text is stored
  without being converted to a number, so comparing it with any node that reports its memory
  raises \<open>TypeError\<close>.
\<close>

theorem memory_override_type_error:
  assumes "rc_proposed_operator_resources rc = Some proposed"
    and "map_of proposed (get_name (ev_job_vertex v)) = Some d" and "map_of d RESOURCE_KEY_MEM = Some s"
    and "vertex_resources to_float rc v = Inr r"
    and "numeric (num_cpus (node_resources n))" and "memory (node_resources n) = Some m"
  shows "has_enough_resources r n = Inl TypeError"
proof -
  from assms(1,2,4) obtain r0 where r0: "resources_from_dict to_float (rc_default_worker_resources rc) = Inr r0"
    "override_resources to_float d r0 = Inr r" by (auto simp: vertex_resources_def)
  have "numeric (num_cpus r0)"
    using r0(1) by (auto simp: resources_from_dict_def parse_entry_def numeric_def split: option.splits)
  then have "numeric (num_cpus r)" and mem: "memory r = Some (PStr s)"
    using r0(2) assms(3) by (auto simp: override_resources_def numeric_def split: option.splits)
  with enough_dim_numeric assms(5) obtain b where "enough_dim (num_cpus r) (num_cpus (node_resources n)) = Inr b"
    by (auto simp: is_ok_iff)
  moreover have "enough_dim (memory r) (memory (node_resources n)) = Inl TypeError"
    using mem assms(6) by (simp add: enough_dim_def)
  ultimately show ?thesis by (simp add: has_enough_resources_def)
qed

section \<open>A sample placement\<close>

definition sample_node :: "string \<Rightarrow> rat \<Rightarrow> node" where
  "sample_node i c =
     \<lparr>node_id = i, node_name = i, node_address = i, node_is_head = False,
      node_resources = \<lparr>num_cpus = Some (PFloat c), num_gpus = None, memory = Some (PFloat 100)\<rparr>\<rparr>"

definition sample_vertex :: "nat \<Rightarrow> nat \<Rightarrow> nat exec_vertex" where
  "sample_vertex j i =
     \<lparr>ev_job_vertex = \<lparr>jv_vertex_id = j, jv_parallelism = 2, jv_vertex_type = PROCESS_V,
                       jv_stream_operator = Op ''MapOperator'' ONE_INPUT_OP 0\<rparr>,
      ev_index = i, ev_parallelism = 2,
      ev_resources = Some \<lparr>num_cpus = Some (PFloat 1), num_gpus = None, memory = None\<rparr>\<rparr>"

definition sample_exec_graph :: "(nat, nat, nat) exec_graph" where
  "sample_exec_graph =
     \<lparr>eg_by_id = [], eg_edges = [],
      eg_by_job_vertex = [(1, [sample_vertex 1 0, sample_vertex 1 1]), (2, [sample_vertex 2 0])],
      eg_max_parallelism = 2\<rparr>"

definition sample_nodes :: "node list" where
  "sample_nodes = [sample_node ''a'' 2, sample_node ''b'' 1]"

lemma sample_nodes_nonneg: "nodes_nonneg sample_nodes"
proof -
  have "0 \<le> node_amount d (sample_node i c)" if "0 \<le> c" for d i c
    using that by (cases d) (auto simp: node_amount_def sample_node_def amount_def)
  then show ?thesis by (simp add: nodes_nonneg_def sample_nodes_def)
qed

lemmas placement_eval =
  sample_exec_graph_def sample_nodes_def sample_node_def sample_vertex_def dict_values_def Let_def
  total_capacity_def combine_resources_def release_resources_def release_dim_def pf_order_def column_def
  assign_vertex_def pf_find_def of_find_def has_enough_resources_def enough_dim_def
  allocate_execution_vertex_def acquire_resources_def acquire_dim_def dict_mem_def ev_id_def

lemma sample_pf: "is_ok (parallelism_first_assign 0 sample_nodes sample_exec_graph)"
  by (simp add: parallelism_first_assign_def placement_eval eval_nat_numeral)

lemma sample_of: "is_ok (operator_first_assign [] sample_nodes sample_exec_graph)"
  by (simp add: operator_first_assign_def placement_eval eval_nat_numeral)

lemma sample_groups:
  "concat (dict_values (eg_by_job_vertex sample_exec_graph)) =
     [sample_vertex 1 0, sample_vertex 1 1, sample_vertex 2 0]"
  "\<forall>vs \<in> set (dict_values (eg_by_job_vertex sample_exec_graph)). length vs \<le> eg_max_parallelism sample_exec_graph"
  by (simp_all add: sample_exec_graph_def dict_values_def)

theorem parallelism_first_capacity_witness:
  "\<exists>i ns res. parallelism_first_assign 0 sample_nodes sample_exec_graph = Inr (i, ns, res) \<and>
     distinct (dict_keys res) \<and>
     mset (dict_keys res) = mset (map ev_id [sample_vertex 1 0, sample_vertex 1 1, sample_vertex 2 0])"
proof -
  from sample_pf obtain i ns res where r: "parallelism_first_assign 0 sample_nodes sample_exec_graph = Inr (i, ns, res)"
    by (auto simp: is_ok_iff)
  note t = parallelism_first_capacity [OF r sample_nodes_nonneg sample_groups(2), unfolded sample_groups(1)]
  show ?thesis
    by (intro exI conjI, rule r, rule t [THEN conjunct1], rule t [THEN conjunct2, THEN conjunct1])
qed

theorem operator_first_exclusive_witness:
  "\<exists>i ns res. operator_first_assign [] sample_nodes sample_exec_graph = Inr (i, ns, res) \<and>
     dict_keys res = map ev_id [sample_vertex 1 0, sample_vertex 1 1, sample_vertex 2 0] \<and>
     map_of res (ev_id (sample_vertex 1 0)) \<noteq> map_of res (ev_id (sample_vertex 2 0))"
proof -
  from sample_of obtain i ns res where r: "operator_first_assign [] sample_nodes sample_exec_graph = Inr (i, ns, res)"
    by (auto simp: is_ok_iff)
  note t = operator_first_exclusive [OF r sample_nodes_nonneg, unfolded sample_groups(1)]
  have "jv_vertex_id (ev_job_vertex (sample_vertex 1 0)) \<noteq> jv_vertex_id (ev_job_vertex (sample_vertex 2 0))"
    by (simp add: sample_vertex_def)
  then have "map_of res (ev_id (sample_vertex 1 0)) \<noteq> map_of res (ev_id (sample_vertex 2 0))"
    using t [THEN conjunct2, THEN conjunct2, THEN conjunct2, rule_format, of "sample_vertex 1 0" "sample_vertex 2 0"]
    by auto
  with r t [THEN conjunct1] show ?thesis by blast
qed

theorem memory_override_type_error_witness:
  "has_enough_resources \<lparr>num_cpus = None, num_gpus = None, memory = Some (PStr ''10'')\<rparr> (sample_node ''a'' 2) =
     Inl TypeError"
proof -
  let ?v = "sample_vertex 1 0"
  let ?rc = "\<lparr>rc_default_worker_resources = [],
              rc_proposed_operator_resources = Some [(get_name (ev_job_vertex ?v), [(RESOURCE_KEY_MEM, ''10'')])]\<rparr>"
  show ?thesis
    by (rule memory_override_type_error [of ?rc "[(get_name (ev_job_vertex ?v), [(RESOURCE_KEY_MEM, ''10'')])]" ?v
          "[(RESOURCE_KEY_MEM, ''10'')]" "''10''" "\<lambda>_. Inl ValueError"])
      (simp_all add: vertex_resources_def resources_from_dict_def parse_entry_def override_resources_def
        RESOURCE_KEY_MEM_def RESOURCE_KEY_CPU_def RESOURCE_KEY_GPU_def sample_node_def numeric_def)
qed

end
