(* ===== verification/Workers.thy ===== *)
theory Workers
  imports Execution_Graph Node_Assignment
begin

text \<open>
  The master's side of a running job: worker creation, channels and ports
  (\<open>runtime/master/worker_lifecycle_controller.py\<close>, \<open>runtime/network/channel.py\<close>), the transfer actors
  (\<open>runtime/master/transfer_controller.py\<close>) and the book-keeping of finished sources
  (\<open>runtime/master/job_master.py\<close>). Ray actors appear by the calls made on them; the host of a
  worker, which Ray reports, is an argument.
\<close>

section \<open>Channels\<close>

record remote_channel =
  rch_channel_id :: string
  rch_source_local_ipc_addr :: string
  rch_source_node_ip :: string
  rch_source_node_id :: string
  rch_target_local_ipc_addr :: string
  rch_target_node_ip :: string
  rch_target_node_id :: string
  rch_port :: nat

datatype channel = LocalChannel string string | RemoteChannel remote_channel

fun channel_id :: "channel \<Rightarrow> string" where
  "channel_id (LocalChannel i addr) = i"
| "channel_id (RemoteChannel r) = rch_channel_id r"

definition IPC_DIR :: string where
  "IPC_DIR = ''/tmp/volga_ipc''"

definition gen_ipc_addr :: "string \<Rightarrow> string \<Rightarrow> string option \<Rightarrow> string" where
  "gen_ipc_addr job_name ch nid =
     ''ipc://'' @ IPC_DIR @ ''/'' @ job_name @ ''/ipc_'' @ ch @
     (case nid of None \<Rightarrow> [] | Some n \<Rightarrow> ''_'' @ n)"

section \<open>Ports\<close>

definition PORT_POOL :: "nat list" where
  "PORT_POOL = [1234..<1237 + 1]"

definition port_used :: "string \<Rightarrow> nat \<Rightarrow> (string, nat \<times> string) dict \<Rightarrow> bool" where
  "port_used nid port reserved \<longleftrightarrow> list_ex (\<lambda>(_, p, n). nid = n \<and> p = port) reserved"

definition gen_port ::
    "string \<Rightarrow> string \<Rightarrow> (string, nat \<times> string) dict \<Rightarrow> (nat \<times> (string, nat \<times> string) dict) result" where
  "gen_port conn_id nid reserved =
     (case map_of reserved conn_id of
        Some (p, n) \<Rightarrow> Inr (p, reserved)
      | None \<Rightarrow>
          (case find (\<lambda>p. \<not> port_used nid p reserved) PORT_POOL of
             None \<Rightarrow> Inl RuntimeError
           | Some p \<Rightarrow> Inr (p, AList.update conn_id (p, nid) reserved)))"

section \<open>Connecting workers\<close>

record worker_node_info =
  wn_node_ip :: string
  wn_node_id :: string

type_synonym node_channels = "(string, remote_channel list \<times> remote_channel list) dict"

record connections =
  cn_reserved_node_ports :: "(string, nat \<times> string) dict"
  cn_remote_channels_per_node :: node_channels
  cn_channels :: "(string \<times> channel) list"

definition add_remote :: "string \<Rightarrow> bool \<Rightarrow> remote_channel \<Rightarrow> node_channels \<Rightarrow> node_channels" where
  "add_remote node incoming ch d =
     (case (case map_of d node of None \<Rightarrow> ([], []) | Some x \<Rightarrow> x) of
        (ins, outs) \<Rightarrow> AList.update node (if incoming then (ins @ [ch], outs) else (ins, outs @ [ch])) d)"

text \<open>One round of the loop over the execution edges; \<open>infos\<close> gives the node of each started worker.\<close>

definition connect_edge ::
    "string \<Rightarrow> (string, worker_node_info) dict \<Rightarrow> ('k, 'v) exec_edge \<Rightarrow> connections \<Rightarrow> connections result" where
  "connect_edge job_name infos e c =
     (case (map_of infos (ee_source e), map_of infos (ee_target e)) of
        (Some src, Some tgt) \<Rightarrow>
          if wn_node_id src = wn_node_id tgt
          then Inr (c\<lparr>cn_channels := cn_channels c @ [(ee_id e, LocalChannel (ee_id e) (gen_ipc_addr job_name (ee_id e) None))]\<rparr>)
          else rbind (gen_port (wn_node_id src @ ''-'' @ wn_node_id tgt) (wn_node_id tgt) (cn_reserved_node_ports c)) (\<lambda>(port, reserved).
            let ch = \<lparr>rch_channel_id = ee_id e,
                      rch_source_local_ipc_addr = gen_ipc_addr job_name (ee_id e) (Some (wn_node_id src)),
                      rch_source_node_ip = wn_node_ip src, rch_source_node_id = wn_node_id src,
                      rch_target_local_ipc_addr = gen_ipc_addr job_name (ee_id e) (Some (wn_node_id tgt)),
                      rch_target_node_ip = wn_node_ip tgt, rch_target_node_id = wn_node_id tgt, rch_port = port\<rparr>
            in Inr (c\<lparr>cn_reserved_node_ports := reserved,
                      cn_remote_channels_per_node :=
                        add_remote (wn_node_id tgt) True ch (add_remote (wn_node_id src) False ch (cn_remote_channels_per_node c)),
                      cn_channels := cn_channels c @ [(ee_id e, RemoteChannel ch)]\<rparr>))
      | _ \<Rightarrow> Inl RuntimeError)"

text \<open>The checks and the names of the transfer actors.\<close>

definition check_channel :: "string \<Rightarrow> string \<Rightarrow> string \<Rightarrow> string option \<Rightarrow> string option result" where
  "check_channel nid ch_node_id ch_node_ip node_ip =
     (let ip = (case node_ip of None \<Rightarrow> ch_node_ip | Some x \<Rightarrow> x)
      in if nid \<noteq> ch_node_id \<or> ip \<noteq> ch_node_ip then Inl RuntimeError else Inr (Some ip))"

definition create_transfer_actor ::
    "string \<times> remote_channel list \<times> remote_channel list \<Rightarrow> (string, string) dict \<Rightarrow> (string, string) dict result" where
  "create_transfer_actor = (\<lambda>(nid, ins, outs) actors.
     if dict_mem nid actors then Inl RuntimeError
     else rbind (rfold (\<lambda>ch. check_channel nid (rch_target_node_id ch) (rch_target_node_ip ch)) ins None) (\<lambda>ip1.
          rbind (rfold (\<lambda>ch. check_channel nid (rch_source_node_id ch) (rch_source_node_ip ch)) outs ip1) (\<lambda>ip.
            Inr (AList.update nid (''transfer-'' @ (case ip of None \<Rightarrow> ''None'' | Some x \<Rightarrow> x)) actors))))"

definition create_transfer_actors :: "node_channels \<Rightarrow> (string, string) dict \<Rightarrow> (string, string) dict result" where
  "create_transfer_actors per_node actors = rfold create_transfer_actor per_node actors"

definition connect_and_init_workers ::
    "string \<Rightarrow> (string, worker_node_info) dict \<Rightarrow> (string, nat \<times> string) dict \<Rightarrow> (string, string) dict \<Rightarrow>
     ('o, 'k, 'v) exec_graph \<Rightarrow> (connections \<times> (string, string) dict) result" where
  "connect_and_init_workers job_name infos reserved actors g =
     rbind (rfold (connect_edge job_name infos) (eg_edges g)
              \<lparr>cn_reserved_node_ports = reserved, cn_remote_channels_per_node = [], cn_channels = []\<rparr>) (\<lambda>c.
     rbind (create_transfer_actors (cn_remote_channels_per_node c) actors) (\<lambda>actors'. Inr (c, actors')))"

section \<open>Creating and starting workers\<close>

text \<open>The operator at the end of a chain decides whether a vertex is a sink.\<close>

definition is_sink_vertex :: "'o job_vertex \<Rightarrow> bool" where
  "is_sink_vertex v =
     (case jv_stream_operator v of
        ChainedOp ops \<Rightarrow> op_class (last ops) = ''SinkOperator''
      | Op _ _ _ \<Rightarrow> jv_vertex_type v = SINK_V)"

definition reports_stats :: "'o job_vertex \<Rightarrow> bool" where
  "reports_stats v \<longleftrightarrow> is_sink_vertex v \<or> jv_vertex_type v = SOURCE_V"

text \<open>\<open>create_workers\<close>: the created workers with their nodes, and those registered for statistics.\<close>

definition create_worker ::
    "(string, string) dict \<Rightarrow> string \<times> 'o exec_vertex \<Rightarrow> (string \<times> string) list \<times> string list \<Rightarrow>
     ((string \<times> string) list \<times> string list) result" where
  "create_worker assignment = (\<lambda>(vertex_id, v) (workers, registered).
     case map_of assignment vertex_id of
       None \<Rightarrow> Inl RuntimeError
     | Some node \<Rightarrow> Inr (workers @ [(vertex_id, node)],
                           if reports_stats (ev_job_vertex v) then registered @ [vertex_id] else registered))"

definition create_workers ::
    "(string, string) dict \<Rightarrow> ('o, 'k, 'v) exec_graph \<Rightarrow> ((string \<times> string) list \<times> string list) result" where
  "create_workers assignment g = rfold (create_worker assignment) (eg_by_id g) ([], [])"

text \<open>\<open>start_workers\<close> on the answers of the actors: any error stops the job.\<close>

definition start_workers :: "(string \<times> string option) list \<Rightarrow> unit result" where
  "start_workers answers = (if list_ex (\<lambda>(_, err). err \<noteq> None) answers then Inl RuntimeError else Inr ())"

section \<open>Finished sources\<close>

type_synonym sources_finished = "(string, bool) dict"

definition init_sources :: "('o, 'k, 'v) exec_graph \<Rightarrow> sources_finished" where
  "init_sources g = fold (\<lambda>v d. AList.update (ev_id v) False d) (eg_source_vertices g) []"

definition notify_source_finished :: "string \<Rightarrow> sources_finished \<Rightarrow> sources_finished result" where
  "notify_source_finished task_id d = (if dict_mem task_id d then Inr (AList.update task_id True d) else Inl RuntimeError)"

definition all_sources_finished :: "sources_finished \<Rightarrow> bool" where
  "all_sources_finished d = fold (\<lambda>(_, b) acc. acc \<and> b) d True"

section \<open>Port assignment\<close>

fun assign_ports ::
    "(string \<times> string) list \<Rightarrow> (string, nat \<times> string) dict \<Rightarrow> (nat list \<times> (string, nat \<times> string) dict) result" where
  "assign_ports [] reserved = Inr ([], reserved)"
| "assign_ports ((conn, nid) # reqs) reserved =
     rbind (gen_port conn nid reserved) (\<lambda>(p, res1). rbind (assign_ports reqs res1) (\<lambda>(ps, res2). Inr (p # ps, res2)))"

text \<open>\<open>tgt\<close> is the node a connection leads to.\<close>

definition ports_inv :: "(string \<Rightarrow> string) \<Rightarrow> (string, nat \<times> string) dict \<Rightarrow> bool" where
  "ports_inv tgt res \<longleftrightarrow>
     (\<forall>c p n. map_of res c = Some (p, n) \<longrightarrow> n = tgt c \<and> p \<in> set PORT_POOL) \<and> wf_dict res \<and>
     (\<forall>c c' p. map_of res c = Some (p, tgt c) \<longrightarrow> map_of res c' = Some (p, tgt c) \<longrightarrow> c = c')"

definition peers :: "(string \<Rightarrow> string) \<Rightarrow> string \<Rightarrow> (string, nat \<times> string) dict \<Rightarrow> string set" where
  "peers tgt n res = {c. dict_mem c res \<and> tgt c = n}"

lemma ports_invD:
  assumes "ports_inv tgt res"
  shows "map_of res c = Some (p, n) \<Longrightarrow> n = tgt c \<and> p \<in> set PORT_POOL" "wf_dict res"
    "map_of res c = Some (p, n) \<Longrightarrow> map_of res c' = Some (p, n) \<Longrightarrow> c = c'"
  using assms unfolding ports_inv_def by blast+

lemma ports_inv_update:
  assumes "ports_inv tgt res" "p \<in> set PORT_POOL" "\<And>d. map_of res d \<noteq> Some (p, tgt c)"
  shows "ports_inv tgt (AList.update c (p, tgt c) res)"
  unfolding ports_inv_def
proof (intro conjI allI impI)
  fix d q n assume "map_of (AList.update c (p, tgt c) res) d = Some (q, n)"
  then show "n = tgt d" "q \<in> set PORT_POOL"
    using assms(2) ports_invD(1) [OF assms(1), of d q n] by (auto split: if_splits)
next
  show "wf_dict (AList.update c (p, tgt c) res)" using ports_invD(2) [OF assms(1)] by simp
next
  fix d e q
  assume "map_of (AList.update c (p, tgt c) res) d = Some (q, tgt d)" "map_of (AList.update c (p, tgt c) res) e = Some (q, tgt d)"
  then show "d = e" using assms(3) [of d] assms(3) [of e] ports_invD(3) [OF assms(1), of d q "tgt d" e] by (auto split: if_splits)
qed

lemma card_pool: "card (set PORT_POOL) = 4"
  by (simp add: PORT_POOL_def)

lemma finite_peers: "finite (peers tgt n res)"
  by (rule finite_subset [of _ "fst ` set res"]) (auto simp: peers_def dict_mem_iff)

lemma port_used_iff:
  assumes "ports_inv tgt res"
  shows "port_used n p res \<longleftrightarrow> (\<exists>c. map_of res c = Some (p, n))"
proof -
  have "(c, p, n) \<in> set res \<longleftrightarrow> map_of res c = Some (p, n)" for c
    using ports_invD(2) [OF assms] by (simp add: wf_dict_def)
  then show ?thesis by (auto simp: port_used_def list_ex_iff)
qed

lemma peers_ports:
  assumes "ports_inv tgt res"
  shows "{p. port_used n p res} \<subseteq> set PORT_POOL" "card {p. port_used n p res} = card (peers tgt n res)"
proof -
  let ?f = "\<lambda>c. fst (the (map_of res c))"
  show "{p. port_used n p res} \<subseteq> set PORT_POOL" using ports_invD(1) [OF assms] by (auto simp: port_used_iff [OF assms])
  have val: "map_of res c = Some (?f c, n)" if "c \<in> peers tgt n res" for c
  proof -
    from that obtain p m where m: "map_of res c = Some (p, m)" "tgt c = n" by (auto simp: peers_def dict_mem_def)
    with ports_invD(1) [OF assms m(1)] show ?thesis by simp
  qed
  have "inj_on ?f (peers tgt n res)"
  proof (rule inj_onI)
    fix c d assume *: "c \<in> peers tgt n res" "d \<in> peers tgt n res" "?f c = ?f d"
    have "map_of res d = Some (?f c, n)" unfolding *(3) by (rule val [OF *(2)])
    from ports_invD(3) [OF assms val [OF *(1)] this] show "c = d" .
  qed
  moreover have "?f ` peers tgt n res = {p. port_used n p res}"
  proof (intro equalityI subsetI)
    fix p assume "p \<in> ?f ` peers tgt n res"
    then obtain c where c: "c \<in> peers tgt n res" "p = ?f c" by blast
    have "map_of res c = Some (p, n)" unfolding c(2) by (rule val [OF c(1)])
    then show "p \<in> {p. port_used n p res}" unfolding port_used_iff [OF assms] by blast
  next
    fix p assume "p \<in> {p. port_used n p res}"
    then obtain c where c: "map_of res c = Some (p, n)" by (auto simp: port_used_iff [OF assms])
    with ports_invD(1) [OF assms c] have "c \<in> peers tgt n res" "?f c = p" by (auto simp: peers_def dict_mem_def)
    then show "p \<in> ?f ` peers tgt n res" by blast
  qed
  ultimately show "card {p. port_used n p res} = card (peers tgt n res)" by (metis card_image)
qed

lemma gen_port_ok:
  assumes inv: "ports_inv tgt res" and c: "dict_mem c res \<or> card (peers tgt (tgt c) res) < 4"
  shows "\<exists>p res'. gen_port c (tgt c) res = Inr (p, res') \<and> ports_inv tgt res' \<and> map_of res' c = Some (p, tgt c) \<and>
    (\<forall>d. dict_mem d res' \<longleftrightarrow> d = c \<or> dict_mem d res) \<and> (\<forall>d. dict_mem d res \<longrightarrow> map_of res' d = map_of res d)"
proof (cases "map_of res c")
  case (Some x)
  then obtain p n where "map_of res c = Some (p, n)" by (cases x) simp
  moreover from ports_invD(1) [OF inv this] have "n = tgt c" by simp
  ultimately show ?thesis using inv by (auto simp: gen_port_def dict_mem_def)
next
  case None
  let ?n = "tgt c"
  have "card {p. port_used ?n p res} < card (set PORT_POOL)"
    using c None peers_ports(2) [OF inv] by (simp add: card_pool dict_mem_def)
  with peers_ports(1) [OF inv] obtain q where "q \<in> set PORT_POOL" "\<not> port_used ?n q res" by (metis (mono_tags) card_mono finite_set
        finite_subset leD mem_Collect_eq subsetI)
  then obtain p where f: "find (\<lambda>p. \<not> port_used ?n p res) PORT_POOL = Some p"
    by (cases "find (\<lambda>p. \<not> port_used ?n p res) PORT_POOL") (auto simp: find_None_iff)
  then have p: "p \<in> set PORT_POOL" "\<not> port_used ?n p res" by (auto simp: find_Some_iff)
  have "map_of res d \<noteq> Some (p, ?n)" for d using p(2) port_used_iff [OF inv] by blast
  from ports_inv_update [OF inv p(1) this] None f show ?thesis by (auto simp: gen_port_def dict_mem_def)
qed

lemma gen_port_full:
  assumes "ports_inv tgt res" "\<not> dict_mem c res" "4 \<le> card (peers tgt (tgt c) res)"
  shows "gen_port c (tgt c) res = Inl RuntimeError"
proof -
  have "{p. port_used (tgt c) p res} = set PORT_POOL"
    using peers_ports [OF assms(1), of "tgt c"] assms(3) by (intro card_seteq) (simp_all add: card_pool)
  then have "find (\<lambda>p. \<not> port_used (tgt c) p res) PORT_POOL = None" by (auto simp: find_None_iff)
  moreover have "map_of res c = None" using assms(2) by (simp only: dict_mem_def not_not)
  ultimately show ?thesis by (simp add: gen_port_def)
qed

text \<open>The connections into a node, those already there and those asked for.\<close>

definition wanted :: "(string \<Rightarrow> string) \<Rightarrow> string list \<Rightarrow> (string, nat \<times> string) dict \<Rightarrow> string \<Rightarrow> string set" where
  "wanted tgt cs res n = {c \<in> set cs. tgt c = n} \<union> peers tgt n res"

lemma wanted_step:
  assumes "\<forall>d. dict_mem d res' \<longleftrightarrow> d = c \<or> dict_mem d res"
  shows "wanted tgt cs res' n = wanted tgt (c # cs) res n"
  using assms by (auto simp: wanted_def peers_def)

lemma assign_ports_spec:
  assumes "ports_inv tgt res"
  shows "if \<forall>n. card (wanted tgt cs res n) \<le> 4
    then \<exists>ps res'. assign_ports (map (\<lambda>c. (c, tgt c)) cs) res = Inr (ps, res') \<and> ports_inv tgt res' \<and> length ps = length cs \<and>
      (\<forall>i < length cs. map_of res' (cs ! i) = Some (ps ! i, tgt (cs ! i))) \<and> (\<forall>d. dict_mem d res \<longrightarrow> map_of res' d = map_of res d)
    else assign_ports (map (\<lambda>c. (c, tgt c)) cs) res = Inl RuntimeError"
  using assms
proof (induction cs arbitrary: res)
  case Nil
  have "card (wanted tgt [] res n) \<le> 4" for n
  proof -
    have "card {p. port_used n p res} \<le> card (set PORT_POOL)" using peers_ports(1) [OF Nil] by (intro card_mono) simp_all
    then show ?thesis using peers_ports(2) [OF Nil] by (simp add: wanted_def card_pool)
  qed
  then show ?case using Nil by simp
next
  case (Cons c cs)
  show ?case
  proof (cases "dict_mem c res \<or> card (peers tgt (tgt c) res) < 4")
    case True
    from gen_port_ok [OF Cons.prems True] obtain p res1 where g: "gen_port c (tgt c) res = Inr (p, res1)" "ports_inv tgt res1"
      "map_of res1 c = Some (p, tgt c)" "\<forall>d. dict_mem d res1 \<longleftrightarrow> d = c \<or> dict_mem d res"
      "\<forall>d. dict_mem d res \<longrightarrow> map_of res1 d = map_of res d" by blast
    have w: "wanted tgt cs res1 n = wanted tgt (c # cs) res n" for n by (rule wanted_step [OF g(4)])
    show ?thesis
    proof (cases "\<forall>n. card (wanted tgt (c # cs) res n) \<le> 4")
      case ok: True
      with Cons.IH [OF g(2)] w obtain ps res2 where r: "assign_ports (map (\<lambda>c. (c, tgt c)) cs) res1 = Inr (ps, res2)" "ports_inv tgt res2"
        "length ps = length cs" "\<forall>i < length cs. map_of res2 (cs ! i) = Some (ps ! i, tgt (cs ! i))"
        "\<forall>d. dict_mem d res1 \<longrightarrow> map_of res2 d = map_of res1 d" by auto
      have "map_of res2 c = Some (p, tgt c)" using r(5) g(3,4) by metis
      with r(4) have "\<forall>i < length (c # cs). map_of res2 ((c # cs) ! i) = Some ((p # ps) ! i, tgt ((c # cs) ! i))"
        by (auto simp: less_Suc_eq_0_disj)
      moreover have "\<forall>d. dict_mem d res \<longrightarrow> map_of res2 d = map_of res d" using r(5) g(4,5) by metis
      ultimately have "\<exists>ps res'. assign_ports (map (\<lambda>c. (c, tgt c)) (c # cs)) res = Inr (ps, res') \<and> ports_inv tgt res' \<and>
          length ps = length (c # cs) \<and> (\<forall>i < length (c # cs). map_of res' ((c # cs) ! i) = Some (ps ! i, tgt ((c # cs) ! i))) \<and>
          (\<forall>d. dict_mem d res \<longrightarrow> map_of res' d = map_of res d)"
        using r(1-3) g(1) by (intro exI [of _ "p # ps"] exI [of _ res2]) simp
      then show ?thesis unfolding if_P [OF ok] .
    next
      case bad: False
      with Cons.IH [OF g(2)] w have "assign_ports (map (\<lambda>c. (c, tgt c)) cs) res1 = Inl RuntimeError" by auto
      with bad g(1) show ?thesis by (simp only: if_False) simp
    qed
  next
    case False
    then have n: "\<not> dict_mem c res" "4 \<le> card (peers tgt (tgt c) res)" by simp_all
    have "card (insert c (peers tgt (tgt c) res)) \<le> card (wanted tgt (c # cs) res (tgt c))"
      by (intro card_mono) (auto simp: wanted_def finite_peers)
    moreover have "card (insert c (peers tgt (tgt c) res)) = Suc (card (peers tgt (tgt c) res))"
    proof -
      have "c \<notin> peers tgt (tgt c) res" using n(1) by (simp add: peers_def)
      then show ?thesis by (rule card_insert_disjoint [OF finite_peers])
    qed
    ultimately have "\<not> (\<forall>n. card (wanted tgt (c # cs) res n) \<le> 4)" using n(2) by (intro notI) (drule spec [of _ "tgt c"], simp)
    with gen_port_full [OF Cons.prems n] show ?thesis by (simp only: if_False) simp
  qed
qed

text \<open>
  Each node can take connections from at most four other nodes: assigning ports to any sequence of
  connections succeeds exactly when no node is the target of more than four of them, and then
  each connection keeps one port of the pool and two connections into the same node never share one.
\<close>

theorem ports_serve_four_peers:
  shows "(case assign_ports (map (\<lambda>c. (c, tgt c)) cs) [] of
      Inl e \<Rightarrow> e = RuntimeError \<and> (\<exists>n. 4 < card {c \<in> set cs. tgt c = n})
    | Inr (ps, res) \<Rightarrow> (\<forall>n. card {c \<in> set cs. tgt c = n} \<le> 4) \<and> length ps = length cs \<and> set ps \<subseteq> {1234..1237} \<and>
        (\<forall>i < length cs. \<forall>j < length cs. tgt (cs ! i) = tgt (cs ! j) \<longrightarrow> (ps ! i = ps ! j) = (cs ! i = cs ! j)))"
proof -
  have inv: "ports_inv tgt []" by (simp add: ports_inv_def)
  have w: "wanted tgt cs [] n = {c \<in> set cs. tgt c = n}" for n by (auto simp: wanted_def peers_def dict_mem_def)
  show ?thesis
  proof (cases "\<forall>n. card {c \<in> set cs. tgt c = n} \<le> 4")
    case True
    with assign_ports_spec [OF inv, of cs] w obtain ps res where r: "assign_ports (map (\<lambda>c. (c, tgt c)) cs) [] = Inr (ps, res)"
      "ports_inv tgt res" "length ps = length cs" "\<forall>i < length cs. map_of res (cs ! i) = Some (ps ! i, tgt (cs ! i))" by auto
    have "ps ! i \<in> set PORT_POOL" if "i < length cs" for i using ports_invD(1) [OF r(2)] r(4) that by blast
    then have "set ps \<subseteq> set PORT_POOL" using r(3) by (auto simp: in_set_conv_nth)
    then have "set ps \<subseteq> {1234..1237}" by (auto simp: PORT_POOL_def)
    moreover have "(ps ! i = ps ! j) = (cs ! i = cs ! j)" if "i < length cs" "j < length cs" "tgt (cs ! i) = tgt (cs ! j)" for i j
    proof
      assume "ps ! i = ps ! j"
      with r(4) that have "map_of res (cs ! i) = Some (ps ! i, tgt (cs ! i))" "map_of res (cs ! j) = Some (ps ! i, tgt (cs ! i))" by auto
      from ports_invD(3) [OF r(2) this] show "cs ! i = cs ! j" .
    next
      assume "cs ! i = cs ! j"
      with r(4) that show "ps ! i = ps ! j" by (metis option.inject prod.inject)
    qed
    ultimately show ?thesis using True r(1,3) by simp
  next
    case False
    with assign_ports_spec [OF inv, of cs] w have "assign_ports (map (\<lambda>c. (c, tgt c)) cs) [] = Inl RuntimeError" by auto
    with False show ?thesis by (auto simp: not_le)
  qed
qed

theorem ports_serve_four_peers_witness:
  "assign_ports (map (\<lambda>c. (c, ''n'')) [''a'', ''b'', ''c'', ''d'', ''e'']) [] = Inl RuntimeError"
proof -
  let ?cs = "[''a'', ''b'', ''c'', ''d'', ''e'']"
  have "{c \<in> set ?cs. ''n'' = ''n''} = set ?cs" by blast
  then have "card {c \<in> set ?cs. ''n'' = ''n''} = card (set ?cs)" by (rule arg_cong)
  also have "\<dots> = 5" by simp
  finally have "\<not> card {c \<in> set ?cs. ''n'' = ''n''} \<le> 4" by linarith
  then have "\<not> (\<forall>n. card {c \<in> set ?cs. ''n'' = n} \<le> 4)" by blast
  with ports_serve_four_peers [where tgt = "\<lambda>_. ''n''" and cs = ?cs] show ?thesis
    by (cases "assign_ports (map (\<lambda>c. (c, ''n'')) ?cs) []") (simp_all del: assign_ports.simps list.map split: prod.splits)
qed

section \<open>Channels of a job\<close>

definition conn_target :: "string \<Rightarrow> string" where
  "conn_target c = drop 1 (dropWhile (\<lambda>x. x \<noteq> CHR ''-'') c)"

lemma conn_target_conn: "CHR ''-'' \<notin> set src \<Longrightarrow> conn_target (src @ ''-'' @ tgt) = tgt"
proof -
  assume "CHR ''-'' \<notin> set src"
  then have "dropWhile (\<lambda>x. x \<noteq> CHR ''-'') (src @ ''-'' @ tgt) = ''-'' @ tgt"
    by (subst dropWhile_append2) auto
  then show ?thesis by (simp add: conn_target_def)
qed

definition remotes :: "connections \<Rightarrow> remote_channel list" where
  "remotes c = concat (map (\<lambda>(_, ch). case ch of RemoteChannel r \<Rightarrow> [r] | _ \<Rightarrow> []) (cn_channels c))"

definition node_lists :: "node_channels \<Rightarrow> string \<Rightarrow> remote_channel list \<times> remote_channel list" where
  "node_lists d n = (case map_of d n of None \<Rightarrow> ([], []) | Some x \<Rightarrow> x)"

lemma node_lists_add:
  "node_lists (add_remote n inc ch d) m =
   (if m = n then (if inc then (fst (node_lists d n) @ [ch], snd (node_lists d n)) else (fst (node_lists d n), snd (node_lists d n) @ [ch]))
    else node_lists d m)"
  by (auto simp: node_lists_def add_remote_def split: prod.splits option.splits)

lemma add_remote_nonempty: "(\<And>n. map_of d n \<noteq> Some ([], [])) \<Longrightarrow> map_of (add_remote m inc ch d) n \<noteq> Some ([], [])"
  by (auto simp: add_remote_def split: prod.splits)

lemma wf_add_remote: "wf_dict d \<Longrightarrow> wf_dict (add_remote n inc ch d)"
  by (auto simp: add_remote_def split: prod.splits)

text \<open>
  What holds after each round: the transfer actor of a node gets the remote channels into and out of it in order, and
  each remote channel has the port of its pair of nodes.
\<close>

definition conn_id_of :: "remote_channel \<Rightarrow> string" where
  "conn_id_of r = rch_source_node_id r @ ''-'' @ rch_target_node_id r"

definition conn_inv :: "(string \<Rightarrow> string) \<Rightarrow> connections \<Rightarrow> bool" where
  "conn_inv ip_of c \<longleftrightarrow>
     wf_dict (cn_remote_channels_per_node c) \<and> (\<forall>n. map_of (cn_remote_channels_per_node c) n \<noteq> Some ([], [])) \<and>
     (\<forall>n. node_lists (cn_remote_channels_per_node c) n =
        (filter (\<lambda>r. rch_target_node_id r = n) (remotes c), filter (\<lambda>r. rch_source_node_id r = n) (remotes c))) \<and>
     ports_inv conn_target (cn_reserved_node_ports c) \<and>
     (\<forall>r \<in> set (remotes c). map_of (cn_reserved_node_ports c) (conn_id_of r) = Some (rch_port r, rch_target_node_id r) \<and>
        rch_source_node_ip r = ip_of (rch_source_node_id r) \<and> rch_target_node_ip r = ip_of (rch_target_node_id r) \<and>
        CHR ''-'' \<notin> set (rch_source_node_id r)) \<and>
     (\<forall>(i, ch) \<in> set (cn_channels c). channel_id ch = i)"

lemma conn_invD:
  assumes "conn_inv ip_of c"
  shows "wf_dict (cn_remote_channels_per_node c)"
    "node_lists (cn_remote_channels_per_node c) n =
        (filter (\<lambda>r. rch_target_node_id r = n) (remotes c), filter (\<lambda>r. rch_source_node_id r = n) (remotes c))"
    "ports_inv conn_target (cn_reserved_node_ports c)"
    "r \<in> set (remotes c) \<Longrightarrow> map_of (cn_reserved_node_ports c) (conn_id_of r) = Some (rch_port r, rch_target_node_id r)"
    "r \<in> set (remotes c) \<Longrightarrow> rch_source_node_ip r = ip_of (rch_source_node_id r)"
    "r \<in> set (remotes c) \<Longrightarrow> rch_target_node_ip r = ip_of (rch_target_node_id r)"
    "r \<in> set (remotes c) \<Longrightarrow> CHR ''-'' \<notin> set (rch_source_node_id r)"
    "(i, ch) \<in> set (cn_channels c) \<Longrightarrow> channel_id ch = i"
    "map_of (cn_remote_channels_per_node c) n \<noteq> Some ([], [])"
  using assms unfolding conn_inv_def by auto

text \<open>The channel an edge needs, by the nodes of its ends.\<close>

definition channel_for :: "(string, worker_node_info) dict \<Rightarrow> ('k, 'v) exec_edge \<Rightarrow> string \<times> channel \<Rightarrow> bool" where
  "channel_for infos e x \<longleftrightarrow> fst x = ee_id e \<and> channel_id (snd x) = ee_id e \<and>
     (\<exists>src tgt. map_of infos (ee_source e) = Some src \<and> map_of infos (ee_target e) = Some tgt \<and>
        (case snd x of
           LocalChannel _ _ \<Rightarrow> wn_node_id src = wn_node_id tgt
         | RemoteChannel r \<Rightarrow> wn_node_id src \<noteq> wn_node_id tgt \<and> rch_source_node_id r = wn_node_id src \<and>
             rch_target_node_id r = wn_node_id tgt))"

lemma conn_inv_local:
  "conn_inv ip_of c \<Longrightarrow> conn_inv ip_of (c\<lparr>cn_channels := cn_channels c @ [(i, LocalChannel i addr)]\<rparr>)"
  by (auto simp: conn_inv_def remotes_def)

lemma conn_inv_remote:
  assumes inv: "conn_inv ip_of c" and res: "ports_inv conn_target res"
    "\<forall>d. dict_mem d (cn_reserved_node_ports c) \<longrightarrow> map_of res d = map_of (cn_reserved_node_ports c) d"
    and r: "map_of res (conn_id_of r) = Some (rch_port r, rch_target_node_id r)" "rch_source_node_id r \<noteq> rch_target_node_id r"
      "rch_source_node_ip r = ip_of (rch_source_node_id r)" "rch_target_node_ip r = ip_of (rch_target_node_id r)"
      "CHR ''-'' \<notin> set (rch_source_node_id r)" "rch_channel_id r = i"
  shows "conn_inv ip_of (c\<lparr>cn_reserved_node_ports := res,
      cn_remote_channels_per_node := add_remote (rch_target_node_id r) True r (add_remote (rch_source_node_id r) False r (cn_remote_channels_per_node c)),
      cn_channels := cn_channels c @ [(i, RemoteChannel r)]\<rparr>)" (is "conn_inv ip_of ?c")
proof -
  note v = conn_invD [OF inv]
  have rem: "remotes ?c = remotes c @ [r]" by (simp add: remotes_def)
  have "wf_dict (cn_remote_channels_per_node ?c)" using v(1) by (simp add: wf_add_remote)
  moreover have "map_of (cn_remote_channels_per_node ?c) n \<noteq> Some ([], [])" for n
    using v(9) by (simp add: add_remote_nonempty)
  moreover have "node_lists (cn_remote_channels_per_node ?c) n =
      (filter (\<lambda>r. rch_target_node_id r = n) (remotes ?c), filter (\<lambda>r. rch_source_node_id r = n) (remotes ?c))" for n
    unfolding rem using v(2) r(2) by (auto simp: node_lists_add)
  moreover have "map_of res (conn_id_of q) = Some (rch_port q, rch_target_node_id q)" if "q \<in> set (remotes ?c)" for q
  proof (cases "q = r")
    case False
    with that rem have q: "q \<in> set (remotes c)" by auto
    from v(4) [OF q] res(2) show ?thesis by (metis dict_mem_def option.distinct(1))
  qed (simp add: r(1))
  moreover have "\<forall>q \<in> set (remotes ?c). rch_source_node_ip q = ip_of (rch_source_node_id q) \<and> rch_target_node_ip q = ip_of (rch_target_node_id q) \<and>
      CHR ''-'' \<notin> set (rch_source_node_id q)"
    unfolding rem using v(5-7) r(3-5) by auto
  moreover have "\<forall>(i, ch) \<in> set (cn_channels ?c). channel_id ch = i" using v(8) r(6) by auto
  ultimately show ?thesis unfolding conn_inv_def using res(1) by simp
qed

lemma connect_edge_ok:
  assumes inv: "conn_inv ip_of c" and i: "map_of infos (ee_source e) = Some src" "map_of infos (ee_target e) = Some tgt"
    and ip: "wn_node_ip src = ip_of (wn_node_id src)" "wn_node_ip tgt = ip_of (wn_node_id tgt)" "CHR ''-'' \<notin> set (wn_node_id src)"
    and room: "wn_node_id src \<noteq> wn_node_id tgt \<Longrightarrow> dict_mem (wn_node_id src @ ''-'' @ wn_node_id tgt) (cn_reserved_node_ports c) \<or>
      card (peers conn_target (wn_node_id tgt) (cn_reserved_node_ports c)) < 4"
  shows "\<exists>c' x. connect_edge job infos e c = Inr c' \<and> conn_inv ip_of c' \<and> cn_channels c' = cn_channels c @ [x] \<and> channel_for infos e x \<and>
    (\<forall>d. dict_mem d (cn_reserved_node_ports c') \<longrightarrow> d = wn_node_id src @ ''-'' @ wn_node_id tgt \<and> wn_node_id src \<noteq> wn_node_id tgt \<or>
       dict_mem d (cn_reserved_node_ports c))"
proof (cases "wn_node_id src = wn_node_id tgt")
  case True
  let ?x = "(ee_id e, LocalChannel (ee_id e) (gen_ipc_addr job (ee_id e) None))"
  have "connect_edge job infos e c = Inr (c\<lparr>cn_channels := cn_channels c @ [?x]\<rparr>)"
    using i True by (simp add: connect_edge_def)
  moreover have "channel_for infos e ?x" using i True by (simp add: channel_for_def)
  ultimately show ?thesis using conn_inv_local [OF inv]
    by (intro exI [of _ "c\<lparr>cn_channels := cn_channels c @ [?x]\<rparr>"] exI [of _ ?x]) simp
next
  case False
  let ?conn = "wn_node_id src @ ''-'' @ wn_node_id tgt"
  have ct: "conn_target ?conn = wn_node_id tgt" by (rule conn_target_conn [OF ip(3)])
  from gen_port_ok [OF conn_invD(3) [OF inv], of ?conn] room [OF False] ct obtain p res where
    g: "gen_port ?conn (wn_node_id tgt) (cn_reserved_node_ports c) = Inr (p, res)" "ports_inv conn_target res"
    "map_of res ?conn = Some (p, wn_node_id tgt)" "\<forall>d. dict_mem d res \<longleftrightarrow> d = ?conn \<or> dict_mem d (cn_reserved_node_ports c)"
    "\<forall>d. dict_mem d (cn_reserved_node_ports c) \<longrightarrow> map_of res d = map_of (cn_reserved_node_ports c) d" by auto
  define r where "r = \<lparr>rch_channel_id = ee_id e,
      rch_source_local_ipc_addr = gen_ipc_addr job (ee_id e) (Some (wn_node_id src)),
      rch_source_node_ip = wn_node_ip src, rch_source_node_id = wn_node_id src,
      rch_target_local_ipc_addr = gen_ipc_addr job (ee_id e) (Some (wn_node_id tgt)),
      rch_target_node_ip = wn_node_ip tgt, rch_target_node_id = wn_node_id tgt, rch_port = p\<rparr>"
  let ?c = "c\<lparr>cn_reserved_node_ports := res,
      cn_remote_channels_per_node := add_remote (rch_target_node_id r) True r (add_remote (rch_source_node_id r) False r (cn_remote_channels_per_node c)),
      cn_channels := cn_channels c @ [(ee_id e, RemoteChannel r)]\<rparr>"
  have rf: "rch_source_node_id r = wn_node_id src" "rch_target_node_id r = wn_node_id tgt" "rch_channel_id r = ee_id e"
    by (simp_all add: r_def)
  have "connect_edge job infos e c = Inr ?c"
    using i False g(1) by (simp add: connect_edge_def Let_def r_def)
  moreover have "conn_inv ip_of ?c"
    by (rule conn_inv_remote [OF inv g(2,5)]) (use False ip g(3) in \<open>simp_all add: r_def conn_id_of_def\<close>)
  moreover have "channel_for infos e (ee_id e, RemoteChannel r)" using i False rf by (simp add: channel_for_def)
  moreover have "\<forall>d. dict_mem d (cn_reserved_node_ports ?c) \<longrightarrow> d = ?conn \<and> wn_node_id src \<noteq> wn_node_id tgt \<or> dict_mem d (cn_reserved_node_ports c)"
    using g(4) False by simp
  ultimately show ?thesis by (intro exI [of _ ?c] exI [of _ "(ee_id e, RemoteChannel r)"]) simp
qed

definition remote_sources :: "(string, worker_node_info) dict \<Rightarrow> ('k, 'v) exec_edge list \<Rightarrow> string \<Rightarrow> string set" where
  "remote_sources infos es n = {wn_node_id src | e src tgt. e \<in> set es \<and> map_of infos (ee_source e) = Some src \<and>
     map_of infos (ee_target e) = Some tgt \<and> wn_node_id src \<noteq> wn_node_id tgt \<and> wn_node_id tgt = n}"

lemma finite_remote_sources: "finite (remote_sources infos es n)"
proof -
  have "remote_sources infos es n \<subseteq> (\<lambda>e. wn_node_id (the (map_of infos (ee_source e)))) ` set es"
    by (force simp: remote_sources_def)
  then show ?thesis by (rule finite_subset) simp
qed

lemma peers_room:
  assumes keys: "\<forall>d. dict_mem d res \<longrightarrow> (\<exists>n. \<exists>s \<in> remote_sources infos es n. d = s @ ''-'' @ n \<and> CHR ''-'' \<notin> set s)"
    and s: "s \<in> remote_sources infos es n" and lim: "card (remote_sources infos es n) \<le> 4" and new: "\<not> dict_mem (s @ ''-'' @ n) res"
  shows "card (peers conn_target n res) < 4"
proof -
  let ?f = "\<lambda>s. s @ ''-'' @ n"
  have "peers conn_target n res \<subseteq> ?f ` (remote_sources infos es n - {s})"
  proof
    fix d assume d: "d \<in> peers conn_target n res"
    with keys obtain m t where t: "t \<in> remote_sources infos es m" "d = t @ ''-'' @ m" "CHR ''-'' \<notin> set t" by (auto simp: peers_def)
    have "m = n" using d t(2) conn_target_conn [OF t(3), of m] by (simp add: peers_def)
    moreover have "t \<noteq> s" using d new t(2) \<open>m = n\<close> by (auto simp: peers_def)
    ultimately show "d \<in> ?f ` (remote_sources infos es n - {s})" using t(1,2) by auto
  qed
  then have "card (peers conn_target n res) \<le> card (remote_sources infos es n - {s})"
    by (meson card_image_le card_mono finite_Diff finite_imageI finite_remote_sources le_trans)
  also have "\<dots> < card (remote_sources infos es n)" using s by (intro psubset_card_mono finite_remote_sources) auto
  finally show ?thesis using lim by simp
qed

lemma connect_edges_ok:
  assumes infos: "\<forall>v i. map_of infos v = Some i \<longrightarrow> wn_node_ip i = ip_of (wn_node_id i) \<and> CHR ''-'' \<notin> set (wn_node_id i)"
    and lim: "\<forall>n. card (remote_sources infos all n) \<le> 4"
    and es: "set es \<subseteq> set all" "\<forall>e \<in> set es. dict_mem (ee_source e) infos \<and> dict_mem (ee_target e) infos"
    and inv: "conn_inv ip_of c"
    and keys: "\<forall>d. dict_mem d (cn_reserved_node_ports c) \<longrightarrow>
      (\<exists>n. \<exists>s \<in> remote_sources infos all n. d = s @ ''-'' @ n \<and> CHR ''-'' \<notin> set s)"
  shows "\<exists>c' xs. rfold (connect_edge job infos) es c = Inr c' \<and> conn_inv ip_of c' \<and> cn_channels c' = cn_channels c @ xs \<and>
    list_all2 (channel_for infos) es xs"
  using es inv keys
proof (induction es arbitrary: c)
  case (Cons e es)
  from Cons.prems(2) obtain src tgt where i: "map_of infos (ee_source e) = Some src" "map_of infos (ee_target e) = Some tgt"
    by (auto simp: dict_mem_def)
  from infos i have ip: "wn_node_ip src = ip_of (wn_node_id src)" "wn_node_ip tgt = ip_of (wn_node_id tgt)" "CHR ''-'' \<notin> set (wn_node_id src)" by auto
  have src: "wn_node_id src \<in> remote_sources infos all (wn_node_id tgt)" if "wn_node_id src \<noteq> wn_node_id tgt"
    using that Cons.prems(1) i by (fastforce simp: remote_sources_def)
  have room: "dict_mem (wn_node_id src @ ''-'' @ wn_node_id tgt) (cn_reserved_node_ports c) \<or>
      card (peers conn_target (wn_node_id tgt) (cn_reserved_node_ports c)) < 4" if "wn_node_id src \<noteq> wn_node_id tgt"
    using peers_room [OF Cons.prems(4) src [OF that]] lim by blast
  from connect_edge_ok [OF Cons.prems(3) i ip room] obtain c1 x where
    1: "connect_edge job infos e c = Inr c1" "conn_inv ip_of c1" "cn_channels c1 = cn_channels c @ [x]" "channel_for infos e x"
    "\<forall>d. dict_mem d (cn_reserved_node_ports c1) \<longrightarrow> d = wn_node_id src @ ''-'' @ wn_node_id tgt \<and> wn_node_id src \<noteq> wn_node_id tgt \<or>
       dict_mem d (cn_reserved_node_ports c)" by blast
  have "\<forall>d. dict_mem d (cn_reserved_node_ports c1) \<longrightarrow> (\<exists>n. \<exists>s \<in> remote_sources infos all n. d = s @ ''-'' @ n \<and> CHR ''-'' \<notin> set s)"
    using 1(5) Cons.prems(4) src ip(3) by blast
  from Cons.IH [OF _ _ 1(2) this] Cons.prems(1,2) obtain c2 xs where
    2: "rfold (connect_edge job infos) es c1 = Inr c2" "conn_inv ip_of c2" "cn_channels c2 = cn_channels c1 @ xs" "list_all2 (channel_for infos) es xs"
    by auto
  with 1 show ?case by (intro exI [of _ c2] exI [of _ "x # xs"]) simp
qed simp

lemma check_channels_ok:
  assumes "\<forall>ch \<in> set chs. f ch = n \<and> g ch = ip" "start = None \<or> start = Some ip"
  shows "rfold (\<lambda>ch. check_channel n (f ch) (g ch)) chs start = Inr (if chs = [] then start else Some ip)"
  using assms by (induction chs arbitrary: start) (auto simp: check_channel_def Let_def split: option.splits)

lemma create_actors_ok:
  assumes "\<forall>(n, ins, outs) \<in> set ds. (ins, outs) \<noteq> ([], []) \<and>
      (\<forall>r \<in> set ins. rch_target_node_id r = n \<and> rch_target_node_ip r = ip_of n) \<and>
      (\<forall>r \<in> set outs. rch_source_node_id r = n \<and> rch_source_node_ip r = ip_of n)"
    and "distinct (map fst ds)" "\<forall>n \<in> fst ` set ds. \<not> dict_mem n actors"
  shows "rfold create_transfer_actor ds actors = Inr (actors @ map (\<lambda>(n, _). (n, ''transfer-'' @ ip_of n)) ds)"
  using assms
proof (induction ds arbitrary: actors)
  case (Cons x ds)
  obtain n ins outs where x: "x = (n, ins, outs)" by (cases x)
  have 1: "rfold (\<lambda>ch. check_channel n (rch_target_node_id ch) (rch_target_node_ip ch)) ins None =
      Inr (if ins = [] then None else Some (ip_of n))"
    using Cons.prems(1) x by (intro check_channels_ok) auto
  have 2: "rfold (\<lambda>ch. check_channel n (rch_source_node_id ch) (rch_source_node_ip ch)) outs (if ins = [] then None else Some (ip_of n)) =
      Inr (if outs = [] then (if ins = [] then None else Some (ip_of n)) else Some (ip_of n))"
    using Cons.prems(1) x by (intro check_channels_ok) auto
  have "(if outs = [] then (if ins = [] then None else Some (ip_of n)) else Some (ip_of n)) = Some (ip_of n)"
    using Cons.prems(1) x by auto
  with 1 2 Cons.prems(3) x have "create_transfer_actor x actors = Inr (actors @ [(n, ''transfer-'' @ ip_of n)])"
    by (simp add: create_transfer_actor_def update_fresh)
  moreover have "\<forall>m \<in> fst ` set ds. \<not> dict_mem m (actors @ [(n, ''transfer-'' @ ip_of n)])"
    using Cons.prems(2,3) x by (auto simp: dict_mem_iff image_iff)
  ultimately show ?case using Cons.IH [of "actors @ [(n, ''transfer-'' @ ip_of n)]"] Cons.prems(1,2) x by simp
qed simp

lemma create_actors_inv:
  assumes "conn_inv ip_of c"
  shows "\<exists>actors. create_transfer_actors (cn_remote_channels_per_node c) [] = Inr actors \<and>
    fst ` set actors = rch_source_node_id ` set (remotes c) \<union> rch_target_node_id ` set (remotes c)"
proof -
  note v = conn_invD [OF assms]
  let ?d = "cn_remote_channels_per_node c"
  have entry: "(ins, outs) = (filter (\<lambda>r. rch_target_node_id r = n) (remotes c), filter (\<lambda>r. rch_source_node_id r = n) (remotes c)) \<and>
      (ins, outs) \<noteq> ([], [])" if "(n, ins, outs) \<in> set ?d" for n ins outs
  proof -
    have m: "map_of ?d n = Some (ins, outs)" using that v(1) by (simp add: wf_dict_def)
    then have "node_lists ?d n = (ins, outs)" by (simp add: node_lists_def)
    with v(2) [of n] v(9) [of n] m show ?thesis by auto
  qed
  have "\<forall>(n, ins, outs) \<in> set ?d. (ins, outs) \<noteq> ([], []) \<and>
      (\<forall>r \<in> set ins. rch_target_node_id r = n \<and> rch_target_node_ip r = ip_of n) \<and>
      (\<forall>r \<in> set outs. rch_source_node_id r = n \<and> rch_source_node_ip r = ip_of n)"
    using entry v(5,6) by fastforce
  from create_actors_ok [OF this, of "[]"] v(1)
  have "create_transfer_actors ?d [] = Inr (map (\<lambda>(n, _). (n, ''transfer-'' @ ip_of n)) ?d)"
    by (simp add: create_transfer_actors_def wf_dict_def dict_mem_def)
  moreover have "fst ` set (map (\<lambda>(n, _). (n, ''transfer-'' @ ip_of n)) ?d) =
      rch_source_node_id ` set (remotes c) \<union> rch_target_node_id ` set (remotes c)" (is "?L = ?R")
  proof (intro equalityI subsetI)
    fix n assume "n \<in> ?L"
    then obtain ins outs where "(n, ins, outs) \<in> set ?d" by auto
    from entry [OF this] show "n \<in> ?R" by (auto simp: filter_empty_conv)
  next
    fix n assume "n \<in> ?R"
    then have "node_lists ?d n \<noteq> ([], [])" using v(2) [of n] by (auto simp: filter_empty_conv)
    then have "n \<in> fst ` set ?d" using dict_mem_iff [of n ?d] by (auto simp: node_lists_def dict_mem_def split: option.splits)
    then show "n \<in> ?L" by force
  qed
  ultimately show ?thesis by blast
qed

lemma connect_all:
  fixes g :: "('o, 'k, 'v) exec_graph"
  assumes "\<forall>e \<in> set (eg_edges g). dict_mem (ee_source e) infos \<and> dict_mem (ee_target e) infos"
    and "\<forall>v i. map_of infos v = Some i \<longrightarrow> wn_node_ip i = ip_of (wn_node_id i) \<and> CHR ''-'' \<notin> set (wn_node_id i)"
    and "\<forall>n. card (remote_sources infos (eg_edges g) n) \<le> 4"
  shows "\<exists>c actors. connect_and_init_workers job infos [] [] g = Inr (c, actors) \<and>
    list_all2 (channel_for infos) (eg_edges g) (cn_channels c) \<and>
    (\<forall>r \<in> set (remotes c). \<forall>q \<in> set (remotes c). rch_target_node_id r = rch_target_node_id q \<longrightarrow>
       (rch_port r = rch_port q) = (rch_source_node_id r = rch_source_node_id q)) \<and>
    fst ` set actors = rch_source_node_id ` set (remotes c) \<union> rch_target_node_id ` set (remotes c)"
proof -
  let ?c0 = "\<lparr>cn_reserved_node_ports = [], cn_remote_channels_per_node = [], cn_channels = []\<rparr>"
  have "conn_inv ip_of ?c0" by (simp add: conn_inv_def remotes_def node_lists_def ports_inv_def)
  with connect_edges_ok [OF assms(2,3) subset_refl assms(1), of ?c0 job] obtain c where
    c: "rfold (connect_edge job infos) (eg_edges g) ?c0 = Inr c" "conn_inv ip_of c" "list_all2 (channel_for infos) (eg_edges g) (cn_channels c)"
    by (auto simp: dict_mem_def)
  from create_actors_inv [OF c(2)] obtain actors where
    a: "create_transfer_actors (cn_remote_channels_per_node c) [] = Inr actors"
    "fst ` set actors = rch_source_node_id ` set (remotes c) \<union> rch_target_node_id ` set (remotes c)" by blast
  note v = conn_invD [OF c(2)]
  have "(rch_port r = rch_port q) = (rch_source_node_id r = rch_source_node_id q)"
    if rq: "r \<in> set (remotes c)" "q \<in> set (remotes c)" "rch_target_node_id r = rch_target_node_id q" for r q
  proof
    assume "rch_port r = rch_port q"
    then have "map_of (cn_reserved_node_ports c) (conn_id_of q) = Some (rch_port r, rch_target_node_id r)" using v(4) [OF rq(2)] rq(3) by simp
    from ports_invD(3) [OF v(3) v(4) [OF rq(1)] this] show "rch_source_node_id r = rch_source_node_id q"
      using rq(3) by (simp add: conn_id_of_def)
  next
    assume "rch_source_node_id r = rch_source_node_id q"
    then have "conn_id_of r = conn_id_of q" using rq(3) by (simp add: conn_id_of_def)
    with v(4) [OF rq(1)] v(4) [OF rq(2)] show "rch_port r = rch_port q" by simp
  qed
  with c(1,3) a show ?thesis by (intro exI [of _ c] exI [of _ actors]) (simp add: connect_and_init_workers_def)
qed

lemma sample_workers:
  assumes "from_job_graph sample_graph = Inr g"
    and "infos = map (\<lambda>(i, v). (i, \<lparr>wn_node_ip = ''ip'', wn_node_id = ''n''\<rparr>)) (eg_by_id g)"
  shows "\<forall>e \<in> set (eg_edges g). dict_mem (ee_source e) infos \<and> dict_mem (ee_target e) infos"
    and "\<forall>v i. map_of infos v = Some i \<longrightarrow> wn_node_ip i = (\<lambda>_. ''ip'') (wn_node_id i) \<and> CHR ''-'' \<notin> set (wn_node_id i)"
    and "\<forall>n. card (remote_sources infos (eg_edges g) n) \<le> 4"
proof -
  have g: "eg_by_id g = map (\<lambda>v. (ev_id v, v)) (concat (map exec_vertices_of (jg_job_vertices sample_graph)))"
    "eg_edges g = concat (map (edges_of sample_graph) (jg_job_edges sample_graph))"
    using from_job_graph_closed [OF sample_graph_expandable] assms(1) by auto
  have val: "i = \<lparr>wn_node_ip = ''ip'', wn_node_id = ''n''\<rparr>" if "map_of infos v = Some i" for v i
    using map_of_SomeD [OF that] assms(2) by auto
  have par: "par_of sample_graph 1 = 2" "par_of sample_graph 2 = 2" "par_of sample_graph 3 = 1"
    by (simp_all add: par_of_def vertex_map_def sample_graph_def)
  have keys: "fst ` set infos = {exec_id 1 0, exec_id 1 1, exec_id 2 0, exec_id 2 1, exec_id 3 0}"
    unfolding assms(2) g(1) by (auto simp: sample_graph_def exec_vertices_of_def ev_id_def image_iff numeral_2_eq_2)
  show "\<forall>e \<in> set (eg_edges g). dict_mem (ee_source e) infos \<and> dict_mem (ee_target e) infos"
    unfolding dict_mem_iff keys g(2) using par
    by (auto simp: sample_graph_def edges_of_def JobEdge_def numeral_2_eq_2 less_Suc_eq)
  show "\<forall>v i. map_of infos v = Some i \<longrightarrow> wn_node_ip i = (\<lambda>_. ''ip'') (wn_node_id i) \<and> CHR ''-'' \<notin> set (wn_node_id i)"
  proof (intro allI impI)
    fix v i assume "map_of infos v = Some i"
    from val [OF this] show "wn_node_ip i = (\<lambda>_. ''ip'') (wn_node_id i) \<and> CHR ''-'' \<notin> set (wn_node_id i)" by simp
  qed
  have "remote_sources infos (eg_edges g) n = {}" for n
  proof -
    have "wn_node_id src = wn_node_id tgt" if "map_of infos a = Some src" "map_of infos b = Some tgt" for a b src tgt
      using val [OF that(1)] val [OF that(2)] by simp
    then show ?thesis unfolding remote_sources_def by blast
  qed
  then show "\<forall>n. card (remote_sources infos (eg_edges g) n) \<le> 4" by simp
qed

text \<open>
  Connecting the workers of a job succeeds when every worker's host is known and no node receives from more than
  four other nodes: every execution edge gets its channel, local exactly when both ends are on one node; the ports
  of two remote channels into one node are equal exactly when they come from the same node; the
  checks on the transfer actors pass, and there is one actor per node with a remote channel.
\<close>

theorem connect_workers_channels:
  fixes g :: "('o, 'k, 'v) exec_graph"
  assumes "\<forall>e \<in> set (eg_edges g). dict_mem (ee_source e) infos \<and> dict_mem (ee_target e) infos"
    and "\<forall>v i. map_of infos v = Some i \<longrightarrow> wn_node_ip i = ip_of (wn_node_id i) \<and> CHR ''-'' \<notin> set (wn_node_id i)"
    and "\<forall>n. card (remote_sources infos (eg_edges g) n) \<le> 4"
  shows "\<exists>c actors. connect_and_init_workers job infos [] [] g = Inr (c, actors) \<and>
    list_all2 (channel_for infos) (eg_edges g) (cn_channels c) \<and>
    (\<forall>r \<in> set (remotes c). \<forall>q \<in> set (remotes c). rch_target_node_id r = rch_target_node_id q \<longrightarrow>
       (rch_port r = rch_port q) = (rch_source_node_id r = rch_source_node_id q)) \<and>
    fst ` set actors = rch_source_node_id ` set (remotes c) \<union> rch_target_node_id ` set (remotes c)"
  by (rule connect_all [OF assms])

theorem connect_workers_channels_witness:
  "\<exists>g c actors. from_job_graph sample_graph = Inr g \<and>
     connect_and_init_workers ''job'' (map (\<lambda>(i, v). (i, \<lparr>wn_node_ip = ''ip'', wn_node_id = ''n''\<rparr>)) (eg_by_id g)) [] [] g = Inr (c, actors) \<and>
     map fst (cn_channels c) = map ee_id (eg_edges g)"
proof -
  obtain g where g: "from_job_graph sample_graph = Inr g"
    using from_job_graph_closed [OF sample_graph_expandable] by blast
  let ?infos = "map (\<lambda>(i, v). (i, \<lparr>wn_node_ip = ''ip'', wn_node_id = ''n''\<rparr>)) (eg_by_id g)"
  from connect_workers_channels [OF sample_workers [OF g refl], of "''job''"] obtain c actors where
    *: "connect_and_init_workers ''job'' ?infos [] [] g = Inr (c, actors)" "list_all2 (channel_for ?infos) (eg_edges g) (cn_channels c)" by blast
  from *(2) have "map fst (cn_channels c) = map ee_id (eg_edges g)"
    by (induction rule: list_all2_induct) (auto simp: channel_for_def)
  with * g(1) show ?thesis by blast
qed

section \<open>Sources and workers\<close>

lemma init_sources_fold:
  assumes "wf_dict d" "\<forall>i b. map_of d i = Some b \<longrightarrow> \<not> b"
  defines "u \<equiv> (\<lambda>v. AList.update (ev_id v) False)"
  shows "wf_dict (fold u vs d) \<and> fst ` set (fold u vs d) = fst ` set d \<union> ev_id ` set vs \<and>
    (\<forall>i b. map_of (fold u vs d) i = Some b \<longrightarrow> \<not> b)"
  using assms(1,2)
proof (induction vs arbitrary: d)
  case (Cons v vs)
  have k: "fst ` set (u v d) = insert (ev_id v) (fst ` set d)" by (simp add: dom_update u_def)
  have "wf_dict (u v d)" "\<forall>i b. map_of (u v d) i = Some b \<longrightarrow> \<not> b" using Cons.prems by (auto simp: u_def)
  from Cons.IH [OF this] show ?case unfolding k by (simp del: not_Some_eq) blast
qed simp

lemma init_sources_facts:
  "wf_dict (init_sources g)" "fst ` set (init_sources g) = ev_id ` set (eg_source_vertices g)"
  "map_of (init_sources g) i = Some b \<Longrightarrow> \<not> b"
  using init_sources_fold [of "[]" "eg_source_vertices g"] unfolding init_sources_def by (simp, simp, force)

lemma notify_run:
  assumes "wf_dict d" "fst ` set d = V" "\<And>i b. map_of d i = Some b \<Longrightarrow> b = (i \<in> S)"
  shows "case rfold notify_source_finished ids d of
      Inl e \<Rightarrow> e = RuntimeError \<and> \<not> set ids \<subseteq> V
    | Inr d' \<Rightarrow> set ids \<subseteq> V \<and> wf_dict d' \<and> fst ` set d' = V \<and> (\<forall>i b. map_of d' i = Some b \<longrightarrow> b = (i \<in> S \<union> set ids))"
  using assms
proof (induction ids arbitrary: d S)
  case (Cons i ids)
  show ?case
  proof (cases "i \<in> V")
    case True
    have k: "fst ` set (AList.update i True d) = V" using True Cons.prems(2) by (simp add: dom_update insert_absorb)
    have "wf_dict (AList.update i True d)" using Cons.prems(1) by simp
    moreover have "b = (j \<in> insert i S)" if "map_of (AList.update i True d) j = Some b" for j b
      using that Cons.prems(3) [of j b] by (auto split: if_splits)
    ultimately have "case rfold notify_source_finished ids (AList.update i True d) of
      Inl e \<Rightarrow> e = RuntimeError \<and> \<not> set ids \<subseteq> V
    | Inr d' \<Rightarrow> set ids \<subseteq> V \<and> wf_dict d' \<and> fst ` set d' = V \<and> (\<forall>j b. map_of d' j = Some b \<longrightarrow> b = (j \<in> insert i S \<union> set ids))"
      by (rule Cons.IH [OF _ k])
    moreover have "notify_source_finished i d = Inr (AList.update i True d)"
      using True Cons.prems(2) by (simp add: notify_source_finished_def dict_mem_iff)
    ultimately show ?thesis using True by (simp split: sum.splits)
  next
    case False
    with Cons.prems(2) show ?thesis by (simp add: notify_source_finished_def dict_mem_iff)
  qed
next
  case Nil
  then show ?case by simp
qed

lemma all_sources_finished_iff: "all_sources_finished d \<longleftrightarrow> (\<forall>x \<in> set d. snd x)"
proof -
  have "fold (\<lambda>(_, b) acc. acc \<and> b) d x \<longleftrightarrow> x \<and> (\<forall>x \<in> set d. snd x)" for x by (induction d arbitrary: x) auto
  then show ?thesis by (simp add: all_sources_finished_def)
qed

text \<open>
  The job's sources count as finished exactly when each source task was reported: after any sequence of
  reports of known tasks, waiting ends if and only if every source vertex of the execution graph is among them; a
  report of an unknown task raises.
\<close>

theorem sources_finished_exact:
  "case rfold notify_source_finished ids (init_sources g) of
     Inl e \<Rightarrow> e = RuntimeError \<and> \<not> set ids \<subseteq> ev_id ` set (eg_source_vertices g)
   | Inr d \<Rightarrow> set ids \<subseteq> ev_id ` set (eg_source_vertices g) \<and>
       all_sources_finished d = (ev_id ` set (eg_source_vertices g) \<subseteq> set ids)"
proof -
  let ?V = "ev_id ` set (eg_source_vertices g)"
  have none: "b = (i \<in> {})" if "map_of (init_sources g) i = Some b" for i b using init_sources_facts(3) [OF that] by simp
  have run: "case rfold notify_source_finished ids (init_sources g) of
      Inl e \<Rightarrow> e = RuntimeError \<and> \<not> set ids \<subseteq> ?V
    | Inr d' \<Rightarrow> set ids \<subseteq> ?V \<and> wf_dict d' \<and> fst ` set d' = ?V \<and> (\<forall>i b. map_of d' i = Some b \<longrightarrow> b = (i \<in> {} \<union> set ids))"
    by (rule notify_run [OF init_sources_facts(1,2) none])
  show ?thesis
  proof (cases "rfold notify_source_finished ids (init_sources g)")
    case (Inl e)
    with run show ?thesis by simp
  next
    case (Inr d)
    with run have d: "set ids \<subseteq> ?V" "wf_dict d" "fst ` set d = ?V" "\<forall>i b. map_of d i = Some b \<longrightarrow> b = (i \<in> set ids)" by simp_all
    have "snd x \<longleftrightarrow> fst x \<in> set ids" if "x \<in> set d" for x
    proof -
      have "map_of d (fst x) = Some (snd x)" using that d(2) by (intro map_of_is_SomeI) (simp_all add: wf_dict_def)
      with d(4) show ?thesis by blast
    qed
    then have "all_sources_finished d \<longleftrightarrow> fst ` set d \<subseteq> set ids" unfolding all_sources_finished_iff by blast
    with d(1,3) Inr show ?thesis by simp
  qed
qed

lemma create_workers_all:
  fixes g :: "('o, 'k, 'v) exec_graph"
  assumes "\<forall>x \<in> set (eg_by_id g). dict_mem (fst x) assignment"
  shows "create_workers assignment g = Inr (map (\<lambda>x. (fst x, the (map_of assignment (fst x)))) (eg_by_id g),
    map fst (filter (\<lambda>x. reports_stats (ev_job_vertex (snd x))) (eg_by_id g)))"
proof -
  have "rfold (create_worker assignment) xs (ws, rs) = Inr (ws @ map (\<lambda>x. (fst x, the (map_of assignment (fst x)))) xs,
      rs @ map fst (filter (\<lambda>x. reports_stats (ev_job_vertex (snd x))) xs))"
    if "\<forall>x \<in> set xs. dict_mem (fst x) assignment" for xs :: "(string \<times> 'o exec_vertex) list" and ws rs
    using that by (induction xs arbitrary: ws rs) (auto simp: create_worker_def dict_mem_def)
  with assms show ?thesis by (simp add: create_workers_def)
qed

end
