(* ===== verification/Remote_Transfer.thy ===== *)
theory Remote_Transfer
  imports Buffers Workers
begin

text \<open>
  Transfer between nodes (\<open>network_deprecated/transfer/remote/remote_transfer_handler.py\<close>): the handlers that collect
  the buffers of all local channels to a peer node on one connection and distribute what arrives to the local
  channels by the channel id in its header. The remote channels are those of \<open>network_deprecated/channel.py\<close>, which has
  the same fields as the class of the newer network. A socket is known by the channel or peer node it serves, and
  whether a non-blocking send succeeds is an argument.
\<close>

section \<open>The handler\<close>

datatype sock = LocalSock string | RemoteSock string

record remote_handler =
  rh_is_sender :: bool
  rh_local_queues :: "(string, bytes list) dict"
  rh_remote_queues :: "(string, bytes list) dict"
  rh_ch_id_to_node_id :: "(string, string) dict"
  rh_node_id :: string
  rh_local_socks :: "string list"

definition peer_node :: "bool \<Rightarrow> remote_channel \<Rightarrow> string" where
  "peer_node is_sender c = (if is_sender then rch_target_node_id c else rch_source_node_id c)"

definition own_node :: "bool \<Rightarrow> remote_channel \<Rightarrow> string" where
  "own_node is_sender c = (if is_sender then rch_source_node_id c else rch_target_node_id c)"

definition get_node_id :: "bool \<Rightarrow> remote_channel list \<Rightarrow> string result" where
  "get_node_id is_sender chs =
     (case remdups (map (own_node is_sender) chs) of [n] \<Rightarrow> Inr n | _ \<Rightarrow> Inl RuntimeError)"

definition rh_init :: "bool \<Rightarrow> remote_channel list \<Rightarrow> remote_handler result" where
  "rh_init is_sender chs =
     rbind (get_node_id is_sender chs) (\<lambda>n.
       Inr \<lparr>rh_is_sender = is_sender,
            rh_local_queues = fold (\<lambda>c. AList.update (rch_channel_id c) []) chs [],
            rh_remote_queues = [],
            rh_ch_id_to_node_id = fold (\<lambda>c. AList.update (rch_channel_id c) (peer_node is_sender c)) chs [],
            rh_node_id = n, rh_local_socks = []\<rparr>)"

text \<open>\<open>create_sockets\<close>, one channel at a time: a local socket, and a remote one per new peer.\<close>

definition create_channel_sockets :: "remote_channel \<Rightarrow> remote_handler \<Rightarrow> remote_handler result" where
  "create_channel_sockets c h =
     (if rch_channel_id c \<in> set (rh_local_socks h) then Inl RuntimeError
      else let h1 = h\<lparr>rh_local_socks := rh_local_socks h @ [rch_channel_id c]\<rparr>; peer = peer_node (rh_is_sender h) c
           in Inr (if dict_mem peer (rh_remote_queues h1) then h1
                   else h1\<lparr>rh_remote_queues := AList.update peer [] (rh_remote_queues h1)\<rparr>))"

definition create_sockets :: "remote_channel list \<Rightarrow> remote_handler \<Rightarrow> remote_handler result" where
  "create_sockets chs h = rfold create_channel_sockets chs h"

text \<open>
  \<open>send\<close>: what went to the socket, if anything. A refused buffer goes back to the front of its queue; the metrics
  call that follows has no key for a local socket, and looking for the delimiter in \<open>None\<close> raises.
\<close>

definition rh_send :: "bool \<Rightarrow> sock \<Rightarrow> remote_handler \<Rightarrow> (bytes option \<times> remote_handler) result" where
  "rh_send sent s h =
     (case s of
        LocalSock ch \<Rightarrow>
          if ch \<in> set (rh_local_socks h)
          then rbind (dict_get (rh_local_queues h) ch) (\<lambda>q.
                 case q of
                   [] \<Rightarrow> Inr (None, h)
                 | d # q' \<Rightarrow> if sent then Inr (Some d, h\<lparr>rh_local_queues := AList.update ch q' (rh_local_queues h)\<rparr>)
                              else Inl TypeError)
          else Inl RuntimeError
      | RemoteSock n \<Rightarrow>
          (case map_of (rh_remote_queues h) n of
             None \<Rightarrow> Inl RuntimeError
           | Some [] \<Rightarrow> Inr (None, h)
           | Some (d # q') \<Rightarrow> if sent then Inr (Some d, h\<lparr>rh_remote_queues := AList.update n q' (rh_remote_queues h)\<rparr>)
                              else Inr (None, h)))"

definition rh_rcv :: "bytes option \<Rightarrow> sock \<Rightarrow> remote_handler \<Rightarrow> remote_handler result" where
  "rh_rcv data s h =
     (case data of
        None \<Rightarrow> Inr h
      | Some d \<Rightarrow>
          (case s of
             LocalSock ch \<Rightarrow>
               if ch \<in> set (rh_local_socks h)
               then rbind (dict_get (rh_ch_id_to_node_id h) ch) (\<lambda>peer.
                    rbind (dict_get (rh_remote_queues h) peer) (\<lambda>q.
                      Inr (h\<lparr>rh_remote_queues := AList.update peer (q @ [d]) (rh_remote_queues h)\<rparr>)))
               else Inl RuntimeError
           | RemoteSock n \<Rightarrow>
               if dict_mem n (rh_remote_queues h)
               then rbind (get_channel_id d) (\<lambda>ch.
                    rbind (dict_get (rh_ch_id_to_node_id h) ch) (\<lambda>_.
                    rbind (dict_get (rh_local_queues h) ch) (\<lambda>q.
                      Inr (h\<lparr>rh_local_queues := AList.update ch (q @ [d]) (rh_local_queues h)\<rparr>))))
               else Inl RuntimeError))"

section \<open>Two nodes\<close>

text \<open>The handlers of two nodes and the connection between them, with what went in and came out per channel.\<close>

record relay =
  rl_sender :: remote_handler
  rl_receiver :: remote_handler
  rl_wire :: "bytes list"
  rl_in :: "(string \<times> bytes) list"
  rl_out :: "(string \<times> bytes) list"

inductive relay_step :: "string \<Rightarrow> string \<Rightarrow> relay \<Rightarrow> relay \<Rightarrow> bool" for a b where
  local_in: "get_channel_id d = Inr ch \<Longrightarrow> rh_rcv (Some d) (LocalSock ch) (rl_sender s) = Inr h \<Longrightarrow>
    relay_step a b s (s\<lparr>rl_sender := h, rl_in := rl_in s @ [(ch, d)]\<rparr>)"
| wire_in: "rh_send sent (RemoteSock b) (rl_sender s) = Inr (out, h) \<Longrightarrow>
    relay_step a b s (s\<lparr>rl_sender := h, rl_wire := rl_wire s @ (case out of None \<Rightarrow> [] | Some d \<Rightarrow> [d])\<rparr>)"
| wire_out: "rl_wire s = d # ds \<Longrightarrow> rh_rcv (Some d) (RemoteSock a) (rl_receiver s) = Inr h \<Longrightarrow>
    relay_step a b s (s\<lparr>rl_receiver := h, rl_wire := ds\<rparr>)"
| local_out: "rh_send sent (LocalSock ch) (rl_receiver s) = Inr (out, h) \<Longrightarrow>
    relay_step a b s (s\<lparr>rl_receiver := h, rl_out := rl_out s @ (case out of None \<Rightarrow> [] | Some d \<Rightarrow> [(ch, d)])\<rparr>)"

definition relay_init :: "remote_channel list \<Rightarrow> relay result" where
  "relay_init chs =
     rbind (rbind (rh_init True chs) (create_sockets chs)) (\<lambda>h1.
     rbind (rbind (rh_init False chs) (create_sockets chs)) (\<lambda>h2.
       Inr \<lparr>rl_sender = h1, rl_receiver = h2, rl_wire = [], rl_in = [], rl_out = []\<rparr>))"

section \<open>Order and completeness\<close>

definition on_channel :: "string \<Rightarrow> (string \<times> bytes) list \<Rightarrow> bytes list" where
  "on_channel ch xs = map snd (filter (\<lambda>x. fst x = ch) xs)"

definition of_channel :: "string \<Rightarrow> bytes list \<Rightarrow> bytes list" where
  "of_channel ch ds = filter (\<lambda>d. get_channel_id d = Inr ch) ds"

text \<open>
  The sender knows all channels of \<open>C\<close> and keeps one queue for \<open>b\<close>; the receiver keeps a queue for each of them.
\<close>

definition relay_inv :: "string set \<Rightarrow> string \<Rightarrow> string \<Rightarrow> relay \<Rightarrow> bool" where
  "relay_inv C a b s \<longleftrightarrow>
     set (rh_local_socks (rl_sender s)) = C \<and> set (rh_local_socks (rl_receiver s)) = C \<and>
     (\<forall>ch \<in> C. map_of (rh_ch_id_to_node_id (rl_sender s)) ch = Some b \<and> map_of (rh_ch_id_to_node_id (rl_receiver s)) ch = Some a) \<and>
     dict_mem a (rh_remote_queues (rl_receiver s)) \<and>
     (\<exists>q. map_of (rh_remote_queues (rl_sender s)) b = Some q \<and>
        (\<forall>d \<in> set (q @ rl_wire s). \<exists>ch \<in> C. get_channel_id d = Inr ch) \<and>
        (\<forall>ch \<in> C. \<exists>l. map_of (rh_local_queues (rl_receiver s)) ch = Some l \<and>
           on_channel ch (rl_in s) = on_channel ch (rl_out s) @ l @ of_channel ch (rl_wire s) @ of_channel ch q))"

lemma relay_invE:
  assumes "relay_inv C a b s"
  obtains q where "map_of (rh_remote_queues (rl_sender s)) b = Some q" "\<forall>d \<in> set (q @ rl_wire s). \<exists>ch \<in> C. get_channel_id d = Inr ch"
    "\<forall>ch \<in> C. \<exists>l. map_of (rh_local_queues (rl_receiver s)) ch = Some l \<and>
       on_channel ch (rl_in s) = on_channel ch (rl_out s) @ l @ of_channel ch (rl_wire s) @ of_channel ch q"
    "set (rh_local_socks (rl_sender s)) = C" "set (rh_local_socks (rl_receiver s)) = C"
    "\<forall>ch \<in> C. map_of (rh_ch_id_to_node_id (rl_sender s)) ch = Some b \<and> map_of (rh_ch_id_to_node_id (rl_receiver s)) ch = Some a"
    "dict_mem a (rh_remote_queues (rl_receiver s))"
  using assms unfolding relay_inv_def by blast

lemma on_channel_append [simp]: "on_channel ch (xs @ ys) = on_channel ch xs @ on_channel ch ys"
  by (simp add: on_channel_def)

lemma of_channel_append [simp]: "of_channel ch (xs @ ys) = of_channel ch xs @ of_channel ch ys"
  by (simp add: of_channel_def)

lemma of_channel_Cons: "of_channel ch (d # ds) = (if get_channel_id d = Inr ch then [d] else []) @ of_channel ch ds"
  by (simp add: of_channel_def)

lemma relay_step_inv:
  assumes inv: "relay_inv C a b s" and step: "relay_step a b s s'"
  shows "relay_inv C a b s'"
proof -
  obtain q where v: "map_of (rh_remote_queues (rl_sender s)) b = Some q" "\<forall>d \<in> set (q @ rl_wire s). \<exists>ch \<in> C. get_channel_id d = Inr ch"
    "\<forall>ch \<in> C. \<exists>l. map_of (rh_local_queues (rl_receiver s)) ch = Some l \<and>
       on_channel ch (rl_in s) = on_channel ch (rl_out s) @ l @ of_channel ch (rl_wire s) @ of_channel ch q"
    "set (rh_local_socks (rl_sender s)) = C" "set (rh_local_socks (rl_receiver s)) = C"
    "\<forall>ch \<in> C. map_of (rh_ch_id_to_node_id (rl_sender s)) ch = Some b \<and> map_of (rh_ch_id_to_node_id (rl_receiver s)) ch = Some a"
    "dict_mem a (rh_remote_queues (rl_receiver s))" using inv by (rule relay_invE)
  from step show ?thesis
  proof cases
    case (local_in d ch h)
    then have ch: "ch \<in> C" using v(4) by (auto simp: rh_rcv_def split: if_splits)
    with local_in(3) v have h: "h = (rl_sender s)\<lparr>rh_remote_queues := AList.update b (q @ [d]) (rh_remote_queues (rl_sender s))\<rparr>"
      by (auto simp: rh_rcv_def split: if_splits)
    have "\<exists>l. map_of (rh_local_queues (rl_receiver s)) c = Some l \<and> on_channel c (rl_in s @ [(ch, d)]) =
        on_channel c (rl_out s) @ l @ of_channel c (rl_wire s) @ of_channel c (q @ [d])" if "c \<in> C" for c
    proof -
      from v(3) that obtain l where "map_of (rh_local_queues (rl_receiver s)) c = Some l"
        "on_channel c (rl_in s) = on_channel c (rl_out s) @ l @ of_channel c (rl_wire s) @ of_channel c q" by blast
      with local_in(2) show ?thesis by (simp add: of_channel_def) (simp add: on_channel_def)
    qed
    moreover have "\<forall>x \<in> set ((q @ [d]) @ rl_wire s). \<exists>ch \<in> C. get_channel_id x = Inr ch" using v(2) ch local_in(2) by auto
    ultimately show ?thesis unfolding relay_inv_def local_in(1) h using v(4-7) by simp
  next
    case (wire_in sent out h)
    show ?thesis
    proof (cases "sent \<and> q \<noteq> []")
      case True
      then obtain d q' where q: "q = d # q'" by (cases q) auto
      with True wire_in(2) v(1) have h: "out = Some d"
        "h = (rl_sender s)\<lparr>rh_remote_queues := AList.update b q' (rh_remote_queues (rl_sender s))\<rparr>" by (auto simp: rh_send_def)
      have eq: "of_channel c (rl_wire s @ [d]) @ of_channel c q' = of_channel c (rl_wire s) @ of_channel c q" for c
        by (simp add: q of_channel_def)
      have "\<forall>c \<in> C. \<exists>l. map_of (rh_local_queues (rl_receiver s)) c = Some l \<and> on_channel c (rl_in s) =
          on_channel c (rl_out s) @ l @ of_channel c (rl_wire s @ [d]) @ of_channel c q'"
        using v(3) unfolding eq .
      moreover have "\<forall>x \<in> set (q' @ rl_wire s @ [d]). \<exists>ch \<in> C. get_channel_id x = Inr ch" using v(2) q by auto
      ultimately show ?thesis unfolding relay_inv_def wire_in(1) h using v(4-7) by simp
    next
      case False
      with wire_in(2) v(1) have "out = None" "h = rl_sender s" by (auto simp: rh_send_def split: list.splits if_splits)
      with inv show ?thesis by (simp add: wire_in(1) relay_inv_def)
    qed
  next
    case (wire_out d ds h)
    from v(2) wire_out(2) obtain ch where ch: "ch \<in> C" "get_channel_id d = Inr ch" by auto
    from v(3) ch(1) obtain l where l: "map_of (rh_local_queues (rl_receiver s)) ch = Some l" by blast
    with wire_out(3) ch v(6,7) have h: "h = (rl_receiver s)\<lparr>rh_local_queues := AList.update ch (l @ [d]) (rh_local_queues (rl_receiver s))\<rparr>"
      by (auto simp: rh_rcv_def)
    have "\<exists>k. map_of (AList.update ch (l @ [d]) (rh_local_queues (rl_receiver s))) c = Some k \<and>
        on_channel c (rl_in s) = on_channel c (rl_out s) @ k @ of_channel c ds @ of_channel c q" if "c \<in> C" for c
    proof -
      from v(3) that obtain k where "map_of (rh_local_queues (rl_receiver s)) c = Some k"
        "on_channel c (rl_in s) = on_channel c (rl_out s) @ k @ of_channel c (d # ds) @ of_channel c q"
        unfolding wire_out(2) by blast
      with ch(2) l show ?thesis by (cases "c = ch") (simp_all add: of_channel_Cons)
    qed
    moreover have "\<forall>x \<in> set (q @ ds). \<exists>ch \<in> C. get_channel_id x = Inr ch" using v(2) wire_out(2) by simp
    ultimately show ?thesis unfolding relay_inv_def wire_out(1) h using v(1,4-7) by simp
  next
    case (local_out sent ch out h)
    then have ch: "ch \<in> C" using v(5) by (auto simp: rh_send_def split: if_splits)
    from v(3) ch obtain l where l: "map_of (rh_local_queues (rl_receiver s)) ch = Some l" by blast
    show ?thesis
    proof (cases "sent \<and> l \<noteq> []")
      case True
      then obtain d l' where l': "l = d # l'" by (cases l) auto
      with True local_out(2) l v(5) ch have h: "out = Some d"
        "h = (rl_receiver s)\<lparr>rh_local_queues := AList.update ch l' (rh_local_queues (rl_receiver s))\<rparr>" by (auto simp: rh_send_def)
      have "\<exists>k. map_of (AList.update ch l' (rh_local_queues (rl_receiver s))) c = Some k \<and>
          on_channel c (rl_in s) = on_channel c (rl_out s @ [(ch, d)]) @ k @ of_channel c (rl_wire s) @ of_channel c q" if "c \<in> C" for c
      proof -
        from v(3) that obtain k where "map_of (rh_local_queues (rl_receiver s)) c = Some k"
          "on_channel c (rl_in s) = on_channel c (rl_out s) @ k @ of_channel c (rl_wire s) @ of_channel c q" by blast
        with l l' show ?thesis by (auto simp: on_channel_def)
      qed
      then show ?thesis unfolding relay_inv_def local_out(1) h using v(1,2,4-7) by simp
    next
      case False
      with local_out(2) l v(5) ch have "out = None" "h = rl_receiver s" by (auto simp: rh_send_def split: list.splits if_splits)
      with inv show ?thesis by (simp add: local_out(1) relay_inv_def)
    qed
  qed
qed

section \<open>The start\<close>

lemma fold_update_const:
  "\<forall>c \<in> set cs. g c = v \<Longrightarrow> map_of (fold (\<lambda>c. AList.update (f c) (g c)) cs d) k = (if k \<in> f ` set cs then Some v else map_of d k)"
  by (induction cs arbitrary: d) auto

lemma channels_socks:
  assumes "distinct (map rch_channel_id chs)" "set (map rch_channel_id chs) \<inter> set (rh_local_socks h) = {}"
    and "\<forall>c \<in> set chs. peer_node (rh_is_sender h) c = p" "rh_remote_queues h = [] \<or> rh_remote_queues h = [(p, [])]"
  shows "create_sockets chs h = Inr (h\<lparr>rh_local_socks := rh_local_socks h @ map rch_channel_id chs,
    rh_remote_queues := (if chs = [] then rh_remote_queues h else [(p, [])])\<rparr>)"
  using assms
proof (induction chs arbitrary: h)
  case (Cons c chs)
  let ?h = "h\<lparr>rh_local_socks := rh_local_socks h @ [rch_channel_id c], rh_remote_queues := [(p, [])]\<rparr>"
  have "create_channel_sockets c h = Inr ?h"
    using Cons.prems by (auto simp: create_channel_sockets_def Let_def dict_mem_def)
  moreover have "create_sockets chs ?h = Inr (?h\<lparr>rh_local_socks := rh_local_socks ?h @ map rch_channel_id chs,
      rh_remote_queues := (if chs = [] then rh_remote_queues ?h else [(p, [])])\<rparr>)"
    using Cons.prems by (intro Cons.IH) auto
  ultimately show ?case by (simp add: create_sockets_def)
qed (simp add: create_sockets_def)

lemma handler_start:
  assumes "chs \<noteq> []" "distinct (map rch_channel_id chs)" "\<forall>c \<in> set chs. own_node is_snd c = a \<and> peer_node is_snd c = p"
  shows "\<exists>h. rbind (rh_init is_snd chs) (create_sockets chs) = Inr h \<and> set (rh_local_socks h) = rch_channel_id ` set chs \<and>
    rh_remote_queues h = [(p, [])] \<and> (\<forall>c \<in> set chs. map_of (rh_ch_id_to_node_id h) (rch_channel_id c) = Some p \<and>
      map_of (rh_local_queues h) (rch_channel_id c) = Some [])"
proof -
  have "remdups (map (own_node is_snd) cs) = [a]" if "cs \<noteq> []" "\<forall>c \<in> set cs. own_node is_snd c = a" for cs
    using that
  proof (induction cs)
    case (Cons c cs)
    then show ?case by (cases cs) auto
  qed simp
  with assms have n: "get_node_id is_snd chs = Inr a" by (simp add: get_node_id_def)
  let ?h = "\<lparr>rh_is_sender = is_snd, rh_local_queues = fold (\<lambda>c. AList.update (rch_channel_id c) []) chs [], rh_remote_queues = [],
      rh_ch_id_to_node_id = fold (\<lambda>c. AList.update (rch_channel_id c) (peer_node is_snd c)) chs [], rh_node_id = a, rh_local_socks = []\<rparr>"
  have "rh_init is_snd chs = Inr ?h" using n by (simp add: rh_init_def)
  moreover have "create_sockets chs ?h = Inr (?h\<lparr>rh_local_socks := map rch_channel_id chs, rh_remote_queues := [(p, [])]\<rparr>)"
    using channels_socks [of chs ?h p] assms by simp
  moreover have "map_of (rh_ch_id_to_node_id ?h) (rch_channel_id c) = Some p \<and> map_of (rh_local_queues ?h) (rch_channel_id c) = Some []"
    if "c \<in> set chs" for c
    using that assms(3) fold_update_const [of chs "peer_node is_snd" p rch_channel_id "[]" "rch_channel_id c"]
      fold_update_const [of chs "\<lambda>_. []" "[]" rch_channel_id "[]" "rch_channel_id c"] by simp
  ultimately show ?thesis by auto
qed

lemma relay_init_inv:
  assumes "chs \<noteq> []" "distinct (map rch_channel_id chs)" "\<forall>c \<in> set chs. rch_source_node_id c = a \<and> rch_target_node_id c = b"
  shows "\<exists>s. relay_init chs = Inr s \<and> relay_inv (rch_channel_id ` set chs) a b s"
proof -
  from handler_start [OF assms(1,2), of True a b] assms(3) obtain h1 where
    1: "rbind (rh_init True chs) (create_sockets chs) = Inr h1" "set (rh_local_socks h1) = rch_channel_id ` set chs"
    "rh_remote_queues h1 = [(b, [])]" "\<forall>c \<in> set chs. map_of (rh_ch_id_to_node_id h1) (rch_channel_id c) = Some b"
    by (auto simp: own_node_def peer_node_def)
  from handler_start [OF assms(1,2), of False b a] assms(3) obtain h2 where
    2: "rbind (rh_init False chs) (create_sockets chs) = Inr h2" "set (rh_local_socks h2) = rch_channel_id ` set chs"
    "rh_remote_queues h2 = [(a, [])]" "\<forall>c \<in> set chs. map_of (rh_ch_id_to_node_id h2) (rch_channel_id c) = Some a \<and>
      map_of (rh_local_queues h2) (rch_channel_id c) = Some []"
    by (auto simp: own_node_def peer_node_def)
  let ?s = "\<lparr>rl_sender = h1, rl_receiver = h2, rl_wire = [], rl_in = [], rl_out = []\<rparr>"
  have "relay_init chs = Inr ?s" using 1(1) 2(1) by (simp add: relay_init_def)
  moreover have "relay_inv (rch_channel_id ` set chs) a b ?s"
    using 1(2-4) 2(2-4) by (auto simp: relay_inv_def on_channel_def of_channel_def dict_mem_def)
  ultimately show ?thesis by blast
qed

text \<open>
  C19. Multiplexing all channels between two nodes over one connection keeps every channel's buffers complete and in
  order: at any time what entered on a channel is what came out on it, followed by what waits at the receiver,
  what is on the connection and what waits at the sender.
\<close>

theorem relay_keeps_channels:
  assumes "chs \<noteq> []" "distinct (map rch_channel_id chs)" "\<forall>c \<in> set chs. rch_source_node_id c = a \<and> rch_target_node_id c = b"
    and "relay_init chs = Inr s0" "(relay_step a b)\<^sup>*\<^sup>* s0 s" "c \<in> set chs"
  shows "\<exists>l q. map_of (rh_local_queues (rl_receiver s)) (rch_channel_id c) = Some l \<and> map_of (rh_remote_queues (rl_sender s)) b = Some q \<and>
    on_channel (rch_channel_id c) (rl_in s) = on_channel (rch_channel_id c) (rl_out s) @ l @
      of_channel (rch_channel_id c) (rl_wire s) @ of_channel (rch_channel_id c) q"
proof -
  have "relay_inv (rch_channel_id ` set chs) a b s0" using relay_init_inv [OF assms(1-3)] assms(4) by auto
  with assms(5) have "relay_inv (rch_channel_id ` set chs) a b s"
    by (induction rule: rtranclp_induct) (auto intro: relay_step_inv)
  then show ?thesis using assms(6) by (auto simp: relay_inv_def)
qed

theorem relay_keeps_channels_witness:
  "\<exists>s0 s. relay_init [\<lparr>rch_channel_id = ''c1'', rch_source_local_ipc_addr = [], rch_source_node_ip = [], rch_source_node_id = ''a'',
       rch_target_local_ipc_addr = [], rch_target_node_ip = [], rch_target_node_id = ''b'', rch_port = 1\<rparr>] = Inr s0 \<and>
     relay_step ''a'' ''b'' s0 s \<and> (\<exists>q. map_of (rh_remote_queues (rl_sender s)) ''b'' = Some q \<and>
       on_channel ''c1'' (rl_in s) = of_channel ''c1'' q) \<and> on_channel ''c1'' (rl_in s) = [buffer_of ''c1'' 0 []]"
proof -
  let ?c = "\<lparr>rch_channel_id = ''c1'', rch_source_local_ipc_addr = [], rch_source_node_ip = [], rch_source_node_id = ''a'',
       rch_target_local_ipc_addr = [], rch_target_node_ip = [], rch_target_node_id = ''b'', rch_port = 1\<rparr>"
  let ?d = "buffer_of ''c1'' 0 []"
  obtain s0 where s0: "relay_init [?c] = Inr s0" "relay_inv {''c1''} ''a'' ''b'' s0" using relay_init_inv [of "[?c]" "''a''" "''b''"] by auto
  have start: "rl_in s0 = []" "rl_out s0 = []" "rl_wire s0 = []" using s0(1) by (auto simp: relay_init_def)
  have gid: "get_channel_id ?d = Inr ''c1''" by (rule buffer_of_fields(1) [OF channel_ok_c1(1)])
  obtain h where h: "rh_rcv (Some ?d) (LocalSock ''c1'') (rl_sender s0) = Inr h"
    using s0(2) by (auto simp: relay_inv_def rh_rcv_def dict_get_def)
  let ?s = "s0\<lparr>rl_sender := h, rl_in := rl_in s0 @ [(''c1'', ?d)]\<rparr>"
  have step: "relay_step ''a'' ''b'' s0 ?s" by (rule relay_step.local_in [OF gid h])
  have in_s: "on_channel ''c1'' (rl_in ?s) = [?d]" "on_channel ''c1'' (rl_out ?s) = []" using start by (simp_all add: on_channel_def)
  have steps: "(relay_step ''a'' ''b'')\<^sup>*\<^sup>* s0 ?s" using step by blast
  from relay_keeps_channels [OF _ _ _ s0(1) steps, of ?c] obtain l q where
    lq: "map_of (rh_local_queues (rl_receiver ?s)) ''c1'' = Some l" "map_of (rh_remote_queues (rl_sender ?s)) ''b'' = Some q"
    "on_channel ''c1'' (rl_in ?s) = on_channel ''c1'' (rl_out ?s) @ l @ of_channel ''c1'' (rl_wire ?s) @ of_channel ''c1'' q" by auto
  have "l = []" using s0(2) lq(1) start by (auto simp: relay_inv_def on_channel_def)
  with lq in_s start have "on_channel ''c1'' (rl_in ?s) = of_channel ''c1'' q" by (simp add: of_channel_def)
  with s0(1) step lq(2) in_s(1) show ?thesis by blast
qed

end
