(* ===== verification/Sockets.thy ===== *)
theory Sockets
  imports Remote_Transfer
begin

text \<open>
  The sockets of the older network (\<open>network_deprecated/transfer/local/local_data_handler.py\<close>,
  \<open>transfer/remote/remote_transfer_handler.py\<close>, \<open>socket_utils.py\<close>): which socket of which handler binds which
  address and which connects to it. Sockets are known by their metadata; binding and connecting
  themselves are the library's.
\<close>

section \<open>Sockets of the handlers\<close>

datatype socket_owner = TRANSFER_LOCAL | TRANSFER_REMOTE | CLIENT

datatype socket_kind = BIND | CONNECT

record socket_meta =
  sm_owner :: socket_owner
  sm_kind :: socket_kind
  sm_channel_id :: string
  sm_addr :: string

text \<open>\<open>LocalDataHandler.create_sockets\<close>: the reader connects, the writer binds.\<close>

definition client_addr :: "bool \<Rightarrow> channel \<Rightarrow> string" where
  "client_addr is_reader ch =
     (case ch of
        LocalChannel _ addr \<Rightarrow> addr
      | RemoteChannel r \<Rightarrow> if is_reader then rch_target_local_ipc_addr r else rch_source_local_ipc_addr r)"

definition client_meta :: "bool \<Rightarrow> channel \<Rightarrow> socket_meta" where
  "client_meta is_reader ch =
     \<lparr>sm_owner = CLIENT, sm_kind = (if is_reader then CONNECT else BIND), sm_channel_id = channel_id ch,
      sm_addr = client_addr is_reader ch\<rparr>"

definition add_client_socket :: "bool \<Rightarrow> channel \<Rightarrow> (string, socket_meta) dict \<Rightarrow> (string, socket_meta) dict result" where
  "add_client_socket is_reader ch socks =
     (if dict_mem (channel_id ch) socks then Inl RuntimeError
      else Inr (AList.update (channel_id ch) (client_meta is_reader ch) socks))"

definition create_client_sockets :: "bool \<Rightarrow> channel list \<Rightarrow> socket_meta list result" where
  "create_client_sockets is_reader chs =
     rbind (rfold (add_client_socket is_reader) chs []) (\<lambda>socks. Inr (dict_values socks))"

text \<open>
  The metadata of the sockets that \<open>RemoteTransferHandler.create_sockets\<close> makes: per channel a local one, where the
  sender connects and the receiver binds, and per new peer node a remote one, with the same roles.
\<close>

definition transfer_local_meta :: "bool \<Rightarrow> remote_channel \<Rightarrow> socket_meta" where
  "transfer_local_meta is_sender r =
     \<lparr>sm_owner = TRANSFER_LOCAL, sm_kind = (if is_sender then CONNECT else BIND), sm_channel_id = rch_channel_id r,
      sm_addr = (if is_sender then rch_source_local_ipc_addr r else rch_target_local_ipc_addr r)\<rparr>"

definition tcp_addr :: "bool \<Rightarrow> remote_channel \<Rightarrow> string" where
  "tcp_addr is_sender r =
     ''tcp://'' @ (if is_sender then rch_target_node_ip r else ''0.0.0.0'') @ '':'' @ str_nat (rch_port r)"

definition transfer_remote_meta :: "bool \<Rightarrow> remote_channel \<Rightarrow> socket_meta" where
  "transfer_remote_meta is_sender r =
     \<lparr>sm_owner = TRANSFER_REMOTE, sm_kind = (if is_sender then CONNECT else BIND), sm_channel_id = rch_channel_id r,
      sm_addr = tcp_addr is_sender r\<rparr>"

definition add_transfer_sockets ::
    "bool \<Rightarrow> remote_channel \<Rightarrow> string list \<times> string list \<times> socket_meta list \<Rightarrow> (string list \<times> string list \<times> socket_meta list) result" where
  "add_transfer_sockets is_sender r = (\<lambda>(chs, peer_nodes, socks).
     if rch_channel_id r \<in> set chs then Inl RuntimeError
     else let loc = transfer_local_meta is_sender r; rem = transfer_remote_meta is_sender r; peer = peer_node is_sender r
          in if loc \<in> set socks then Inl RuntimeError
             else if peer \<in> set peer_nodes then Inr (chs @ [rch_channel_id r], peer_nodes, socks @ [loc])
             else if rem \<in> set (socks @ [loc]) then Inl RuntimeError
             else Inr (chs @ [rch_channel_id r], peer_nodes @ [peer], socks @ [loc, rem]))"

definition create_transfer_sockets :: "bool \<Rightarrow> remote_channel list \<Rightarrow> socket_meta list result" where
  "create_transfer_sockets is_sender chs =
     rbind (rfold (add_transfer_sockets is_sender) chs ([], [], [])) (\<lambda>(_, _, socks). Inr socks)"

section \<open>Addresses\<close>

definition addressed :: "string \<Rightarrow> channel \<Rightarrow> bool" where
  "addressed job ch =
     (case ch of
        LocalChannel i addr \<Rightarrow> addr = gen_ipc_addr job i None
      | RemoteChannel r \<Rightarrow>
          rch_source_local_ipc_addr r = gen_ipc_addr job (rch_channel_id r) (Some (rch_source_node_id r)) \<and>
          rch_target_local_ipc_addr r = gen_ipc_addr job (rch_channel_id r) (Some (rch_target_node_id r)) \<and>
          rch_source_node_id r \<noteq> rch_target_node_id r)"

lemma connect_edge_addressed:
  assumes "connect_edge job infos e c = Inr c'" "\<forall>x \<in> set (cn_channels c). addressed job (snd x)"
  shows "\<forall>x \<in> set (cn_channels c'). addressed job (snd x)"
  using assms by (auto simp: connect_edge_def addressed_def Let_def split: option.splits if_splits)

lemma connect_edges_addressed:
  assumes "rfold (connect_edge job infos) es c = Inr c'" "\<forall>x \<in> set (cn_channels c). addressed job (snd x)"
  shows "\<forall>x \<in> set (cn_channels c'). addressed job (snd x)"
  using assms by (induction es arbitrary: c) (auto split: sum.splits dest!: connect_edge_addressed)

text \<open>An id made of two execution ids can be read off the front of a text that goes on with no digit.\<close>

definition edge_name :: "nat \<Rightarrow> nat \<Rightarrow> nat \<Rightarrow> nat \<Rightarrow> string" where
  "edge_name a i b j = exec_id a i @ ''-'' @ exec_id b j"

lemma digits_prefix:
  assumes "str_nat m @ x = str_nat n @ y" "x = [] \<or> \<not> is_digit (hd x)" "y = [] \<or> \<not> is_digit (hd y)"
  shows "m = n \<and> x = y"
proof -
  have tw: "takeWhile is_digit (str_nat k @ z) = str_nat k" if "z = [] \<or> \<not> is_digit (hd z)" for k z
    using that str_nat_digits [of k] by (cases z) (simp_all add: takeWhile_append2 takeWhile_tail)
  have "str_nat m = takeWhile is_digit (str_nat m @ x)" using tw [OF assms(2)] by simp
  also have "\<dots> = str_nat n" unfolding assms(1) by (rule tw [OF assms(3)])
  finally have "m = n" by simp
  with assms(1) show ?thesis by simp
qed

lemma edge_name_prefix:
  assumes "edge_name a i b j @ x = edge_name a' i' b' j' @ y" "x = [] \<or> hd x = CHR ''_''" "y = [] \<or> hd y = CHR ''_''"
  shows "edge_name a i b j = edge_name a' i' b' j' \<and> x = y"
proof -
  have us: "\<not> is_digit (CHR ''_'')" by (rule underscore_not_digit)
  from assms(1) have "exec_id a i @ CHR ''-'' # (exec_id b j @ x) = exec_id a' i' @ CHR ''-'' # (exec_id b' j' @ y)"
    by (simp add: edge_name_def)
  then have 1: "exec_id a i = exec_id a' i'" and 2: "exec_id b j @ x = exec_id b' j' @ y"
    using append_sep_inject [of "CHR ''-''" "exec_id a i" "exec_id a' i'"] exec_id_no_minus by auto
  from 2 have "str_nat b @ CHR ''_'' # (str_nat j @ x) = str_nat b' @ CHR ''_'' # (str_nat j' @ y)" by (simp add: exec_id_def)
  then have 3: "b = b'" and 4: "str_nat j @ x = str_nat j' @ y"
    using append_sep_inject [of "CHR ''_''" "str_nat b" "str_nat b'"] str_nat_not_digit [OF us] by auto
  from digits_prefix [OF 4] assms(2,3) us have "j = j' \<and> x = y" by auto
  with 1 3 show ?thesis by (simp add: edge_name_def)
qed

lemma gen_ipc_addr_inject:
  assumes "gen_ipc_addr job (edge_name a i b j) x = gen_ipc_addr job (edge_name a' i' b' j') y"
  shows "edge_name a i b j = edge_name a' i' b' j' \<and> x = y"
proof -
  let ?suffix = "\<lambda>n. case n of None \<Rightarrow> [] | Some n \<Rightarrow> ''_'' @ n"
  from assms have "edge_name a i b j @ ?suffix x = edge_name a' i' b' j' @ ?suffix y" by (simp add: gen_ipc_addr_def)
  from edge_name_prefix [OF this] have "edge_name a i b j = edge_name a' i' b' j'" "?suffix x = ?suffix y"
    by (auto split: option.splits)
  then show ?thesis by (auto split: option.splits)
qed

text \<open>The ipc addresses that the sockets of a channel bind and connect to.\<close>

definition ipc_binds :: "channel \<Rightarrow> string list" where
  "ipc_binds ch = sm_addr (client_meta False ch) #
     (case ch of LocalChannel _ _ \<Rightarrow> [] | RemoteChannel r \<Rightarrow> [sm_addr (transfer_local_meta False r)])"

definition ipc_connects :: "channel \<Rightarrow> string list" where
  "ipc_connects ch =
     (case ch of LocalChannel _ _ \<Rightarrow> [] | RemoteChannel r \<Rightarrow> [sm_addr (transfer_local_meta True r)]) @ [sm_addr (client_meta True ch)]"

lemma connects_are_binds: "ipc_connects ch = ipc_binds ch"
  by (simp add: ipc_connects_def ipc_binds_def client_meta_def client_addr_def transfer_local_meta_def split: channel.splits)

lemma ipc_binds_addr:
  assumes "addressed job ch" "x \<in> set (ipc_binds ch)"
  shows "\<exists>n. x = gen_ipc_addr job (channel_id ch) n"
  using assms by (auto simp: ipc_binds_def addressed_def client_meta_def client_addr_def transfer_local_meta_def split: channel.splits)

lemma distinct_ipc_binds:
  assumes "\<forall>ch \<in> set chs. addressed job ch \<and> (\<exists>a i b j. channel_id ch = edge_name a i b j)" "distinct (map channel_id chs)"
  shows "distinct (concat (map ipc_binds chs))"
  using assms
proof (induction chs)
  case (Cons ch chs)
  from Cons.prems obtain a i b j where ch: "addressed job ch" "channel_id ch = edge_name a i b j" by auto
  have "distinct (ipc_binds ch)"
  proof (cases ch)
    case (RemoteChannel r)
    with ch gen_ipc_addr_inject [of job a i b j "Some (rch_source_node_id r)" a i b j "Some (rch_target_node_id r)"] show ?thesis
      by (auto simp: addressed_def ipc_binds_def client_meta_def client_addr_def transfer_local_meta_def)
  qed (simp add: ipc_binds_def)
  moreover have "x \<notin> set (ipc_binds q)" if q: "q \<in> set chs" and x: "x \<in> set (ipc_binds ch)" for q x
  proof
    assume xq: "x \<in> set (ipc_binds q)"
    from q Cons.prems(1) obtain a' i' b' j' where q': "addressed job q" "channel_id q = edge_name a' i' b' j'" by auto
    from ipc_binds_addr [OF ch(1) x] ipc_binds_addr [OF q'(1) xq] ch(2) q'(2) gen_ipc_addr_inject
    have "channel_id ch = channel_id q" by metis
    with q Cons.prems(2) show False by auto
  qed
  moreover have "distinct (concat (map ipc_binds chs))" using Cons by simp
  ultimately show ?case by auto
qed simp

text \<open>The sockets a handler creates.\<close>

lemma client_sockets:
  assumes "distinct (map channel_id chs)"
  shows "create_client_sockets is_reader chs = Inr (map (client_meta is_reader) chs)"
proof -
  have "rfold (add_client_socket is_reader) chs d = Inr (d @ map (\<lambda>ch. (channel_id ch, client_meta is_reader ch)) chs)"
    if "distinct (map channel_id chs)" "\<forall>ch \<in> set chs. \<not> dict_mem (channel_id ch) d" for chs d
    using that
  proof (induction chs arbitrary: d)
    case (Cons ch chs)
    have "add_client_socket is_reader ch d = Inr (d @ [(channel_id ch, client_meta is_reader ch)])"
      using Cons.prems(2) by (simp add: add_client_socket_def update_fresh)
    moreover have "\<not> dict_mem (channel_id q) (d @ [(channel_id ch, client_meta is_reader ch)])" if q: "q \<in> set chs" for q
    proof -
      have "channel_id q \<noteq> channel_id ch" using Cons.prems(1) q by (metis distinct.simps(2) image_eqI list.simps(9) set_map)
      with Cons.prems(2) q show ?thesis by (simp add: dict_mem_iff)
    qed
    ultimately show ?case using Cons.IH Cons.prems(1) by simp
  qed simp
  from this [OF assms, of "[]"] show ?thesis by (simp add: create_client_sockets_def dict_mem_def dict_values_def o_def)
qed

lemma transfer_sockets:
  assumes "distinct (map rch_channel_id rs)" "set (map rch_channel_id rs) \<inter> set chs = {}"
    and "distinct (map (\<lambda>r. sm_addr (transfer_local_meta snd_side r)) rs)"
    and "\<forall>r \<in> set rs. sm_addr (transfer_local_meta snd_side r) \<notin> sm_addr ` set socks"
    and "\<forall>r \<in> set rs. peer_node snd_side r \<notin> set ps \<longrightarrow> tcp_addr snd_side r \<notin> sm_addr ` set socks"
    and "\<forall>r \<in> set rs. \<forall>q \<in> set rs. (tcp_addr snd_side r = tcp_addr snd_side q) = (peer_node snd_side r = peer_node snd_side q) \<and>
      tcp_addr snd_side r \<noteq> sm_addr (transfer_local_meta snd_side q)"
    and "distinct (map sm_addr socks)"
  shows "\<exists>chs' ps' socks'. rfold (add_transfer_sockets snd_side) rs (chs, ps, socks) = Inr (chs', ps', socks') \<and> distinct (map sm_addr socks')"
  using assms
proof (induction rs arbitrary: chs ps socks)
  case (Cons r rs)
  let ?loc = "transfer_local_meta snd_side r" and ?rem = "transfer_remote_meta snd_side r"
  have addr: "sm_addr ?rem = tcp_addr snd_side r" by (simp add: transfer_remote_meta_def)
  have loc: "?loc \<notin> set socks" "sm_addr ?loc \<notin> sm_addr ` set socks" using Cons.prems(4) by auto
  have ne: "tcp_addr snd_side r \<noteq> sm_addr ?loc" using Cons.prems(6) by simp
  define new where "new = (if peer_node snd_side r \<in> set ps then [] else [?rem])"
  have rem: "?rem \<notin> set (socks @ [?loc])" "sm_addr ?rem \<notin> sm_addr ` set (socks @ [?loc])" if "peer_node snd_side r \<notin> set ps"
    using that Cons.prems(5) ne addr by (force, force)
  let ?ps = "if peer_node snd_side r \<in> set ps then ps else ps @ [peer_node snd_side r]"
  have step: "add_transfer_sockets snd_side r (chs, ps, socks) = Inr (chs @ [rch_channel_id r], ?ps, socks @ [?loc] @ new)"
    using Cons.prems(2) loc(1) rem(1) by (simp add: add_transfer_sockets_def Let_def new_def)
  have "\<exists>chs' ps' socks'. rfold (add_transfer_sockets snd_side) rs (chs @ [rch_channel_id r], ?ps, socks @ [?loc] @ new) = Inr (chs', ps', socks') \<and>
      distinct (map sm_addr socks')"
  proof (rule Cons.IH)
    show "distinct (map rch_channel_id rs)" "distinct (map (\<lambda>r. sm_addr (transfer_local_meta snd_side r)) rs)" using Cons.prems(1,3) by simp_all
    show "set (map rch_channel_id rs) \<inter> set (chs @ [rch_channel_id r]) = {}" using Cons.prems(1,2) by auto
    show "\<forall>q \<in> set rs. sm_addr (transfer_local_meta snd_side q) \<notin> sm_addr ` set (socks @ [?loc] @ new)"
    proof
      fix q assume q: "q \<in> set rs"
      have "sm_addr (transfer_local_meta snd_side q) \<notin> sm_addr ` set socks" using Cons.prems(4) q by simp
      moreover have "sm_addr (transfer_local_meta snd_side q) \<noteq> sm_addr ?loc" using Cons.prems(3) q by (auto simp: image_iff)
      moreover have "sm_addr (transfer_local_meta snd_side q) \<noteq> tcp_addr snd_side r" using Cons.prems(6) q by (metis list.set_intros)
      ultimately show "sm_addr (transfer_local_meta snd_side q) \<notin> sm_addr ` set (socks @ [?loc] @ new)" by (auto simp: new_def addr)
    qed
    show "\<forall>q \<in> set rs. peer_node snd_side q \<notin> set ?ps \<longrightarrow> tcp_addr snd_side q \<notin> sm_addr ` set (socks @ [?loc] @ new)"
      proof (intro ballI impI)
      fix q assume q: "q \<in> set rs" "peer_node snd_side q \<notin> set ?ps"
      then have p: "peer_node snd_side q \<notin> set ps" "peer_node snd_side q \<noteq> peer_node snd_side r" by (auto split: if_splits)
      have "tcp_addr snd_side q \<notin> sm_addr ` set socks" using Cons.prems(5) q(1) p(1) by simp
      moreover have "tcp_addr snd_side q \<noteq> sm_addr ?loc" "tcp_addr snd_side q \<noteq> tcp_addr snd_side r" using Cons.prems(6) q(1) p(2) by simp_all
      ultimately show "tcp_addr snd_side q \<notin> sm_addr ` set (socks @ [?loc] @ new)" by (auto simp: new_def addr)
    qed
    show "\<forall>r \<in> set rs. \<forall>q \<in> set rs. (tcp_addr snd_side r = tcp_addr snd_side q) = (peer_node snd_side r = peer_node snd_side q) \<and>
      tcp_addr snd_side r \<noteq> sm_addr (transfer_local_meta snd_side q)" using Cons.prems(6) by simp
    show "distinct (map sm_addr (socks @ [?loc] @ new))" using Cons.prems(7) loc(2) rem(2) by (auto simp: new_def)
  qed
  with step show ?case by simp
qed simp

lemma ipc_not_tcp: "gen_ipc_addr job ch n \<noteq> tcp_addr b r"
  by (simp add: gen_ipc_addr_def tcp_addr_def)

lemma tcp_addr_receiver: "tcp_addr False r = tcp_addr False q \<longleftrightarrow> rch_port r = rch_port q"
  by (simp add: tcp_addr_def)

lemma exec_edge_names:
  assumes "graph_expandable jg" "from_job_graph jg = Inr g" "e \<in> set (eg_edges g)"
  shows "\<exists>a i b j. ee_id e = edge_name a i b j"
proof -
  from from_job_graph_closed [OF assms(1)] assms(2) have "eg_edges g = concat (map (edges_of jg) (jg_job_edges jg))" by auto
  with assms(3) obtain a i b j where "ee_source e = exec_id a i" "ee_target e = exec_id b j"
    by (auto simp: edges_of_def)
  then have "ee_id e = edge_name a i b j" by (simp add: ee_id_def edge_name_def)
  then show ?thesis by blast
qed

lemma list_all2_map: "list_all2 P xs ys \<Longrightarrow> (\<And>x y. P x y \<Longrightarrow> f x = h y) \<Longrightarrow> map f xs = map h ys"
  by (induction rule: list_all2_induct) auto

lemma remotes_sub: "r \<in> set (remotes c) \<Longrightarrow> \<exists>i. (i, RemoteChannel r) \<in> set (cn_channels c)"
  by (auto simp: remotes_def split: channel.splits)

lemma remotes_ids:
  assumes "distinct (map (\<lambda>x. channel_id (snd x)) (cn_channels c))"
  shows "distinct (map rch_channel_id (remotes c))"
proof -
  have "distinct (map (\<lambda>x. channel_id (snd x)) xs) \<Longrightarrow>
      distinct (map rch_channel_id (concat (map (\<lambda>(_, ch). case ch of RemoteChannel r \<Rightarrow> [r] | _ \<Rightarrow> []) xs)))" for xs :: "(string \<times> channel) list"
    by (induction xs) (auto split: channel.splits, force)
  with assms show ?thesis by (simp add: remotes_def)
qed



end
