(* ===== verification/IO_Loop.thy ===== *)
theory IO_Loop
  imports Sockets
begin

text \<open>
  The polling loop of the older network (\<open>network_deprecated/transfer/io_loop.py\<close>): it waits until all connecting
  sockets are connected and then hands socket events to the handlers that own the sockets.
\<close>

section \<open>The polling loop\<close>

text \<open>
  The loop over handlers of a type \<open>'h\<close> and sockets of a type \<open>'s\<close>. A poll reports monitor events and socket events;
  what the environment answers to a send and offers to a receive comes with the event.
\<close>

datatype poll_flag = POLLIN | POLLOUT | POLLIN_POLLOUT | OTHER_FLAG

datatype monitor_event = EVENT_CONNECTED | EVENT_OTHER nat

datatype ('s, 'x) loop_event = Monitor 's monitor_event | Socket 's poll_flag 'x

record ('h, 's) io_loop =
  lp_running :: bool
  lp_handlers :: "'h list"
  lp_socket_to_handler :: "('s, nat) dict"
  lp_monitor_sockets :: "('s, socket_meta) dict"
  lp_to_be_connected :: "(socket_meta, bool \<times> monitor_event option) dict"
  lp_all_connected :: bool

definition io_loop_init :: "('h, 's) io_loop" where
  "io_loop_init =
     \<lparr>lp_running = False, lp_handlers = [], lp_socket_to_handler = [], lp_monitor_sockets = [], lp_to_be_connected = [],
      lp_all_connected = False\<rparr>"

definition io_register :: "'h \<Rightarrow> ('h, 's) io_loop \<Rightarrow> ('h, 's) io_loop result" where
  "io_register h l = (if lp_running l then Inl RuntimeError else Inr (l\<lparr>lp_handlers := lp_handlers l @ [h]\<rparr>))"

text \<open>\<open>_start_loop\<close>: register the sockets of each handler; a handler without sockets raises in \<open>bind_and_connect\<close>.\<close>

definition add_loop_socket :: "nat \<Rightarrow> socket_meta \<times> 's \<Rightarrow> ('h, 's) io_loop \<Rightarrow> ('h, 's) io_loop result" where
  "add_loop_socket i = (\<lambda>(meta, s) l.
     if dict_mem s (lp_socket_to_handler l) then Inl RuntimeError
     else Inr (l\<lparr>lp_socket_to_handler := AList.update s i (lp_socket_to_handler l),
                 lp_monitor_sockets := AList.update s meta (lp_monitor_sockets l),
                 lp_to_be_connected := (if sm_kind meta = CONNECT then AList.update meta (False, None) (lp_to_be_connected l)
                                        else lp_to_be_connected l)\<rparr>))"

definition start_handler ::
    "('h \<Rightarrow> ((socket_meta \<times> 's) list \<times> 'h) result) \<Rightarrow> nat \<Rightarrow> ('h, 's) io_loop \<Rightarrow> ('h, 's) io_loop result" where
  "start_handler create i l =
     rbind (create (lp_handlers l ! i)) (\<lambda>(socks, h).
     rbind (rfold (add_loop_socket i) socks (l\<lparr>lp_handlers := (lp_handlers l)[i := h]\<rparr>)) (\<lambda>l1.
       if socks = [] then Inl RuntimeError else Inr l1))"

definition start_loop ::
    "('h \<Rightarrow> ((socket_meta \<times> 's) list \<times> 'h) result) \<Rightarrow> ('h, 's) io_loop \<Rightarrow> ('h, 's) io_loop result" where
  "start_loop create l =
     rbind (rfold (start_handler create) [0..<length (lp_handlers l)] l) (\<lambda>l1.
       Inr (l1\<lparr>lp_running := True, lp_all_connected := (lp_all_connected l1 \<or> lp_to_be_connected l1 = [])\<rparr>))"

definition on_monitor_event :: "monitor_event \<Rightarrow> socket_meta \<Rightarrow> ('h, 's) io_loop \<Rightarrow> ('h, 's) io_loop result" where
  "on_monitor_event evt meta l =
     (if sm_kind meta = CONNECT
      then rbind (if evt = EVENT_CONNECTED then Inr True
                  else rbind (dict_get (lp_to_be_connected l) meta) (\<lambda>(b, _). Inr b)) (\<lambda>b.
             let d = AList.update meta (b, Some evt) (lp_to_be_connected l)
             in Inr (l\<lparr>lp_to_be_connected := d, lp_all_connected := (lp_all_connected l \<or> list_all (\<lambda>(_, b, _). b) d)\<rparr>))
      else Inr l)"

text \<open>One event of a poll: \<open>send\<close> and \<open>rcv\<close> are the handler's operations.\<close>

definition handle_event ::
    "('x \<Rightarrow> 's \<Rightarrow> 'h \<Rightarrow> 'h result) \<Rightarrow> ('x \<Rightarrow> 's \<Rightarrow> 'h \<Rightarrow> 'h result) \<Rightarrow> ('s, 'x) loop_event \<Rightarrow>
     ('h, 's) io_loop \<Rightarrow> ('h, 's) io_loop result" where
  "handle_event send rcv ev l =
     (case ev of
        Monitor s evt \<Rightarrow> rbind (dict_get (lp_monitor_sockets l) s) (\<lambda>meta. on_monitor_event evt meta l)
      | Socket s flag x \<Rightarrow>
          if \<not> lp_all_connected l then Inr l
          else rbind (dict_get (lp_socket_to_handler l) s) (\<lambda>i.
            let h = lp_handlers l ! i
            in rbind (case flag of
                        POLLIN \<Rightarrow> rcv x s h
                      | POLLOUT \<Rightarrow> send x s h
                      | POLLIN_POLLOUT \<Rightarrow> rbind (send x s h) (rcv x s)
                      | OTHER_FLAG \<Rightarrow> Inl RuntimeError) (\<lambda>h'.
                 Inr (l\<lparr>lp_handlers := (lp_handlers l)[i := h']\<rparr>))))"

definition io_poll ::
    "('x \<Rightarrow> 's \<Rightarrow> 'h \<Rightarrow> 'h result) \<Rightarrow> ('x \<Rightarrow> 's \<Rightarrow> 'h \<Rightarrow> 'h result) \<Rightarrow> ('s, 'x) loop_event list \<Rightarrow>
     ('h, 's) io_loop \<Rightarrow> ('h, 's) io_loop result" where
  "io_poll send rcv evs l = (if lp_running l then rfold (handle_event send rcv) evs l else Inr l)"

definition io_close :: "('h, 's) io_loop \<Rightarrow> ('h, 's) io_loop" where
  "io_close l = l\<lparr>lp_running := False\<rparr>"

text \<open>\<open>start\<close> after the wait: ready, or the sockets that are not connected and a closed loop.\<close>

definition start_result :: "('h, 's) io_loop \<Rightarrow> (bool \<times> (socket_meta \<times> monitor_event option) list) \<times> ('h, 's) io_loop" where
  "start_result l =
     (if lp_all_connected l then ((True, []), l)
      else ((False, map (\<lambda>(m, _, e). (m, e)) (filter (\<lambda>(_, b, _). \<not> b) (lp_to_be_connected l))), io_close l))"

section \<open>The loop waits for its connections\<close>

text \<open>
  What holds of a started loop after the events \<open>seen\<close>: each connecting socket is listed, it counts as connected
  exactly when its monitor said so, and the gate is open exactly when all are.
\<close>

definition loop_inv :: "('s, 'x) loop_event list \<Rightarrow> ('h, 's) io_loop \<Rightarrow> bool" where
  "loop_inv seen l \<longleftrightarrow> wf_dict (lp_to_be_connected l) \<and>
     (\<forall>m. dict_mem m (lp_to_be_connected l) \<longrightarrow> sm_kind m = CONNECT) \<and>
     (\<forall>s m. map_of (lp_monitor_sockets l) s = Some m \<and> sm_kind m = CONNECT \<longrightarrow> dict_mem m (lp_to_be_connected l)) \<and>
     (\<forall>m b e. map_of (lp_to_be_connected l) m = Some (b, e) \<longrightarrow>
        b = (\<exists>s. map_of (lp_monitor_sockets l) s = Some m \<and> Monitor s EVENT_CONNECTED \<in> set seen)) \<and>
     (lp_all_connected l \<longleftrightarrow> list_all (\<lambda>(_, b, _). b) (lp_to_be_connected l))"

lemma loop_invD:
  assumes "loop_inv seen l"
  shows "wf_dict (lp_to_be_connected l)" "dict_mem m (lp_to_be_connected l) \<Longrightarrow> sm_kind m = CONNECT"
    "map_of (lp_monitor_sockets l) s = Some m \<Longrightarrow> sm_kind m = CONNECT \<Longrightarrow> dict_mem m (lp_to_be_connected l)"
    "map_of (lp_to_be_connected l) m = Some (b, e) \<Longrightarrow>
       b = (\<exists>s. map_of (lp_monitor_sockets l) s = Some m \<and> Monitor s EVENT_CONNECTED \<in> set seen)"
    "lp_all_connected l \<longleftrightarrow> list_all (\<lambda>(_, b, _). b) (lp_to_be_connected l)"
  using assms unfolding loop_inv_def by blast+

lemma list_all_lookup:
  "wf_dict d \<Longrightarrow> list_all (\<lambda>(_, b, _). b) d \<longleftrightarrow> (\<forall>m b e. map_of d m = Some (b, e) \<longrightarrow> b)"
  by (fastforce simp: list_all_iff wf_dict_def)

lemma none_connected:
  assumes "\<And>k b e. map_of d k = Some (b, e) \<Longrightarrow> \<not> b"
  shows "(\<forall>k b e. map_of d k = Some (b, e) \<longrightarrow> b) = (d = [])"
proof (cases d)
  case (Cons a d')
  obtain k b e where "a = (k, b, e)" by (cases a) auto
  with Cons have "map_of d k = Some (b, e)" by simp
  with assms Cons show ?thesis by blast
qed simp

lemma all_connected_iff:
  assumes "loop_inv seen l"
  shows "lp_all_connected l \<longleftrightarrow> (\<forall>m \<in> fst ` set (lp_to_be_connected l). \<exists>s. map_of (lp_monitor_sockets l) s = Some m \<and> Monitor s EVENT_CONNECTED \<in> set seen)"
proof -
  note v = loop_invD [OF assms]
  have "lp_all_connected l \<longleftrightarrow> (\<forall>m b e. map_of (lp_to_be_connected l) m = Some (b, e) \<longrightarrow> b)"
    unfolding v(5) by (rule list_all_lookup [OF v(1)])
  also have "\<dots> \<longleftrightarrow> (\<forall>m \<in> fst ` set (lp_to_be_connected l). \<exists>s. map_of (lp_monitor_sockets l) s = Some m \<and> Monitor s EVENT_CONNECTED \<in> set seen)"
  proof (intro iffI ballI allI impI)
    fix m assume all: "\<forall>m b e. map_of (lp_to_be_connected l) m = Some (b, e) \<longrightarrow> b" and "m \<in> fst ` set (lp_to_be_connected l)"
    then obtain b e where "map_of (lp_to_be_connected l) m = Some (b, e)"
      using dict_mem_iff [of m "lp_to_be_connected l"] by (auto simp: dict_mem_def)
    with all v(4) show "\<exists>s. map_of (lp_monitor_sockets l) s = Some m \<and> Monitor s EVENT_CONNECTED \<in> set seen" by blast
  next
    fix m b e assume "\<forall>m \<in> fst ` set (lp_to_be_connected l). \<exists>s. map_of (lp_monitor_sockets l) s = Some m \<and> Monitor s EVENT_CONNECTED \<in> set seen"
      and m: "map_of (lp_to_be_connected l) m = Some (b, e)"
    moreover have "m \<in> fst ` set (lp_to_be_connected l)" using m by (metis dict_mem_def dict_mem_iff option.distinct(1))
    ultimately show b using v(4) [OF m] by blast
  qed
  finally show ?thesis .
qed

lemma loop_inv_same:
  assumes "loop_inv seen l" "lp_to_be_connected l' = lp_to_be_connected l" "lp_monitor_sockets l' = lp_monitor_sockets l"
    "lp_all_connected l' = lp_all_connected l" "\<forall>s. Monitor s EVENT_CONNECTED \<in> set seen' \<longleftrightarrow> Monitor s EVENT_CONNECTED \<in> set seen"
  shows "loop_inv seen' l'"
  using assms(1) unfolding loop_inv_def assms(2-4) using assms(5) by blast

lemma loop_inv_event:
  assumes inv: "loop_inv seen l" and ev: "handle_event send rcv ev l = Inr l'"
  shows "loop_inv (seen @ [ev]) l' \<and> lp_monitor_sockets l' = lp_monitor_sockets l \<and>
    fst ` set (lp_to_be_connected l') = fst ` set (lp_to_be_connected l) \<and> (\<not> lp_all_connected l \<longrightarrow> lp_handlers l' = lp_handlers l) \<and>
    (lp_all_connected l \<longrightarrow> lp_all_connected l')"
proof (cases ev)
  case (Socket s flag x)
  with ev have "lp_to_be_connected l' = lp_to_be_connected l" "lp_monitor_sockets l' = lp_monitor_sockets l"
    "lp_all_connected l' = lp_all_connected l" "\<not> lp_all_connected l \<longrightarrow> lp_handlers l' = lp_handlers l"
    by (auto simp: handle_event_def Let_def split: if_splits)
  with loop_inv_same [OF inv, of l' "seen @ [ev]"] Socket show ?thesis by simp
next
  case (Monitor s evt)
  with ev obtain m where m: "map_of (lp_monitor_sockets l) s = Some m" "on_monitor_event evt m l = Inr l'"
    by (auto simp: handle_event_def)
  note v = inv [unfolded loop_inv_def]
  show ?thesis
  proof (cases "sm_kind m = CONNECT")
    case False
    with m have l': "l' = l" by (simp add: on_monitor_event_def)
    have "b = (\<exists>s. map_of (lp_monitor_sockets l) s = Some m' \<and> Monitor s EVENT_CONNECTED \<in> set (seen @ [ev]))"
      if m': "map_of (lp_to_be_connected l) m' = Some (b, e)" for m' b e
    proof -
      have "sm_kind m' = CONNECT" using loop_invD(2) [OF inv, of m'] m' by (simp add: dict_mem_def)
      with False m(1) have "map_of (lp_monitor_sockets l) s \<noteq> Some m'" by auto
      moreover have "b = (\<exists>s. map_of (lp_monitor_sockets l) s = Some m' \<and> Monitor s EVENT_CONNECTED \<in> set seen)" using v m' by blast
      ultimately show ?thesis using Monitor by auto
    qed
    with v have "loop_inv (seen @ [ev]) l" unfolding loop_inv_def by blast
    with l' show ?thesis by simp
  next
    case True
    let ?d = "lp_to_be_connected l"
    from loop_invD(3) [OF inv m(1) True] obtain b0 e0 where b0: "map_of ?d m = Some (b0, e0)"
      by (cases "map_of ?d m") (auto simp: dict_mem_def)
    define b where "b = (evt = EVENT_CONNECTED \<or> b0)"
    have l': "l' = l\<lparr>lp_to_be_connected := AList.update m (b, Some evt) ?d,
        lp_all_connected := (lp_all_connected l \<or> list_all (\<lambda>(_, b, _). b) (AList.update m (b, Some evt) ?d))\<rparr>"
      using m(2) True b0 by (cases "evt = EVENT_CONNECTED") (auto simp: on_monitor_event_def Let_def b_def)
    have keys: "fst ` set (AList.update m (b, Some evt) ?d) = fst ` set ?d"
      using b0 by (simp add: dom_update) (metis dict_mem_def dict_mem_iff insert_absorb option.distinct(1))
    then have mem: "dict_mem k (AList.update m (b, Some evt) ?d) = dict_mem k ?d" for k by (simp add: dict_mem_iff)
    have flag: "c = (\<exists>s. map_of (lp_monitor_sockets l) s = Some k \<and> Monitor s EVENT_CONNECTED \<in> set (seen @ [ev]))"
      if "map_of (AList.update m (b, Some evt) ?d) k = Some (c, e)" for k c e
    proof (cases "k = m")
      case True
      have "b0 = (\<exists>s. map_of (lp_monitor_sockets l) s = Some m \<and> Monitor s EVENT_CONNECTED \<in> set seen)" using v b0 by blast
      with True that Monitor m(1) show ?thesis by (auto simp: b_def)
    next
      case False
      with that have "map_of ?d k = Some (c, e)" by simp
      with v have "c = (\<exists>s. map_of (lp_monitor_sockets l) s = Some k \<and> Monitor s EVENT_CONNECTED \<in> set seen)" by blast
      with False m(1) Monitor show ?thesis by auto
    qed
    have wf: "wf_dict (AList.update m (b, Some evt) ?d)" using v by simp
    have gate: "list_all (\<lambda>(_, b, _). b) (AList.update m (b, Some evt) ?d)" if "lp_all_connected l"
    proof -
      have "\<forall>k c e. map_of ?d k = Some (c, e) \<longrightarrow> c" using loop_invD(5) [OF inv] that list_all_lookup [OF loop_invD(1) [OF inv]] by simp
      then show ?thesis unfolding list_all_lookup [OF wf] using b0 by (auto simp: b_def)
    qed
    have "loop_inv (seen @ [ev]) l'"
      unfolding loop_inv_def
    proof (intro conjI allI impI)
      show "wf_dict (lp_to_be_connected l')" using wf by (simp add: l')
      show "sm_kind k = CONNECT" if "dict_mem k (lp_to_be_connected l')" for k using that loop_invD(2) [OF inv, of k] True by (auto simp: l' mem)
      show "dict_mem k (lp_to_be_connected l')" if "map_of (lp_monitor_sockets l') t = Some k \<and> sm_kind k = CONNECT" for t k
        using that loop_invD(3) [OF inv, of t k] by (simp add: l' mem)
      show "c = (\<exists>s. map_of (lp_monitor_sockets l') s = Some k \<and> Monitor s EVENT_CONNECTED \<in> set (seen @ [ev]))"
        if "map_of (lp_to_be_connected l') k = Some (c, e)" for k c e using flag that unfolding l' by simp
      show "lp_all_connected l' = list_all (\<lambda>(_, b, _). b) (lp_to_be_connected l')" using gate by (auto simp: l')
    qed
    with l' keys show ?thesis by simp
  qed
qed

lemma loop_inv_run:
  assumes "loop_inv seen l" "rfold (handle_event send rcv) evs l = Inr l'"
  shows "loop_inv (seen @ evs) l' \<and> lp_monitor_sockets l' = lp_monitor_sockets l \<and>
    fst ` set (lp_to_be_connected l') = fst ` set (lp_to_be_connected l) \<and> (\<not> lp_all_connected l' \<longrightarrow> lp_handlers l' = lp_handlers l) \<and>
    (lp_all_connected l \<longrightarrow> lp_all_connected l')"
  using assms
proof (induction evs arbitrary: seen l)
  case (Cons ev evs)
  from Cons.prems(2) obtain l1 where l1: "handle_event send rcv ev l = Inr l1" "rfold (handle_event send rcv) evs l1 = Inr l'"
    by (auto split: sum.splits)
  note st = loop_inv_event [OF Cons.prems(1) l1(1)]
  from Cons.IH [OF st [THEN conjunct1] l1(2)] st show ?case by auto
qed auto

lemma add_sockets_inv:
  fixes l l' :: "('h, 's) io_loop"
  assumes "rfold (add_loop_socket i) socks l = Inr l'" "loop_inv ([] :: ('s, 'x) loop_event list) (l\<lparr>lp_all_connected := (lp_to_be_connected l = [])\<rparr>)"
    and "\<forall>s. dict_mem s (lp_monitor_sockets l) \<longrightarrow> dict_mem s (lp_socket_to_handler l)"
  shows "loop_inv ([] :: ('s, 'x) loop_event list) (l'\<lparr>lp_all_connected := (lp_to_be_connected l' = [])\<rparr>) \<and> lp_all_connected l' = lp_all_connected l \<and>
    length (lp_handlers l') = length (lp_handlers l) \<and> (\<forall>s. dict_mem s (lp_monitor_sockets l') \<longrightarrow> dict_mem s (lp_socket_to_handler l'))"
  using assms
proof (induction socks arbitrary: l)
  case (Cons a socks)
  obtain m s where a: "a = (m, s)" by (cases a)
  from Cons.prems(1) a have s: "\<not> dict_mem s (lp_socket_to_handler l)" by (auto simp: add_loop_socket_def split: if_splits)
  let ?l = "l\<lparr>lp_socket_to_handler := AList.update s i (lp_socket_to_handler l),
      lp_monitor_sockets := AList.update s m (lp_monitor_sockets l),
      lp_to_be_connected := (if sm_kind m = CONNECT then AList.update m (False, None) (lp_to_be_connected l) else lp_to_be_connected l)\<rparr>"
  from Cons.prems(1) a s have run: "rfold (add_loop_socket i) socks ?l = Inr l'" by (simp add: add_loop_socket_def)
  note v = loop_invD [OF Cons.prems(2), simplified]
  have wf: "wf_dict (lp_to_be_connected ?l)" using v(1) by simp
  have none: "\<not> b" if "map_of (lp_to_be_connected ?l) k = Some (b, e)" for k b e using that v(4) [of k b e] by (auto split: if_splits)
  have "loop_inv ([] :: ('s, 'x) loop_event list) (?l\<lparr>lp_all_connected := (lp_to_be_connected ?l = [])\<rparr>)" (is "loop_inv _ ?l1")
    unfolding loop_inv_def
  proof (intro conjI allI impI)
    show "wf_dict (lp_to_be_connected ?l1)" using wf by simp
    show "sm_kind k = CONNECT" if "dict_mem k (lp_to_be_connected ?l1)" for k using that v(2) [of k] by (auto split: if_splits)
    show "dict_mem k (lp_to_be_connected ?l1)" if "map_of (lp_monitor_sockets ?l1) t = Some k \<and> sm_kind k = CONNECT" for t k
      using that v(3) [of t k] by (auto split: if_splits)
    show "b = (\<exists>t. map_of (lp_monitor_sockets ?l1) t = Some k \<and> Monitor t EVENT_CONNECTED \<in> set [])"
      if "map_of (lp_to_be_connected ?l1) k = Some (b, e)" for k b e using none that by simp
    have "list_all (\<lambda>(_, b, _). b) (lp_to_be_connected ?l) = (lp_to_be_connected ?l = [])"
      unfolding list_all_lookup [OF wf] by (rule none_connected) (rule none)
    then show "lp_all_connected ?l1 = list_all (\<lambda>(_, b, _). b) (lp_to_be_connected ?l1)" by (simp split del: if_split)
  qed
  from Cons.IH [OF run this] Cons.prems(3) show ?case by auto
qed auto

lemma start_handlers_inv:
  fixes l l' :: "('h, 's) io_loop"
  assumes "rfold (start_handler create) is l = Inr l'" "loop_inv ([] :: ('s, 'x) loop_event list) (l\<lparr>lp_all_connected := (lp_to_be_connected l = [])\<rparr>)"
    and "\<forall>s. dict_mem s (lp_monitor_sockets l) \<longrightarrow> dict_mem s (lp_socket_to_handler l)"
  shows "loop_inv ([] :: ('s, 'x) loop_event list) (l'\<lparr>lp_all_connected := (lp_to_be_connected l' = [])\<rparr>) \<and> lp_all_connected l' = lp_all_connected l"
  using assms
proof (induction "is" arbitrary: l)
  case (Cons i "is")
  from Cons.prems(1) obtain l1 where l1: "start_handler create i l = Inr l1" "rfold (start_handler create) is l1 = Inr l'"
    by (auto split: sum.splits)
  then obtain socks h where h: "rfold (add_loop_socket i) socks (l\<lparr>lp_handlers := (lp_handlers l)[i := h]\<rparr>) = Inr l1"
    by (auto simp: start_handler_def split: if_splits)
  have "loop_inv ([] :: ('s, 'x) loop_event list) (l\<lparr>lp_handlers := (lp_handlers l)[i := h], lp_all_connected := (lp_to_be_connected l = [])\<rparr>)"
    by (rule loop_inv_same [OF Cons.prems(2)]) simp_all
  then have "loop_inv ([] :: ('s, 'x) loop_event list) (l1\<lparr>lp_all_connected := (lp_to_be_connected l1 = [])\<rparr>) \<and> lp_all_connected l1 = lp_all_connected l \<and>
      (\<forall>s. dict_mem s (lp_monitor_sockets l1) \<longrightarrow> dict_mem s (lp_socket_to_handler l1))"
    using add_sockets_inv [OF h, where ?'x = 'x] Cons.prems(3) by simp
  with Cons.IH [OF l1(2)] show ?case by simp
qed simp

lemma start_loop_inv:
  fixes l l' :: "('h, 's) io_loop"
  assumes "start_loop create l = Inr l'" "lp_to_be_connected l = []" "lp_monitor_sockets l = []" "\<not> lp_all_connected l"
  shows "loop_inv ([] :: ('s, 'x) loop_event list) l'"
proof -
  from assms(1) obtain l1 where l1: "rfold (start_handler create) [0..<length (lp_handlers l)] l = Inr l1"
    "l' = l1\<lparr>lp_running := True, lp_all_connected := (lp_all_connected l1 \<or> lp_to_be_connected l1 = [])\<rparr>"
    by (auto simp: start_loop_def)
  have "loop_inv ([] :: ('s, 'x) loop_event list) (l\<lparr>lp_all_connected := (lp_to_be_connected l = [])\<rparr>)" using assms(2,3) by (simp add: loop_inv_def dict_mem_def)
  moreover have "\<forall>s. dict_mem s (lp_monitor_sockets l) \<longrightarrow> dict_mem s (lp_socket_to_handler l)" using assms(3) by (simp add: dict_mem_def)
  ultimately have 1: "loop_inv ([] :: ('s, 'x) loop_event list) (l1\<lparr>lp_all_connected := (lp_to_be_connected l1 = [])\<rparr>)" "lp_all_connected l1 = lp_all_connected l"
    using start_handlers_inv [OF l1(1)] by blast+
  show ?thesis by (rule loop_inv_same [OF 1(1)]) (use 1(2) assms(4) in \<open>simp_all add: l1(2)\<close>)
qed


text \<open>A loop over handlers with one socket each, all of which connect: the second one comes up last.\<close>

definition two_sockets :: "(nat, nat) io_loop" where
  "two_sockets = io_loop_init\<lparr>lp_handlers := [0, 1]\<rparr>"

definition connecting :: "nat \<Rightarrow> ((socket_meta \<times> nat) list \<times> nat) result" where
  "connecting h = Inr ([(\<lparr>sm_owner = CLIENT, sm_kind = CONNECT, sm_channel_id = str_nat h, sm_addr = []\<rparr>, h)], h)"


section \<open>What the loop asks of a handler\<close>

text \<open>
  The contract between the loop and its handlers: on a socket it owns, and for an answer of the
  environment it can take, a handler's operations do not raise and change neither the sockets it owns
  nor the answers it can take.
\<close>

locale io_handler =
  fixes send rcv :: "'x \<Rightarrow> 's \<Rightarrow> 'h \<Rightarrow> 'h result"
    and ok :: "'h \<Rightarrow> bool" and owns :: "'s \<Rightarrow> 'h \<Rightarrow> bool" and takes :: "'x \<Rightarrow> 's \<Rightarrow> 'h \<Rightarrow> bool"
  assumes send_ok: "ok h \<Longrightarrow> owns s h \<Longrightarrow> takes x s h \<Longrightarrow>
      \<exists>h'. send x s h = Inr h' \<and> ok h' \<and> (\<forall>t y. owns t h' = owns t h \<and> takes y t h' = takes y t h)"
    and rcv_ok: "ok h \<Longrightarrow> owns s h \<Longrightarrow> takes x s h \<Longrightarrow>
      \<exists>h'. rcv x s h = Inr h' \<and> ok h' \<and> (\<forall>t y. owns t h' = owns t h \<and> takes y t h' = takes y t h)"
begin

definition loop_ok :: "('h, 's) io_loop \<Rightarrow> bool" where
  "loop_ok l \<longleftrightarrow> (\<forall>h \<in> set (lp_handlers l). ok h) \<and>
     (\<forall>s i. map_of (lp_socket_to_handler l) s = Some i \<longrightarrow> i < length (lp_handlers l) \<and> owns s (lp_handlers l ! i))"

definition event_ok :: "('h, 's) io_loop \<Rightarrow> ('s, 'x) loop_event \<Rightarrow> bool" where
  "event_ok l ev =
     (case ev of
        Monitor s _ \<Rightarrow> dict_mem s (lp_monitor_sockets l)
      | Socket s flag x \<Rightarrow> flag \<noteq> OTHER_FLAG \<and> (\<exists>i. map_of (lp_socket_to_handler l) s = Some i \<and> takes x s (lp_handlers l ! i)))"

lemma handle_ok:
  assumes "ok h" "owns s h" "takes x s h" "flag \<noteq> OTHER_FLAG"
  shows "\<exists>h'. (case flag of POLLIN \<Rightarrow> rcv x s h | POLLOUT \<Rightarrow> send x s h | POLLIN_POLLOUT \<Rightarrow> rbind (send x s h) (rcv x s) | OTHER_FLAG \<Rightarrow> Inl RuntimeError) = Inr h' \<and>
    ok h' \<and> (\<forall>t y. owns t h' = owns t h \<and> takes y t h' = takes y t h)"
proof (cases flag)
  case POLLIN_POLLOUT
  from send_ok [OF assms(1-3)] obtain h1 where h1: "send x s h = Inr h1" "ok h1" "\<forall>t y. owns t h1 = owns t h \<and> takes y t h1 = takes y t h" by blast
  with rcv_ok [OF h1(2), of s x] assms(2,3) POLLIN_POLLOUT show ?thesis by auto
qed (use assms send_ok [OF assms(1-3)] rcv_ok [OF assms(1-3)] in auto)

lemma event_total:
  fixes seen :: "('s, 'x) loop_event list"
  assumes inv: "loop_inv seen l" and ok: "loop_ok l" and ev: "event_ok l ev"
  shows "\<exists>l'. handle_event send rcv ev l = Inr l' \<and> loop_ok l' \<and> (\<forall>e. event_ok l' e = event_ok l e)"
proof (cases ev)
  case (Monitor s evt)
  with ev obtain m where m: "map_of (lp_monitor_sockets l) s = Some m" by (auto simp: event_ok_def dict_mem_def)
  have "\<exists>l'. on_monitor_event evt m l = Inr l' \<and> lp_handlers l' = lp_handlers l \<and> lp_socket_to_handler l' = lp_socket_to_handler l \<and>
      lp_monitor_sockets l' = lp_monitor_sockets l"
  proof (cases "sm_kind m = CONNECT")
    case True
    from loop_invD(3) [OF inv m True] obtain b e where "map_of (lp_to_be_connected l) m = Some (b, e)"
      by (cases "map_of (lp_to_be_connected l) m") (auto simp: dict_mem_def)
    with True show ?thesis by (cases "evt = EVENT_CONNECTED") (simp_all add: on_monitor_event_def Let_def)
  qed (simp add: on_monitor_event_def)
  with m Monitor ok show ?thesis by (auto simp: handle_event_def loop_ok_def event_ok_def split: loop_event.splits)
next
  case (Socket s flag x)
  show ?thesis
  proof (cases "lp_all_connected l")
    case True
    from ev Socket obtain i where i: "map_of (lp_socket_to_handler l) s = Some i" "takes x s (lp_handlers l ! i)" "flag \<noteq> OTHER_FLAG"
      by (auto simp: event_ok_def)
    from ok i(1) have h: "i < length (lp_handlers l)" "owns s (lp_handlers l ! i)" "ok (lp_handlers l ! i)" by (auto simp: loop_ok_def)
    from handle_ok [OF h(3,2) i(2,3)] obtain h' where h': "(case flag of POLLIN \<Rightarrow> rcv x s (lp_handlers l ! i) | POLLOUT \<Rightarrow> send x s (lp_handlers l ! i)
        | POLLIN_POLLOUT \<Rightarrow> rbind (send x s (lp_handlers l ! i)) (rcv x s) | OTHER_FLAG \<Rightarrow> Inl RuntimeError) = Inr h'"
      "ok h'" "\<forall>t y. owns t h' = owns t (lp_handlers l ! i) \<and> takes y t h' = takes y t (lp_handlers l ! i)" by blast
    let ?l = "l\<lparr>lp_handlers := (lp_handlers l)[i := h']\<rparr>"
    have "handle_event send rcv ev l = Inr ?l" using True Socket i(1) h'(1) by (simp add: handle_event_def Let_def)
    moreover have same: "owns t (lp_handlers ?l ! j) = owns t (lp_handlers l ! j)" "takes y t (lp_handlers ?l ! j) = takes y t (lp_handlers l ! j)" for t j y
      using h(1) h'(3) by (cases "j = i"; simp)+
    have "loop_ok ?l"
      using ok h'(2) same(1) set_update_subset_insert [of "lp_handlers l" i h'] unfolding loop_ok_def by fastforce
    moreover have "event_ok ?l e = event_ok l e" for e using same(2) by (simp add: event_ok_def split: loop_event.splits)
    ultimately show ?thesis by blast
  next
    case False
    with Socket ok show ?thesis by (simp add: handle_event_def)
  qed
qed

lemma loop_never_raises:
  fixes seen :: "('s, 'x) loop_event list"
  assumes "loop_inv seen l" "loop_ok l" "\<forall>ev \<in> set evs. event_ok l ev"
  shows "is_ok (rfold (handle_event send rcv) evs l)"
  using assms
proof (induction evs arbitrary: seen l)
  case (Cons ev evs)
  from event_total [OF Cons.prems(1,2), of ev] Cons.prems(3) obtain l' where
    l': "handle_event send rcv ev l = Inr l'" "loop_ok l'" "\<forall>e. event_ok l' e = event_ok l e" by auto
  from loop_inv_event [OF Cons.prems(1) l'(1)] Cons.IH [of "seen @ [ev]" l'] l' Cons.prems(3) show ?case by simp
qed simp

end

text \<open>A handler that also creates its sockets: it owns what it creates, so a loop starts in a good state.\<close>

locale io_handler_start = io_handler send rcv ok owns takes
  for send rcv :: "'x \<Rightarrow> 's \<Rightarrow> 'h \<Rightarrow> 'h result" and ok :: "'h \<Rightarrow> bool" and owns :: "'s \<Rightarrow> 'h \<Rightarrow> bool"
    and takes :: "'x \<Rightarrow> 's \<Rightarrow> 'h \<Rightarrow> bool" +
  fixes create :: "'h \<Rightarrow> ((socket_meta \<times> 's) list \<times> 'h) result"
  assumes create_ok: "ok h \<Longrightarrow> create h = Inr (socks, h') \<Longrightarrow>
      ok h' \<and> (\<forall>x \<in> set socks. owns (snd x) h') \<and> (\<forall>s. owns s h \<longrightarrow> owns s h')"
begin

lemma add_sockets_ok:
  assumes "rfold (add_loop_socket i) socks l = Inr l'" "loop_ok l" "i < length (lp_handlers l)"
    and "\<forall>x \<in> set socks. owns (snd x) (lp_handlers l ! i)"
  shows "loop_ok l' \<and> lp_handlers l' = lp_handlers l"
  using assms
proof (induction socks arbitrary: l)
  case (Cons a socks)
  obtain m s where a: "a = (m, s)" by (cases a)
  from Cons.prems(1) a obtain l1 where l1: "add_loop_socket i (m, s) l = Inr l1" "rfold (add_loop_socket i) socks l1 = Inr l'"
    by (auto split: sum.splits)
  then have h: "lp_handlers l1 = lp_handlers l" "lp_socket_to_handler l1 = AList.update s i (lp_socket_to_handler l)"
    by (auto simp: add_loop_socket_def split: if_splits)
  with Cons.prems a have "loop_ok l1" by (auto simp: loop_ok_def split: if_splits)
  with Cons.IH [OF l1(2)] Cons.prems h(1) show ?case by simp
qed simp

lemma start_handlers_ok:
  assumes "rfold (start_handler create) is l = Inr l'" "loop_ok l" "\<forall>i \<in> set is. i < length (lp_handlers l)"
  shows "loop_ok l'"
  using assms
proof (induction "is" arbitrary: l)
  case (Cons i "is")
  from Cons.prems(1) obtain l1 where l1: "start_handler create i l = Inr l1" "rfold (start_handler create) is l1 = Inr l'"
    by (auto split: sum.splits)
  then obtain socks h where h: "create (lp_handlers l ! i) = Inr (socks, h)"
    "rfold (add_loop_socket i) socks (l\<lparr>lp_handlers := (lp_handlers l)[i := h]\<rparr>) = Inr l1"
    by (auto simp: start_handler_def split: if_splits)
  have i: "i < length (lp_handlers l)" "ok (lp_handlers l ! i)" using Cons.prems(2,3) by (auto simp: loop_ok_def)
  note new = create_ok [OF i(2) h(1)]
  have "owns s ((lp_handlers l)[i := h] ! j)" if "owns s (lp_handlers l ! j)" for s j
    using that new i(1) by (cases "j = i") auto
  moreover have "\<forall>x \<in> set ((lp_handlers l)[i := h]). ok x"
    using Cons.prems(2) new set_update_subset_insert [of "lp_handlers l" i h] by (auto simp: loop_ok_def)
  ultimately have "loop_ok (l\<lparr>lp_handlers := (lp_handlers l)[i := h]\<rparr>)" using Cons.prems(2) by (simp add: loop_ok_def)
  with add_sockets_ok [OF h(2)] i(1) new have "loop_ok l1" "length (lp_handlers l1) = length (lp_handlers l)" by auto
  with Cons.IH [OF l1(2)] Cons.prems(3) show ?case by simp
qed simp

lemma started_loop_never_raises:
  fixes evs :: "('s, 'x) loop_event list"
  assumes start: "start_loop create l0 = Inr l1" "lp_to_be_connected l0 = []" "lp_monitor_sockets l0 = []" "\<not> lp_all_connected l0"
    and ok: "loop_ok l0" and evs: "\<forall>ev \<in> set evs. event_ok l1 ev"
  shows "is_ok (io_poll send rcv evs l1)"
proof -
  from start(1) obtain l where l: "rfold (start_handler create) [0..<length (lp_handlers l0)] l0 = Inr l"
    "l1 = l\<lparr>lp_running := True, lp_all_connected := (lp_all_connected l \<or> lp_to_be_connected l = [])\<rparr>"
    by (auto simp: start_loop_def)
  from start_handlers_ok [OF l(1) ok] have "loop_ok l1" by (simp add: loop_ok_def l(2))
  from loop_never_raises [OF start_loop_inv [OF start] this evs] show ?thesis by (simp add: io_poll_def)
qed

end

section \<open>Transfer handlers in the loop\<close>

text \<open>
  A transfer handler with its channels. The loop of a transfer actor runs a sender and a receiver, which may both
  have a socket for the same peer, so a socket also says which of the two it belongs to.
\<close>

type_synonym transfer_handler = "remote_channel list \<times> remote_handler"

definition transfer_sock :: "bool \<Rightarrow> remote_channel list \<Rightarrow> socket_meta \<Rightarrow> bool \<times> sock" where
  "transfer_sock is_sender chs m =
     (is_sender,
      case sm_owner m of
        TRANSFER_REMOTE \<Rightarrow> RemoteSock (peer_node is_sender (the (find (\<lambda>c. rch_channel_id c = sm_channel_id m) chs)))
      | _ \<Rightarrow> LocalSock (sm_channel_id m))"

definition transfer_create :: "transfer_handler \<Rightarrow> ((socket_meta \<times> bool \<times> sock) list \<times> transfer_handler) result" where
  "transfer_create = (\<lambda>(chs, h).
     rbind (create_sockets chs h) (\<lambda>h'.
     rbind (create_transfer_sockets (rh_is_sender h) chs) (\<lambda>metas.
       Inr (map (\<lambda>m. (m, transfer_sock (rh_is_sender h) chs m)) metas, (chs, h')))))"

definition transfer_send :: "bool \<times> bytes option \<Rightarrow> bool \<times> sock \<Rightarrow> transfer_handler \<Rightarrow> transfer_handler result" where
  "transfer_send = (\<lambda>(sent, _) (_, s) (chs, h). rbind (rh_send sent s h) (\<lambda>(_, h'). Inr (chs, h')))"

definition transfer_rcv :: "bool \<times> bytes option \<Rightarrow> bool \<times> sock \<Rightarrow> transfer_handler \<Rightarrow> transfer_handler result" where
  "transfer_rcv = (\<lambda>(_, data) (_, s) (chs, h). rbind (rh_rcv data s h) (\<lambda>h'. Inr (chs, h')))"

text \<open>A transfer actor: a sender for its outgoing channels and a receiver for its incoming ones, both in one loop.\<close>

definition register_handler ::
    "bool \<Rightarrow> remote_channel list option \<Rightarrow> (transfer_handler, bool \<times> sock) io_loop \<Rightarrow> (transfer_handler, bool \<times> sock) io_loop result" where
  "register_handler is_sender channels l =
     (case channels of
        None \<Rightarrow> Inr l
      | Some chs \<Rightarrow> rbind (rh_init is_sender chs) (\<lambda>h. io_register (chs, h) l))"

definition transfer_actor_init ::
    "remote_channel list option \<Rightarrow> remote_channel list option \<Rightarrow> (transfer_handler, bool \<times> sock) io_loop result" where
  "transfer_actor_init in_channels out_channels =
     (if in_channels = None \<and> out_channels = None then Inl ValueError
      else rbind (register_handler True out_channels io_loop_init) (register_handler False in_channels))"

definition transfer_ok :: "transfer_handler \<Rightarrow> bool" where
  "transfer_ok = (\<lambda>(chs, h).
     (\<forall>c \<in> set chs. dict_mem (rch_channel_id c) (rh_local_queues h) \<and>
        map_of (rh_ch_id_to_node_id h) (rch_channel_id c) = Some (peer_node (rh_is_sender h) c)) \<and>
     (\<forall>ch \<in> set (rh_local_socks h). dict_mem ch (rh_local_queues h) \<and>
        (\<exists>p. map_of (rh_ch_id_to_node_id h) ch = Some p \<and> dict_mem p (rh_remote_queues h))))"

definition transfer_owns :: "bool \<times> sock \<Rightarrow> transfer_handler \<Rightarrow> bool" where
  "transfer_owns = (\<lambda>(b, s) (chs, h). b = rh_is_sender h \<and>
     (case s of LocalSock ch \<Rightarrow> ch \<in> set (rh_local_socks h) | RemoteSock n \<Rightarrow> dict_mem n (rh_remote_queues h)))"

text \<open>A local socket never refuses a buffer, and what arrives from a peer carries the id of a channel of the handler.\<close>

definition transfer_takes :: "bool \<times> bytes option \<Rightarrow> bool \<times> sock \<Rightarrow> transfer_handler \<Rightarrow> bool" where
  "transfer_takes = (\<lambda>(sent, data) (b, s) (chs, h).
     case s of
       LocalSock ch \<Rightarrow> sent
     | RemoteSock n \<Rightarrow> (case data of None \<Rightarrow> True | Some d \<Rightarrow> \<exists>ch \<in> set (rh_local_socks h). get_channel_id d = Inr ch))"

text \<open>Sending and receiving move buffers; the shape of the handler stays.\<close>

definition same_shape :: "remote_handler \<Rightarrow> remote_handler \<Rightarrow> bool" where
  "same_shape h h' \<longleftrightarrow> rh_is_sender h' = rh_is_sender h \<and> rh_local_socks h' = rh_local_socks h \<and>
     rh_ch_id_to_node_id h' = rh_ch_id_to_node_id h \<and>
     (\<forall>k. dict_mem k (rh_local_queues h') = dict_mem k (rh_local_queues h)) \<and>
     (\<forall>k. dict_mem k (rh_remote_queues h') = dict_mem k (rh_remote_queues h))"

lemma same_shape_handler:
  assumes "same_shape h h'"
  shows "transfer_ok (chs, h') = transfer_ok (chs, h)" "transfer_owns t (chs, h') = transfer_owns t (chs, h)"
    "transfer_takes y t (chs, h') = transfer_takes y t (chs, h)"
  using assms by (simp_all add: same_shape_def transfer_ok_def transfer_owns_def transfer_takes_def split: prod.splits sock.splits option.splits)

lemma rh_send_shape: "rh_send sent s h = Inr (out, h') \<Longrightarrow> same_shape h h'"
proof (cases s)
  case (LocalSock c)
  assume sent: "rh_send sent s h = Inr (out, h')"
  with LocalSock obtain q where "map_of (rh_local_queues h) c = Some q" by (auto simp: rh_send_def split: if_splits)
  with sent LocalSock show ?thesis
    by (cases q) (auto simp: rh_send_def same_shape_def dict_mem_def split: if_splits)
qed (auto simp: rh_send_def same_shape_def dict_mem_def split: if_splits list.splits option.splits)

lemma rh_rcv_shape: "rh_rcv data s h = Inr h' \<Longrightarrow> same_shape h h'"
  by (auto simp: rh_rcv_def same_shape_def dict_mem_def split: sock.splits if_splits option.splits)

lemma rh_send_total:
  assumes "transfer_ok (chs, h)" "transfer_owns (b, s) (chs, h)" "\<And>ch. s = LocalSock ch \<Longrightarrow> sent"
  shows "\<exists>out h'. rh_send sent s h = Inr (out, h')"
proof (cases s)
  case (LocalSock c)
  with assms obtain q where "map_of (rh_local_queues h) c = Some q" "c \<in> set (rh_local_socks h)"
    by (auto simp: transfer_ok_def transfer_owns_def dict_mem_def)
  with LocalSock show ?thesis by (cases q; cases sent) (use assms in \<open>auto simp: rh_send_def\<close>)
next
  case (RemoteSock n)
  with assms obtain q where "map_of (rh_remote_queues h) n = Some q" by (auto simp: transfer_owns_def dict_mem_def)
  with RemoteSock show ?thesis by (cases q) (simp_all add: rh_send_def)
qed

lemma rh_rcv_total:
  assumes ok: "transfer_ok (chs, h)" and owns: "transfer_owns (b, s) (chs, h)" and takes: "transfer_takes (sent, data) (b, s) (chs, h)"
  shows "\<exists>h'. rh_rcv data s h = Inr h'"
proof (cases data)
  case (Some d)
  have known: "(\<exists>p q. map_of (rh_ch_id_to_node_id h) c = Some p \<and> map_of (rh_remote_queues h) p = Some q) \<and>
      (\<exists>l. map_of (rh_local_queues h) c = Some l)" if "c \<in> set (rh_local_socks h)" for c
    using ok that by (force simp: transfer_ok_def dict_mem_def)
  show ?thesis
  proof (cases s)
    case (LocalSock c)
    with owns have "c \<in> set (rh_local_socks h)" by (simp add: transfer_owns_def)
    with known [OF this] Some LocalSock show ?thesis by (auto simp: rh_rcv_def)
  next
    case (RemoteSock n)
    with owns takes Some obtain c where "c \<in> set (rh_local_socks h)" "get_channel_id d = Inr c" "dict_mem n (rh_remote_queues h)"
      by (auto simp: transfer_owns_def transfer_takes_def)
    with known [of c] Some RemoteSock show ?thesis by (auto simp: rh_rcv_def)
  qed
qed (simp add: rh_rcv_def)

interpretation transfer: io_handler transfer_send transfer_rcv transfer_ok transfer_owns transfer_takes
proof
  fix hh :: transfer_handler and ss :: "bool \<times> sock" and x :: "bool \<times> bytes option"
  assume a: "transfer_ok hh" "transfer_owns ss hh" "transfer_takes x ss hh"
  obtain chs h b s sent data where eqs: "hh = (chs, h)" "ss = (b, s)" "x = (sent, data)" by (metis surj_pair)
  note a = a [unfolded eqs]
  have "sent" if "s = LocalSock ch" for ch using a(3) that by (simp add: transfer_takes_def)
  from rh_send_total [OF a(1,2) this] obtain out h1 where h1: "rh_send sent s h = Inr (out, h1)" by blast
  from rh_rcv_total [OF a] obtain h2 where h2: "rh_rcv data s h = Inr h2" by blast
  show "\<exists>h'. transfer_send x ss hh = Inr h' \<and> transfer_ok h' \<and>
      (\<forall>t y. transfer_owns t h' = transfer_owns t hh \<and> transfer_takes y t h' = transfer_takes y t hh)"
    unfolding eqs using h1 a(1) same_shape_handler [OF rh_send_shape [OF h1]]
    by (intro exI [of _ "(chs, h1)"]) (simp add: transfer_send_def)
  show "\<exists>h'. transfer_rcv x ss hh = Inr h' \<and> transfer_ok h' \<and>
      (\<forall>t y. transfer_owns t h' = transfer_owns t hh \<and> transfer_takes y t h' = transfer_takes y t hh)"
    unfolding eqs using h2 a(1) same_shape_handler [OF rh_rcv_shape [OF h2]]
    by (intro exI [of _ "(chs, h2)"]) (simp add: transfer_rcv_def)
qed

lemma create_sockets_effect:
  assumes "create_sockets chs h = Inr h'"
  shows "rh_is_sender h' = rh_is_sender h \<and> rh_local_queues h' = rh_local_queues h \<and> rh_ch_id_to_node_id h' = rh_ch_id_to_node_id h \<and>
    set (rh_local_socks h') = set (rh_local_socks h) \<union> rch_channel_id ` set chs \<and>
    (\<forall>k. dict_mem k (rh_remote_queues h') \<longleftrightarrow> dict_mem k (rh_remote_queues h) \<or> k \<in> peer_node (rh_is_sender h) ` set chs)"
  using assms
proof (induction chs arbitrary: h)
  case (Cons c chs)
  from Cons.prems obtain h1 where h1: "create_channel_sockets c h = Inr h1" "create_sockets chs h1 = Inr h'"
    by (auto simp: create_sockets_def split: sum.splits)
  from h1(1) have "rh_is_sender h1 = rh_is_sender h \<and> rh_local_queues h1 = rh_local_queues h \<and> rh_ch_id_to_node_id h1 = rh_ch_id_to_node_id h \<and>
      rh_local_socks h1 = rh_local_socks h @ [rch_channel_id c] \<and>
      (\<forall>k. dict_mem k (rh_remote_queues h1) \<longleftrightarrow> dict_mem k (rh_remote_queues h) \<or> k = peer_node (rh_is_sender h) c)"
    by (auto simp: create_channel_sockets_def Let_def split: if_splits)
  with Cons.IH [OF h1(2)] show ?case by auto
qed (simp add: create_sockets_def)

lemma add_transfer_metas:
  assumes "rfold (add_transfer_sockets b) rs (chs, ps, socks) = Inr (chs', ps', socks')" "m \<in> set socks'"
  shows "m \<in> set socks \<or> sm_channel_id m \<in> rch_channel_id ` set rs"
  using assms
proof (induction rs arbitrary: chs ps socks)
  case (Cons r rs)
  from Cons.prems(1) obtain chs1 ps1 socks1 where 1: "add_transfer_sockets b r (chs, ps, socks) = Inr (chs1, ps1, socks1)"
    "rfold (add_transfer_sockets b) rs (chs1, ps1, socks1) = Inr (chs', ps', socks')" by (auto split: sum.splits)
  have "x \<in> set socks \<or> sm_channel_id x = rch_channel_id r" if "x \<in> set socks1" for x
    using that 1(1) by (auto simp: add_transfer_sockets_def transfer_local_meta_def transfer_remote_meta_def Let_def split: if_splits)
  with Cons.IH [OF 1(2) Cons.prems(2)] show ?case by auto
qed simp

lemma transfer_create_ok:
  assumes ok: "transfer_ok (chs, h)" and create: "transfer_create (chs, h) = Inr (socks, hh)"
  shows "transfer_ok hh \<and> (\<forall>x \<in> set socks. transfer_owns (snd x) hh) \<and> (\<forall>s. transfer_owns s (chs, h) \<longrightarrow> transfer_owns s hh)"
proof -
  from create obtain h' metas where h': "create_sockets chs h = Inr h'" "create_transfer_sockets (rh_is_sender h) chs = Inr metas"
    "socks = map (\<lambda>m. (m, transfer_sock (rh_is_sender h) chs m)) metas" "hh = (chs, h')" by (auto simp: transfer_create_def)
  note eff = create_sockets_effect [OF h'(1)]
  have "transfer_ok hh" using ok eff by (auto simp: transfer_ok_def h'(4))
  moreover have "transfer_owns (transfer_sock (rh_is_sender h) chs m) hh" if "m \<in> set metas" for m
  proof -
    from h'(2) that add_transfer_metas have ch: "sm_channel_id m \<in> rch_channel_id ` set chs"
      by (fastforce simp: create_transfer_sockets_def)
    then obtain c where c: "find (\<lambda>c. rch_channel_id c = sm_channel_id m) chs = Some c"
      by (cases "find (\<lambda>c. rch_channel_id c = sm_channel_id m) chs") (auto simp: find_None_iff)
    then have "c \<in> set chs" by (metis find_Some_iff nth_mem)
    with c ch eff show ?thesis by (auto simp: transfer_sock_def transfer_owns_def h'(4) split: socket_owner.splits)
  qed
  moreover have "transfer_owns s (chs, h) \<longrightarrow> transfer_owns s hh" for s
    using eff by (auto simp: transfer_owns_def h'(4) split: sock.splits)
  ultimately show ?thesis by (auto simp: h'(3))
qed

interpretation transfer: io_handler_start transfer_send transfer_rcv transfer_ok transfer_owns transfer_takes transfer_create
  by unfold_locales (use transfer_create_ok in \<open>metis surj_pair\<close>)

lemma find_SomeD: "find P xs = Some y \<Longrightarrow> y \<in> set xs \<and> P y"
  by (induction xs) (auto split: if_splits)

lemma find_snoc: "find P (xs @ [y]) = (case find P xs of None \<Rightarrow> if P y then Some y else None | Some z \<Rightarrow> Some z)"
  by (induction xs) auto

lemma fold_update_lookup:
  "map_of (fold (\<lambda>c. AList.update (k c) (v c)) cs d) x =
     (case find (\<lambda>c. k c = x) (rev cs) of None \<Rightarrow> map_of d x | Some c \<Rightarrow> Some (v c))"
  by (induction cs arbitrary: d) (auto simp: find_snoc split: option.splits)

lemma rh_init_ok:
  assumes "rh_init b chs = Inr h" "distinct (map rch_channel_id chs)"
  shows "transfer_ok (chs, h)"
proof -
  have "find (\<lambda>x. rch_channel_id x = rch_channel_id c) (rev chs) = Some c" if "c \<in> set chs" for c
  proof -
    have "find (\<lambda>x. rch_channel_id x = rch_channel_id c) (rev chs) \<noteq> None" using that by (auto simp: find_None_iff)
    then obtain y where y: "find (\<lambda>x. rch_channel_id x = rch_channel_id c) (rev chs) = Some y" by auto
    from find_SomeD [OF this] have "y \<in> set chs" "rch_channel_id y = rch_channel_id c" by simp_all
    then have "y = c" using assms(2) that by (meson distinct_map inj_onD)
    with y show ?thesis by simp
  qed
  then show ?thesis using assms(1) by (auto simp: rh_init_def transfer_ok_def dict_mem_def fold_update_lookup)
qed

lemma transfer_actor_loop:
  assumes "transfer_actor_init ins outs = Inr l" "\<forall>chs. ins = Some chs \<or> outs = Some chs \<longrightarrow> distinct (map rch_channel_id chs)"
  shows "(\<forall>h \<in> set (lp_handlers l). transfer_ok h) \<and> lp_socket_to_handler l = [] \<and> lp_to_be_connected l = [] \<and>
    lp_monitor_sockets l = [] \<and> \<not> lp_all_connected l"
proof -
  from assms(1) obtain l1 where l1: "register_handler True outs io_loop_init = Inr l1" "register_handler False ins l1 = Inr l"
    by (auto simp: transfer_actor_init_def split: if_splits)
  have step: "\<exists>hs. l' = k\<lparr>lp_handlers := lp_handlers k @ hs\<rparr> \<and> (\<forall>h \<in> set hs. transfer_ok h)"
    if "register_handler b cs k = Inr l'" "\<forall>chs. cs = Some chs \<longrightarrow> distinct (map rch_channel_id chs)" for b cs k l'
  proof (cases cs)
    case None
    with that(1) show ?thesis by (intro exI [of _ "[]"]) (simp add: register_handler_def)
  next
    case (Some chs)
    with that(1) obtain h where h: "rh_init b chs = Inr h" "io_register (chs, h) k = Inr l'" by (auto simp: register_handler_def)
    from rh_init_ok [OF h(1)] that(2) Some h(2) show ?thesis
      by (intro exI [of _ "[(chs, h)]"]) (auto simp: io_register_def split: if_splits)
  qed
  from step [OF l1(1)] step [OF l1(2)] assms(2) obtain hs hs' where "l1 = io_loop_init\<lparr>lp_handlers := hs\<rparr>" "\<forall>h \<in> set hs. transfer_ok h"
    "l = l1\<lparr>lp_handlers := lp_handlers l1 @ hs'\<rparr>" "\<forall>h \<in> set hs'. transfer_ok h" by (auto simp: io_loop_init_def)
  then show ?thesis by (auto simp: io_loop_init_def)
qed

definition one_channel :: remote_channel where
  "one_channel = \<lparr>rch_channel_id = ''c1'', rch_source_local_ipc_addr = ''i'', rch_source_node_ip = [], rch_source_node_id = ''a'',
     rch_target_local_ipc_addr = ''j'', rch_target_node_ip = [], rch_target_node_id = ''b'', rch_port = 1\<rparr>"



text \<open>A local peer that refuses a buffer ends the loop: the metrics call after the refused send raises.\<close>

lemma refused_local_send_stops_loop:
  assumes "lp_running l" "lp_all_connected l" "map_of (lp_socket_to_handler l) (b, LocalSock ch) = Some i"
    and "lp_handlers l ! i = (chs, h)" "ch \<in> set (rh_local_socks h)" "map_of (rh_local_queues h) ch = Some (d # q)"
  shows "io_poll transfer_send transfer_rcv (Socket (b, LocalSock ch) POLLOUT (False, data) # evs) l = Inl TypeError"
  using assms by (simp add: io_poll_def handle_event_def transfer_send_def rh_send_def Let_def)

end
