(* ===== verification/Network_Metrics.thy ===== *)
theory Network_Metrics
  imports Volga_Prelude
begin

text \<open>
  Metrics of the older network (\<open>network_deprecated/metrics.py\<close>): handlers count events in buffers under a key made of
  their tags; a flusher thread takes the buffers over and passes each sum on to the counter of its metric. The counters
  are a library's: the model keeps the list of calls to their \<open>inc\<close>. The locks make counting and taking over atomic,
  so these are single steps; the calls to the counters are one step each.
\<close>

section \<open>Keys\<close>

datatype metric =
    NUM_BUFFERS_SENT | NUM_BUFFERS_RCVD | NUM_BUFFERS_DELIVERED | NUM_BUFFERS_RESENT
  | NUM_RECORDS_SENT | NUM_RECORDS_RCVD | NUM_RECORDS_DELIVERED | LATENCY

datatype io_handler_type = DATA_READER | DATA_WRITER | TRANSFER_SENDER | TRANSFER_RECEIVER

fun handler_type_value :: "io_handler_type \<Rightarrow> string" where
  "handler_type_value DATA_READER = ''data_reader''"
| "handler_type_value DATA_WRITER = ''data_writer''"
| "handler_type_value TRANSFER_SENDER = ''transfer_sender''"
| "handler_type_value TRANSFER_RECEIVER = ''transfer_receiver''"

definition METRIC_KEY_DELIMITER :: char where
  "METRIC_KEY_DELIMITER = CHR '';''"

text \<open>\<open>str.split\<close> at one character.\<close>

fun py_split :: "char \<Rightarrow> string \<Rightarrow> string list" where
  "py_split c [] = [[]]"
| "py_split c (x # xs) = (if x = c then [] # py_split c xs else (case py_split c xs of [] \<Rightarrow> [[x]] | w # ws \<Rightarrow> (x # w) # ws))"

definition metric_key :: "string \<Rightarrow> io_handler_type \<Rightarrow> string \<Rightarrow> string result" where
  "metric_key handler_name handler_type channel_id =
     (if METRIC_KEY_DELIMITER \<in> set handler_name \<or> METRIC_KEY_DELIMITER \<in> set (handler_type_value handler_type) \<or>
         METRIC_KEY_DELIMITER \<in> set channel_id then Inl RuntimeError
      else Inr (handler_name @ [METRIC_KEY_DELIMITER] @ handler_type_value handler_type @ [METRIC_KEY_DELIMITER] @ channel_id))"

definition parse_metric_key :: "string \<Rightarrow> (string \<times> string \<times> string) result" where
  "parse_metric_key key =
     (let s = py_split METRIC_KEY_DELIMITER key
      in rbind (py_index s 0) (\<lambda>a. rbind (py_index s 1) (\<lambda>b. rbind (py_index s 2) (\<lambda>c. Inr (a, b, c)))))"

section \<open>The recorder\<close>

record metrics_recorder =
  mr_buffered :: "(metric, (string, int) dict) dict"
  mr_to_flush :: "(metric \<times> string \<times> int) list"
  mr_counter_calls :: "(metric \<times> (string \<times> string \<times> string) \<times> int) list"

definition counter_metrics :: "metric list" where
  "counter_metrics = [NUM_BUFFERS_SENT, NUM_BUFFERS_RESENT, NUM_BUFFERS_RCVD, NUM_BUFFERS_DELIVERED,
     NUM_RECORDS_SENT, NUM_RECORDS_RCVD, NUM_RECORDS_DELIVERED]"

definition metrics_init :: metrics_recorder where
  "metrics_init = \<lparr>mr_buffered = map (\<lambda>m. (m, [])) counter_metrics, mr_to_flush = [], mr_counter_calls = []\<rparr>"

definition metrics_inc ::
    "metric \<Rightarrow> string \<Rightarrow> io_handler_type \<Rightarrow> string \<Rightarrow> int \<Rightarrow> metrics_recorder \<Rightarrow> metrics_recorder result" where
  "metrics_inc metric handler_name handler_type channel_id value r =
     rbind (metric_key handler_name handler_type channel_id) (\<lambda>key.
     rbind (dict_get (mr_buffered r) metric) (\<lambda>d.
       Inr (r\<lparr>mr_buffered := AList.update metric (AList.update key (case map_of d key of None \<Rightarrow> value | Some n \<Rightarrow> n + value) d)
                (mr_buffered r)\<rparr>)))"

text \<open>The first half of \<open>_flush_metrics\<close>, under all locks: take the buffers over and reset them.\<close>

definition take_buffers :: "metrics_recorder \<Rightarrow> metrics_recorder" where
  "take_buffers r =
     r\<lparr>mr_to_flush := concat (map (\<lambda>(m, d). map (\<lambda>(k, n). (m, k, n)) d) (mr_buffered r)),
       mr_buffered := map (\<lambda>(m, d). (m, [])) (mr_buffered r)\<rparr>"

definition flush_inc :: "metric \<times> string \<times> int \<Rightarrow> metrics_recorder \<Rightarrow> metrics_recorder result" where
  "flush_inc = (\<lambda>(metric, key, value) r.
     if value = 0 then Inr r
     else rbind (parse_metric_key key) (\<lambda>tags. Inr (r\<lparr>mr_counter_calls := mr_counter_calls r @ [(metric, tags, value)]\<rparr>)))"

text \<open>Handlers and the flusher interleave; the second component lists what the handlers counted.\<close>

inductive metrics_step ::
    "metrics_recorder \<times> (metric \<times> (string \<times> string \<times> string) \<times> int) list \<Rightarrow>
     metrics_recorder \<times> (metric \<times> (string \<times> string \<times> string) \<times> int) list \<Rightarrow> bool" where
  count_event: "metrics_inc m hn ht ch n r = Inr r' \<Longrightarrow> metrics_step (r, incs) (r', incs @ [(m, (hn, handler_type_value ht, ch), n)])"
| take_over: "mr_to_flush r = [] \<Longrightarrow> metrics_step (r, incs) (take_buffers r, incs)"
| pass_on: "mr_to_flush r = x # xs \<Longrightarrow> flush_inc x (r\<lparr>mr_to_flush := xs\<rparr>) = Inr r' \<Longrightarrow> metrics_step (r, incs) (r', incs)"

section \<open>Keys round trip\<close>

lemma py_split_append: "c \<notin> set a \<Longrightarrow> py_split c (a @ c # b) = a # py_split c b"
  by (induction a) auto

lemma py_split_single: "c \<notin> set a \<Longrightarrow> py_split c a = [a]"
  by (induction a) auto

lemma handler_type_value_plain: "METRIC_KEY_DELIMITER \<notin> set (handler_type_value t)"
  by (cases t) (simp_all add: METRIC_KEY_DELIMITER_def)

text \<open>
  A key gives back the tags it was made of, and making one fails exactly when the handler name or the
  channel id contains the delimiter.
\<close>

theorem metric_key_roundtrip:
  "rbind (metric_key hn ht ch) parse_metric_key =
     (if METRIC_KEY_DELIMITER \<in> set hn \<union> set ch then Inl RuntimeError else Inr (hn, handler_type_value ht, ch))"
  using handler_type_value_plain [of ht]
  by (auto simp: metric_key_def parse_metric_key_def py_split_append py_split_single py_index_def Let_def)

lemma metric_key_parse:
  assumes "metric_key hn ht ch = Inr key"
  shows "parse_metric_key key = Inr (hn, handler_type_value ht, ch)"
  using assms handler_type_value_plain [of ht]
  by (auto simp: metric_key_def parse_metric_key_def py_split_append py_split_single py_index_def Let_def split: if_splits)

section \<open>Nothing is lost on the way to the counters\<close>

definition total_of :: "'a \<Rightarrow> ('a \<times> int) list \<Rightarrow> int" where
  "total_of x es = sum_list (map snd (filter (\<lambda>e. fst e = x) es))"

lemma total_of_simps [simp]:
  "total_of x [] = 0" "total_of x (es @ fs) = total_of x es + total_of x fs"
  "total_of x (e # es) = (if fst e = x then snd e else 0) + total_of x es"
  by (simp_all add: total_of_def)

lemma total_of_concat: "total_of x (concat ess) = sum_list (map (total_of x) ess)"
  by (induction ess) simp_all

text \<open>What a dictionary of counts holds, as entries.\<close>

definition entries :: "(metric, (string, int) dict) dict \<Rightarrow> ((metric \<times> string \<times> string \<times> string) \<times> int) list" where
  "entries b = concat (map (\<lambda>(m, d). map (\<lambda>(k, n). ((m, projr (parse_metric_key k)), n)) d) b)"

definition tagged :: "(metric \<times> (string \<times> string \<times> string) \<times> int) list \<Rightarrow> ((metric \<times> string \<times> string \<times> string) \<times> int) list" where
  "tagged es = map (\<lambda>(m, tags, n). ((m, tags), n)) es"

definition keyed :: "(metric \<times> string \<times> int) list \<Rightarrow> ((metric \<times> string \<times> string \<times> string) \<times> int) list" where
  "keyed es = map (\<lambda>(m, k, n). ((m, projr (parse_metric_key k)), n)) es"

definition keys_ok :: "metrics_recorder \<Rightarrow> bool" where
  "keys_ok r \<longleftrightarrow> (\<forall>(m, d) \<in> set (mr_buffered r). \<forall>(k, n) \<in> set d. is_ok (parse_metric_key k)) \<and>
     (\<forall>(m, k, n) \<in> set (mr_to_flush r). is_ok (parse_metric_key k)) \<and> wf_dict (mr_buffered r)"

definition metrics_inv :: "metric \<times> string \<times> string \<times> string \<Rightarrow> metrics_recorder \<Rightarrow> (metric \<times> (string \<times> string \<times> string) \<times> int) list \<Rightarrow> bool" where
  "metrics_inv x r incs \<longleftrightarrow> keys_ok r \<and>
     total_of x (tagged incs) = total_of x (tagged (mr_counter_calls r)) + total_of x (keyed (mr_to_flush r)) + total_of x (entries (mr_buffered r))"

lemma total_of_update:
  "total_of x (map (\<lambda>(k, n). (f k, n)) (AList.update k (case map_of d k of None \<Rightarrow> v | Some n \<Rightarrow> n + v) d)) =
     total_of x (map (\<lambda>(k, n). (f k, n)) d) + (if f k = x then v else 0)"
  by (induction d) (auto split: option.splits)

lemma entries_update:
  assumes "wf_dict b" "map_of b m = Some d"
  shows "total_of x (entries (AList.update m d' b)) =
    total_of x (entries b) - total_of x (entries [(m, d)]) + total_of x (entries [(m, d')])"
  using assms
proof (induction b)
  case (Cons a b)
  obtain m1 d1 where a: "a = (m1, d1)" by (cases a)
  show ?case
  proof (cases "m1 = m")
    case False
    with Cons a show ?thesis by (simp add: entries_def wf_dict_def)
  qed (use Cons.prems a in \<open>simp add: entries_def\<close>)
qed simp

lemma set_update_cases: "e \<in> set (AList.update k v d) \<Longrightarrow> e \<in> set d \<or> e = (k, v)"
  by (induction d) (auto split: if_splits)

lemma metrics_inc_inv:
  assumes "metrics_inv x r incs" "metrics_inc m hn ht ch n r = Inr r'"
  shows "metrics_inv x r' (incs @ [(m, (hn, handler_type_value ht, ch), n)])"
proof -
  from assms(2) obtain key d where k: "metric_key hn ht ch = Inr key" "map_of (mr_buffered r) m = Some d"
    "r' = r\<lparr>mr_buffered := AList.update m (AList.update key (case map_of d key of None \<Rightarrow> n | Some k \<Rightarrow> k + n) d) (mr_buffered r)\<rparr>"
    by (auto simp: metrics_inc_def)
  let ?d = "AList.update key (case map_of d key of None \<Rightarrow> n | Some k \<Rightarrow> k + n) d"
  note parse = metric_key_parse [OF k(1)]
  have wf: "wf_dict (mr_buffered r)" using assms(1) by (simp add: metrics_inv_def keys_ok_def)
  have "total_of x (entries [(m, ?d)]) = total_of x (entries [(m, d)]) + (if (m, hn, handler_type_value ht, ch) = x then n else 0)"
    using total_of_update [of x "\<lambda>k. (m, projr (parse_metric_key k))" key n d] parse by (simp add: entries_def)
  with entries_update [OF wf k(2)] assms(1) k(3) have
    "total_of x (tagged (incs @ [(m, (hn, handler_type_value ht, ch), n)])) =
       total_of x (tagged (mr_counter_calls r')) + total_of x (keyed (mr_to_flush r')) + total_of x (entries (mr_buffered r'))"
    by (simp add: metrics_inv_def tagged_def)
  moreover have "keys_ok r'"
  proof -
    have keys: "is_ok (parse_metric_key q)" if "(q, v) \<in> set ?d" for q v
    proof -
      have "q = key \<or> q \<in> fst ` set d" using set_update_cases [OF that] by force
      then show ?thesis using assms(1) parse map_of_SomeD [OF k(2)] by (fastforce simp: metrics_inv_def keys_ok_def)
    qed
    have "e \<in> set (mr_buffered r) \<or> e = (m, ?d)" if "e \<in> set (mr_buffered r')" for e
      using that set_update_cases [of e m ?d "mr_buffered r"] k(3) by simp
    with keys assms(1) k(3) show ?thesis by (fastforce simp: metrics_inv_def keys_ok_def)
  qed
  ultimately show ?thesis by (simp add: metrics_inv_def)
qed

lemma metrics_step_inv:
  assumes "metrics_step s s'" "metrics_inv x (fst s) (snd s)"
  shows "metrics_inv x (fst s') (snd s')"
  using assms
proof cases
  case (count_event m hn ht ch n r r' incs)
  with assms(2) metrics_inc_inv show ?thesis by simp
next
  case (take_over r incs)
  have "entries (map (\<lambda>(m, d). (m, [])) b) = []" for b :: "(metric, (string, int) dict) dict" by (induction b) (auto simp: entries_def)
  moreover have "keyed (concat (map (\<lambda>(m, d). map (\<lambda>(k, n). (m, k, n)) d) b)) = entries b" for b
    by (induction b) (auto simp: entries_def keyed_def)
  moreover have "keys_ok (take_buffers r)"
    using assms(2) take_over by (fastforce simp: metrics_inv_def keys_ok_def take_buffers_def wf_dict_def o_def split_beta)
  ultimately show ?thesis using assms(2) take_over by (simp add: metrics_inv_def take_buffers_def keyed_def)
next
  case (pass_on r y xs r' incs)
  obtain m k n where y: "y = (m, k, n)" by (cases y)
  from assms(2) pass_on y obtain tags where tags: "parse_metric_key k = Inr tags" by (auto simp: metrics_inv_def keys_ok_def is_ok_iff)
  from assms(2) pass_on have inv: "metrics_inv x r incs" by simp
  have "r' = r\<lparr>mr_to_flush := xs, mr_counter_calls := mr_counter_calls r @ (if n = 0 then [] else [(m, tags, n)])\<rparr>"
    using pass_on(4) y tags by (simp add: flush_inc_def split: if_splits)
  with inv pass_on y tags show ?thesis by (simp add: metrics_inv_def keys_ok_def keyed_def tagged_def)
qed

text \<open>
  The counters get every event once: however handlers and flusher interleave, for each metric and each choice of tags the
  sum passed to the counter, what the flusher has taken over and what is still buffered add up to what the handlers
  counted; no step of the flusher raises, and when it has nothing left and nothing is buffered the counter's sum is
  exact.
\<close>

theorem metrics_conserved:
  assumes "metrics_step\<^sup>*\<^sup>* (metrics_init, []) (r, incs)"
  shows "total_of x (tagged incs) =
      total_of x (tagged (mr_counter_calls r)) + total_of x (keyed (mr_to_flush r)) + total_of x (entries (mr_buffered r)) \<and>
    (\<forall>y \<in> set (mr_to_flush r). is_ok (flush_inc y r))"
proof -
  have "metrics_inv x (fst (r, incs)) (snd (r, incs))"
    using assms
  proof (induction rule: rtranclp_induct)
    case base
    show ?case by (auto simp: entries_def metrics_inv_def keys_ok_def metrics_init_def tagged_def keyed_def wf_dict_def counter_metrics_def)
  qed (rule metrics_step_inv)
  then show ?thesis by (fastforce simp: metrics_inv_def keys_ok_def flush_inc_def is_ok_iff)
qed

theorem metrics_conserved_witness:
  "\<exists>r. metrics_step\<^sup>*\<^sup>* (metrics_init, []) (r, [(NUM_BUFFERS_SENT, (''w'', ''data_writer'', ''c1''), 1)]) \<and>
     total_of (NUM_BUFFERS_SENT, ''w'', ''data_writer'', ''c1'') (tagged (mr_counter_calls r)) +
     total_of (NUM_BUFFERS_SENT, ''w'', ''data_writer'', ''c1'') (keyed (mr_to_flush r)) = 1"
proof -
  let ?x = "(NUM_BUFFERS_SENT, ''w'', ''data_writer'', ''c1'')" and ?incs = "[(NUM_BUFFERS_SENT, (''w'', ''data_writer'', ''c1''), 1)]"
  obtain r where r: "metrics_inc NUM_BUFFERS_SENT ''w'' DATA_WRITER ''c1'' 1 metrics_init = Inr r"
    by (simp add: metrics_inc_def metrics_init_def metric_key_def METRIC_KEY_DELIMITER_def counter_metrics_def)
  have "metrics_step (metrics_init, []) (r, ?incs)" using metrics_step.count_event [OF r, of "[]"] by simp
  moreover have "metrics_step (r, ?incs) (take_buffers r, ?incs)"
    by (rule metrics_step.take_over) (use r in \<open>auto simp: metrics_inc_def metrics_init_def\<close>)
  ultimately have steps: "metrics_step\<^sup>*\<^sup>* (metrics_init, []) (take_buffers r, ?incs)" by (meson r_into_rtranclp rtranclp_trans)
  have "total_of ?x (entries (mr_buffered (take_buffers r))) = 0"
    using r by (auto simp: metrics_inc_def metrics_init_def take_buffers_def entries_def counter_metrics_def)
  with metrics_conserved [OF steps, of ?x] steps show ?thesis by (intro exI [of _ "take_buffers r"]) (simp add: tagged_def)
qed

end
