(* ===== verification/Native_Metrics.thy ===== *)
theory Native_Metrics
  imports Network_Metrics
begin

text \<open>
  The metrics of the native network: counters in the Rust part (\<open>src/rust/src/network/metrics.rs\<close>), which its threads flush to a file, and
  the recorder of the Python part (\<open>streaming/runtime/network/metrics.py\<close>), which empties that file and passes the counts on. The threads of
  both sides interleave; the file is locked while it is merged into or emptied. Nothing is lost on the way, except at
  the end: a handler closes its recorder before its native part writes its last counts (\<open>close\<close> in \<open>network/local/data_reader.py\<close>).
\<close>

section \<open>Keys\<close>

definition metric_names :: "string list" where
  "metric_names = [''volga_num_buffers_sent'', ''volga_num_buffers_recvd'', ''volga_num_buffers_resent'', ''volga_num_bytes_sent'', ''volga_num_bytes_recvd'']"

definition native_metric_key :: "string \<Rightarrow> string \<Rightarrow> string" where
  "native_metric_key name ch = name @ [METRIC_KEY_DELIMITER] @ ch"

definition parse_native_key :: "string \<Rightarrow> (string \<times> string) result" where
  "parse_native_key key = (let s = py_split METRIC_KEY_DELIMITER key in rbind (py_index s 0) (\<lambda>a. rbind (py_index s 1) (\<lambda>b. Inr (a, b))))"

section \<open>The counters and the file\<close>

type_synonym key_counts = "(string, nat) dict"

text \<open>\<open>inc\<close>; a key is only counted by one thread of a handler, so looking it up and inserting it are one step.\<close>

definition add_count :: "string \<Rightarrow> nat \<Rightarrow> key_counts \<Rightarrow> key_counts" where
  "add_count key n d = AList.update key (case map_of d key of None \<Rightarrow> n | Some v \<Rightarrow> v + n) d"

text \<open>One turn of the loop of \<open>flush_all\<close>: take the value of a counter and reset it.\<close>

definition swap_counter :: "string \<Rightarrow> key_counts \<Rightarrow> key_counts \<Rightarrow> key_counts \<times> key_counts" where
  "swap_counter key counters to_flush =
     (case map_of counters key of
        None \<Rightarrow> (counters, to_flush)
      | Some v \<Rightarrow> (AList.update key 0 counters, AList.update key v to_flush))"

text \<open>\<open>flush_map\<close>: merge into what the file holds; a missing file is created.\<close>

definition flush_map :: "key_counts \<Rightarrow> key_counts option \<Rightarrow> key_counts" where
  "flush_map to_flush file = fold (\<lambda>(k, v). add_count k v) to_flush (case file of None \<Rightarrow> [] | Some d \<Rightarrow> d)"

text \<open>\<open>_record_metrics_to_prom\<close>: the calls of the counters, in order, up to an exception.\<close>

fun record_metrics_to_prom :: "(string \<times> nat) list \<Rightarrow> (string \<times> string \<times> nat) list \<Rightarrow> unit result \<times> (string \<times> string \<times> nat) list" where
  "record_metrics_to_prom [] calls = (Inr (), calls)"
| "record_metrics_to_prom ((key, n) # metrics) calls =
     (case parse_native_key key of
        Inl e \<Rightarrow> (Inl e, calls)
      | Inr (name, ch) \<Rightarrow>
          if name \<notin> set metric_names then (Inl RuntimeError, calls)
          else record_metrics_to_prom metrics (if n \<noteq> 0 then calls @ [(name, ch, n)] else calls))"

text \<open>\<open>_read_and_flush\<close>: the file is emptied before its counts are passed on.\<close>

definition read_and_flush :: "key_counts option \<Rightarrow> (string \<times> string \<times> nat) list \<Rightarrow> unit result \<times> key_counts option \<times> (string \<times> string \<times> nat) list" where
  "read_and_flush file calls =
     (case file of
        None \<Rightarrow> (Inr (), None, calls)
      | Some d \<Rightarrow> if d = [] then (Inr (), Some d, calls)
                   else (case record_metrics_to_prom d calls of (r, calls') \<Rightarrow> (r, Some [], calls')))"

section \<open>The threads together\<close>

record metrics_pipeline =
  mp_counted :: "(string \<times> string \<times> nat) list"
  mp_counters :: key_counts
  mp_to_flush :: key_counts
  mp_file :: "key_counts option"
  mp_calls :: "(string \<times> string \<times> nat) list"

definition pipeline_init :: metrics_pipeline where
  "pipeline_init = \<lparr>mp_counted = [], mp_counters = [], mp_to_flush = [], mp_file = None, mp_calls = []\<rparr>"

definition pipeline_inc :: "string \<Rightarrow> string \<Rightarrow> nat \<Rightarrow> metrics_pipeline \<Rightarrow> metrics_pipeline" where
  "pipeline_inc name ch n s =
     s\<lparr>mp_counters := add_count (native_metric_key name ch) n (mp_counters s), mp_counted := mp_counted s @ [(name, ch, n)]\<rparr>"

definition pipeline_write :: "metrics_pipeline \<Rightarrow> metrics_pipeline" where
  "pipeline_write s = s\<lparr>mp_file := Some (flush_map (mp_to_flush s) (mp_file s)), mp_to_flush := []\<rparr>"

definition pipeline_read :: "metrics_pipeline \<Rightarrow> unit result \<times> metrics_pipeline" where
  "pipeline_read s = (case read_and_flush (mp_file s) (mp_calls s) of (r, file, calls) \<Rightarrow> (r, s\<lparr>mp_file := file, mp_calls := calls\<rparr>))"

text \<open>
  The native threads count with the five names and the ids of channels or peers; their flusher takes counters one by one, each once, and
  writes; the flusher of the recorder reads.
\<close>

inductive pipeline_step :: "metrics_pipeline \<Rightarrow> metrics_pipeline \<Rightarrow> bool" where
  count_step: "name \<in> set metric_names \<Longrightarrow> METRIC_KEY_DELIMITER \<notin> set ch \<Longrightarrow> pipeline_step s (pipeline_inc name ch n s)"
| swap_step: "\<not> dict_mem key (mp_to_flush s) \<Longrightarrow> swap_counter key (mp_counters s) (mp_to_flush s) = (counters, to_flush) \<Longrightarrow>
    pipeline_step s (s\<lparr>mp_counters := counters, mp_to_flush := to_flush\<rparr>)"
| write_step: "pipeline_step s (pipeline_write s)"
| read_step: "pipeline_read s = (r, s') \<Longrightarrow> pipeline_step s s'"

text \<open>
  \<open>close\<close> of a handler: the recorder's last round comes first; then the native part takes all counters and writes them.
\<close>

definition swap_all :: "metrics_pipeline \<Rightarrow> metrics_pipeline" where
  "swap_all s = fold (\<lambda>key s. case swap_counter key (mp_counters s) (mp_to_flush s) of
     (counters, to_flush) \<Rightarrow> s\<lparr>mp_counters := counters, mp_to_flush := to_flush\<rparr>) (dict_keys (mp_counters s)) s"

definition handler_close :: "metrics_pipeline \<Rightarrow> metrics_pipeline" where
  "handler_close s = pipeline_write (swap_all (snd (pipeline_read s)))"

section \<open>Amounts\<close>

definition count_at :: "string \<Rightarrow> key_counts \<Rightarrow> nat" where
  "count_at key d = (case map_of d key of None \<Rightarrow> 0 | Some n \<Rightarrow> n)"

definition calls_at :: "string \<Rightarrow> string \<Rightarrow> (string \<times> string \<times> nat) list \<Rightarrow> nat" where
  "calls_at name ch calls = sum_list (map (\<lambda>(a, b, n). if a = name \<and> b = ch then n else 0) calls)"

definition known_key :: "string \<Rightarrow> bool" where
  "known_key key \<longleftrightarrow> (\<exists>name ch. name \<in> set metric_names \<and> METRIC_KEY_DELIMITER \<notin> set ch \<and> key = native_metric_key name ch)"

definition known_counts :: "key_counts \<Rightarrow> bool" where
  "known_counts d \<longleftrightarrow> wf_dict d \<and> (\<forall>key \<in> fst ` set d. known_key key)"

definition file_counts :: "metrics_pipeline \<Rightarrow> key_counts" where
  "file_counts s = (case mp_file s of None \<Rightarrow> [] | Some d \<Rightarrow> d)"

lemma metric_name_plain: "name \<in> set metric_names \<Longrightarrow> METRIC_KEY_DELIMITER \<notin> set name"
  by (auto simp: metric_names_def METRIC_KEY_DELIMITER_def)

lemma native_key_roundtrip:
  assumes "name \<in> set metric_names" "METRIC_KEY_DELIMITER \<notin> set ch"
  shows "parse_native_key (native_metric_key name ch) = Inr (name, ch)"
  using assms metric_name_plain
  by (simp add: parse_native_key_def native_metric_key_def py_split_append py_split_single py_index_def Let_def)

lemma native_key_inject:
  assumes "name \<in> set metric_names" "METRIC_KEY_DELIMITER \<notin> set ch" "name' \<in> set metric_names" "METRIC_KEY_DELIMITER \<notin> set ch'"
  shows "native_metric_key name ch = native_metric_key name' ch' \<longleftrightarrow> name = name' \<and> ch = ch'"
proof
  assume eq: "native_metric_key name ch = native_metric_key name' ch'"
  have "(Inr (name, ch) :: (string \<times> string) result) = Inr (name', ch')"
    unfolding native_key_roundtrip [OF assms(1,2), symmetric] native_key_roundtrip [OF assms(3,4), symmetric] eq ..
  then show "name = name' \<and> ch = ch'" by simp
qed simp

lemma count_at_simps [simp]:
  "count_at key [] = 0" "count_at key (AList.update k n d) = (if key = k then n else count_at key d)"
  "count_at key (add_count k n d) = count_at key d + (if key = k then n else 0)"
  by (auto simp: count_at_def add_count_def split: option.split)

lemma calls_at_simps [simp]:
  "calls_at name ch [] = 0" "calls_at name ch (calls @ [(a, b, n)]) = calls_at name ch calls + (if a = name \<and> b = ch then n else 0)"
  by (simp_all add: calls_at_def)

lemma known_counts_update: "known_counts d \<Longrightarrow> known_key k \<Longrightarrow> known_counts (AList.update k n d)"
  by (auto simp: known_counts_def dom_update)

lemma known_counts_Nil [simp]: "known_counts []"
  by (simp add: known_counts_def)

lemma count_at_Cons: "wf_dict ((k, n) # d) \<Longrightarrow> count_at key ((k, n) # d) = (if key = k then n else count_at key d) \<and> (key = k \<longrightarrow> count_at key d = 0)"
  by (auto simp: count_at_def wf_dict_def split: option.split dest!: map_of_SomeD) force

section \<open>Conservation\<close>

lemma flush_map_counts:
  assumes "known_counts d" "known_counts (case file of None \<Rightarrow> [] | Some f \<Rightarrow> f)"
  shows "known_counts (flush_map d file)" "count_at key (flush_map d file) = count_at key d + count_at key (case file of None \<Rightarrow> [] | Some f \<Rightarrow> f)"
proof -
  have "known_counts (fold (\<lambda>(k, v). add_count k v) d f) \<and> count_at key (fold (\<lambda>(k, v). add_count k v) d f) = count_at key d + count_at key f"
    if "known_counts f" for f using assms(1) that
  proof (induction d arbitrary: f)
    case (Cons x d)
    obtain k n where x: "x = (k, n)" by (cases x)
    have d: "known_counts d" "known_key k" "wf_dict ((k, n) # d)" using Cons.prems(1) by (auto simp: known_counts_def x wf_dict_def)
    have "known_counts (add_count k n f)" unfolding add_count_def by (rule known_counts_update [OF Cons.prems(2) d(2)])
    from Cons.IH [OF d(1) this] count_at_Cons [OF d(3), of key] show ?case by (simp add: x)
  qed simp
  from this [OF assms(2)] show "known_counts (flush_map d file)" "count_at key (flush_map d file) = count_at key d + count_at key (case file of None \<Rightarrow> [] | Some f \<Rightarrow> f)"
    by (simp_all add: flush_map_def)
qed

lemma record_metrics_counts:
  assumes "known_counts d" "name \<in> set metric_names" "METRIC_KEY_DELIMITER \<notin> set ch"
  shows "\<exists>calls'. record_metrics_to_prom d calls = (Inr (), calls') \<and> calls_at name ch calls' = calls_at name ch calls + count_at (native_metric_key name ch) d"
  using assms(1)
proof (induction d arbitrary: calls)
  case (Cons x d)
  obtain k n where x: "x = (k, n)" by (cases x)
  have d: "known_counts d" "known_key k" "wf_dict ((k, n) # d)" using Cons.prems by (auto simp: known_counts_def x wf_dict_def)
  from d(2) obtain a b where k: "a \<in> set metric_names" "METRIC_KEY_DELIMITER \<notin> set b" "k = native_metric_key a b" by (auto simp: known_key_def)
  let ?calls = "if n \<noteq> 0 then calls @ [(a, b, n)] else calls"
  from Cons.IH [OF d(1), of ?calls] obtain calls' where c: "record_metrics_to_prom d ?calls = (Inr (), calls')"
    "calls_at name ch calls' = calls_at name ch ?calls + count_at (native_metric_key name ch) d" by blast
  have "record_metrics_to_prom (x # d) calls = (Inr (), calls')" using c(1) k(1) native_key_roundtrip [OF k(1,2)] by (simp add: x k(3))
  moreover have "calls_at name ch ?calls = calls_at name ch calls + (if native_metric_key name ch = k then n else 0)"
    using native_key_inject [OF assms(2,3) k(1,2)] by (auto simp: k(3))
  ultimately show ?case using c(2) count_at_Cons [OF d(3), of "native_metric_key name ch"] by (auto simp: x)
qed simp

definition pipeline_ok :: "metrics_pipeline \<Rightarrow> bool" where
  "pipeline_ok s \<longleftrightarrow> known_counts (mp_counters s) \<and> known_counts (mp_to_flush s) \<and> known_counts (file_counts s)"

text \<open>Where the counts of one metric and one channel are: in the counters, on the way to the file, in the file, or passed on.\<close>

definition pipeline_total :: "string \<Rightarrow> string \<Rightarrow> metrics_pipeline \<Rightarrow> nat" where
  "pipeline_total name ch s = count_at (native_metric_key name ch) (mp_counters s) + count_at (native_metric_key name ch) (mp_to_flush s) +
     count_at (native_metric_key name ch) (file_counts s) + calls_at name ch (mp_calls s)"

lemma pipeline_read_ok:
  assumes "pipeline_ok s" "name \<in> set metric_names" "METRIC_KEY_DELIMITER \<notin> set ch" "pipeline_read s = (r, s')"
  shows "r = Inr ()" "pipeline_ok s'" "mp_counters s' = mp_counters s" "mp_to_flush s' = mp_to_flush s" "mp_counted s' = mp_counted s"
    "count_at key (file_counts s') = 0" "calls_at name ch (mp_calls s') = calls_at name ch (mp_calls s) + count_at (native_metric_key name ch) (file_counts s)"
proof -
  have "r = Inr () \<and> pipeline_ok s' \<and> mp_counters s' = mp_counters s \<and> mp_to_flush s' = mp_to_flush s \<and> mp_counted s' = mp_counted s \<and>
    count_at key (file_counts s') = 0 \<and> calls_at name ch (mp_calls s') = calls_at name ch (mp_calls s) + count_at (native_metric_key name ch) (file_counts s)"
  proof (cases "mp_file s")
    case (Some d)
    with assms(1) have "known_counts d" by (simp add: pipeline_ok_def file_counts_def)
    from record_metrics_counts [OF this assms(2,3), of "mp_calls s"] Some assms(1,4) show ?thesis
      by (cases "d = []") (auto simp: pipeline_read_def read_and_flush_def pipeline_ok_def file_counts_def)
  qed (use assms in \<open>auto simp: pipeline_read_def read_and_flush_def pipeline_ok_def file_counts_def\<close>)
  then show "r = Inr ()" "pipeline_ok s'" "mp_counters s' = mp_counters s" "mp_to_flush s' = mp_to_flush s" "mp_counted s' = mp_counted s"
    "count_at key (file_counts s') = 0" "calls_at name ch (mp_calls s') = calls_at name ch (mp_calls s) + count_at (native_metric_key name ch) (file_counts s)"
    by simp_all
qed

lemma pipeline_step_conserves:
  assumes "pipeline_step s s'" "pipeline_ok s" "name \<in> set metric_names" "METRIC_KEY_DELIMITER \<notin> set ch"
  shows "pipeline_ok s' \<and> pipeline_total name ch s' + calls_at name ch (mp_counted s) = pipeline_total name ch s + calls_at name ch (mp_counted s')"
  using assms(1,2)
proof (cases rule: pipeline_step.cases)
  case (count_step a b n)
  have "known_key (native_metric_key a b)" using count_step by (auto simp: known_key_def)
  with assms(2) known_counts_update [of "mp_counters s"] have "pipeline_ok s'"
    unfolding count_step(1) by (simp add: pipeline_ok_def pipeline_inc_def file_counts_def add_count_def)
  moreover have "native_metric_key name ch = native_metric_key a b \<longleftrightarrow> a = name \<and> b = ch"
    using native_key_inject [OF assms(3,4) count_step(2,3)] by auto
  ultimately show ?thesis unfolding count_step(1) by (auto simp: pipeline_total_def pipeline_inc_def file_counts_def)
next
  case (swap_step key counters to_flush)
  show ?thesis
  proof (cases "map_of (mp_counters s) key")
    case None
    with swap_step assms(2) show ?thesis by (auto simp: swap_counter_def pipeline_ok_def pipeline_total_def file_counts_def)
  next
    case (Some v)
    then have k: "known_key key" using assms(2) by (force simp: pipeline_ok_def known_counts_def dest: map_of_SomeD)
    have "count_at key (mp_to_flush s) = 0" using swap_step(2) by (simp add: count_at_def dict_mem_def split: option.split)
    moreover have "count_at key (mp_counters s) = v" using Some by (simp add: count_at_def)
    ultimately show ?thesis using swap_step(1,3) Some assms(2) known_counts_update [OF _ k]
      by (auto simp: swap_counter_def pipeline_ok_def pipeline_total_def file_counts_def)
  qed
next
  case write_step
  with assms(2) flush_map_counts [of "mp_to_flush s" "mp_file s"] show ?thesis
    by (simp add: pipeline_write_def pipeline_ok_def pipeline_total_def file_counts_def)
next
  case (read_step r)
  from pipeline_read_ok [OF assms(2-4) read_step] show ?thesis by (simp add: pipeline_total_def)
qed

lemma pipeline_reachable:
  assumes "pipeline_step\<^sup>*\<^sup>* pipeline_init s" "name \<in> set metric_names" "METRIC_KEY_DELIMITER \<notin> set ch"
  shows "pipeline_ok s \<and> pipeline_total name ch s = calls_at name ch (mp_counted s)"
  using assms(1)
proof (induction rule: rtranclp_induct)
  case base
  then show ?case by (simp add: pipeline_init_def pipeline_ok_def pipeline_total_def file_counts_def)
next
  case (step s s')
  with pipeline_step_conserves [OF step(2) _ assms(2,3)] show ?case by fastforce
qed


text \<open>Taking all counters.\<close>

lemma swap_counters:
  defines "swap \<equiv> \<lambda>key s. case swap_counter key (mp_counters s) (mp_to_flush s) of (counters, to_flush) \<Rightarrow> s\<lparr>mp_counters := counters, mp_to_flush := to_flush\<rparr>"
  assumes "distinct keys" "\<forall>k \<in> set keys. dict_mem k (mp_counters s) \<and> \<not> dict_mem k (mp_to_flush s)" "pipeline_ok s"
  shows "pipeline_ok (fold swap keys s) \<and> mp_file (fold swap keys s) = mp_file s \<and> mp_calls (fold swap keys s) = mp_calls s \<and>
    (\<forall>k. count_at k (mp_to_flush (fold swap keys s)) = count_at k (mp_to_flush s) + (if k \<in> set keys then count_at k (mp_counters s) else 0))"
  using assms(2-)
proof (induction keys arbitrary: s)
  case (Cons k keys)
  from Cons.prems(2) obtain v where v: "map_of (mp_counters s) k = Some v" "\<not> dict_mem k (mp_to_flush s)" by (auto simp: dict_mem_def)
  have k: "known_key k" using v(1) Cons.prems(3) by (force simp: pipeline_ok_def known_counts_def dest: map_of_SomeD)
  let ?s = "s\<lparr>mp_counters := AList.update k 0 (mp_counters s), mp_to_flush := AList.update k v (mp_to_flush s)\<rparr>"
  have step: "swap k s = ?s" using v(1) by (simp add: swap_def swap_counter_def)
  have ok: "pipeline_ok ?s" using Cons.prems(3) known_counts_update [OF _ k] by (simp add: pipeline_ok_def file_counts_def)
  have keys: "\<forall>k' \<in> set keys. dict_mem k' (mp_counters ?s) \<and> \<not> dict_mem k' (mp_to_flush ?s)"
    using Cons.prems(1,2) by (auto simp: dict_mem_def)
  have z: "count_at k (mp_counters s) = v" "count_at k (mp_to_flush s) = 0"
    using v by (auto simp: count_at_def dict_mem_def split: option.split)
  have d: "distinct keys" "k \<notin> set keys" using Cons.prems(1) by auto
  note IH = Cons.IH [OF d(1) keys ok]
  have "count_at k' (mp_to_flush (fold swap keys ?s)) = count_at k' (mp_to_flush s) + (if k' \<in> set (k # keys) then count_at k' (mp_counters s) else 0)" for k'
    using IH [THEN conjunct2, THEN conjunct2, THEN conjunct2, rule_format, of k'] z d(2) by (cases "k' = k") auto
  with IH show ?case by (simp add: step)
qed simp

lemma swap_all_counts:
  assumes "pipeline_ok s" "mp_to_flush s = []"
  shows "pipeline_ok (swap_all s)" "mp_file (swap_all s) = mp_file s" "mp_calls (swap_all s) = mp_calls s"
    "count_at k (mp_to_flush (swap_all s)) = count_at k (mp_counters s)"
proof -
  have "distinct (dict_keys (mp_counters s))" using assms(1) by (simp add: pipeline_ok_def known_counts_def wf_dict_def dict_keys_def)
  moreover have "\<forall>k \<in> set (dict_keys (mp_counters s)). dict_mem k (mp_counters s) \<and> \<not> dict_mem k (mp_to_flush s)"
    by (simp add: assms(2) dict_mem_iff dict_keys_def)
  moreover have "count_at k (mp_counters s) = 0" if "k \<notin> set (dict_keys (mp_counters s))"
    using that by (auto simp: count_at_def dict_keys_def split: option.split dest!: map_of_SomeD) force
  ultimately show "pipeline_ok (swap_all s)" "mp_file (swap_all s) = mp_file s" "mp_calls (swap_all s) = mp_calls s"
    "count_at k (mp_to_flush (swap_all s)) = count_at k (mp_counters s)"
    using swap_counters [of "dict_keys (mp_counters s)" s] assms by (auto simp: swap_all_def)
qed

text \<open>
  Closing a handler passes on what the file held and leaves in the file, which nothing reads afterwards, everything that was
  counted since the native flusher wrote last.
\<close>

lemma handler_close_leaves_counts:
  assumes "pipeline_step\<^sup>*\<^sup>* pipeline_init s" "mp_to_flush s = []" "name \<in> set metric_names" "METRIC_KEY_DELIMITER \<notin> set ch"
  shows "calls_at name ch (mp_calls (handler_close s)) + count_at (native_metric_key name ch) (mp_counters s) = calls_at name ch (mp_counted s)"
    "count_at (native_metric_key name ch) (file_counts (handler_close s)) = count_at (native_metric_key name ch) (mp_counters s)"
proof -
  let ?k = "native_metric_key name ch"
  note ok = pipeline_reachable [OF assms(1,3,4)]
  obtain r s1 where s1: "pipeline_read s = (r, s1)" by (cases "pipeline_read s")
  note rd = pipeline_read_ok [OF conjunct1 [OF ok] assms(3,4) s1]
  note sw = swap_all_counts [OF rd(2) rd(4) [unfolded assms(2)]]
  have close: "handler_close s = pipeline_write (swap_all s1)" by (simp add: handler_close_def s1)
  have "count_at ?k (flush_map (mp_to_flush (swap_all s1)) (mp_file (swap_all s1))) = count_at ?k (mp_to_flush (swap_all s1)) + count_at ?k (file_counts s1)"
    using flush_map_counts(2) [of "mp_to_flush (swap_all s1)" "mp_file (swap_all s1)" ?k] sw(1,2) by (simp add: pipeline_ok_def file_counts_def)
  then show "count_at ?k (file_counts (handler_close s)) = count_at ?k (mp_counters s)"
    using sw(4) rd(3,6) by (simp add: close pipeline_write_def file_counts_def)
  show "calls_at name ch (mp_calls (handler_close s)) + count_at ?k (mp_counters s) = calls_at name ch (mp_counted s)"
    using ok rd(7) sw(3) assms(2) by (simp add: close pipeline_write_def pipeline_total_def)
qed


text \<open>After a parse error or an unknown name the rest of the file is gone: it was emptied before.\<close>

lemma unknown_metric_loses_rest:
  assumes "parse_native_key key = Inr (name, ch)" "name \<notin> set metric_names"
  shows "read_and_flush (Some ((key, n) # metrics)) calls = (Inl RuntimeError, Some [], calls)"
  using assms by (simp add: read_and_flush_def)

end
