(* ===== verification/Cache_Sinks.thy ===== *)
theory Cache_Sinks
  imports Volga_Prelude
begin

text \<open>
  Sinks that collect their values in a cache actor (\<open>api/function/function.py\<close>, \<open>api/stream/sink_cache_actor.py\<close>).
  A sink function fills a buffer from the thread of its task; a dumper thread and, at the end, the thread that
  closes the function send the buffer to the actor and replace it. The steps of the three threads are modelled one by
  one, with the buffers as objects of a heap: a remote call copies its argument when it is made, and a thread
  that has loaded \<open>self.buffer\<close> keeps that object when another thread replaces it.
\<close>

section \<open>The cache actor\<close>

record ('k, 'v) sink_cache_actor =
  ca_list :: "'v list"
  ca_dict :: "('k, 'v) dict"

definition append_to_list :: "'v \<Rightarrow> ('k, 'v) sink_cache_actor \<Rightarrow> ('k, 'v) sink_cache_actor" where
  "append_to_list v a = a\<lparr>ca_list := ca_list a @ [v]\<rparr>"

definition extend_list :: "'v list \<Rightarrow> ('k, 'v) sink_cache_actor \<Rightarrow> ('k, 'v) sink_cache_actor" where
  "extend_list vals a = a\<lparr>ca_list := ca_list a @ vals\<rparr>"

definition extend_dict :: "('k, 'v) dict \<Rightarrow> ('k, 'v) sink_cache_actor \<Rightarrow> ('k, 'v) sink_cache_actor" where
  "extend_dict d a = a\<lparr>ca_dict := fold (\<lambda>(k, v). AList.update k v) d (ca_dict a)\<rparr>"

section \<open>The sink functions\<close>

datatype dump_thread = Dumper | Closer

datatype dump_pc = Idle | Entered | Checked | Sent

text \<open>
  The state of a sink function with buffers of type \<open>'b\<close> and an actor of type \<open>'c\<close>: the buffer objects, the one that
  \<open>self.buffer\<close> names, the one the task's thread has loaded, and where the two dumping threads are.
\<close>

record ('b, 'c) cache_sink =
  cs_heap :: "'b list"
  cs_buffer :: nat
  cs_running :: bool
  cs_loaded :: "nat option"
  cs_pc :: "dump_thread \<Rightarrow> dump_pc"
  cs_cache :: 'c

definition cache_sink_open :: "'b \<Rightarrow> 'c \<Rightarrow> ('b, 'c) cache_sink" where
  "cache_sink_open empt c =
     \<lparr>cs_heap = [empt], cs_buffer = 0, cs_running = True, cs_loaded = None, cs_pc = (\<lambda>_. Idle), cs_cache = c\<rparr>"

datatype 'v sink_act = Load | Put 'v | Enter dump_thread | Check dump_thread | Send dump_thread | Reset dump_thread

text \<open>
  One step of a thread, \<open>None\<close> when the thread is elsewhere. \<open>sink\<close> is a load and a put; \<open>dump_buffer_if_needed\<close> is a
  check, a send and a reset, entered by the dumper while the function runs and by \<open>close\<close>, which stops it.
\<close>

fun sink_do :: "('v \<Rightarrow> 'b \<Rightarrow> 'b) \<Rightarrow> 'b \<Rightarrow> ('b \<Rightarrow> 'c \<Rightarrow> 'c) \<Rightarrow> 'v sink_act \<Rightarrow> ('b, 'c) cache_sink \<Rightarrow> ('b, 'c) cache_sink option" where
  "sink_do put empt ship Load s = (if cs_loaded s = None then Some (s\<lparr>cs_loaded := Some (cs_buffer s)\<rparr>) else None)"
| "sink_do put empt ship (Put v) s =
     (case cs_loaded s of
        None \<Rightarrow> None
      | Some a \<Rightarrow> Some (s\<lparr>cs_heap := (cs_heap s)[a := put v (cs_heap s ! a)], cs_loaded := None\<rparr>))"
| "sink_do put empt ship (Enter t) s =
     (if cs_pc s t = Idle \<and> (t = Dumper \<longrightarrow> cs_running s)
      then Some (s\<lparr>cs_pc := (cs_pc s)(t := Entered), cs_running := (t = Dumper \<and> cs_running s)\<rparr>) else None)"
| "sink_do put empt ship (Check t) s =
     (if cs_pc s t = Entered
      then Some (s\<lparr>cs_pc := (cs_pc s)(t := (if cs_heap s ! cs_buffer s = empt then Idle else Checked))\<rparr>) else None)"
| "sink_do put empt ship (Send t) s =
     (if cs_pc s t = Checked
      then Some (s\<lparr>cs_cache := ship (cs_heap s ! cs_buffer s) (cs_cache s), cs_pc := (cs_pc s)(t := Sent)\<rparr>) else None)"
| "sink_do put empt ship (Reset t) s =
     (if cs_pc s t = Sent
      then Some (s\<lparr>cs_heap := cs_heap s @ [empt], cs_buffer := length (cs_heap s), cs_pc := (cs_pc s)(t := Idle)\<rparr>) else None)"

fun sink_run ::
    "('v \<Rightarrow> 'b \<Rightarrow> 'b) \<Rightarrow> 'b \<Rightarrow> ('b \<Rightarrow> 'c \<Rightarrow> 'c) \<Rightarrow> 'v sink_act list \<Rightarrow> ('b, 'c) cache_sink \<Rightarrow> ('b, 'c) cache_sink option" where
  "sink_run put empt ship [] s = Some s"
| "sink_run put empt ship (a # as) s =
     (case sink_do put empt ship a s of None \<Rightarrow> None | Some s' \<Rightarrow> sink_run put empt ship as s')"

text \<open>The two functions: their \<open>sink\<close> on the loaded buffer.\<close>

definition list_put :: "'v \<Rightarrow> 'v list \<Rightarrow> 'v list" where
  "list_put v b = b @ [v]"

definition dict_put :: "('x \<Rightarrow> 'k \<times> 'v) \<Rightarrow> 'x \<Rightarrow> ('k, 'v) dict \<Rightarrow> ('k, 'v) dict" where
  "dict_put key_value_extractor x b = (case key_value_extractor x of (k, v) \<Rightarrow> AList.update k v b)"

section \<open>Dumps that no other thread interrupts\<close>

text \<open>Whole operations: a value is sunk, or a thread dumps the buffer from the entry of the dump to its end.\<close>

datatype 'v sink_op = Sink 'v | Dump dump_thread

definition op_acts :: "'b \<Rightarrow> 'v sink_op \<Rightarrow> ('b, 'c) cache_sink \<Rightarrow> 'v sink_act list" where
  "op_acts empt p s =
     (case p of
        Sink v \<Rightarrow> [Load, Put v]
      | Dump t \<Rightarrow> [Enter t, Check t] @ (if cs_heap s ! cs_buffer s = empt then [] else [Send t, Reset t]))"

fun sink_ops_run ::
    "('v \<Rightarrow> 'b \<Rightarrow> 'b) \<Rightarrow> 'b \<Rightarrow> ('b \<Rightarrow> 'c \<Rightarrow> 'c) \<Rightarrow> 'v sink_op list \<Rightarrow> ('b, 'c) cache_sink \<Rightarrow> ('b, 'c) cache_sink option" where
  "sink_ops_run put empt ship [] s = Some s"
| "sink_ops_run put empt ship (p # ps) s =
     (case sink_run put empt ship (op_acts empt p s) s of None \<Rightarrow> None | Some s' \<Rightarrow> sink_ops_run put empt ship ps s')"

fun sunk_values :: "'v sink_op list \<Rightarrow> 'v list" where
  "sunk_values [] = []"
| "sunk_values (Sink v # ps) = v # sunk_values ps"
| "sunk_values (Dump t # ps) = sunk_values ps"

lemma sunk_values_append [simp]: "sunk_values (ps @ qs) = sunk_values ps @ sunk_values qs"
  by (induction ps rule: sunk_values.induct) simp_all

text \<open>
  What a buffer promises: extending the actor by a buffer stores the values put into it, in the order they
  were put.
\<close>

locale cache_buffer =
  fixes put :: "'v \<Rightarrow> 'b \<Rightarrow> 'b" and empt :: 'b and ship :: "'b \<Rightarrow> 'c \<Rightarrow> 'c" and store :: "'v \<Rightarrow> 'c \<Rightarrow> 'c" and ok :: "'b \<Rightarrow> bool"
  assumes extend_empt: "ship empt c = c" and ok_empt: "ok empt" and ok_put: "ok b \<Longrightarrow> ok (put v b)"
    and extend_put: "ok b \<Longrightarrow> ship (put v b) c = store v (ship b c)"
begin

definition quiet :: "'v list \<Rightarrow> 'c \<Rightarrow> ('b, 'c) cache_sink \<Rightarrow> bool" where
  "quiet vs c s \<longleftrightarrow> cs_buffer s < length (cs_heap s) \<and> cs_loaded s = None \<and> cs_pc s = (\<lambda>_. Idle) \<and> ok (cs_heap s ! cs_buffer s) \<and>
     ship (cs_heap s ! cs_buffer s) (cs_cache s) = fold store vs c"

lemma quiet_open: "quiet [] c (cache_sink_open empt c)"
  by (simp add: quiet_def cache_sink_open_def extend_empt ok_empt)

lemma quiet_op:
  assumes "quiet vs c s" "p \<noteq> Dump Dumper \<or> cs_running s"
  shows "\<exists>s'. sink_run put empt ship (op_acts empt p s) s = Some s' \<and> quiet (vs @ sunk_values [p]) c s' \<and>
    (p = Dump Closer \<or> cs_running s' = cs_running s) \<and> (\<forall>t. p = Dump t \<longrightarrow> cs_heap s' ! cs_buffer s' = empt)"
proof (cases p)
  case (Sink v)
  with assms show ?thesis by (auto simp: op_acts_def quiet_def ok_put extend_put)
next
  case (Dump t)
  with assms show ?thesis
    by (cases t; cases "cs_heap s ! cs_buffer s = empt")
      (auto simp: op_acts_def quiet_def extend_empt ok_empt nth_append fun_upd_idem)
qed

lemma quiet_run:
  assumes "quiet vs c s" "Dump Closer \<notin> set ps" "cs_running s"
  shows "\<exists>s'. sink_ops_run put empt ship ps s = Some s' \<and> quiet (vs @ sunk_values ps) c s' \<and> cs_running s'"
  using assms
proof (induction ps arbitrary: vs s)
  case (Cons p ps)
  from quiet_op [OF Cons.prems(1), of p] Cons.prems(2,3) obtain s' where
    s': "sink_run put empt ship (op_acts empt p s) s = Some s'" "quiet (vs @ sunk_values [p]) c s'" "cs_running s'" by auto
  have "sunk_values (p # ps) = sunk_values [p] @ sunk_values ps" using sunk_values_append [of "[p]" ps] by simp
  with Cons.IH [OF s'(2) _ s'(3)] Cons.prems(2) s'(1) show ?case by simp
qed simp

lemma closed_cache:
  assumes "Dump Closer \<notin> set ps"
  shows "\<exists>s. sink_ops_run put empt ship (ps @ [Dump Closer]) (cache_sink_open empt c) = Some s \<and> cs_cache s = fold store (sunk_values ps) c \<and>
    cs_heap s ! cs_buffer s = empt"
proof -
  have "cs_running (cache_sink_open empt c)" by (simp add: cache_sink_open_def)
  from quiet_run [OF quiet_open assms this] obtain s1 where
    s1: "sink_ops_run put empt ship ps (cache_sink_open empt c) = Some s1" "quiet (sunk_values ps) c s1" by auto
  from quiet_op [OF s1(2), of "Dump Closer"] obtain s2 where
    s2: "sink_run put empt ship (op_acts empt (Dump Closer) s1) s1 = Some s2" "quiet (sunk_values ps) c s2" "cs_heap s2 ! cs_buffer s2 = empt" by auto
  have "sink_ops_run put empt ship (ps @ qs) s = (case sink_ops_run put empt ship ps s of None \<Rightarrow> None | Some s' \<Rightarrow> sink_ops_run put empt ship qs s')" for qs s
    by (induction ps arbitrary: s) (auto split: option.splits)
  with s1(1) s2 show ?thesis by (auto simp: quiet_def extend_empt)
qed

end

interpretation list_buffer: cache_buffer list_put "[]" extend_list append_to_list "\<lambda>_. True"
  by unfold_locales (simp_all add: list_put_def extend_list_def append_to_list_def)

text \<open>Extending by a dictionary is assigning its pairs one after the other, an overwritten value included.\<close>

lemma update_update_swap:
  "dict_mem k d \<Longrightarrow> k \<noteq> k' \<Longrightarrow> AList.update k v (AList.update k' v' d) = AList.update k' v' (AList.update k v d)"
  by (induction d) (auto simp: dict_mem_def split: if_splits)

lemma update_fold_swap:
  assumes "k \<notin> fst ` set d" "dict_mem k c"
  shows "AList.update k v (fold (\<lambda>(k, v). AList.update k v) d c) = fold (\<lambda>(k, v). AList.update k v) d (AList.update k v c)"
  using assms by (induction d arbitrary: c) (auto simp: update_update_swap)

lemma fold_update_put:
  assumes "wf_dict d"
  shows "fold (\<lambda>(k, v). AList.update k v) (AList.update k v d) c = AList.update k v (fold (\<lambda>(k, v). AList.update k v) d c)"
  using assms
proof (induction d arbitrary: c)
  case (Cons a d)
  have wf: "wf_dict d" "fst a \<notin> fst ` set d" using Cons.prems by (auto simp: wf_dict_def)
  show ?case
  proof (cases "fst a = k")
    case True
    with wf(2) show ?thesis by (cases a) (simp add: update_fold_swap)
  next
    case False
    with Cons.IH [OF wf(1)] show ?thesis by (cases a) simp
  qed
qed simp

definition assign_to_dict :: "('x \<Rightarrow> 'k \<times> 'v) \<Rightarrow> 'x \<Rightarrow> ('k, 'v) sink_cache_actor \<Rightarrow> ('k, 'v) sink_cache_actor" where
  "assign_to_dict f x a = (case f x of (k, v) \<Rightarrow> a\<lparr>ca_dict := AList.update k v (ca_dict a)\<rparr>)"

interpretation dict_buffer: cache_buffer "dict_put f" "[]" extend_dict "assign_to_dict f" wf_dict
  by unfold_locales (auto simp: dict_put_def extend_dict_def assign_to_dict_def fold_update_put split: prod.splits)

lemma fold_append_to_list: "fold append_to_list vs a = a\<lparr>ca_list := ca_list a @ vs\<rparr>"
  by (induction vs arbitrary: a) (simp_all add: append_to_list_def)

lemma fold_assign_to_dict:
  "fold (assign_to_dict f) xs a = a\<lparr>ca_dict := fold (\<lambda>x. case f x of (k, v) \<Rightarrow> AList.update k v) xs (ca_dict a)\<rparr>"
  by (induction xs arbitrary: a) (simp_all add: assign_to_dict_def split: prod.splits)

text \<open>
  Dumps that run to their end before the next operation lose nothing: whatever values are sunk and however often
  the dumper empties the buffer in between, after \<open>close\<close> the list of the cache actor ends with the sunk values, each once and
  in order, and the buffer is empty.
\<close>

theorem cached_list_exact:
  assumes "Dump Closer \<notin> set ps"
  shows "\<exists>s. sink_ops_run list_put [] extend_list (ps @ [Dump Closer]) (cache_sink_open [] a) = Some s \<and>
    ca_list (cs_cache s) = ca_list a @ sunk_values ps \<and> cs_heap s ! cs_buffer s = []"
  using list_buffer.closed_cache [OF assms, of a] by (auto simp: fold_append_to_list)

theorem cached_list_exact_witness:
  "\<exists>s. sink_ops_run list_put [] extend_list [Sink 1, Dump Dumper, Sink (2 :: nat), Dump Closer] (cache_sink_open [] \<lparr>ca_list = [], ca_dict = ([] :: (nat, nat) dict)\<rparr>) = Some s \<and>
     ca_list (cs_cache s) = [1, 2]"
  using cached_list_exact [of "[Sink 1, Dump Dumper, Sink (2 :: nat)]" "\<lparr>ca_list = [], ca_dict = ([] :: (nat, nat) dict)\<rparr>"] by auto

text \<open>
  C38. The dictionary sink keeps the last value of a key: when no dump is interrupted, after \<open>close\<close> the dictionary of the cache actor
  is what assigning the extracted pairs of the sunk values one after the other would give, the order of its keys included.
\<close>

theorem cached_dict_exact:
  assumes "Dump Closer \<notin> set ps"
  shows "\<exists>s. sink_ops_run (dict_put f) [] extend_dict (ps @ [Dump Closer]) (cache_sink_open [] a) = Some s \<and>
    ca_dict (cs_cache s) = fold (\<lambda>x. case f x of (k, v) \<Rightarrow> AList.update k v) (sunk_values ps) (ca_dict a) \<and> cs_heap s ! cs_buffer s = []"
  using dict_buffer.closed_cache [OF assms, of f a] by (auto simp: fold_assign_to_dict)

theorem cached_dict_exact_witness:
  "\<exists>s. sink_ops_run (dict_put (\<lambda>x. (x mod 2, x))) [] extend_dict [Sink 1, Dump Dumper, Sink 2, Sink 3, Dump Closer]
       (cache_sink_open [] \<lparr>ca_list = [], ca_dict = ([] :: (nat, nat) dict)\<rparr>) = Some s \<and> ca_dict (cs_cache s) = [(1, 3), (0, 2)]"
  using cached_dict_exact [of "[Sink 1, Dump Dumper, Sink 2, Sink 3]" "\<lambda>x. (x mod 2, x)" "\<lparr>ca_list = [], ca_dict = ([] :: (nat, nat) dict)\<rparr>"] by auto

section \<open>Any interleaving\<close>

fun put_values :: "'v sink_act list \<Rightarrow> 'v list" where
  "put_values [] = []"
| "put_values (Put v # as) = v # put_values as"
| "put_values (_ # as) = put_values as"

definition sending :: "('b, 'c) cache_sink \<Rightarrow> nat" where
  "sending s = (if cs_pc s Dumper = Sent then 1 else 0) + (if cs_pc s Closer = Sent then 1 else 0)"

text \<open>
  What the cache can hold of a value: twice what is in buffers that were replaced, and once per thread that has sent and not yet
  replaced what is in the present one.
\<close>

definition sink_inv :: "nat \<Rightarrow> 'v \<Rightarrow> ('v list, ('k, 'v) sink_cache_actor) cache_sink \<Rightarrow> bool" where
  "sink_inv n v s \<longleftrightarrow> cs_buffer s < length (cs_heap s) \<and> (\<forall>a. cs_loaded s = Some a \<longrightarrow> a < length (cs_heap s)) \<and>
     (let b = count_list (cs_heap s ! cs_buffer s) v; h = sum_list (map (\<lambda>b. count_list b v) (cs_heap s))
      in count_list (ca_list (cs_cache s)) v + 2 * b \<le> n + 2 * h + sending s * b)"

lemma sum_list_count_update:
  "a < length bs \<Longrightarrow> sum_list (map f (bs[a := x])) + f (bs ! a) = sum_list (map f bs) + (f x :: nat)"
  by (induction bs arbitrary: a) (auto split: nat.splits)

lemma sink_inv_step:
  assumes "sink_inv n v s" "sink_do list_put [] extend_list act s = Some s'"
  shows "sink_inv n v s' \<and> sum_list (map (\<lambda>b. count_list b v) (cs_heap s')) = sum_list (map (\<lambda>b. count_list b v) (cs_heap s)) + count_list (put_values [act]) v"
proof (cases act)
  case (Put w)
  with assms(2) obtain a where a: "cs_loaded s = Some a"
    "s' = s\<lparr>cs_heap := (cs_heap s)[a := cs_heap s ! a @ [w]], cs_loaded := None\<rparr>" by (auto simp: list_put_def split: option.splits)
  with assms(1) have len: "a < length (cs_heap s)" by (simp add: sink_inv_def)
  from sum_list_count_update [OF this, of "\<lambda>b. count_list b v" "cs_heap s ! a @ [w]"] a assms(1) len Put show ?thesis
    by (cases "a = cs_buffer s"; cases "w = v") (auto simp: sink_inv_def sending_def Let_def count_list_append split: if_splits)
next
  case (Send t)
  with assms show ?thesis
    by (cases t) (auto simp: sink_inv_def sending_def Let_def extend_list_def count_list_append split: if_splits)
next
  case (Reset t)
  with assms show ?thesis
    by (cases t) (auto simp: sink_inv_def sending_def Let_def nth_append split: if_splits)
qed (use assms in \<open>auto simp: sink_inv_def sending_def Let_def split: if_splits dump_thread.splits\<close>)

lemma sink_inv_run:
  assumes "sink_run list_put [] extend_list acts s = Some s'" "sink_inv n v s"
  shows "sink_inv n v s' \<and> sum_list (map (\<lambda>b. count_list b v) (cs_heap s')) = sum_list (map (\<lambda>b. count_list b v) (cs_heap s)) + count_list (put_values acts) v"
  using assms
proof (induction acts arbitrary: s)
  case (Cons act acts)
  then obtain s1 where s1: "sink_do list_put [] extend_list act s = Some s1" "sink_run list_put [] extend_list acts s1 = Some s'"
    by (auto split: option.splits)
  have "put_values (act # acts) = put_values [act] @ put_values acts" by (cases act) simp_all
  with Cons.IH [OF s1(2)] sink_inv_step [OF Cons.prems(2) s1(1)] show ?case by (simp add: count_list_append)
qed simp

text \<open>
  C37. However the threads interleave, the list sink invents nothing and duplicates at most once: a value is in the list of
  the cache actor at most twice as often as it was sunk, beyond what the list held before.
\<close>

theorem cached_list_at_most_twice:
  assumes "sink_run list_put [] extend_list acts (cache_sink_open [] a) = Some s"
  shows "count_list (ca_list (cs_cache s)) v \<le> count_list (ca_list a) v + 2 * count_list (put_values acts) v"
proof -
  let ?s = "cache_sink_open [] a" and ?h = "\<lambda>s. sum_list (map (\<lambda>b. count_list b v) (cs_heap s))"
  have "sink_inv (count_list (ca_list a) v) v ?s" by (simp add: sink_inv_def cache_sink_open_def Let_def)
  from sink_inv_run [OF assms this] have inv: "sink_inv (count_list (ca_list a) v) v s" and h: "?h s = count_list (put_values acts) v"
    by (simp_all add: cache_sink_open_def)
  let ?b = "count_list (cs_heap s ! cs_buffer s) v"
  have "sending s * ?b \<le> 2 * ?b" by (intro mult_right_mono) (simp_all add: sending_def)
  moreover have "count_list (ca_list (cs_cache s)) v + 2 * ?b \<le> count_list (ca_list a) v + 2 * ?h s + sending s * ?b"
    using inv by (simp add: sink_inv_def Let_def)
  ultimately show ?thesis unfolding h by linarith
qed

theorem cached_list_at_most_twice_witness:
  "\<exists>s. sink_run list_put [] extend_list [Load, Put (7 :: nat), Enter Dumper, Check Dumper, Send Dumper] (cache_sink_open [] \<lparr>ca_list = [], ca_dict = ([] :: (nat, nat) dict)\<rparr>) = Some s \<and>
     count_list (ca_list (cs_cache s)) 7 \<le> 2"
proof -
  let ?acts = "[Load, Put (7 :: nat), Enter Dumper, Check Dumper, Send Dumper]" and ?a = "\<lparr>ca_list = [], ca_dict = ([] :: (nat, nat) dict)\<rparr>"
  obtain s where s: "sink_run list_put [] extend_list ?acts (cache_sink_open [] ?a) = Some s" by (simp add: cache_sink_open_def list_put_def)
  from cached_list_at_most_twice [OF s, of 7] s show ?thesis by (intro exI [of _ s]) simp
qed

text \<open>
  Neither bound can be had without a lock: when \<open>close\<close> dumps while the dumper is between its send and its
  reset, a value sunk once is in the list twice; and a value sunk between a send and the reset that follows is in neither the list nor the
  buffer when all threads are done.
\<close>

theorem dump_races:
  "(\<exists>acts s. sink_run list_put [] extend_list acts (cache_sink_open [] \<lparr>ca_list = [], ca_dict = d\<rparr>) = Some s \<and>
      put_values acts = [v] \<and> cs_pc s = (\<lambda>_. Idle) \<and> ca_list (cs_cache s) = [v, v]) \<and>
   (\<exists>acts s. sink_run list_put [] extend_list acts (cache_sink_open [] \<lparr>ca_list = [], ca_dict = d\<rparr>) = Some s \<and>
      put_values acts = [v, w] \<and> cs_pc s = (\<lambda>_. Idle) \<and> \<not> cs_running s \<and> ca_list (cs_cache s) = [v] \<and> cs_heap s ! cs_buffer s = [])"
proof (intro conjI)
  let ?dup = "[Load, Put v, Enter Dumper, Check Dumper, Send Dumper, Enter Closer, Check Closer, Send Closer, Reset Closer, Reset Dumper]"
  show "\<exists>acts s. sink_run list_put [] extend_list acts (cache_sink_open [] \<lparr>ca_list = [], ca_dict = d\<rparr>) = Some s \<and>
      put_values acts = [v] \<and> cs_pc s = (\<lambda>_. Idle) \<and> ca_list (cs_cache s) = [v, v]"
    by (rule exI [of _ ?dup]) (simp add: cache_sink_open_def list_put_def extend_list_def fun_upd_idem)
  let ?lose = "[Load, Put v, Enter Dumper, Check Dumper, Send Dumper, Load, Put w, Reset Dumper, Enter Closer, Check Closer]"
  show "\<exists>acts s. sink_run list_put [] extend_list acts (cache_sink_open [] \<lparr>ca_list = [], ca_dict = d\<rparr>) = Some s \<and>
      put_values acts = [v, w] \<and> cs_pc s = (\<lambda>_. Idle) \<and> \<not> cs_running s \<and> ca_list (cs_cache s) = [v] \<and> cs_heap s ! cs_buffer s = []"
    by (rule exI [of _ ?lose]) (simp add: cache_sink_open_def list_put_def extend_list_def fun_upd_idem)
qed

end
