(* ===== verification/Operators.thy ===== *)
theory Operators
  imports Windows
begin

text \<open>
  The stream operators of \<open>streaming/api/operators/operators.py\<close>, operator chaining
  (\<open>chained.py\<close>) and the processors that drive them (\<open>runtime/core/processor/processor.py\<close>).
  User functions are parameters that may raise; an operator is a value that carries its own
  state, and processing an element gives the new operator and the records it emits to its
  collectors.
\<close>

section \<open>One-input operators\<close>

datatype ('k, 'v) operator =
    MapOperator "'v \<Rightarrow> 'v result"
  | FlatMapOperator "'v \<Rightarrow> 'v list result"
  | FilterOperator "'v \<Rightarrow> bool result"
  | KeyByOperator "'v \<Rightarrow> 'k result"
  | ReduceOperator "'v \<Rightarrow> 'v \<Rightarrow> 'v result" "('k, 'v) dict"
  | SinkOperator "'v \<Rightarrow> unit result" "'v list" "(int \<times> int) list"
  | UnionOperator
  | MultiWindowOperator "agg_type \<Rightarrow> string" "'v window_config list"
      "aggs_per_window \<Rightarrow> ('k, 'v) srec \<Rightarrow> ('k, 'v) srec result" "('k, 'v) windows_per_key"

text \<open>
  \<open>process_element\<close> at the wall-clock time \<open>now\<close> (in milliseconds, read by the sink for its
  latency statistics). The sink records the values handed to its function, in order, and the
  latency observations (latency, time).
\<close>

fun process_element ::
    "int \<Rightarrow> ('k, 'v) operator \<Rightarrow> ('k, 'v) srec \<Rightarrow> (('k, 'v) operator \<times> ('k, 'v) srec list) result"
  where
  "process_element now (MapOperator f) r =
     rbind (f (rec_value r)) (\<lambda>v.
       Inr (MapOperator f, [Record v (rec_event_time r) (rec_source_emit_ts r)]))"
| "process_element now (FlatMapOperator f) r =
     rbind (f (rec_value r)) (\<lambda>vs.
       Inr (FlatMapOperator f, map (\<lambda>v. Record v None None) vs))"
| "process_element now (FilterOperator f) r =
     rbind (f (rec_value r)) (\<lambda>b. Inr (FilterOperator f, if b then [r] else []))"
| "process_element now (KeyByOperator f) r =
     rbind (f (rec_value r)) (\<lambda>k.
       Inr (KeyByOperator f, [KeyRecord k (rec_value r) (rec_event_time r) (rec_source_emit_ts r)]))"
| "process_element now (ReduceOperator f st) r =
     rbind (get_key r) (\<lambda>k.
       case map_of st k of
         Some old \<Rightarrow>
           rbind (f old (rec_value r)) (\<lambda>new.
             Inr (ReduceOperator f (AList.update k new st),
                  [Record new (rec_event_time r) (rec_source_emit_ts r)]))
       | None \<Rightarrow> Inr (ReduceOperator f (AList.update k (rec_value r) st), [r]))"
| "process_element now (SinkOperator f vs lats) r =
     (let lats' = (case rec_source_emit_ts r of
                     None \<Rightarrow> lats | Some t \<Rightarrow> lats @ [(now - t, now)])
      in rbind (f (rec_value r)) (\<lambda>_. Inr (SinkOperator f (vs @ [rec_value r]) lats', [])))"
| "process_element now UnionOperator r = Inr (UnionOperator, [r])"
| "process_element now (MultiWindowOperator fmt cs out per_key) r =
     rbind (multi_window_process fmt cs out per_key r) (\<lambda>(per_key', outs).
       Inr (MultiWindowOperator fmt cs out per_key', outs))"

section \<open>The two-input join\<close>

record ('k, 'v) join_state =
  left_records :: "('k, ('k, 'v) srec list) dict"
  right_records :: "('k, ('k, 'v) srec list) dict"

definition join_init :: "('k, 'v) join_state" where
  "join_init = \<lparr>left_records = [], right_records = []\<rparr>"

definition records_at :: "('k, 'a list) dict \<Rightarrow> 'k \<Rightarrow> 'a list" where
  "records_at d k = (case map_of d k of Some rs \<Rightarrow> rs | None \<Rightarrow> [])"

text \<open>The two sides as the processor passes them: exactly one is present.\<close>

definition join_process ::
    "('v \<Rightarrow> 'v \<Rightarrow> 'v result) \<Rightarrow> ('k, 'v) join_state \<Rightarrow>
     ('k, 'v) srec option \<Rightarrow> ('k, 'v) srec option \<Rightarrow>
     (('k, 'v) join_state \<times> ('k, 'v) srec list) result" where
  "join_process f st left right =
     rbind (case left of
              Some l \<Rightarrow> get_key l
            | None \<Rightarrow> (case right of Some r \<Rightarrow> get_key r | None \<Rightarrow> Inl AttributeError)) (\<lambda>k.
     let ls = records_at (left_records st) k;
         rs = records_at (right_records st) k
     in case left of
          Some l \<Rightarrow>
            rbind (rmap (\<lambda>r. rbind (f (rec_value l) (rec_value r)) (\<lambda>v.
                     Inr (Record v (rec_event_time l) (rec_source_emit_ts l)))) rs) (\<lambda>outs.
            Inr (\<lparr>left_records = AList.update k (ls @ [l]) (left_records st),
                  right_records = AList.update k rs (right_records st)\<rparr>, outs))
        | None \<Rightarrow>
            (case right of
               None \<Rightarrow> Inl AttributeError
             | Some r \<Rightarrow>
                 rbind (rmap (\<lambda>l. rbind (f (rec_value l) (rec_value r)) (\<lambda>v.
                          Inr (Record v (rec_event_time l) (rec_source_emit_ts l)))) ls) (\<lambda>outs.
                 Inr (\<lparr>left_records = AList.update k ls (left_records st),
                       right_records = AList.update k (rs @ [r]) (right_records st)\<rparr>, outs))))"

text \<open>\<open>TwoInputProcessor.process\<close>: the record's stream name decides the side.\<close>

definition two_input_process ::
    "string \<Rightarrow> string \<Rightarrow> ('v \<Rightarrow> 'v \<Rightarrow> 'v result) \<Rightarrow> ('k, 'v) join_state \<Rightarrow> ('k, 'v) srec \<Rightarrow>
     (('k, 'v) join_state \<times> ('k, 'v) srec list) result" where
  "two_input_process left_name right_name f st r =
     (if Some left_name = rec_stream_name r then join_process f st (Some r) None
      else if Some right_name = rec_stream_name r then join_process f st None (Some r)
      else Inl RuntimeError)"

section \<open>Chained operators\<close>

text \<open>
  \<open>ChainedOneInputOperator.process_element\<close>: the head processes the record and each of its
  outputs goes through a \<open>ForwardCollector\<close> into the rest of the chain before the next one is
  produced; what the tail emits goes to the chain's collectors.
\<close>

fun chain_step ::
    "nat \<Rightarrow> int \<Rightarrow> ('k, 'v) operator list \<Rightarrow> ('k, 'v) srec \<Rightarrow>
     (('k, 'v) operator list \<times> ('k, 'v) srec list) result" where
  "chain_step (Suc n) now (p # ps) r =
     rbind (process_element now p r) (\<lambda>(p', ys).
     rbind (op_run (chain_step n now) ps ys) (\<lambda>(ps', zs). Inr (p' # ps', zs)))"
| "chain_step _ now ps r = Inr (ps, [r])"

definition chain_process ::
    "int \<Rightarrow> ('k, 'v) operator list \<Rightarrow> ('k, 'v) srec \<Rightarrow>
     (('k, 'v) operator list \<times> ('k, 'v) srec list) result" where
  "chain_process now ps r = chain_step (length ps) now ps r"

section \<open>Reduce\<close>

text \<open>The running reduction per key: the fold of the key's values so far.\<close>

definition reduce_spec :: "('v \<Rightarrow> 'v \<Rightarrow> 'v) \<Rightarrow> 'v list \<Rightarrow> 'v" where
  "reduce_spec g vs = foldl g (hd vs) (tl vs)"

definition values_at :: "'k \<Rightarrow> ('k, 'v) srec list \<Rightarrow> 'v list" where
  "values_at k rs = map rec_value (filter (\<lambda>r. rec_key r = Some k) rs)"

lemma values_at_snoc [simp]:
  "values_at k (rs @ [r]) = values_at k rs @ (if rec_key r = Some k then [rec_value r] else [])"
  by (simp add: values_at_def)

lemma reduce_spec_snoc: "vs \<noteq> [] \<Longrightarrow> reduce_spec g (vs @ [v]) = g (reduce_spec g vs) v"
  by (cases vs) (auto simp: reduce_spec_def)

definition reduce_inv :: "('v \<Rightarrow> 'v \<Rightarrow> 'v) \<Rightarrow> ('k, 'v) srec list \<Rightarrow> ('k, 'v) dict \<Rightarrow> bool" where
  "reduce_inv g hist st \<longleftrightarrow>
     (\<forall>k. map_of st k =
        (if values_at k hist = [] then None else Some (reduce_spec g (values_at k hist))))"

lemma reduce_step_spec:
  assumes inv: "reduce_inv g hist st" and key: "rec_key r = Some k"
  shows "\<exists>st' r'. process_element now (ReduceOperator (\<lambda>a b. Inr (g a b)) st) r =
      Inr (ReduceOperator (\<lambda>a b. Inr (g a b)) st', [r']) \<and>
    rec_value r' = reduce_spec g (values_at k (hist @ [r])) \<and>
    rec_event_time r' = rec_event_time r \<and> reduce_inv g (hist @ [r]) st'"
proof (cases "map_of st k")
  case None
  with inv have vs: "values_at k hist = []"
    by (auto simp: reduce_inv_def split: if_splits)
  let ?st = "AList.update k (rec_value r) st"
  have "reduce_inv g (hist @ [r]) ?st"
    using inv key vs by (auto simp: reduce_inv_def reduce_spec_def)
  with None key vs show ?thesis
    by (intro exI [of _ ?st] exI [of _ r]) (simp add: get_key_def reduce_spec_def)
next
  case (Some old)
  with inv have vs: "values_at k hist \<noteq> []" and old: "old = reduce_spec g (values_at k hist)"
    by (auto simp: reduce_inv_def split: if_splits)
  let ?new = "g old (rec_value r)"
  let ?st = "AList.update k ?new st"
  have new: "?new = reduce_spec g (values_at k (hist @ [r]))"
    using vs key old by (simp add: reduce_spec_snoc)
  have "reduce_inv g (hist @ [r]) ?st"
    using inv key new by (auto simp: reduce_inv_def)
  with Some key new show ?thesis
    by (intro exI [of _ ?st] exI [of _ "Record ?new (rec_event_time r) (rec_source_emit_ts r)"])
      (simp add: get_key_def)
qed

text \<open>
  The reduce operator emits for every keyed record the left fold of the reduce function
  over all values of the record's key seen so far, in order of arrival.
\<close>

theorem reduce_running_fold:
  assumes "list_all (\<lambda>r. rec_key r \<noteq> None) rs"
  shows "\<exists>op' outs. op_run (process_element now) (ReduceOperator (\<lambda>a b. Inr (g a b)) []) rs =
      Inr (op', outs) \<and>
    map rec_value outs =
      map (\<lambda>i. reduce_spec g (values_at (the (rec_key (rs ! i))) (take (Suc i) rs))) [0..<length rs]"
proof -
  have "\<exists>op' outs. op_run (process_element now) (ReduceOperator (\<lambda>a b. Inr (g a b)) st) rs =
      Inr (op', outs) \<and> map rec_value outs =
      map (\<lambda>i. reduce_spec g (values_at (the (rec_key (rs ! i))) (hist @ take (Suc i) rs))) [0..<length rs]"
    if "reduce_inv g hist st" for hist st
    using that assms
  proof (induction rs arbitrary: hist st)
    case (Cons r rs)
    then obtain k where k: "rec_key r = Some k" by auto
    from reduce_step_spec [OF Cons.prems(1) k, of now] obtain st' r' where s:
      "process_element now (ReduceOperator (\<lambda>a b. Inr (g a b)) st) r =
        Inr (ReduceOperator (\<lambda>a b. Inr (g a b)) st', [r'])"
      "rec_value r' = reduce_spec g (values_at k (hist @ [r]))" "reduce_inv g (hist @ [r]) st'"
      by blast
    from Cons.IH [OF s(3)] Cons.prems(2) obtain op' outs where IH:
      "op_run (process_element now) (ReduceOperator (\<lambda>a b. Inr (g a b)) st') rs = Inr (op', outs)"
      "map rec_value outs = map (\<lambda>i. reduce_spec g (values_at (the (rec_key (rs ! i)))
         ((hist @ [r]) @ take (Suc i) rs))) [0..<length rs]" by auto
    have "[0..<length (r # rs)] = 0 # map Suc [0..<length rs]"
      by (simp del: upt_Suc add: upt_conv_Cons map_Suc_upt)
    with s(2) IH(2) k have "map rec_value (r' # outs) = map (\<lambda>i. reduce_spec g
        (values_at (the (rec_key ((r # rs) ! i))) (hist @ take (Suc i) (r # rs)))) [0..<length (r # rs)]"
      by (simp del: upt_Suc add: o_def)
    moreover have "op_run (process_element now) (ReduceOperator (\<lambda>a b. Inr (g a b)) st) (r # rs) =
        Inr (op', r' # outs)"
      by (simp only: op_run.simps s(1) rbind_simps IH(1) prod.case append_Cons append_Nil)
    ultimately show ?case by blast
  qed simp
  from this [of "[]" "[]"] show ?thesis by (simp add: reduce_inv_def values_at_def)
qed

theorem reduce_running_fold_witness:
  "\<exists>op' outs. op_run (process_element 0) (ReduceOperator (\<lambda>a b. Inr (a + b)) [])
      [KeyRecord ''a'' (1::int) None None, KeyRecord ''b'' 5 None None, KeyRecord ''a'' 2 None None] =
    Inr (op', outs) \<and> map rec_value outs = [1, 5, 3]"
  using reduce_running_fold [of "[KeyRecord ''a'' (1::int) None None, KeyRecord ''b'' 5 None None,
      KeyRecord ''a'' 2 None None]" 0 "(+)"]
  by (simp add: upt_rec values_at_def reduce_spec_def del: op_run.simps)

section \<open>Join\<close>

text \<open>A tagged input of the join: a record of the left or of the right stream.\<close>

definition join_step ::
    "('v \<Rightarrow> 'v \<Rightarrow> 'v result) \<Rightarrow> ('k, 'v) join_state \<Rightarrow> ('k, 'v) srec + ('k, 'v) srec \<Rightarrow>
     (('k, 'v) join_state \<times> ('k, 'v) srec list) result" where
  "join_step f st x =
     (case x of Inl l \<Rightarrow> join_process f st (Some l) None | Inr r \<Rightarrow> join_process f st None (Some r))"

fun lefts :: "('a + 'b) list \<Rightarrow> 'a list" where
  "lefts [] = []"
| "lefts (Inl l # xs) = l # lefts xs"
| "lefts (Inr r # xs) = lefts xs"

fun rights :: "('a + 'b) list \<Rightarrow> 'b list" where
  "rights [] = []"
| "rights (Inl l # xs) = rights xs"
| "rights (Inr r # xs) = r # rights xs"

lemma lefts_rights_append [simp]:
  "lefts (xs @ ys) = lefts xs @ lefts ys"
  "rights (xs @ ys) = rights xs @ rights ys"
  by (induction xs rule: lefts.induct) auto

definition joined :: "('v \<Rightarrow> 'v \<Rightarrow> 'v) \<Rightarrow> ('k, 'v) srec \<Rightarrow> ('k, 'v) srec \<Rightarrow> ('k, 'v) srec" where
  "joined g l r = Record (g (rec_value l) (rec_value r)) (rec_event_time l) (rec_source_emit_ts l)"

text \<open>All pairs of a left and a right record with the same key.\<close>

definition join_spec ::
    "('v \<Rightarrow> 'v \<Rightarrow> 'v) \<Rightarrow> ('k, 'v) srec list \<Rightarrow> ('k, 'v) srec list \<Rightarrow> ('k, 'v) srec multiset" where
  "join_spec g ls rs =
     mset (concat (map (\<lambda>l. map (joined g l) (filter (\<lambda>r. rec_key r = rec_key l) rs)) ls))"

lemma join_spec_snoc_left:
  "join_spec g (ls @ [l]) rs =
     join_spec g ls rs + mset (map (joined g l) (filter (\<lambda>r. rec_key r = rec_key l) rs))"
  by (simp add: join_spec_def)

lemma join_spec_snoc_right:
  "join_spec g ls (rs @ [r]) =
     join_spec g ls rs + mset (map (\<lambda>l. joined g l r) (filter (\<lambda>l. rec_key l = rec_key r) ls))"
proof (induction ls)
  case (Cons l ls)
  have "join_spec g (l # ls) rs' = mset (map (joined g l) (filter (\<lambda>r. rec_key r = rec_key l) rs'))
      + join_spec g ls rs'" for rs'
    by (simp add: join_spec_def)
  with Cons show ?case by (auto simp: ac_simps)
qed (simp add: join_spec_def)

definition join_inv :: "(('k, 'v) srec + ('k, 'v) srec) list \<Rightarrow> ('k, 'v) join_state \<Rightarrow> bool" where
  "join_inv hist st \<longleftrightarrow>
     (\<forall>k. records_at (left_records st) k = filter (\<lambda>r. rec_key r = Some k) (lefts hist) \<and>
          records_at (right_records st) k = filter (\<lambda>r. rec_key r = Some k) (rights hist))"

lemma records_at_update [simp]:
  "records_at (AList.update k v d) k' = (if k' = k then v else records_at d k')"
  by (simp add: records_at_def)

lemma join_step_left:
  assumes "join_inv hist st" "rec_key l = Some k"
  shows "\<exists>st'. join_step (\<lambda>a b. Inr (g a b)) st (Inl l) =
      Inr (st', map (joined g l) (filter (\<lambda>r. rec_key r = rec_key l) (rights hist))) \<and>
    join_inv (hist @ [Inl l]) st'"
  using assms
  by (auto simp: join_step_def join_process_def join_inv_def get_key_def Let_def joined_def
      rmap_Inr_eq_map [where g = "\<lambda>r. Record (g (rec_value l) (rec_value r)) (rec_event_time l) (rec_source_emit_ts l)"])

lemma join_step_right:
  assumes "join_inv hist st" "rec_key r = Some k"
  shows "\<exists>st'. join_step (\<lambda>a b. Inr (g a b)) st (Inr r) =
      Inr (st', map (\<lambda>l. joined g l r) (filter (\<lambda>l. rec_key l = rec_key r) (lefts hist))) \<and>
    join_inv (hist @ [Inr r]) st'"
  using assms
  by (auto simp: join_step_def join_process_def join_inv_def get_key_def Let_def joined_def
      rmap_Inr_eq_map [where g = "\<lambda>l. Record (g (rec_value l) (rec_value r)) (rec_event_time l) (rec_source_emit_ts l)"])

lemma join_run_pairs:
  assumes "list_all (\<lambda>x. case x of Inl l \<Rightarrow> rec_key l \<noteq> None | Inr r \<Rightarrow> rec_key r \<noteq> None) xs"
  shows "\<exists>st outs. op_run (join_step (\<lambda>a b. Inr (g a b))) join_init xs = Inr (st, outs) \<and>
    mset outs = join_spec g (lefts xs) (rights xs)"
proof -
  have "\<exists>st' outs. op_run (join_step (\<lambda>a b. Inr (g a b))) st xs = Inr (st', outs) \<and>
      join_spec g (lefts hist) (rights hist) + mset outs =
        join_spec g (lefts (hist @ xs)) (rights (hist @ xs))"
    if "join_inv hist st" for hist st
    using that assms
  proof (induction xs arbitrary: hist st)
    case (Cons x xs)
    then obtain st1 o1 where s: "join_step (\<lambda>a b. Inr (g a b)) st x = Inr (st1, o1)"
      "join_inv (hist @ [x]) st1"
      "join_spec g (lefts hist) (rights hist) + mset o1 =
         join_spec g (lefts (hist @ [x])) (rights (hist @ [x]))"
    proof (cases x)
      case (Inl l)
      with Cons.prems obtain k where "rec_key l = Some k" by auto
      from join_step_left [OF Cons.prems(1) this, of g] Inl that show ?thesis
        by (auto simp: join_spec_snoc_left)
    next
      case (Inr r)
      with Cons.prems obtain k where "rec_key r = Some k" by auto
      from join_step_right [OF Cons.prems(1) this, of g] Inr that show ?thesis
        by (auto simp: join_spec_snoc_right)
    qed
    with Cons.IH [OF s(2)] Cons.prems(2) obtain st' outs where
      run: "op_run (join_step (\<lambda>a b. Inr (g a b))) st1 xs = Inr (st', outs)" and
      sum: "join_spec g (lefts (hist @ [x])) (rights (hist @ [x])) + mset outs =
         join_spec g (lefts ((hist @ [x]) @ xs)) (rights ((hist @ [x]) @ xs))"
      by auto
    have "op_run (join_step (\<lambda>a b. Inr (g a b))) st (x # xs) = Inr (st', o1 @ outs)"
      by (simp only: op_run.simps s(1) run rbind_simps prod.case)
    moreover have "join_spec g (lefts hist) (rights hist) + mset (o1 @ outs) =
        join_spec g (lefts (hist @ x # xs)) (rights (hist @ x # xs))"
      using sum unfolding s(3) [symmetric] by (simp add: add.assoc)
    ultimately show ?case by blast
  qed simp
  from this [of "[]" join_init] show ?thesis
    by (auto simp: join_inv_def join_init_def records_at_def join_spec_def)
qed

text \<open>
  C4. The streaming join is complete and duplicate free: for every interleaving of the two
  keyed inputs it emits each pair of a left and a right record with equal keys exactly once,
  joined by the join function and stamped with the left record's event time.
\<close>

theorem join_emits_all_pairs_once:
  assumes "list_all (\<lambda>x. case x of Inl l \<Rightarrow> rec_key l \<noteq> None | Inr r \<Rightarrow> rec_key r \<noteq> None) xs"
  shows "\<exists>st outs. op_run (join_step (\<lambda>a b. Inr (g a b))) join_init xs = Inr (st, outs) \<and>
    mset outs = join_spec g (lefts xs) (rights xs)"
  by (rule join_run_pairs [OF assms])

theorem join_emits_all_pairs_once_witness:
  "\<exists>st outs. op_run (join_step (\<lambda>a b. Inr (a + b))) join_init
      [Inl (KeyRecord ''k'' (1::int) None None), Inr (KeyRecord ''k'' 10 None None),
       Inl (KeyRecord ''k'' 2 None None)] = Inr (st, outs) \<and>
    mset outs = {# Record 11 None None, Record 12 None None #}"
  using join_emits_all_pairs_once [of "[Inl (KeyRecord ''k'' (1::int) None None),
      Inr (KeyRecord ''k'' 10 None None), Inl (KeyRecord ''k'' 2 None None)]" "(+)"]
  by (simp add: join_spec_def joined_def del: op_run.simps)

section \<open>Chaining\<close>

lemma op_run_length:
  assumes "\<And>s x s' ys. step s x = Inr (s', ys) \<Longrightarrow> length s' = length s"
  shows "op_run step s xs = Inr (s', ys) \<Longrightarrow> length s' = length s"
proof (induction xs arbitrary: s ys)
  case (Cons x xs)
  then show ?case by (auto dest: assms)
qed simp

lemma chain_step_length: "chain_step n now ps r = Inr (ps', zs) \<Longrightarrow> length ps' = length ps"
proof (induction n arbitrary: ps r ps' zs)
  case (Suc n)
  show ?case
  proof (cases ps)
    case (Cons p qs)
    with Suc.prems obtain p' ys qs' where "ps' = p' # qs'"
      and "op_run (chain_step n now) qs ys = Inr (qs', zs)" by auto
    with op_run_length [of "chain_step n now", OF Suc.IH] Cons show ?thesis by fastforce
  qed (use Suc.prems in simp)
qed simp

lemma chain_run_step:
  "op_run (chain_process now) ps rs = op_run (chain_step (length ps) now) ps rs"
proof (induction rs arbitrary: ps)
  case (Cons r rs)
  show ?case
  proof (cases "chain_step (length ps) now ps r")
    case (Inr res)
    obtain ps1 ys where res: "res = (ps1, ys)" by fastforce
    with Inr chain_step_length have "length ps1 = length ps" by blast
    with Inr res Cons [of ps1] show ?thesis by (simp add: chain_process_def)
  qed (simp add: chain_process_def)
qed simp

lemma chain_step_0: "op_run (chain_step 0 now) ps rs = Inr (ps, rs)"
  by (induction rs) auto

lemma chain_run_Nil: "op_run (chain_process now) [] rs = Inr ([], rs)"
  by (simp add: chain_run_step chain_step_0)

lemma chain_step_Cons:
  "op_run (chain_step (Suc n) now) (p # ps) rs = Inr (qs, zs) \<longleftrightarrow>
     (\<exists>p' ps' ys. qs = p' # ps' \<and> op_run (process_element now) p rs = Inr (p', ys) \<and>
        op_run (chain_step n now) ps ys = Inr (ps', zs))"
proof (induction rs arbitrary: p ps zs)
  case (Cons r rs)
  show ?case (is "?L = ?R")
  proof
    assume ?L
    then obtain p1 y1 ps1 z1 z2 where "process_element now p r = Inr (p1, y1)"
      "op_run (chain_step n now) ps y1 = Inr (ps1, z1)"
      and rest: "op_run (chain_step (Suc n) now) (p1 # ps1) rs = Inr (qs, z2)" and "zs = z1 @ z2"
      by auto
    moreover from rest Cons.IH obtain p' ps' ys where "qs = p' # ps'"
      "op_run (process_element now) p1 rs = Inr (p', ys)"
      "op_run (chain_step n now) ps1 ys = Inr (ps', z2)" by blast
    ultimately show ?R by (auto simp: op_run_append)
  next
    assume ?R
    then obtain p' ps' p1 y1 y2 ps1 z1 z2 where "qs = p' # ps'"
      "process_element now p r = Inr (p1, y1)" "op_run (chain_step n now) ps y1 = Inr (ps1, z1)"
      and a: "op_run (process_element now) p1 rs = Inr (p', y2)"
      and b: "op_run (chain_step n now) ps1 y2 = Inr (ps', z2)" and "zs = z1 @ z2"
      by (auto simp: op_run_append)
    moreover have "op_run (chain_step (Suc n) now) (p1 # ps1) rs = Inr (qs, z2)"
      using a b \<open>qs = p' # ps'\<close> Cons.IH by blast
    ultimately show ?L by auto
  qed
qed auto

lemma chain_run_Cons:
  "op_run (chain_process now) (p # ps) rs = Inr (qs, zs) \<longleftrightarrow>
     (\<exists>p' ps' ys. qs = p' # ps' \<and> op_run (process_element now) p rs = Inr (p', ys) \<and>
        op_run (chain_process now) ps ys = Inr (ps', zs))"
  by (simp only: chain_run_step length_Cons chain_step_Cons)


end
