(* ===== verification/Stream_Tasks.thy ===== *)
theory Stream_Tasks
  imports Execution_Graph Operators
begin

text \<open>
  The tasks of a worker: batching in the data writer (\<open>network/local/data_writer.py\<close>), the output collector
  (\<open>runtime/core/collector/output_collector.py\<close>), the set-up of a task's collectors and its read loop
  (\<open>runtime/worker/task/stream_task.py\<close>) and the choice of the task class (\<open>runtime/worker/job_worker.py\<close>).
  The native writer behind the batches is not part of the Python code: whether it takes a batch is an argument of
  each call, as is the clock.
\<close>

section \<open>Batches\<close>

record 'm batch_writer =
  bw_batch_per_channel :: "(string, 'm list) dict"
  bw_last_write_ts_per_channel :: "(string, rat) dict"
  bw_batch_size :: nat
  bw_flush_period_s :: rat
  bw_num_msgs_sent :: nat

definition bw_init :: "string list \<Rightarrow> nat \<Rightarrow> rat \<Rightarrow> 'm batch_writer" where
  "bw_init chs bsize period =
     \<lparr>bw_batch_per_channel = map (\<lambda>c. (c, [])) (remdups chs), bw_last_write_ts_per_channel = map (\<lambda>c. (c, -1)) (remdups chs),
      bw_batch_size = bsize, bw_flush_period_s = period, bw_num_msgs_sent = 0\<rparr>"

text \<open>
  \<open>_try_write_message\<close> and \<open>try_write_message\<close>: the answer, the batch the native writer took, the new state.
\<close>

definition set_batch :: "string \<Rightarrow> 'm list \<Rightarrow> rat \<Rightarrow> 'm batch_writer \<Rightarrow> 'm batch_writer" where
  "set_batch ch batch now w =
     w\<lparr>bw_batch_per_channel := AList.update ch batch (bw_batch_per_channel w),
       bw_last_write_ts_per_channel := AList.update ch now (bw_last_write_ts_per_channel w)\<rparr>"

definition try_write_batch ::
    "bool \<Rightarrow> rat \<Rightarrow> string \<Rightarrow> 'm \<Rightarrow> 'm batch_writer \<Rightarrow> (bool \<times> 'm list option \<times> 'm batch_writer) result" where
  "try_write_batch taken now ch message w =
     rbind (dict_get (bw_batch_per_channel w) ch) (\<lambda>batch.
       if length (batch @ [message]) = bw_batch_size w
       then if taken then Inr (True, Some (batch @ [message]), set_batch ch [] now w)
            else Inr (False, None, w)
       else Inr (True, None, set_batch ch (batch @ [message]) now w))"

definition try_write_message ::
    "bool \<Rightarrow> rat \<Rightarrow> string \<Rightarrow> 'm \<Rightarrow> 'm batch_writer \<Rightarrow> (bool \<times> 'm list option \<times> 'm batch_writer) result" where
  "try_write_message taken now ch message w =
     rbind (try_write_batch taken now ch message w) (\<lambda>(ok, b, w').
       Inr (ok, b, if ok then w'\<lparr>bw_num_msgs_sent := bw_num_msgs_sent w' + 1\<rparr> else w'))"

text \<open>\<open>try_flush_if_needed\<close>: each channel under its lock, with its own clock reading and answer.\<close>

definition flush_channel :: "bool \<Rightarrow> rat \<Rightarrow> string \<Rightarrow> 'm batch_writer \<Rightarrow> ('m list option \<times> 'm batch_writer) result" where
  "flush_channel taken now ch w =
     rbind (dict_get (bw_last_write_ts_per_channel w) ch) (\<lambda>ts.
       if now - ts \<ge> bw_flush_period_s w
       then rbind (dict_get (bw_batch_per_channel w) ch) (\<lambda>batch.
              if batch = [] then Inr (None, w)
              else if taken then Inr (Some batch, set_batch ch [] now w)
              else Inr (None, w))
       else Inr (None, w))"

fun try_flush_if_needed ::
    "(string \<times> bool \<times> rat) list \<Rightarrow> 'm batch_writer \<Rightarrow> ((string \<times> 'm list) list \<times> 'm batch_writer) result" where
  "try_flush_if_needed [] w = Inr ([], w)"
| "try_flush_if_needed ((ch, taken, now) # rest) w =
     rbind (flush_channel taken now ch w) (\<lambda>(b, w1).
     rbind (try_flush_if_needed rest w1) (\<lambda>(bs, w2).
       Inr ((case b of None \<Rightarrow> [] | Some x \<Rightarrow> [(ch, x)]) @ bs, w2)))"

text \<open>\<open>close\<close>: the flusher thread has ended and a last flush is tried; then the native writer is closed.\<close>

definition bw_close ::
    "(string \<times> bool \<times> rat) list \<Rightarrow> 'm batch_writer \<Rightarrow> ((string \<times> 'm list) list \<times> 'm batch_writer) result" where
  "bw_close obs w = try_flush_if_needed obs w"

section \<open>The output collector\<close>

text \<open>
  \<open>collect\<close>: the targets are tried in turn until each has taken the record. The loop runs on the answers of
  the native writer; \<open>None\<close> stands for a call that has not returned after the given ones.
\<close>

fun collect_loop ::
    "string list \<Rightarrow> 'm \<Rightarrow> (bool \<times> rat) list \<Rightarrow> nat list \<Rightarrow> nat \<Rightarrow> (string \<times> 'm list) list \<Rightarrow> 'm batch_writer \<Rightarrow>
     ((string \<times> 'm list) list \<times> 'm batch_writer) result option" where
  "collect_loop chs m obs [] cur out w = Some (Inr (out, w))"
| "collect_loop chs m [] (p # ps) cur out w = None"
| "collect_loop chs m ((taken, now) # obs) (p # ps) cur out w =
     (case rbind (py_index (p # ps) (int cur)) (\<lambda>target.
           rbind (py_index chs (int target)) (\<lambda>ch.
           rbind (try_write_message taken now ch m w) (\<lambda>(ok, b, w'). Inr (ok, case b of None \<Rightarrow> out | Some x \<Rightarrow> out @ [(ch, x)], w')))) of
        Inl e \<Rightarrow> Some (Inl e)
      | Inr (ok, out', w') \<Rightarrow>
          (let ps' = (if ok then take cur (p # ps) @ drop (Suc cur) (p # ps) else p # ps)
           in collect_loop chs m obs ps' ((cur + 1) mod length ps') out' w'))"

definition collect ::
    "('k \<Rightarrow> int) \<Rightarrow> string \<Rightarrow> string list \<Rightarrow> (bool \<times> rat) list \<Rightarrow> ('k, 'v) partition \<Rightarrow> ('k, 'v) srec \<Rightarrow>
     ('k, 'v) channel_message batch_writer \<Rightarrow>
     ((string \<times> ('k, 'v) channel_message list) list \<times> ('k, 'v) partition \<times> ('k, 'v) channel_message batch_writer) result option" where
  "collect hash stream_name output_channel_ids obs part r w =
     (case partition_step hash part r (length output_channel_ids) of
        Inl e \<Rightarrow> Some (Inl e)
      | Inr (ps, part') \<Rightarrow>
          (case collect_loop output_channel_ids (to_channel_message (set_stream_name (Some stream_name) r)) obs ps 0 [] w of
             None \<Rightarrow> None
           | Some (Inl e) \<Rightarrow> Some (Inl e)
           | Some (Inr (out, w')) \<Rightarrow> Some (Inr (out, part', w'))))"

section \<open>Batches keep every message\<close>

text \<open>What a channel got: the batches taken for it, then its pending batch.\<close>

definition channel_log :: "string \<Rightarrow> (string \<times> 'm list) list \<Rightarrow> 'm batch_writer \<Rightarrow> 'm list" where
  "channel_log ch out w =
     concat (map snd (filter (\<lambda>x. fst x = ch) out)) @ (case map_of (bw_batch_per_channel w) ch of None \<Rightarrow> [] | Some b \<Rightarrow> b)"

definition bw_ok :: "string set \<Rightarrow> 'm batch_writer \<Rightarrow> bool" where
  "bw_ok chs w \<longleftrightarrow> 0 < bw_batch_size w \<and>
     (\<forall>ch \<in> chs. \<exists>b ts. map_of (bw_batch_per_channel w) ch = Some b \<and> map_of (bw_last_write_ts_per_channel w) ch = Some ts \<and>
        length b < bw_batch_size w)"

definition add_out :: "string \<Rightarrow> 'm list option \<Rightarrow> (string \<times> 'm list) list \<Rightarrow> (string \<times> 'm list) list" where
  "add_out ch b out = (case b of None \<Rightarrow> out | Some x \<Rightarrow> out @ [(ch, x)])"

lemma bw_ok_init: "0 < bsize \<Longrightarrow> bw_ok (set chs) (bw_init chs bsize period)"
  by (auto simp: bw_ok_def bw_init_def map_of_map_restrict restrict_map_def)

lemma try_write_log:
  assumes "bw_ok chs w" "ch \<in> chs"
  shows "\<exists>ok b w'. try_write_message taken now ch m w = Inr (ok, b, w') \<and> bw_ok chs w' \<and> (taken \<longrightarrow> ok) \<and>
    bw_batch_size w' = bw_batch_size w \<and> (\<forall>x. b = Some x \<longrightarrow> length x = bw_batch_size w) \<and>
    (\<forall>c. channel_log c (add_out ch b out) w' = channel_log c out w @ (if ok \<and> c = ch then [m] else []))"
proof -
  from assms obtain batch ts where "map_of (bw_batch_per_channel w) ch = Some batch"
    "map_of (bw_last_write_ts_per_channel w) ch = Some ts" "length batch < bw_batch_size w" by (auto simp: bw_ok_def)
  with assms show ?thesis
    by (auto simp: try_write_message_def try_write_batch_def set_batch_def bw_ok_def channel_log_def add_out_def dict_get_def)
qed

lemma flush_log:
  assumes "bw_ok chs w" "ch \<in> chs"
  shows "\<exists>b w'. flush_channel taken now ch w = Inr (b, w') \<and> bw_ok chs w' \<and> bw_batch_size w' = bw_batch_size w \<and>
    (\<forall>x. b = Some x \<longrightarrow> x \<noteq> [] \<and> length x < bw_batch_size w) \<and>
    (\<forall>c. channel_log c (add_out ch b out) w' = channel_log c out w)"
proof -
  from assms obtain batch ts where "map_of (bw_batch_per_channel w) ch = Some batch"
    "map_of (bw_last_write_ts_per_channel w) ch = Some ts" "length batch < bw_batch_size w" by (auto simp: bw_ok_def)
  with assms show ?thesis
    by (auto simp: flush_channel_def set_batch_def bw_ok_def channel_log_def add_out_def dict_get_def)
qed

lemma filter_remove_at:
  "i < length xs \<Longrightarrow> length (filter P xs) = length (filter P (take i xs @ drop (Suc i) xs)) + (if P (xs ! i) then 1 else 0)"
  by (subst id_take_nth_drop [of i xs]) auto

lemma collect_loop_delivers:
  assumes "bw_ok (set chs) w" "set ps \<subseteq> {..<length chs}" "ps \<noteq> [] \<Longrightarrow> cur < length ps"
  shows "(length ps \<le> length (filter fst obs) \<longrightarrow> collect_loop chs m obs ps cur out w \<noteq> None) \<and>
    (\<forall>res. collect_loop chs m obs ps cur out w = Some res \<longrightarrow>
       (\<exists>out' w'. res = Inr (out', w') \<and> bw_ok (set chs) w' \<and>
          (\<forall>c. channel_log c out' w' = channel_log c out w @ replicate (length (filter (\<lambda>p. chs ! p = c) ps)) m)))"
  using assms
proof (induction chs m obs ps cur out w rule: collect_loop.induct)
  case (3 chs m taken now obs p ps cur out w)
  let ?ps = "p # ps"
  have cur: "cur < length ?ps" using "3.prems"(3) by simp
  let ?t = "?ps ! cur"
  have t: "?t < length chs" using "3.prems"(2) nth_mem [OF cur] by blast
  obtain ok b w1 where wr: "try_write_message taken now (chs ! ?t) m w = Inr (ok, b, w1)" "bw_ok (set chs) w1" "taken \<longrightarrow> ok"
    "\<forall>c. channel_log c (add_out (chs ! ?t) b out) w1 = channel_log c out w @ (if ok \<and> c = chs ! ?t then [m] else [])"
    using try_write_log [OF "3.prems"(1) nth_mem [OF t], of taken now m out] by blast
  define ps' where "ps' = (if ok then take cur ?ps @ drop (Suc cur) ?ps else ?ps)"
  define out' where "out' = add_out (chs ! ?t) b out"
  have step: "(rbind (py_index ?ps (int cur)) (\<lambda>target. rbind (py_index chs (int target)) (\<lambda>ch.
      rbind (try_write_message taken now ch m w) (\<lambda>(ok, b, w'). Inr (ok, case b of None \<Rightarrow> out | Some x \<Rightarrow> out @ [(ch, x)], w'))))) =
      Inr (ok, out', w1)"
    unfolding py_index_nat [OF cur] using wr(1) t by (simp add: out'_def add_out_def)
  have loop: "collect_loop chs m ((taken, now) # obs) ?ps cur out w = collect_loop chs m obs ps' ((cur + 1) mod length ps') out' w1"
    by (subst collect_loop.simps) (unfold step, simp add: Let_def ps'_def)
  have sub: "set ps' \<subseteq> set ?ps" unfolding ps'_def by (auto dest: in_set_takeD in_set_dropD)
  have len: "length ?ps = (if ok then Suc (length ps') else length ps')" using cur by (simp add: ps'_def)
  have sub': "set ps' \<subseteq> {..<length chs}" using sub "3.prems"(2) by blast
  have IH: "(length ps' \<le> length (filter fst obs) \<longrightarrow> collect_loop chs m obs ps' ((cur + 1) mod length ps') out' w1 \<noteq> None) \<and>
    (\<forall>res. collect_loop chs m obs ps' ((cur + 1) mod length ps') out' w1 = Some res \<longrightarrow>
       (\<exists>out'' w'. res = Inr (out'', w') \<and> bw_ok (set chs) w' \<and>
          (\<forall>c. channel_log c out'' w' = channel_log c out' w1 @ replicate (length (filter (\<lambda>p. chs ! p = c) ps')) m)))"
    by (rule "3.IH" [OF step refl refl, folded ps'_def, OF refl wr(2) sub']) simp
  have cnt: "length (filter (\<lambda>p. chs ! p = c) ?ps) = length (filter (\<lambda>p. chs ! p = c) ps') + (if ok \<and> c = chs ! ?t then 1 else 0)" for c
    using filter_remove_at [OF cur, of "\<lambda>p. chs ! p = c"] by (auto simp: ps'_def)
  have "channel_log c out' w1 @ replicate (length (filter (\<lambda>p. chs ! p = c) ps')) m =
      channel_log c out w @ replicate (length (filter (\<lambda>p. chs ! p = c) ?ps)) m" for c
    using wr(4) unfolding cnt out'_def by simp
  with IH have "\<forall>res. collect_loop chs m ((taken, now) # obs) ?ps cur out w = Some res \<longrightarrow>
      (\<exists>out' w'. res = Inr (out', w') \<and> bw_ok (set chs) w' \<and>
         (\<forall>c. channel_log c out' w' = channel_log c out w @ replicate (length (filter (\<lambda>p. chs ! p = c) ?ps)) m))"
    unfolding loop by metis
  moreover have "length ?ps \<le> length (filter fst ((taken, now) # obs)) \<longrightarrow> length ps' \<le> length (filter fst obs)"
    using len wr(3) by (cases taken; cases ok) auto
  ultimately show ?case using IH unfolding loop by blast
qed auto

text \<open>
  C18. The collector delivers a record exactly once to each target its partitioning chose, in order behind what the
  channel got before, and to no other channel, whatever writes the native writer refuses; and it returns as soon as
  the writer took as many batches as there are channels.
\<close>

theorem collect_delivers_once:
  assumes "bw_ok (set chs) w" "chs \<noteq> []" "distinct chs" "partition_inv (length chs) part" "partition_accepts part r"
    and "length chs \<le> length (filter fst obs)"
  shows "\<exists>ps part' out w'. partition_step hash part r (length chs) = Inr (ps, part') \<and> ps \<noteq> [] \<and>
    collect hash name chs obs part r w = Some (Inr (out, part', w')) \<and>
    (\<forall>i < length chs. channel_log (chs ! i) out w' = channel_log (chs ! i) [] w @
       (if i \<in> set ps then [to_channel_message (set_stream_name (Some name) r)] else []))"
proof -
  let ?m = "to_channel_message (set_stream_name (Some name) r)"
  have "0 < length chs" using assms(2) by simp
  from partition_step_ok [OF this assms(4,5), of hash] obtain ps part' where
    ps: "partition_step hash part r (length chs) = Inr (ps, part')" "ps \<noteq> []" "distinct ps" "set ps \<subseteq> {..<length chs}" by blast
  have "length ps \<le> length chs" using distinct_card [OF ps(3)] card_mono [OF _ ps(4)] by simp
  then have "length ps \<le> length (filter fst obs)" using assms(6) by simp
  with collect_loop_delivers [OF assms(1) ps(4), of 0 obs ?m "[]"] ps(2) obtain out w' where
    loop: "collect_loop chs ?m obs ps 0 [] w = Some (Inr (out, w'))"
    "\<forall>c. channel_log c out w' = channel_log c [] w @ replicate (length (filter (\<lambda>p. chs ! p = c) ps)) ?m"
    by fastforce
  have "filter (\<lambda>p. chs ! p = chs ! i) ps = (if i \<in> set ps then [i] else [])" if "i < length chs" for i
  proof -
    have "filter (\<lambda>p. chs ! p = chs ! i) ps = filter (\<lambda>p. p = i) ps"
      using that ps(4) assms(3) by (intro filter_cong) (auto simp: nth_eq_iff_index_eq)
    also have "\<dots> = (if i \<in> set ps then [i] else [])" using ps(3) by (induction ps) auto
    finally show ?thesis .
  qed
  with loop ps(1,2) show ?thesis by (auto simp: collect_def)
qed

theorem collect_delivers_once_witness:
  "\<exists>out part' w'. collect (\<lambda>k :: int. k) ''s'' [''a'', ''b''] [(False, 0), (True, 1), (False, 2), (True, 3)] init_broadcast (Record (5 :: int) None None)
      (bw_init [''a'', ''b''] 1 1) = Some (Inr (out, part', w')) \<and>
    channel_log ''a'' out w' = [to_channel_message (set_stream_name (Some ''s'') (Record 5 None None))]"
proof -
  let ?w = "bw_init [''a'', ''b''] 1 1 :: (int, int) channel_message batch_writer"
  have "bw_ok (set [''a'', ''b'']) ?w" by (rule bw_ok_init) simp
  from collect_delivers_once [OF this, of init_broadcast "Record 5 None None" "[(False, 0), (True, 1), (False, 2), (True, 3)]" "\<lambda>k. k" "''s''"]
  obtain ps part' out w' where *: "partition_step (\<lambda>k :: int. k) init_broadcast (Record (5 :: int) None None) 2 = Inr (ps, part')"
    "collect (\<lambda>k :: int. k) ''s'' [''a'', ''b''] [(False, 0), (True, 1), (False, 2), (True, 3)] init_broadcast (Record (5 :: int) None None) ?w =
       Some (Inr (out, part', w'))"
    "\<forall>i < 2. channel_log ([''a'', ''b''] ! i) out w' = channel_log ([''a'', ''b''] ! i) [] ?w @
       (if i \<in> set ps then [to_channel_message (set_stream_name (Some ''s'') (Record 5 None None))] else [])"
    by (auto simp: init_broadcast_def numeral_2_eq_2)
  have "ps = [0, 1]" using *(1) by (simp add: init_broadcast_def Let_def numeral_2_eq_2)
  with *(3) [rule_format, of 0] have "channel_log ''a'' out w' = [to_channel_message (set_stream_name (Some ''s'') (Record 5 None None))]"
    by (simp add: channel_log_def bw_init_def)
  with *(2) show ?thesis by blast
qed

text \<open>A sequence of writes and flushes, with the messages that were accepted.\<close>

datatype 'm bw_op = BwWrite bool rat string 'm | BwFlush bool rat string

fun bw_run ::
    "'m bw_op list \<Rightarrow> (string \<times> 'm list) list \<Rightarrow> (string \<times> 'm) list \<Rightarrow> 'm batch_writer \<Rightarrow>
     ((string \<times> 'm list) list \<times> (string \<times> 'm) list \<times> 'm batch_writer) result" where
  "bw_run [] out acc w = Inr (out, acc, w)"
| "bw_run (BwWrite taken now ch m # ops) out acc w =
     rbind (try_write_message taken now ch m w) (\<lambda>(ok, b, w'). bw_run ops (add_out ch b out) (if ok then acc @ [(ch, m)] else acc) w')"
| "bw_run (BwFlush taken now ch # ops) out acc w =
     rbind (flush_channel taken now ch w) (\<lambda>(b, w'). bw_run ops (add_out ch b out) acc w')"

fun op_channel :: "'m bw_op \<Rightarrow> string" where
  "op_channel (BwWrite _ _ ch _) = ch"
| "op_channel (BwFlush _ _ ch) = ch"

definition accepted_on :: "string \<Rightarrow> (string \<times> 'm) list \<Rightarrow> 'm list" where
  "accepted_on ch acc = map snd (filter (\<lambda>x. fst x = ch) acc)"

lemma bw_run_log:
  assumes "bw_ok chs w" "op_channel ` set ops \<subseteq> chs" "\<And>ch. channel_log ch out w = accepted_on ch acc"
    and "\<And>x. x \<in> set out \<Longrightarrow> snd x \<noteq> [] \<and> length (snd x) \<le> bw_batch_size w"
  shows "\<exists>out' acc' w'. bw_run ops out acc w = Inr (out', acc', w') \<and> bw_ok chs w' \<and> bw_batch_size w' = bw_batch_size w \<and>
    (\<forall>ch. channel_log ch out' w' = accepted_on ch acc') \<and>
    (\<forall>x \<in> set out'. snd x \<noteq> [] \<and> length (snd x) \<le> bw_batch_size w)"
  using assms
proof (induction ops arbitrary: out acc w)
  case Nil
  then show ?case by simp
next
  case (Cons op ops)
  show ?case
  proof (cases op)
    case (BwWrite taken now ch m)
    with Cons.prems(2) have ch: "ch \<in> chs" by simp
    obtain ok b w1 where w1: "try_write_message taken now ch m w = Inr (ok, b, w1)" "bw_ok chs w1"
      "bw_batch_size w1 = bw_batch_size w" "\<forall>x. b = Some x \<longrightarrow> length x = bw_batch_size w"
      "\<forall>c. channel_log c (add_out ch b out) w1 = channel_log c out w @ (if ok \<and> c = ch then [m] else [])"
      using try_write_log [OF Cons.prems(1) ch, of taken now m out] by blast
    have pos: "0 < bw_batch_size w" using Cons.prems(1) by (simp add: bw_ok_def)
    have log: "channel_log c (add_out ch b out) w1 = accepted_on c (if ok then acc @ [(ch, m)] else acc)" for c
      using w1(5) Cons.prems(3) by (simp add: accepted_on_def)
    have out: "snd x \<noteq> [] \<and> length (snd x) \<le> bw_batch_size w1" if "x \<in> set (add_out ch b out)" for x
      using that Cons.prems(4) [of x] w1(3,4) pos by (auto simp: add_out_def split: option.splits)
    from Cons.IH [OF w1(2) _ log out] Cons.prems(2) w1(1,3) BwWrite show ?thesis by simp
  next
    case (BwFlush taken now ch)
    with Cons.prems(2) have ch: "ch \<in> chs" by simp
    obtain b w1 where w1: "flush_channel taken now ch w = Inr (b, w1)" "bw_ok chs w1" "bw_batch_size w1 = bw_batch_size w"
      "\<forall>x. b = Some x \<longrightarrow> x \<noteq> [] \<and> length x < bw_batch_size w"
      "\<forall>c. channel_log c (add_out ch b out) w1 = channel_log c out w"
      using flush_log [OF Cons.prems(1) ch, of taken now out] by blast
    have log: "channel_log c (add_out ch b out) w1 = accepted_on c acc" for c
      using w1(5) Cons.prems(3) by simp
    have out: "snd x \<noteq> [] \<and> length (snd x) \<le> bw_batch_size w1" if "x \<in> set (add_out ch b out)" for x
      using that Cons.prems(4) [of x] w1(3,4) by (auto simp: add_out_def split: option.splits)
    from Cons.IH [OF w1(2) _ log out] Cons.prems(2) w1(1,3) BwFlush show ?thesis by simp
  qed
qed

text \<open>
  Batching keeps every accepted message: after any interleaving of writes and flushes, refused or not, the
  batches handed over for a channel followed by its pending batch are exactly the messages accepted
  for it, in order, and no batch is empty or larger than the batch size.
\<close>

theorem batches_keep_messages:
  assumes "0 < bsize" "op_channel ` set ops \<subseteq> set chs"
  shows "\<exists>out acc w. bw_run ops [] [] (bw_init chs bsize period) = Inr (out, acc, w) \<and>
    (\<forall>ch. channel_log ch out w = accepted_on ch acc) \<and> (\<forall>x \<in> set out. snd x \<noteq> [] \<and> length (snd x) \<le> bsize)"
proof -
  let ?w = "bw_init chs bsize period :: 'a batch_writer"
  have log: "channel_log ch [] ?w = accepted_on ch []" for ch
    by (auto simp: channel_log_def accepted_on_def bw_init_def map_of_map_restrict restrict_map_def)
  have size: "bw_batch_size ?w = bsize" by (simp add: bw_init_def)
  from bw_run_log [OF bw_ok_init [OF assms(1)] assms(2) log] show ?thesis by (simp add: size) blast
qed

theorem batches_keep_messages_witness:
  "\<exists>out acc w. bw_run [BwWrite True 0 ''a'' (1 :: int), BwWrite False 1 ''a'' 2, BwFlush True 9 ''a''] [] [] (bw_init [''a''] 2 1) = Inr (out, acc, w) \<and>
     channel_log ''a'' out w = accepted_on ''a'' acc"
proof -
  have "op_channel ` set [BwWrite True 0 ''a'' (1 :: int), BwWrite False 1 ''a'' 2, BwFlush True 9 ''a''] \<subseteq> set [''a'']" by simp
  from batches_keep_messages [where bsize = 2 and period = 1, OF _ this] show ?thesis by (simp del: bw_run.simps) blast
qed

lemma flush_recent:
  assumes "map_of (bw_last_write_ts_per_channel w) ch = Some ts" "now - ts < bw_flush_period_s w"
  shows "flush_channel taken now ch w = Inr (None, w)"
  using assms by (simp add: flush_channel_def dict_get_def)

lemma flush_other:
  assumes "flush_channel taken now ch w = Inr (b, w')" "ch \<noteq> c"
  shows "map_of (bw_batch_per_channel w') c = map_of (bw_batch_per_channel w) c \<and>
    map_of (bw_last_write_ts_per_channel w') c = map_of (bw_last_write_ts_per_channel w) c \<and>
    bw_flush_period_s w' = bw_flush_period_s w"
  using assms by (auto simp: flush_channel_def set_batch_def split: if_splits)

text \<open>
  Closing the writer can lose messages: a channel whose last write is younger than the flush period when the
  last flush reaches it keeps its pending batch, and nothing of it is handed over.
\<close>

theorem close_drops_recent_batch:
  assumes "bw_close obs w = Inr (out, w')" "map_of (bw_batch_per_channel w) ch = Some batch"
    and "map_of (bw_last_write_ts_per_channel w) ch = Some ts"
    and "\<forall>(c, taken, now) \<in> set obs. c = ch \<longrightarrow> now - ts < bw_flush_period_s w"
  shows "map_of (bw_batch_per_channel w') ch = Some batch \<and> ch \<notin> fst ` set out"
  using assms unfolding bw_close_def
proof (induction obs arbitrary: w out)
  case (Cons x obs)
  obtain c taken now where x: "x = (c, taken, now)" by (cases x)
  from Cons.prems(1) x obtain b w1 out1 where 1: "flush_channel taken now c w = Inr (b, w1)"
    "try_flush_if_needed obs w1 = Inr (out1, w')" "out = (case b of None \<Rightarrow> [] | Some y \<Rightarrow> [(c, y)]) @ out1" by auto
  show ?case
  proof (cases "c = ch")
    case True
    with Cons.prems(4) x have "now - ts < bw_flush_period_s w" by simp
    from flush_recent [OF Cons.prems(3) this] 1(1) True have "b = None" "w1 = w" by simp_all
    with Cons.IH [of w out1] Cons.prems 1 show ?thesis by simp
  next
    case False
    note o = flush_other [OF 1(1) False]
    have "map_of (bw_batch_per_channel w1) ch = Some batch" "map_of (bw_last_write_ts_per_channel w1) ch = Some ts"
      "\<forall>(c, taken, now) \<in> set obs. c = ch \<longrightarrow> now - ts < bw_flush_period_s w1" using o Cons.prems(2-4) by auto
    from Cons.IH [OF 1(2) this] 1(3) False show ?thesis by (auto split: option.splits)
  qed
qed simp

theorem close_drops_recent_batch_witness:
  "\<exists>out w w'. try_write_message True 0 ''a'' (7 :: int) (bw_init [''a''] 10 1) = Inr (True, None, w) \<and>
     bw_close [(''a'', True, 1 / 2)] w = Inr (out, w') \<and> map_of (bw_batch_per_channel w') ''a'' = Some [7] \<and> ''a'' \<notin> fst ` set out"
proof -
  let ?w = "(set_batch ''a'' [7] 0 (bw_init [''a''] 10 1))\<lparr>bw_num_msgs_sent := 1\<rparr> :: int batch_writer"
  have 1: "try_write_message True 0 ''a'' 7 (bw_init [''a''] 10 1) = Inr (True, None, ?w)"
    by (simp add: try_write_message_def try_write_batch_def bw_init_def dict_get_def set_batch_def)
  have 2: "bw_close [(''a'', True, 1 / 2)] ?w = Inr ([], ?w)"
    by (simp add: bw_close_def flush_channel_def bw_init_def dict_get_def set_batch_def)
  have "map_of (bw_batch_per_channel ?w) ''a'' = Some [7] \<and> ''a'' \<notin> fst ` set ([] :: (string \<times> int list) list)"
    by (rule close_drops_recent_batch [OF 2, where ts = 0]) (simp_all add: bw_init_def set_batch_def)
  with 1 2 show ?thesis by blast
qed

section \<open>Setting up a task\<close>

text \<open>
  \<open>_open_processor\<close>: the output edges of the vertex, grouped by the name of the target's job vertex, each
  group with the channels of its edges and the partitioning of its last edge. An edge's channel has
  the edge's id.
\<close>

definition group_edge ::
    "string \<Rightarrow> ('k, 'v) exec_edge \<Rightarrow> (string, string list) dict \<times> (string, ('k, 'v) partition) dict \<Rightarrow>
     (string, string list) dict \<times> (string, ('k, 'v) partition) dict" where
  "group_edge op_name e = (\<lambda>(chs, parts). (dict_append op_name (ee_id e) chs, AList.update op_name (ee_partition e) parts))"

definition group_step ::
    "('o, 'k, 'v) exec_graph \<Rightarrow> ('k, 'v) exec_edge \<Rightarrow> (string, string list) dict \<times> (string, ('k, 'v) partition) dict \<Rightarrow>
     ((string, string list) dict \<times> (string, ('k, 'v) partition) dict) result" where
  "group_step g e groups =
     rbind (dict_get (eg_by_id g) (ee_target e)) (\<lambda>t. Inr (group_edge (get_name (ev_job_vertex t)) e groups))"

definition open_collectors :: "('o, 'k, 'v) exec_graph \<Rightarrow> string \<Rightarrow> (string list \<times> ('k, 'v) partition) list result" where
  "open_collectors g i =
     rbind (rfold (group_step g) (output_edges g i) ([], [])) (\<lambda>(chs, parts).
       rmap (\<lambda>(op_name, part). rbind (dict_get chs op_name) (\<lambda>cs. Inr (cs, part))) parts)"

text \<open>
  \<open>_create_stream_task\<close>: the class by the operator's type; the sides of a two-input task are the ids of the
  vertices feeding it, in the order in which a Python set lists them (\<open>set_list\<close>).
\<close>

datatype stream_task = SourceStreamTask | OneInputStreamTask | TwoInputStreamTask string string

definition input_op_ids :: "('o, 'k, 'v) exec_graph \<Rightarrow> string \<Rightarrow> nat list result" where
  "input_op_ids g i =
     rmap (\<lambda>e. rbind (dict_get (eg_by_id g) (ee_source e)) (\<lambda>s. Inr (jv_vertex_id (ev_job_vertex s)))) (input_edges g i)"

definition create_stream_task ::
    "(nat list \<Rightarrow> nat list) \<Rightarrow> ('o, 'k, 'v) exec_graph \<Rightarrow> 'o exec_vertex \<Rightarrow> stream_task result" where
  "create_stream_task set_list g v =
     (case op_type (jv_stream_operator (ev_job_vertex v)) of
        SOURCE_OP \<Rightarrow> Inr SourceStreamTask
      | ONE_INPUT_OP \<Rightarrow> Inr OneInputStreamTask
      | TWO_INPUT_OP \<Rightarrow>
          rbind (input_op_ids g (ev_id v)) (\<lambda>ids.
            case set_list ids of
              [l, r] \<Rightarrow> Inr (TwoInputStreamTask (str_nat l) (str_nat r))
            | _ \<Rightarrow> Inl RuntimeError))"

text \<open>\<open>InputStreamTask.run\<close> on the message lists that the reader gives; an empty one is a retry.\<close>

fun input_task_run ::
    "('s \<Rightarrow> ('k, 'v) srec \<Rightarrow> ('s \<times> ('k, 'v) srec list) result) \<Rightarrow> 's \<Rightarrow> ('k, 'v) channel_message list list \<Rightarrow>
     ('s \<times> ('k, 'v) srec list) result" where
  "input_task_run process s [] = Inr (s, [])"
| "input_task_run process s (ms # reads) =
     rbind (op_run (\<lambda>s m. rbind (record_from_channel_message m) (process s)) s ms) (\<lambda>(s1, o1).
     rbind (input_task_run process s1 reads) (\<lambda>(s2, o2). Inr (s2, o1 @ o2)))"

section \<open>One collector per downstream operator\<close>

lemma get_name_inject: "get_name u = get_name v \<Longrightarrow> jv_vertex_id u = jv_vertex_id v"
proof -
  assume "get_name u = get_name v"
  then have "str_nat (jv_vertex_id u) = str_nat (jv_vertex_id v)"
    unfolding get_name_def by (subst (asm) append_sep_inject) (auto simp: str_nat_not_digit underscore_not_digit)
  then show ?thesis by (metis digits_val_str_nat)
qed

lemma update_last: "\<not> dict_mem k d \<Longrightarrow> AList.update k v (d @ [(k, u)]) = d @ [(k, v)]"
  by (induction d) (auto simp: dict_mem_def split: if_splits)

text \<open>The edges to one target form one group.\<close>

definition edge_group :: "('o, 'k, 'v) exec_graph \<Rightarrow> string \<Rightarrow> ('k, 'v) partition \<Rightarrow> ('k, 'v) exec_edge list \<Rightarrow> bool" where
  "edge_group g nm p es \<longleftrightarrow> es \<noteq> [] \<and>
     (\<forall>e \<in> set es. ee_partition e = p \<and> (\<exists>t. map_of (eg_by_id g) (ee_target e) = Some t \<and> get_name (ev_job_vertex t) = nm))"

lemma group_more:
  assumes "\<not> dict_mem nm chs" "\<not> dict_mem nm parts"
    and "\<forall>e \<in> set es. ee_partition e = p \<and> (\<exists>t. map_of (eg_by_id g) (ee_target e) = Some t \<and> get_name (ev_job_vertex t) = nm)"
  shows "rfold (group_step g) es (chs @ [(nm, xs)], parts @ [(nm, p)]) = Inr (chs @ [(nm, xs @ map ee_id es)], parts @ [(nm, p)])"
  using assms(3)
proof (induction es arbitrary: xs)
  case (Cons e es)
  from assms(1) have "map_of (chs @ [(nm, xs)]) nm = Some xs" by (simp add: dict_mem_def map_add_def)
  with assms(1,2) Cons.prems
  have "group_step g e (chs @ [(nm, xs)], parts @ [(nm, p)]) = Inr (chs @ [(nm, xs @ [ee_id e])], parts @ [(nm, p)])"
    by (auto simp: group_step_def group_edge_def dict_append_def dict_get_def update_last simp del: map_of_append)
  with Cons show ?case by simp
qed simp

lemma group_block:
  assumes "edge_group g nm p es" "\<not> dict_mem nm chs" "\<not> dict_mem nm parts"
  shows "rfold (group_step g) es (chs, parts) = Inr (chs @ [(nm, map ee_id es)], parts @ [(nm, p)])"
proof -
  obtain e es' where es: "es = e # es'" using assms(1) by (cases es) (auto simp: edge_group_def)
  have "group_step g e (chs, parts) = Inr (chs @ [(nm, [ee_id e])], parts @ [(nm, p)])"
    using assms by (auto simp: es edge_group_def group_step_def group_edge_def dict_append_def dict_get_def update_fresh dict_mem_def)
  with group_more [OF assms(2,3), of es' p g "[ee_id e]"] assms(1) show ?thesis by (simp add: es edge_group_def)
qed

lemma group_blocks:
  assumes "\<forall>x \<in> set xs. edge_group g (nm x) (p x) (es x)" "distinct (map nm xs)"
    and "\<forall>x \<in> set xs. \<not> dict_mem (nm x) chs \<and> \<not> dict_mem (nm x) parts"
  shows "rfold (group_step g) (concat (map es xs)) (chs, parts) =
    Inr (chs @ map (\<lambda>x. (nm x, map ee_id (es x))) xs, parts @ map (\<lambda>x. (nm x, p x)) xs)"
  using assms
proof (induction xs arbitrary: chs parts)
  case (Cons x xs)
  have "rfold (group_step g) (es x) (chs, parts) = Inr (chs @ [(nm x, map ee_id (es x))], parts @ [(nm x, p x)])"
    using Cons.prems by (intro group_block) simp_all
  moreover have "\<forall>y \<in> set xs. \<not> dict_mem (nm y) (chs @ [(nm x, map ee_id (es x))]) \<and> \<not> dict_mem (nm y) (parts @ [(nm x, p x)])"
    using Cons.prems(2,3) by (auto simp: dict_mem_iff image_iff)
  ultimately show ?case using Cons.IH [of "chs @ [(nm x, map ee_id (es x))]" "parts @ [(nm x, p x)]"] Cons.prems(1,2)
    by (simp add: rfold_append)
qed simp

lemma open_collectors_groups:
  assumes "output_edges g i = concat (map es xs)" "\<forall>x \<in> set xs. edge_group g (nm x) (p x) (es x)" "distinct (map nm xs)"
  shows "open_collectors g i = Inr (map (\<lambda>x. (map ee_id (es x), p x)) xs)"
proof -
  let ?chs = "map (\<lambda>x. (nm x, map ee_id (es x))) xs"
  have "rfold (group_step g) (output_edges g i) ([], []) = Inr (?chs, map (\<lambda>x. (nm x, p x)) xs)"
    using group_blocks [OF assms(2,3), of "[]" "[]"] by (simp add: assms(1) dict_mem_def)
  moreover have "rmap (\<lambda>(n, part). rbind (dict_get ?chs n) (\<lambda>cs. Inr (cs, part))) (map (\<lambda>x. (nm x, p x)) ys) =
      Inr (map (\<lambda>x. (map ee_id (es x), p x)) ys)" if "set ys \<subseteq> set xs" for ys
    using that
  proof (induction ys)
    case (Cons y ys)
    have "map_of ?chs (nm y) = Some (map ee_id (es y))"
      using Cons.prems assms(3) by (intro map_of_is_SomeI) (auto simp: o_def)
    with Cons show ?case by (simp add: dict_get_def)
  qed simp
  ultimately show ?thesis by (simp add: open_collectors_def)
qed

lemma output_edges_closed:
  assumes "eg_edges g = concat (map (edges_of jg) jes)" "i < par_of jg a"
  shows "output_edges g (exec_id a i) = concat (map (\<lambda>e. map (\<lambda>j.
      \<lparr>ee_source = exec_id a i, ee_target = exec_id (je_target_vertex_id e) j,
       ee_partition = exec_partition (par_of jg (je_target_vertex_id e)) (je_partition e)\<rparr>)
    [0..<par_of jg (je_target_vertex_id e)]) (filter (\<lambda>e. je_source_vertex_id e = a) jes))"
proof -
  have nats: "filter (\<lambda>k. k = i) [0..<n] = (if i < n then [i] else [])" for n by (induction n) auto
  have one: "filter (\<lambda>x. ee_source x = exec_id a i) (edges_of jg e) = (if je_source_vertex_id e = a then map (\<lambda>j.
      \<lparr>ee_source = exec_id a i, ee_target = exec_id (je_target_vertex_id e) j,
       ee_partition = exec_partition (par_of jg (je_target_vertex_id e)) (je_partition e)\<rparr>)
    [0..<par_of jg (je_target_vertex_id e)] else [])" for e
  proof -
    let ?row = "\<lambda>k. map (\<lambda>j. \<lparr>ee_source = exec_id (je_source_vertex_id e) k, ee_target = exec_id (je_target_vertex_id e) j,
        ee_partition = exec_partition (par_of jg (je_target_vertex_id e)) (je_partition e)\<rparr>) [0..<par_of jg (je_target_vertex_id e)]"
    have rows: "filter (\<lambda>x. ee_source x = exec_id a i) (concat (map ?row ks)) =
        (if je_source_vertex_id e = a then concat (map ?row (filter (\<lambda>k. k = i) ks)) else [])" for ks
      by (induction ks) (auto simp: filter_map o_def)
    show ?thesis unfolding edges_of_def rows nats using assms(2) by auto
  qed
  show ?thesis unfolding output_edges_def assms(1) by (induction jes) (simp_all add: one)
qed

lemma exec_vertex_lookup:
  assumes "graph_expandable jg" "eg_by_id g = map (\<lambda>v. (ev_id v, v)) (concat (map exec_vertices_of (jg_job_vertices jg)))"
    and "v \<in> set (jg_job_vertices jg)" "j < jv_parallelism v"
  shows "\<exists>t. map_of (eg_by_id g) (exec_id (jv_vertex_id v) j) = Some t \<and> ev_job_vertex t = v \<and> ev_index t = j"
proof -
  let ?t = "\<lparr>ev_job_vertex = v, ev_index = j, ev_parallelism = jv_parallelism v, ev_resources = None\<rparr>"
  have "?t \<in> set (exec_vertices_of v)" using assms(4) by (auto simp: exec_vertices_of_def)
  then have "(exec_id (jv_vertex_id v) j, ?t) \<in> set (eg_by_id g)"
    unfolding assms(2) using assms(3) by (force simp: ev_id_def)
  moreover have "distinct (map fst (eg_by_id g))"
    using distinct_ev_ids [of "jg_job_vertices jg"] assms(1) unfolding assms(2) by (simp add: graph_expandable_def o_def)
  ultimately have "map_of (eg_by_id g) (exec_id (jv_vertex_id v) j) = Some ?t" by simp
  then show ?thesis by simp
qed

text \<open>
  Every instance of an operator gets one collector per job edge out of it, with one channel to each
  instance of the edge's target, in the order of their indices, and the partitioning of that edge.
\<close>

theorem collectors_per_target:
  fixes jg :: "('o, 'k, 'v) job_graph" and g :: "('o, 'k, 'v) exec_graph"
  assumes "graph_expandable jg" "from_job_graph jg = Inr g" "v \<in> set (jg_job_vertices jg)" "i < jv_parallelism v"
  shows "open_collectors g (exec_id (jv_vertex_id v) i) = Inr (map (\<lambda>e.
      (map (\<lambda>j. exec_id (jv_vertex_id v) i @ ''-'' @ exec_id (je_target_vertex_id e) j) [0..<par_of jg (je_target_vertex_id e)],
       exec_partition (par_of jg (je_target_vertex_id e)) (je_partition e)))
    (filter (\<lambda>e. je_source_vertex_id e = jv_vertex_id v) (jg_job_edges jg)))"
proof -
  from from_job_graph_closed [OF assms(1)] assms(2) have
    g: "eg_by_id g = map (\<lambda>v. (ev_id v, v)) (concat (map exec_vertices_of (jg_job_vertices jg)))"
    "eg_edges g = concat (map (edges_of jg) (jg_job_edges jg))" by auto
  let ?a = "jv_vertex_id v" and ?es = "filter (\<lambda>e. je_source_vertex_id e = jv_vertex_id v) (jg_job_edges jg)"
  have "?a \<in> vids jg" using assms(3) by (auto simp: vids_def)
  from expandable_vertex [OF assms(1) this] have "par_of jg ?a = jv_parallelism v"
    by (metis assms(1,3) distinct_map graph_expandable_def inj_on_def)
  with assms(4) have i: "i < par_of jg ?a" by simp
  define row where "row = (\<lambda>e :: ('k, 'v) job_edge. map (\<lambda>j. \<lparr>ee_source = exec_id ?a i, ee_target = exec_id (je_target_vertex_id e) j,
       ee_partition = exec_partition (par_of jg (je_target_vertex_id e)) (je_partition e)\<rparr>) [0..<par_of jg (je_target_vertex_id e)])"
  define nm where "nm = (\<lambda>e :: ('k, 'v) job_edge. get_name (the (vertex_map jg (je_target_vertex_id e))))"
  have tv: "\<exists>t. vertex_map jg (je_target_vertex_id e) = Some t \<and> t \<in> set (jg_job_vertices jg) \<and> jv_vertex_id t = je_target_vertex_id e \<and>
      par_of jg (je_target_vertex_id e) = jv_parallelism t \<and> 0 < jv_parallelism t" if "e \<in> set ?es" for e
  proof -
    have "je_target_vertex_id e \<in> vids jg" using that assms(1) by (auto simp: graph_expandable_def)
    from expandable_vertex [OF assms(1) this] show ?thesis by metis
  qed
  have "edge_group g (nm e) (exec_partition (par_of jg (je_target_vertex_id e)) (je_partition e)) (row e)" if "e \<in> set ?es" for e
    using tv [OF that] exec_vertex_lookup [OF assms(1) g(1)] by (fastforce simp: edge_group_def row_def nm_def)
  moreover have "distinct (map nm ?es)"
  proof -
    have "distinct (map epair (jg_job_edges jg))" using assms(1) by (simp add: graph_expandable_def)
    then have "distinct ?es" "inj_on epair (set ?es)" by (auto simp: distinct_map inj_on_def)
    moreover have "epair e = epair f" if "e \<in> set ?es" "f \<in> set ?es" "nm e = nm f" for e f
      using tv [OF that(1)] tv [OF that(2)] that get_name_inject by (fastforce simp: nm_def epair_def)
    ultimately show ?thesis unfolding distinct_map inj_on_def by blast
  qed
  ultimately have "open_collectors g (exec_id ?a i) =
      Inr (map (\<lambda>e. (map ee_id (row e), exec_partition (par_of jg (je_target_vertex_id e)) (je_partition e))) ?es)"
    by (intro open_collectors_groups [where nm = nm]) (simp_all add: output_edges_closed [OF g(2) i] row_def)
  then show ?thesis by (simp add: row_def o_def ee_id_def)
qed

theorem collectors_per_target_witness:
  "\<exists>g cs. from_job_graph sample_graph = Inr g \<and> open_collectors g (exec_id 1 0) = Inr [cs] \<and> length (fst cs) = 2"
proof -
  obtain g where g: "from_job_graph sample_graph = Inr g" using from_job_graph_closed [OF sample_graph_expandable] by blast
  let ?v = "\<lparr>jv_vertex_id = 1, jv_parallelism = 2, jv_vertex_type = SOURCE_V,
    jv_stream_operator = Op ''SourceOperator'' SOURCE_OP (0 :: nat)\<rparr>"
  have v: "?v \<in> set (jg_job_vertices sample_graph)" by (simp add: sample_graph_def)
  have "par_of sample_graph 2 = 2" by (simp add: par_of_def vertex_map_def sample_graph_def)
  with collectors_per_target [OF sample_graph_expandable g v, of 0] g show ?thesis
    by (simp add: sample_graph_def JobEdge_def)
qed

section \<open>The sides of a two-input task\<close>

lemma rmap_all: "(\<And>x. x \<in> set xs \<Longrightarrow> \<exists>y. f x = Inr y) \<Longrightarrow> \<exists>ys. rmap f xs = Inr ys \<and> set ys = {y. \<exists>x \<in> set xs. f x = Inr y}"
proof (induction xs)
  case (Cons x xs)
  obtain y where "f x = Inr y" using Cons.prems [of x] by auto
  moreover obtain ys where "rmap f xs = Inr ys" "set ys = {y. \<exists>x \<in> set xs. f x = Inr y}" using Cons.IH Cons.prems by auto
  ultimately show ?case by auto
qed simp

lemma input_op_ids_sources:
  assumes "graph_expandable jg" "from_job_graph jg = Inr g" "v \<in> set (jg_job_vertices jg)" "i < jv_parallelism v"
  shows "\<exists>ids. input_op_ids g (exec_id (jv_vertex_id v) i) = Inr ids \<and>
    set ids = je_source_vertex_id ` {e \<in> set (jg_job_edges jg). je_target_vertex_id e = jv_vertex_id v}"
proof -
  from from_job_graph_closed [OF assms(1)] assms(2) have
    g: "eg_by_id g = map (\<lambda>v. (ev_id v, v)) (concat (map exec_vertices_of (jg_job_vertices jg)))"
    "eg_edges g = concat (map (edges_of jg) (jg_job_edges jg))" by auto
  let ?f = "\<lambda>e. rbind (dict_get (eg_by_id g) (ee_source e)) (\<lambda>s. Inr (jv_vertex_id (ev_job_vertex s)))"
  have src: "?f x = Inr (je_source_vertex_id e)" if "e \<in> set (jg_job_edges jg)" "x \<in> set (edges_of jg e)" for e x
  proof -
    from that(2) obtain k where k: "k < par_of jg (je_source_vertex_id e)" "ee_source x = exec_id (je_source_vertex_id e) k"
      by (auto simp: edges_of_def)
    have "je_source_vertex_id e \<in> vids jg" using that(1) assms(1) by (auto simp: graph_expandable_def)
    from expandable_vertex [OF assms(1) this] obtain s where
      "s \<in> set (jg_job_vertices jg)" "jv_vertex_id s = je_source_vertex_id e" "par_of jg (je_source_vertex_id e) = jv_parallelism s" by metis
    with exec_vertex_lookup [OF assms(1) g(1), of s k] k show ?thesis by (auto simp: dict_get_def)
  qed
  have par: "par_of jg (jv_vertex_id v) = jv_parallelism v"
    using assms(3) expandable_vertex [OF assms(1), of "jv_vertex_id v"] assms(1)
    by (metis distinct_map graph_expandable_def imageI inj_on_def vids_def set_map)
  have ins: "set (input_edges g (exec_id (jv_vertex_id v) i)) =
      {x. \<exists>e \<in> set (jg_job_edges jg). x \<in> set (edges_of jg e) \<and> ee_target x = exec_id (jv_vertex_id v) i}"
    unfolding input_edges_def g(2) by auto
  obtain ids where ids: "input_op_ids g (exec_id (jv_vertex_id v) i) = Inr ids"
    "set ids = {y. \<exists>x \<in> set (input_edges g (exec_id (jv_vertex_id v) i)). ?f x = Inr y}"
    using rmap_all [of "input_edges g (exec_id (jv_vertex_id v) i)" ?f] src unfolding input_op_ids_def ins by blast
  have "set ids = je_source_vertex_id ` {e \<in> set (jg_job_edges jg). je_target_vertex_id e = jv_vertex_id v}" (is "_ = ?S")
  proof
    show "set ids \<subseteq> ?S"
    proof
      fix y assume "y \<in> set ids"
      then obtain x e where x: "e \<in> set (jg_job_edges jg)" "x \<in> set (edges_of jg e)" "ee_target x = exec_id (jv_vertex_id v) i" "?f x = Inr y"
        unfolding ids(2) ins by blast
      then have "je_target_vertex_id e = jv_vertex_id v" by (auto simp: edges_of_def)
      with src [OF x(1,2)] x(1,4) show "y \<in> ?S" by auto
    qed
    show "?S \<subseteq> set ids"
    proof
      fix y assume "y \<in> ?S"
      then obtain e where e: "e \<in> set (jg_job_edges jg)" "je_target_vertex_id e = jv_vertex_id v" "y = je_source_vertex_id e" by blast
      have "je_source_vertex_id e \<in> vids jg" using e(1) assms(1) by (auto simp: graph_expandable_def)
      from expandable_vertex [OF assms(1) this] have "0 < par_of jg (je_source_vertex_id e)" by metis
      then have "\<exists>x \<in> set (edges_of jg e). ee_target x = exec_id (jv_vertex_id v) i"
        using assms(4) par e(2) by (force simp: edges_of_def)
      with src [OF e(1)] e show "y \<in> set ids" unfolding ids(2) ins by blast
    qed
  qed
  with ids(1) show ?thesis by blast
qed

lemma two_elements: "distinct xs \<Longrightarrow> set xs = {a, b} \<Longrightarrow> a \<noteq> b \<Longrightarrow> xs = [a, b] \<or> xs = [b, a]"
proof -
  assume *: "distinct xs" "set xs = {a, b}" "a \<noteq> b"
  then have "length xs = 2" using distinct_card [of xs] by simp
  then obtain x y where "xs = [x, y]" by (auto simp: length_Suc_conv numeral_2_eq_2)
  with * show ?thesis by (auto simp: doubleton_eq_iff)
qed

text \<open>
  Which input of a join is the left one depends on the order in which a set lists the two vertex ids, not on the
  graph: a task for a join of the streams \<open>l\<close> and \<open>r\<close> takes \<open>l\<close> as the left input only when the set happens to list it
  first, and swaps the sides otherwise.
\<close>

lemma join_sides_follow_set_order:
  assumes "graph_expandable jg" "from_job_graph jg = Inr g" "v \<in> set (jg_job_vertices jg)" "i < jv_parallelism v"
    and "op_type (jv_stream_operator v) = TWO_INPUT_OP" "l \<noteq> r"
    and "je_source_vertex_id ` {e \<in> set (jg_job_edges jg). je_target_vertex_id e = jv_vertex_id v} = {l, r}"
    and "\<forall>xs. distinct (set_list xs) \<and> set (set_list xs) = set xs"
  shows "\<exists>ids ev. map_of (eg_by_id g) (exec_id (jv_vertex_id v) i) = Some ev \<and> set ids = {l, r} \<and>
    create_stream_task set_list g ev =
      Inr (if hd (set_list ids) = l then TwoInputStreamTask (str_nat l) (str_nat r) else TwoInputStreamTask (str_nat r) (str_nat l))"
proof -
  from input_op_ids_sources [OF assms(1-4)] assms(7) obtain ids where
    ids: "input_op_ids g (exec_id (jv_vertex_id v) i) = Inr ids" "set ids = {l, r}" by auto
  from from_job_graph_closed [OF assms(1)] assms(2) exec_vertex_lookup [OF assms(1) _ assms(3,4), of g] obtain ev where
    ev: "map_of (eg_by_id g) (exec_id (jv_vertex_id v) i) = Some ev" "ev_job_vertex ev = v" "ev_index ev = i" by auto
  have "set_list ids = [l, r] \<or> set_list ids = [r, l]"
    using two_elements [of "set_list ids" l r] assms(6,8) ids(2) by metis
  moreover have "create_stream_task set_list g ev =
      (case set_list ids of [a, b] \<Rightarrow> Inr (TwoInputStreamTask (str_nat a) (str_nat b)) | _ \<Rightarrow> Inl RuntimeError)"
    using assms(5) ids(1) ev(2,3) by (simp add: create_stream_task_def ev_id_def)
  ultimately have "create_stream_task set_list g ev =
      Inr (if hd (set_list ids) = l then TwoInputStreamTask (str_nat l) (str_nat r) else TwoInputStreamTask (str_nat r) (str_nat l))"
    using assms(6) by (elim disjE) simp_all
  with ev(1) ids(2) show ?thesis by blast
qed

definition join_graph :: "(nat, nat, nat) job_graph" where
  "join_graph =
     \<lparr>jg_job_vertices =
        [\<lparr>jv_vertex_id = 7, jv_parallelism = 1, jv_vertex_type = SOURCE_V, jv_stream_operator = Op ''SourceOperator'' SOURCE_OP 0\<rparr>,
         \<lparr>jv_vertex_id = 8, jv_parallelism = 1, jv_vertex_type = SOURCE_V, jv_stream_operator = Op ''SourceOperator'' SOURCE_OP 0\<rparr>,
         \<lparr>jv_vertex_id = 9, jv_parallelism = 1, jv_vertex_type = JOIN_V, jv_stream_operator = Op ''JoinOperator'' TWO_INPUT_OP 0\<rparr>],
      jg_job_edges = [JobEdge 7 9 KeyPartition None None, JobEdge 8 9 KeyPartition None None]\<rparr>"

lemma join_graph_expandable: "graph_expandable join_graph"
  by (simp add: graph_expandable_def join_graph_def vids_def epair_def JobEdge_def)

lemma join_graph_inputs:
  "je_source_vertex_id ` {e \<in> set (jg_job_edges join_graph). je_target_vertex_id e = jv_vertex_id
     \<lparr>jv_vertex_id = 9, jv_parallelism = 1, jv_vertex_type = JOIN_V, jv_stream_operator = Op ''JoinOperator'' TWO_INPUT_OP (0 :: nat)\<rparr>} = {7, 8}"
  unfolding set_filter [symmetric] by (simp add: join_graph_def JobEdge_def)

section \<open>The read loop\<close>

text \<open>
  A task processes what was written: reading the messages of a sequence of records in any batching makes the
  processor see exactly these records, in order, with the stream name the sender stamped on them.
\<close>

lemma task_processes_written_records:
  "input_task_run process s (map (map (\<lambda>r. to_channel_message (set_stream_name (Some name) r))) rss) =
   op_run process s (map (set_stream_name (Some name)) (concat rss))"
proof (induction rss arbitrary: s)
  case (Cons rs rss)
  have "op_run (\<lambda>s m. rbind (record_from_channel_message m) (process s)) s (map (\<lambda>r. to_channel_message (set_stream_name (Some name) r)) rs) =
      op_run process s (map (set_stream_name (Some name)) rs)" for s
    by (induction rs arbitrary: s) (simp_all add: message_record)
  with Cons show ?case by (simp add: op_run_append)
qed simp

end
