(* ===== verification/Stats.thy ===== *)
theory Stats
  imports Time_Utils
begin

text \<open>
  \<open>runtime/master/stats/hist.py\<close> and \<open>stats_manager.py\<close>: latency histograms, the workers'
  latency and throughput statistics and their aggregation over a window on the master. Counts
  are integers; the NumPy floating point of \<open>percentiles\<close> and \<open>avg\<close> is exact rational
  arithmetic here. Where the code shares a dictionary between two histogram objects the model
  writes the update to both, and a lock is a flag that an exception leaves set.
\<close>

section \<open>Histograms\<close>

record hist =
  h_buckets :: "int list"
  h_hist :: "(int, int) dict"

definition hist_new :: "int list \<Rightarrow> hist result" where
  "hist_new buckets =
     (if sorted buckets
      then Inr \<lparr>h_buckets = buckets, h_hist = fold (\<lambda>b d. AList.update b 0 d) buckets []\<rparr>
      else Inl AssertionError)"

definition hist_inc :: "int \<Rightarrow> int \<Rightarrow> hist \<Rightarrow> hist result" where
  "hist_inc b n h =
     rbind (dict_get (h_hist h) b) (\<lambda>c. Inr (h\<lparr>h_hist := AList.update b (c + n) (h_hist h)\<rparr>))"

text \<open>The bucket loop: \<open>prev < value <= cur\<close>, or the last bucket when the value is larger.\<close>

fun find_bucket :: "int \<Rightarrow> int list \<Rightarrow> int \<Rightarrow> int option" where
  "find_bucket prev [] v = None"
| "find_bucket prev (cur # rest) v =
     (if prev < v \<and> v \<le> cur then Some cur
      else if rest = [] \<and> v > cur then Some cur
      else find_bucket cur rest v)"

definition hist_observe :: "int \<Rightarrow> hist \<Rightarrow> hist result" where
  "hist_observe v h =
     (if v < 0 then Inl RuntimeError
      else if v = 0 then
        (case h_buckets h of [] \<Rightarrow> Inl IndexError | b # _ \<Rightarrow> hist_inc b 1 h)
      else case find_bucket 0 (h_buckets h) v of
             Some b \<Rightarrow> hist_inc b 1 h
           | None \<Rightarrow> Inl RuntimeError)"

text \<open>
  \<open>Hist.merge\<close>: the counts of the later histograms are added into the dictionary of the
  first, which the result shares. The model returns the merged histogram; the caller's first
  histogram has the same counts afterwards.
\<close>

definition hist_add :: "hist \<Rightarrow> hist \<Rightarrow> hist result" where
  "hist_add x acc =
     rbind (rassert (h_buckets acc = h_buckets x) AssertionError) (\<lambda>_.
       rfold (\<lambda>b a. rbind (dict_get (h_hist x) b) (\<lambda>c. hist_inc b c a)) (h_buckets acc) acc)"

definition hist_merge :: "hist list \<Rightarrow> hist result" where
  "hist_merge hs = (case hs of [] \<Rightarrow> Inl IndexError | h # rest \<Rightarrow> rfold hist_add rest h)"

fun cumsum :: "int \<Rightarrow> int list \<Rightarrow> int list" where
  "cumsum a [] = []"
| "cumsum a (x # xs) = (a + x) # cumsum (a + x) xs"

text \<open>With no observation NumPy divides 0 by 0: every comparison with NaN is false.\<close>

definition hist_percentile :: "hist \<Rightarrow> rat \<Rightarrow> int result" where
  "hist_percentile h p =
     (let vals = dict_values (h_hist h); s = sum_list vals;
          idx = (if s = 0 then 0
                 else length (filter (\<lambda>c. of_int c / of_int s * 100 \<le> p) (cumsum 0 vals)))
      in py_index (h_buckets h) (int idx))"

definition hist_percentiles :: "hist \<Rightarrow> rat list \<Rightarrow> int list result" where
  "hist_percentiles h ps = rmap (hist_percentile h) ps"

definition hist_avg :: "hist \<Rightarrow> rat result" where
  "hist_avg h =
     (let s = sum_list (dict_values (h_hist h));
          w = sum_list (map (\<lambda>(b, c). b * c) (h_hist h))
      in if s = 0 then Inl ZeroDivisionError else Inr (of_int w / of_int s))"

definition hist_total :: "hist \<Rightarrow> int" where
  "hist_total h = sum_list (dict_values (h_hist h))"

definition hist_wf :: "hist \<Rightarrow> bool" where
  "hist_wf h \<longleftrightarrow> sorted (h_buckets h) \<and> distinct (h_buckets h) \<and>
     map fst (h_hist h) = h_buckets h"

section \<open>Worker statistics\<close>

definition LATENCY_BINS_MS :: "int list" where
  "LATENCY_BINS_MS = map (\<lambda>i. 10 * int (Suc i)) [0..<999]"

definition LATENCY_AGGREGATION_WINDOW_S :: int where
  "LATENCY_AGGREGATION_WINDOW_S = 5"

definition THROUGHPUT_AGGREGATION_WINDOW_S :: int where
  "THROUGHPUT_AGGREGATION_WINDOW_S = 2"

record latency_state =
  lat_hists :: "(int, hist) dict"
  lat_locked :: bool

definition latency_init :: latency_state where
  "latency_init = \<lparr>lat_hists = [], lat_locked = False\<rparr>"

text \<open>
  A call that takes the lock: \<open>None\<close> when the lock is held and never released (the caller
  blocks), otherwise the outcome and the state. \<open>lock.release()\<close> is not reached when the body
  raises, so the flag stays set.
\<close>

definition latency_observe ::
    "int \<Rightarrow> int \<Rightarrow> latency_state \<Rightarrow> (unit result \<times> latency_state) option" where
  "latency_observe latency_ms ts_ms st =
     (if lat_locked st then None
      else let s = ms_to_s ts_ms in
        Some (case rbind (case map_of (lat_hists st) s of
                            Some h \<Rightarrow> Inr h | None \<Rightarrow> hist_new LATENCY_BINS_MS)
                         (hist_observe latency_ms) of
                Inl e \<Rightarrow> (Inl e, st\<lparr>lat_locked := True\<rparr>)
              | Inr h \<Rightarrow> (Inr (), st\<lparr>lat_hists := AList.update s h (lat_hists st)\<rparr>)))"

definition latency_collect ::
    "latency_state \<Rightarrow> ((int, hist) dict \<times> latency_state) option" where
  "latency_collect st =
     (if lat_locked st then None else Some (lat_hists st, st\<lparr>lat_hists := []\<rparr>))"

record throughput_state =
  tp_num_messages :: "(int, int) dict"
  tp_bucket_id :: int
  tp_bucket_val :: int

definition throughput_create :: throughput_state where
  "throughput_create = \<lparr>tp_num_messages = [], tp_bucket_id = -1, tp_bucket_val = 0\<rparr>"

definition throughput_inc :: "int \<Rightarrow> throughput_state \<Rightarrow> throughput_state" where
  "throughput_inc now_ms st =
     (let s = ms_to_s now_ms;
          st1 = (if tp_bucket_id st < 0 then st\<lparr>tp_bucket_id := s\<rparr> else st)
      in if tp_bucket_id st1 = s then st1\<lparr>tp_bucket_val := tp_bucket_val st1 + 1\<rparr>
         else st1\<lparr>tp_num_messages :=
                    AList.update (tp_bucket_id st1) (tp_bucket_val st1) (tp_num_messages st1),
                  tp_bucket_id := s, tp_bucket_val := 1\<rparr>)"

definition throughput_collect :: "throughput_state \<Rightarrow> (int, int) dict \<times> throughput_state" where
  "throughput_collect st = (tp_num_messages st, st\<lparr>tp_num_messages := []\<rparr>)"

section \<open>Aggregation on the master\<close>

text \<open>Grouping the updates' histograms (or counts) by second, in order of appearance.\<close>

definition group_by_second :: "(int, 'a) dict list \<Rightarrow> (int, 'a list) dict" where
  "group_by_second ups =
     fold (\<lambda>(s, x) g. AList.update s ((case map_of g s of Some xs \<Rightarrow> xs | None \<Rightarrow> []) @ [x]) g)
       (concat ups) []"

record latency_aggregate =
  la_p95 :: int
  la_p75 :: int
  la_p50 :: int
  la_avg :: rat

record job_latency =
  jl_hists :: "(int, hist) dict"
  jl_aggregated :: "(int \<times> latency_aggregate) list"

text \<open>Entries further than the window behind the last key of the dictionary are removed.\<close>

definition drop_old :: "int \<Rightarrow> (int, 'a) dict \<Rightarrow> (int, 'a) dict" where
  "drop_old w d =
     (let secs = dict_keys d
      in fold (\<lambda>s d'. if last secs - s > w then AList.delete s d' else d') secs d)"

definition latency_window_update ::
    "(int, hist) dict \<Rightarrow> (int, hist) dict \<Rightarrow> (int, hist) dict result" where
  "latency_window_update merged win =
     rfold (\<lambda>(s, h) d.
       case map_of d s of
         Some h0 \<Rightarrow> rbind (hist_merge [h0, h]) (\<lambda>h'. Inr (AList.update s h' d))
       | None \<Rightarrow> Inr (AList.update s h d)) merged win"

text \<open>
  The histogram over the whole window is built by merging into the first entry of the
  window, whose counts are therefore replaced by the window's.
\<close>

definition merge_window :: "(int, hist) dict \<Rightarrow> ((int, hist) dict \<times> hist) result" where
  "merge_window d =
     rbind (hist_merge (dict_values d)) (\<lambda>m.
       Inr (case d of [] \<Rightarrow> [] | (s, h) # rest \<Rightarrow> (s, h\<lparr>h_hist := h_hist m\<rparr>) # rest, m))"

definition latency_aggregate_updates ::
    "(int, hist) dict list \<Rightarrow> job_latency \<Rightarrow> job_latency result" where
  "latency_aggregate_updates ups st =
     (if ups = [] then Inr st
      else rbind (rmap (\<lambda>(s, hs). rbind (hist_merge hs) (\<lambda>h. Inr (s, h))) (group_by_second ups)) (\<lambda>merged.
        rbind (latency_window_update merged (jl_hists st)) (\<lambda>win.
        if win = [] then Inr (st\<lparr>jl_hists := win\<rparr>)
        else let secs = dict_keys win; kept = drop_old LATENCY_AGGREGATION_WINDOW_S win in
          rbind (merge_window kept) (\<lambda>(kept', m).
          rbind (hist_percentiles m [95, 75, 50]) (\<lambda>ps.
          rbind (hist_avg m) (\<lambda>a.
            Inr \<lparr>jl_hists = kept',
                 jl_aggregated = jl_aggregated st @
                   [(last secs, \<lparr>la_p95 = ps ! 0, la_p75 = ps ! 1, la_p50 = ps ! 2, la_avg = a\<rparr>)]\<rparr>))))))"

record job_throughput =
  jt_num_messages :: "(int, int) dict"
  jt_aggregated :: "(int \<times> rat) list"

definition dict_add :: "int \<Rightarrow> int \<Rightarrow> (int, int) dict \<Rightarrow> (int, int) dict" where
  "dict_add s n d = AList.update s ((case map_of d s of Some m \<Rightarrow> m | None \<Rightarrow> 0) + n) d"

definition throughput_aggregate_updates ::
    "(int, int) dict list \<Rightarrow> job_throughput \<Rightarrow> job_throughput" where
  "throughput_aggregate_updates ups st =
     (let merged = fold (\<lambda>(s, n). dict_add s n) (concat ups) [];
          win = fold (\<lambda>(s, n). dict_add s n) merged (jt_num_messages st);
          secs = dict_keys win
      in if secs = [] then st\<lparr>jt_num_messages := win\<rparr>
         else let kept = drop_old THROUGHPUT_AGGREGATION_WINDOW_S win;
                  agg = of_int (sum_list (dict_values kept)) / of_int THROUGHPUT_AGGREGATION_WINDOW_S
              in \<lparr>jt_num_messages = kept, jt_aggregated = jt_aggregated st @ [(last secs, agg)]\<rparr>)"

section \<open>Histogram laws\<close>

lemma find_bucket_Some:
  assumes "sorted (prev # bs)" "bs \<noteq> []" "prev < v"
  shows "\<exists>b \<in> set bs. find_bucket prev bs v = Some b \<and>
    (if v \<le> last bs then v \<le> b \<and> (\<forall>c \<in> set bs. v \<le> c \<longrightarrow> b \<le> c) else b = last bs)"
  using assms
proof (induction bs arbitrary: prev)
  case (Cons cur rest)
  consider (here) "v \<le> cur" | (past) "v > cur" "rest = []" | (more) "v > cur" "rest \<noteq> []"
    by linarith
  then show ?case
  proof cases
    case here
    with Cons.prems have "\<forall>c \<in> set (cur # rest). cur \<le> c" by auto
    moreover have "v \<le> last (cur # rest)"
      using here Cons.prems by (metis calculation last_in_set list.discI order_trans)
    ultimately show ?thesis using here Cons.prems by auto
  next
    case more
    with Cons.prems have "sorted (cur # rest)" by simp
    from Cons.IH [OF this more(2) more(1)] more show ?thesis by auto
  qed auto
qed simp

lemma sum_list_update_key:
  "distinct (map fst d) \<Longrightarrow> map_of d k = Some c \<Longrightarrow>
   sum_list (map snd (AList.update k (c + n) d)) = sum_list (map snd d) + (n::int)"
  by (induction d) auto

lemma hist_inc_ok:
  assumes "hist_wf h" "b \<in> set (h_buckets h)"
  shows "\<exists>h'. hist_inc b n h = Inr h' \<and> hist_wf h' \<and> h_buckets h' = h_buckets h \<and>
    hist_total h' = hist_total h + n \<and>
    (\<forall>x. map_of (h_hist h') x = (if x = b then Some (the (map_of (h_hist h) b) + n) else map_of (h_hist h) x))"
proof -
  from assms obtain c where c: "map_of (h_hist h) b = Some c"
    by (metis hist_wf_def list.set_map map_of_eq_None_iff option.exhaust)
  have "distinct (map fst (h_hist h))"
    using assms(1) by (simp add: hist_wf_def)
  from sum_list_update_key [OF this c, of n] c assms show ?thesis
    by (auto simp: hist_inc_def dict_get_def hist_wf_def hist_total_def dict_values_def update_keys)
qed

lemma hist_new_wf:
  assumes "sorted bs" "distinct bs"
  shows "\<exists>h. hist_new bs = Inr h \<and> hist_wf h \<and> h_buckets h = bs \<and> hist_total h = 0"
proof -
  have "fold (\<lambda>b d. AList.update b 0 d) bs d = d @ map (\<lambda>b. (b, 0::int)) bs"
    if "distinct (map fst d @ bs)" for d
    using that
  proof (induction bs arbitrary: d)
    case (Cons b bs)
    then have "AList.update b 0 d = d @ [(b, 0)]"
      by (intro update_fresh) (auto simp: dict_mem_iff image_iff)
    with Cons show ?case by simp
  qed simp
  from this [of "[]"] assms show ?thesis
    by (auto simp: hist_new_def hist_wf_def hist_total_def dict_values_def o_def sum_list_triv)
qed

text \<open>
  Recording a non-negative latency in a histogram always succeeds and adds exactly one
  observation, to the smallest bucket that is not below the value, or to the last bucket when
  the value exceeds them all; the other counts are unchanged.
\<close>

theorem hist_observe_counts:
  assumes wf: "hist_wf h" and ne: "h_buckets h \<noteq> []" and pos: "list_all (\<lambda>b. 0 < b) (h_buckets h)"
    and v: "0 \<le> v"
  shows "\<exists>h' b. hist_observe v h = Inr h' \<and> hist_wf h' \<and> hist_total h' = hist_total h + 1 \<and>
    b \<in> set (h_buckets h) \<and>
    (if v \<le> last (h_buckets h) then v \<le> b \<and> (\<forall>c \<in> set (h_buckets h). v \<le> c \<longrightarrow> b \<le> c)
     else b = last (h_buckets h)) \<and>
    (\<forall>x. map_of (h_hist h') x = (if x = b then Some (the (map_of (h_hist h) b) + 1) else map_of (h_hist h) x))"
proof (cases "v = 0")
  case True
  from ne obtain b bs where bs: "h_buckets h = b # bs" by (cases "h_buckets h") auto
  with pos have "0 < last (h_buckets h)" "0 < b"
    by (metis last_in_set list_all_iff ne) (use bs pos in simp)
  moreover have "\<forall>c \<in> set (h_buckets h). b \<le> c"
    using wf bs by (auto simp: hist_wf_def)
  ultimately have b: "0 \<le> last (h_buckets h)" "\<forall>c \<in> set (h_buckets h). b \<le> c" "0 \<le> b"
    "b \<in> set (h_buckets h)"
    using bs by simp_all
  from hist_inc_ok [OF wf b(4), of 1] obtain h' where "hist_inc b 1 h = Inr h'" "hist_wf h'"
    "hist_total h' = hist_total h + 1"
    "\<forall>x. map_of (h_hist h') x = (if x = b then Some (the (map_of (h_hist h) b) + 1) else map_of (h_hist h) x)"
    by blast
  with True bs b show ?thesis
    by (intro exI [of _ h'] exI [of _ b]) (simp add: hist_observe_def)
next
  case False
  with v have "0 < v" by simp
  moreover have "sorted (0 # h_buckets h)"
    using wf pos by (auto simp: hist_wf_def list_all_iff)
  ultimately obtain b where b: "b \<in> set (h_buckets h)" "find_bucket 0 (h_buckets h) v = Some b"
    "if v \<le> last (h_buckets h) then v \<le> b \<and> (\<forall>c \<in> set (h_buckets h). v \<le> c \<longrightarrow> b \<le> c)
     else b = last (h_buckets h)"
    using find_bucket_Some ne by blast
  from hist_inc_ok [OF wf b(1), of 1] obtain h' where "hist_inc b 1 h = Inr h'" "hist_wf h'"
    "hist_total h' = hist_total h + 1"
    "\<forall>x. map_of (h_hist h') x = (if x = b then Some (the (map_of (h_hist h) b) + 1) else map_of (h_hist h) x)"
    by blast
  with \<open>0 < v\<close> b show ?thesis
    by (intro exI [of _ h'] exI [of _ b]) (simp add: hist_observe_def)
qed

theorem hist_observe_counts_witness:
  "\<exists>h' b. hist_observe 15 \<lparr>h_buckets = [10, 20], h_hist = [(10, 0), (20, 3)]\<rparr> = Inr h' \<and>
     hist_total h' = 4 \<and> b \<in> {10, 20} \<and> 15 \<le> (b::int)"
  using hist_observe_counts [of "\<lparr>h_buckets = [10, 20], h_hist = [(10, 0), (20, 3)]\<rparr>" 15]
  by (auto simp: hist_wf_def hist_total_def dict_values_def)

lemma hist_add_ok:
  assumes "hist_wf h" "hist_wf x" "h_buckets x = h_buckets h"
  shows "\<exists>h'. hist_add x h = Inr h' \<and> hist_wf h' \<and> h_buckets h' = h_buckets h \<and>
    hist_total h' = hist_total h + hist_total x"
proof -
  have get: "\<exists>c. map_of (h_hist x) b = Some c" if "b \<in> set (h_buckets h)" for b
    using assms that by (metis hist_wf_def list.set_map map_of_eq_None_iff option.exhaust)
  have "\<exists>h'. rfold (\<lambda>b a. rbind (dict_get (h_hist x) b) (\<lambda>c. hist_inc b c a)) bs a = Inr h' \<and>
      hist_wf h' \<and> h_buckets h' = h_buckets h \<and>
      hist_total h' = hist_total a + (\<Sum>b\<leftarrow>bs. the (map_of (h_hist x) b))"
    if "hist_wf a" "h_buckets a = h_buckets h" "set bs \<subseteq> set (h_buckets h)" for bs a
    using that
  proof (induction bs arbitrary: a)
    case (Cons b bs)
    then have b: "b \<in> set (h_buckets a)" "b \<in> set (h_buckets h)" by auto
    from get [OF b(2)] obtain c where c: "map_of (h_hist x) b = Some c" ..
    from hist_inc_ok [OF Cons.prems(1) b(1), of c] obtain a' where a':
      "hist_inc b c a = Inr a'" "hist_wf a'" "h_buckets a' = h_buckets a"
      "hist_total a' = hist_total a + c" by blast
    from Cons.IH [of a'] a' Cons.prems c show ?case by auto
  qed simp
  from this [of h "h_buckets h"] assms(1) obtain h' where h':
    "rfold (\<lambda>b a. rbind (dict_get (h_hist x) b) (\<lambda>c. hist_inc b c a)) (h_buckets h) h = Inr h'"
    "hist_wf h'" "h_buckets h' = h_buckets h"
    "hist_total h' = hist_total h + (\<Sum>b\<leftarrow>h_buckets h. the (map_of (h_hist x) b))" by auto
  have keys: "h_buckets h = map fst (h_hist x)" "distinct (map fst (h_hist x))"
    using assms by (simp_all add: hist_wf_def)
  have "(\<Sum>b\<leftarrow>h_buckets h. the (map_of (h_hist x) b)) = hist_total x"
    by (simp only: keys(1) map_lookup_keys [OF keys(2)] hist_total_def dict_values_def)
  with h' assms show ?thesis by (simp add: hist_add_def)
qed

lemma hist_merge_total:
  assumes "hs \<noteq> []" "\<And>x. x \<in> set hs \<Longrightarrow> hist_wf x \<and> h_buckets x = bs"
  shows "\<exists>m. hist_merge hs = Inr m \<and> hist_wf m \<and> h_buckets m = bs \<and>
    hist_total m = sum_list (map hist_total hs)"
proof -
  from assms(1) obtain h rest where hs: "hs = h # rest" by (cases hs) auto
  have *: "\<exists>m. rfold hist_add xs a = Inr m \<and> hist_wf m \<and> h_buckets m = bs \<and>
      hist_total m = hist_total a + sum_list (map hist_total xs)"
    if "hist_wf a" "h_buckets a = bs" "\<And>x. x \<in> set xs \<Longrightarrow> hist_wf x \<and> h_buckets x = bs" for xs a
    using that
  proof (induction xs arbitrary: a)
    case (Cons x xs)
    then have "hist_wf x" "h_buckets x = h_buckets a" by auto
    from hist_add_ok [OF Cons.prems(1) this] obtain a' where "hist_add x a = Inr a'" "hist_wf a'"
      "h_buckets a' = bs" "hist_total a' = hist_total a + hist_total x"
      using Cons.prems(2) by auto
    moreover from this(2,3) have "\<exists>m. rfold hist_add xs a' = Inr m \<and> hist_wf m \<and> h_buckets m = bs \<and>
        hist_total m = hist_total a' + sum_list (map hist_total xs)"
      by (rule Cons.IH) (use Cons.prems(3) in simp)
    ultimately show ?case by auto
  qed simp
  have "\<exists>m. rfold hist_add rest h = Inr m \<and> hist_wf m \<and> h_buckets m = bs \<and>
      hist_total m = hist_total h + sum_list (map hist_total rest)"
    by (rule *) (use assms(2) hs in simp_all)
  with hs show ?thesis by (simp add: hist_merge_def)
qed

text \<open>
  Merging the latency histograms of one window loses no observation, but leaves the
  window's own oldest histogram holding the counts of the whole window (the merge works in
  place), so a window with further histograms counts their observations again in every later
  aggregate.
\<close>

theorem window_merge_inflates_oldest:
  assumes "d = (s, h) # rest" and "\<And>x. x \<in> set (dict_values d) \<Longrightarrow> hist_wf x \<and> h_buckets x = bs"
  shows "\<exists>d' m. merge_window d = Inr (d', m) \<and>
    hist_total m = sum_list (map hist_total (dict_values d)) \<and>
    sum_list (map hist_total (dict_values d')) =
      sum_list (map hist_total (dict_values d)) + sum_list (map hist_total (dict_values rest))"
proof -
  have "dict_values d \<noteq> []" using assms(1) by (simp add: dict_values_def)
  from hist_merge_total [OF this assms(2)] obtain m where m:
    "hist_merge (dict_values d) = Inr m" "hist_total m = sum_list (map hist_total (dict_values d))"
    by blast
  have "hist_total (h\<lparr>h_hist := h_hist m\<rparr>) = hist_total m"
    by (simp add: hist_total_def)
  with m assms(1) show ?thesis by (simp add: merge_window_def dict_values_def)
qed

theorem window_merge_inflates_oldest_witness:
  "\<exists>d' m. merge_window [(1, \<lparr>h_buckets = [10], h_hist = [(10, 2)]\<rparr>), (2, \<lparr>h_buckets = [10], h_hist = [(10, 3)]\<rparr>)] =
      Inr (d', m) \<and> hist_total m = 5 \<and> sum_list (map hist_total (dict_values d')) = 8"
proof -
  let ?h1 = "\<lparr>h_buckets = [10], h_hist = [(10, 2)]\<rparr>" and ?h2 = "\<lparr>h_buckets = [10], h_hist = [(10, 3)]\<rparr>"
  have "hist_wf x \<and> h_buckets x = [10]" if "x \<in> set (dict_values [(1::int, ?h1), (2, ?h2)])" for x
    using that by (auto simp: dict_values_def hist_wf_def)
  from window_merge_inflates_oldest [of _ 1 ?h1 "[(2, ?h2)]", OF refl this] show ?thesis
    by (simp add: dict_values_def hist_total_def)
qed

section \<open>Locking\<close>

text \<open>
  A negative latency (clocks of two hosts out of step) makes the latency statistics
  unusable for good: the observation raises with the lock held, and every later observation
  or collection on that worker blocks.
\<close>

theorem negative_latency_locks_forever:
  assumes "lat < 0" and "\<not> lat_locked st"
  shows "\<exists>e st'. latency_observe lat ts st = Some (Inl e, st') \<and>
    latency_collect st' = None \<and> (\<forall>l t. latency_observe l t st' = None)"
proof -
  have "\<exists>e. rbind m (hist_observe lat) = Inl e" for m
    using assms(1) by (cases m) (auto simp: hist_observe_def)
  then obtain e where "rbind (case map_of (lat_hists st) (ms_to_s ts) of
      Some h \<Rightarrow> Inr h | None \<Rightarrow> hist_new LATENCY_BINS_MS) (hist_observe lat) = Inl e" by blast
  with assms(2) show ?thesis
    by (simp add: latency_observe_def latency_collect_def Let_def)
qed

theorem negative_latency_locks_forever_witness:
  "\<exists>e st'. latency_observe (-3) 5000 latency_init = Some (Inl e, st') \<and> latency_collect st' = None"
  using negative_latency_locks_forever [of "-3" latency_init 5000]
  by (auto simp: latency_init_def)

section \<open>Throughput\<close>

text \<open>Messages known to a worker's throughput state.\<close>

definition throughput_total :: "throughput_state \<Rightarrow> int" where
  "throughput_total st = sum_list (dict_values (tp_num_messages st)) + tp_bucket_val st"

definition throughput_wf :: "throughput_state \<Rightarrow> bool" where
  "throughput_wf st \<longleftrightarrow> wf_dict (tp_num_messages st) \<and>
     (\<forall>s \<in> set (dict_keys (tp_num_messages st)). s < tp_bucket_id st) \<and>
     (tp_bucket_id st < 0 \<longrightarrow> tp_num_messages st = [] \<and> tp_bucket_val st = 0)"

lemma throughput_inc_step:
  assumes wf: "throughput_wf st" and t: "tp_bucket_id st \<le> ms_to_s now" "0 \<le> ms_to_s now"
  shows "throughput_wf (throughput_inc now st) \<and>
    throughput_total (throughput_inc now st) = throughput_total st + 1 \<and>
    tp_bucket_id (throughput_inc now st) = ms_to_s now"
proof (cases "tp_bucket_id st < 0 \<or> tp_bucket_id st = ms_to_s now")
  case True
  with wf t show ?thesis
    by (auto simp: throughput_inc_def Let_def throughput_wf_def throughput_total_def dict_keys_def dict_values_def)
next
  case False
  then have fresh: "\<not> dict_mem (tp_bucket_id st) (tp_num_messages st)"
    using wf by (auto simp: throughput_wf_def dict_mem_iff dict_keys_def)
  have "AList.update (tp_bucket_id st) v (tp_num_messages st) =
      tp_num_messages st @ [(tp_bucket_id st, v)]" for v
    using fresh by (rule update_fresh)
  with False wf t fresh show ?thesis
    by (auto simp: throughput_inc_def Let_def throughput_wf_def throughput_total_def dict_keys_def
        dict_values_def wf_dict_def dict_mem_iff)
qed

datatype tp_event = TpInc int | TpCollect

fun tp_step :: "tp_event \<Rightarrow> throughput_state \<times> int \<Rightarrow> throughput_state \<times> int" where
  "tp_step (TpInc now) (st, n) = (throughput_inc now st, n)"
| "tp_step TpCollect (st, n) =
     (case throughput_collect st of (d, st') \<Rightarrow> (st', n + sum_list (dict_values d)))"

fun tp_monotone :: "int \<Rightarrow> tp_event list \<Rightarrow> bool" where
  "tp_monotone t [] = True"
| "tp_monotone t (TpInc now # es) = (t \<le> ms_to_s now \<and> tp_monotone (ms_to_s now) es)"
| "tp_monotone t (TpCollect # es) = tp_monotone t es"

definition num_incs :: "tp_event list \<Rightarrow> nat" where
  "num_incs es = length (filter (\<lambda>e. e \<noteq> TpCollect) es)"

lemma tp_run_conserves:
  "throughput_wf st \<Longrightarrow> tp_bucket_id st \<le> t \<Longrightarrow> 0 \<le> t \<Longrightarrow> tp_monotone t es \<Longrightarrow>
   fold tp_step es (st, n) = (st', n') \<Longrightarrow>
   throughput_total st' + n' = throughput_total st + n + int (num_incs es)"
proof (induction es arbitrary: st n t)
  case (Cons e es)
  show ?case
  proof (cases e)
    case (TpInc now)
    with Cons.prems have t: "tp_bucket_id st \<le> ms_to_s now" "0 \<le> ms_to_s now" by auto
    from throughput_inc_step [OF Cons.prems(1) t] Cons.prems TpInc
      Cons.IH [of "throughput_inc now st" "ms_to_s now" n] t
    show ?thesis by (auto simp: num_incs_def)
  next
    case TpCollect
    let ?st = "st\<lparr>tp_num_messages := []\<rparr>"
    have "throughput_wf ?st"
      using Cons.prems(1) by (auto simp: throughput_wf_def dict_keys_def)
    with Cons.IH [of ?st t "n + sum_list (dict_values (tp_num_messages st))"] Cons.prems TpCollect
    show ?thesis
      by (auto simp: throughput_collect_def num_incs_def throughput_total_def dict_values_def)
  qed
qed (simp add: num_incs_def)

text \<open>
  Throughput counting loses no message: while the clock does not go backwards, the
  messages collected so far, those buffered per second and those of the current second add up
  to the number of increments, for every interleaving of increments and collections.
\<close>

theorem throughput_conservation:
  assumes "tp_monotone 0 es" and "fold tp_step es (throughput_create, 0) = (st, collected)"
  shows "throughput_total st + collected = int (num_incs es)"
  using tp_run_conserves [OF _ _ _ assms]
  by (simp add: throughput_wf_def throughput_create_def throughput_total_def dict_keys_def dict_values_def)

theorem throughput_conservation_witness:
  "throughput_total (fst (fold tp_step [TpInc 100, TpInc 1500, TpCollect, TpInc 1600] (throughput_create, 0))) +
   snd (fold tp_step [TpInc 100, TpInc 1500, TpCollect, TpInc 1600] (throughput_create, 0)) = 3"
  using throughput_conservation [of "[TpInc 100, TpInc 1500, TpCollect, TpInc 1600]"
      "fst (fold tp_step [TpInc 100, TpInc 1500, TpCollect, TpInc 1600] (throughput_create, 0))"
      "snd (fold tp_step [TpInc 100, TpInc 1500, TpCollect, TpInc 1600] (throughput_create, 0))"]
  by (simp add: ms_to_s_def num_incs_def)

end
