(* ===== verification/Sources.thy ===== *)
theory Sources
  imports Operators Stats
begin

text \<open>
  Sources: the source context and source operator (\<open>SourceOperator\<close> in
  \<open>streaming/api/operators/operators.py\<close>), event-time assignment
  (\<open>operators/timestamp_assigner.py\<close>), the bounded source functions of
  \<open>streaming/api/function/function.py\<close>, the split manager
  (\<open>runtime/sources/source_splits_manager.py\<close>) and the word-count split source
  (\<open>runtime/sources/wordcount/source.py\<close>).
\<close>

section \<open>The source context\<close>

datatype 'd source_split = MORE_AVAILABLE 'd | END_OF_INPUT

record ('k, 'v, 'd) src_ctx =
  ctx_out :: "('k, 'v) srec list list"
  ctx_num_records :: "nat option"
  ctx_num_fetched_records :: nat
  ctx_finished :: bool
  ctx_current_split :: "'d source_split option"
  ctx_throughput_stats :: throughput_state

text \<open>
  \<open>ctx_out\<close> has, for each collector, the records passed to its \<open>collect\<close>. The clock is a
  function of the number of the reading: each \<open>collect\<close> reads it once for the emission
  timestamp and once for the throughput counter.
\<close>

definition source_context_init :: "nat \<Rightarrow> nat option \<Rightarrow> ('k, 'v, 'd) src_ctx" where
  "source_context_init num_collectors num_records =
     \<lparr>ctx_out = replicate num_collectors [], ctx_num_records = num_records,
      ctx_num_fetched_records = 0, ctx_finished = False, ctx_current_split = None,
      ctx_throughput_stats = throughput_create\<rparr>"

definition assign_timestamp ::
    "(('k, 'v) srec \<Rightarrow> rat result) option \<Rightarrow> ('k, 'v) srec \<Rightarrow> ('k, 'v) srec result" where
  "assign_timestamp assigner r =
     (case assigner of
        None \<Rightarrow> Inr r
      | Some func \<Rightarrow> rbind (func r) (\<lambda>ts. Inr (r\<lparr>rec_event_time := Some ts\<rparr>)))"

definition emit_ts :: "(nat \<Rightarrow> int) \<Rightarrow> nat \<Rightarrow> int option" where
  "emit_ts clk n = (if (n + 1) mod 100 = 0 then Some (clk (2 * n)) else None)"

definition ctx_collect ::
    "(('k, 'v) srec \<Rightarrow> rat result) option \<Rightarrow> (nat \<Rightarrow> int) \<Rightarrow> 'v \<Rightarrow> ('k, 'v, 'd) src_ctx \<Rightarrow>
     ('k, 'v, 'd) src_ctx result" where
  "ctx_collect assigner clk v c =
     (let n = ctx_num_fetched_records c;
          source_emit_ts = emit_ts clk n
      in rbind (rmap (\<lambda>sent. rbind (assign_timestamp assigner (Record v None source_emit_ts))
                        (\<lambda>r. Inr (sent @ [r]))) (ctx_out c)) (\<lambda>out.
         Inr (c\<lparr>ctx_out := out,
                ctx_num_fetched_records := n + 1,
                ctx_throughput_stats := throughput_inc (clk (2 * n + 1)) (ctx_throughput_stats c),
                ctx_finished := (ctx_finished c \<or> ctx_num_records c = Some (n + 1))\<rparr>)))"

text \<open>
  Polling asks the master for a split; \<open>poll\<close> is the master's operation on its own state.
\<close>

definition ctx_poll_next_split ::
    "('e \<Rightarrow> ('d source_split \<times> 'e) result) \<Rightarrow> ('k, 'v, 'd) src_ctx \<Rightarrow> 'e \<Rightarrow>
     ('d source_split \<times> ('k, 'v, 'd) src_ctx \<times> 'e) result" where
  "ctx_poll_next_split poll c e =
     rbind (poll e) (\<lambda>(split, e').
       Inr (split, c\<lparr>ctx_current_split := Some split,
                     ctx_finished := (ctx_finished c \<or> split = END_OF_INPUT)\<rparr>, e'))"

definition get_current_split ::
    "('e \<Rightarrow> ('d source_split \<times> 'e) result) \<Rightarrow> ('k, 'v, 'd) src_ctx \<Rightarrow> 'e \<Rightarrow>
     ('d source_split \<times> ('k, 'v, 'd) src_ctx \<times> 'e) result" where
  "get_current_split poll c e =
     rbind (case ctx_current_split c of
              Some split \<Rightarrow> Inr (split, c, e)
            | None \<Rightarrow> ctx_poll_next_split poll c e) (\<lambda>(split, c', e').
       Inr (split, c'\<lparr>ctx_finished := (ctx_finished c' \<or> split = END_OF_INPUT)\<rparr>, e'))"

text \<open>\<open>SourceSplitManager.poll_next_split\<close>: one enumerator per operator id.\<close>

definition split_manager_poll ::
    "('e \<Rightarrow> ('d source_split \<times> 'e) result) \<Rightarrow> nat \<Rightarrow> (nat, 'e) dict \<Rightarrow>
     ('d source_split \<times> (nat, 'e) dict) result" where
  "split_manager_poll poll operator_id enums =
     (case map_of enums operator_id of
        None \<Rightarrow> Inl RuntimeError
      | Some e \<Rightarrow> rbind (poll e) (\<lambda>(split, e'). Inr (split, AList.update operator_id e' enums)))"

section \<open>Bounded source functions\<close>

datatype 'v source_function =
    CollectionSourceFunction "'v list" "'v list option" "nat option"
  | DelayedCollectionSourceFunction "'v list" "'v list option" "nat option"

fun source_init :: "nat \<Rightarrow> nat \<Rightarrow> 'v source_function \<Rightarrow> 'v source_function result" where
  "source_init parallel index (CollectionSourceFunction all_values _ _) =
     rbind (collection_chunk_at_index all_values parallel index) (\<lambda>vs.
       Inr (CollectionSourceFunction all_values (Some vs) (Some (length vs))))"
| "source_init parallel index (DelayedCollectionSourceFunction all_values _ _) =
     rbind (collection_chunk_at_index all_values parallel index) (\<lambda>vs.
       Inr (DelayedCollectionSourceFunction all_values (Some vs) (Some (length vs))))"

text \<open>\<open>num_records\<close>: the delayed source counts the values it still holds.\<close>

fun source_num_records :: "'v source_function \<Rightarrow> nat option result" where
  "source_num_records (CollectionSourceFunction all_values vs n) = Inr n"
| "source_num_records (DelayedCollectionSourceFunction all_values (Some vs) n) = Inr (Some (length vs))"
| "source_num_records (DelayedCollectionSourceFunction all_values None n) = Inl TypeError"

text \<open>
  \<open>fetch\<close>: emit every held value and hold none afterwards. Both functions do so; the delayed
  one sleeps between the values.
\<close>

fun source_fetch ::
    "(('k, 'v) srec \<Rightarrow> rat result) option \<Rightarrow> (nat \<Rightarrow> int) \<Rightarrow>
     'v source_function \<times> ('k, 'v, 'd) src_ctx \<Rightarrow> ('v source_function \<times> ('k, 'v, 'd) src_ctx) result"
  where
  "source_fetch assigner clk (CollectionSourceFunction all_values (Some vs) n, c) =
     rbind (rfold (ctx_collect assigner clk) vs c) (\<lambda>c'.
       Inr (CollectionSourceFunction all_values (Some []) n, c'))"
| "source_fetch assigner clk (DelayedCollectionSourceFunction all_values (Some vs) n, c) =
     rbind (rfold (ctx_collect assigner clk) vs c) (\<lambda>c'.
       Inr (DelayedCollectionSourceFunction all_values (Some []) n, c'))"
| "source_fetch assigner clk (_, c) = Inl TypeError"

text \<open>\<open>SourceOperator.open\<close> on the task with the given index.\<close>

definition source_open ::
    "nat \<Rightarrow> nat \<Rightarrow> nat \<Rightarrow> 'v source_function \<Rightarrow>
     ('v source_function \<times> ('k, 'v, 'd) src_ctx) result" where
  "source_open num_collectors parallelism task_index func =
     rbind (source_init parallelism task_index func) (\<lambda>func'.
     rbind (source_num_records func') (\<lambda>n.
       Inr (func', source_context_init num_collectors n)))"

text \<open>\<open>SourceStreamTask.run\<close>: each round of the loop triggers one \<open>fetch\<close>.\<close>

primrec source_rounds ::
    "nat \<Rightarrow> (('k, 'v) srec \<Rightarrow> rat result) option \<Rightarrow> (nat \<Rightarrow> int) \<Rightarrow>
     'v source_function \<times> ('k, 'v, 'd) src_ctx \<Rightarrow> ('v source_function \<times> ('k, 'v, 'd) src_ctx) result"
  where
  "source_rounds 0 assigner clk st = Inr st"
| "source_rounds (Suc k) assigner clk st =
     rbind (source_fetch assigner clk st) (source_rounds k assigner clk)"

text \<open>\<open>LocalFileSourceFunction\<close>: \<open>readline\<close> keeps the newline; \<open>line[:-1]\<close> drops one character.\<close>

fun readline :: "string \<Rightarrow> string \<times> string" where
  "readline [] = ([], [])"
| "readline (ch # s) = (if ch = CHR 0x0A then ([ch], s)
                        else case readline s of (l, rest) \<Rightarrow> (ch # l, rest))"

lemma readline_length: "length (snd (readline (ch # s))) < length (ch # s)"
proof (induction s arbitrary: ch)
  case (Cons d s)
  show ?case using Cons [of d] by (auto split: prod.splits)
qed simp

function read_lines :: "string \<Rightarrow> string list" where
  "read_lines [] = []"
| "read_lines (ch # s) = fst (readline (ch # s)) # read_lines (snd (readline (ch # s)))"
  by pat_completeness auto

termination by (relation "measure length") (simp, metis readline_length in_measure)

definition local_file_init :: "nat \<Rightarrow> bool result" where
  "local_file_init parallel = (if parallel > 1 then Inl RuntimeError else Inr False)"

definition local_file_fetch ::
    "(('k, string) srec \<Rightarrow> rat result) option \<Rightarrow> (nat \<Rightarrow> int) \<Rightarrow> string \<Rightarrow>
     bool \<times> ('k, string, 'd) src_ctx \<Rightarrow> (bool \<times> ('k, string, 'd) src_ctx) result" where
  "local_file_fetch assigner clk contents st =
     (case st of (done, c) \<Rightarrow>
        if done then Inr (done, c)
        else rbind (rfold (ctx_collect assigner clk) (map butlast (read_lines contents)) c)
               (\<lambda>c'. Inr (True, c')))"

section \<open>The word-count split source\<close>

text \<open>
  The enumerator's counts per word: \<open>None\<close> is Python's \<open>None\<close> (a source without a bound),
  whose decrement raises \<open>TypeError\<close>; counts and split sizes are not negative.
\<close>

type_synonym word_counts = "(string, nat option) dict"

record word_enum =
  we_counts :: word_counts
  we_num_msgs_per_split :: nat

definition word_enum_init :: "nat option \<Rightarrow> nat \<Rightarrow> string list \<Rightarrow> word_enum" where
  "word_enum_init count_per_word num_msgs_per_split dictionary =
     \<lparr>we_counts = fold (\<lambda>w. AList.update w count_per_word) dictionary [],
      we_num_msgs_per_split = num_msgs_per_split\<rparr>"

definition all_done :: "word_counts \<Rightarrow> bool" where
  "all_done counts = list_all (\<lambda>w. map_of counts w = Some (Some 0)) (dict_keys counts)"

definition word_incr :: "string \<Rightarrow> (string, nat) dict \<Rightarrow> (string, nat) dict" where
  "word_incr w words =
     AList.update w (case map_of words w of Some n \<Rightarrow> n + 1 | None \<Rightarrow> 1) words"

text \<open>What is left of a count table, and how far the next word with a count is.\<close>

definition counts_left :: "word_counts \<Rightarrow> nat" where
  "counts_left counts = sum_list (map (\<lambda>(w, n). case n of None \<Rightarrow> 0 | Some k \<Rightarrow> k) counts)"

definition skip_dist :: "word_counts \<Rightarrow> nat \<Rightarrow> nat" where
  "skip_dist counts index =
     (LEAST d. map_of counts (dict_keys counts ! ((index + d) mod length counts)) \<noteq> Some (Some 0))"

lemma counts_left_update:
  "map_of counts w = Some (Some c) \<Longrightarrow>
   counts_left (AList.update w (Some c') counts) + c = counts_left counts + c'"
  by (induction counts) (auto simp: counts_left_def)

lemma not_all_done_index:
  assumes "\<not> all_done counts"
  shows "\<exists>d < length counts. map_of counts (dict_keys counts ! ((index + d) mod length counts)) \<noteq> Some (Some 0)"
proof -
  let ?n = "length counts"
  from assms obtain j where j: "j < ?n" "map_of counts (dict_keys counts ! j) \<noteq> Some (Some 0)"
    by (auto simp: all_done_def list_all_length dict_keys_def)
  define d where "d = (j + (?n - index mod ?n)) mod ?n"
  have "(index + d) mod ?n = (index mod ?n + (j + (?n - index mod ?n))) mod ?n"
    by (simp add: d_def mod_simps)
  also have "index mod ?n + (j + (?n - index mod ?n)) = j + ?n"
    using j(1) mod_less_divisor [of ?n index] by linarith
  finally have "(index + d) mod ?n = j" using j(1) by simp
  moreover have "d < ?n" using j(1) by (auto simp: d_def intro!: mod_less_divisor)
  ultimately show ?thesis using j(2) by metis
qed

lemma skip_dist_less:
  assumes "\<not> all_done counts"
    and "map_of counts (dict_keys counts ! (index mod length counts)) = Some (Some 0)"
  shows "skip_dist counts (Suc (index mod length counts)) < skip_dist counts index"
proof -
  let ?n = "length counts"
  let ?P = "\<lambda>d. map_of counts (dict_keys counts ! ((index + d) mod ?n)) \<noteq> Some (Some 0)"
  from not_all_done_index [OF assms(1)] have ex: "\<exists>d. ?P d" by blast
  then have P: "?P (skip_dist counts index)"
    unfolding skip_dist_def by (rule LeastI_ex)
  with assms(2) have pos: "skip_dist counts index \<noteq> 0"
    by (metis add_0_right)
  then obtain d where d: "skip_dist counts index = Suc d" by (cases "skip_dist counts index") auto
  have "(Suc (index mod ?n) + d) mod ?n = (index + Suc d) mod ?n"
    by (simp add: mod_simps) (metis add_Suc mod_Suc_eq mod_add_left_eq)
  with P d have "skip_dist counts (Suc (index mod ?n)) \<le> d"
    unfolding skip_dist_def by (intro Least_le) simp
  with d show ?thesis by simp
qed

text \<open>The polling loop; it ends because counts go down or the index nears a word that has one.\<close>

function poll_loop ::
    "nat \<Rightarrow> (string, nat) dict \<Rightarrow> nat \<Rightarrow> nat \<Rightarrow> word_counts \<Rightarrow> ((string, nat) dict \<times> word_counts) result"
  where
  "poll_loop limit words num_msgs index counts =
     (if num_msgs = limit \<or> all_done counts then Inr (words, counts)
      else let i = index mod length counts;
               word = dict_keys counts ! i
           in case map_of counts word of
                None \<Rightarrow> Inl KeyError
              | Some None \<Rightarrow> Inl TypeError
              | Some (Some cnt) \<Rightarrow>
                  if cnt = 0 then poll_loop limit words num_msgs (i + 1) counts
                  else poll_loop limit (word_incr word words) (num_msgs + 1) (i + 1)
                         (AList.update word (Some (cnt - 1)) counts))"
  by pat_completeness auto

termination
proof (relation "measures [\<lambda>(_, _, _, _, counts). counts_left counts,
    \<lambda>(_, _, _, index, counts). skip_dist counts index]", goal_cases)
  case (2 limit words num_msgs index counts i word nv n)
  then show ?case using skip_dist_less [of counts index] by simp
next
  case (3 limit words num_msgs index counts i word nv n)
  then have "counts_left (AList.update word (Some (n - 1)) counts) + n = counts_left counts + (n - 1)"
    by (intro counts_left_update) simp
  moreover have "0 < n" using 3 by simp
  ultimately have "counts_left (AList.update word (Some (n - 1)) counts) < counts_left counts"
    by linarith
  then show ?case by simp
qed simp

declare poll_loop.simps [simp del]

definition word_poll :: "word_enum \<Rightarrow> ((string, nat) dict source_split \<times> word_enum) result" where
  "word_poll e =
     (if all_done (we_counts e) then Inr (END_OF_INPUT, e)
      else rbind (poll_loop (we_num_msgs_per_split e) [] 0 0 (we_counts e)) (\<lambda>(words, counts).
        Inr (MORE_AVAILABLE words, e\<lparr>we_counts := counts\<rparr>)))"

text \<open>\<open>WordCountSourceFunction.fetch\<close>: emit the current split, then poll the next one.\<close>

definition split_words :: "(string, nat) dict \<Rightarrow> string list" where
  "split_words words = concat (map (\<lambda>(word, n). replicate n word) words)"

definition word_fetch ::
    "('e \<Rightarrow> ((string, nat) dict source_split \<times> 'e) result) \<Rightarrow>
     (('k, string) srec \<Rightarrow> rat result) option \<Rightarrow> (nat \<Rightarrow> int) \<Rightarrow>
     ('k, string, (string, nat) dict) src_ctx \<Rightarrow> 'e \<Rightarrow>
     (('k, string, (string, nat) dict) src_ctx \<times> 'e) result" where
  "word_fetch poll assigner clk c e =
     rbind (get_current_split poll c e) (\<lambda>(split, c1, e1).
       case split of
         END_OF_INPUT \<Rightarrow> Inr (c1, e1)
       | MORE_AVAILABLE words \<Rightarrow>
           rbind (rfold (ctx_collect assigner clk) (split_words words) c1) (\<lambda>c2.
           rbind (ctx_poll_next_split poll c2 e1) (\<lambda>(_, c3, e3). Inr (c3, e3))))"

section \<open>What a source emits\<close>

text \<open>The records a run of \<open>collect\<close> calls emits from the \<open>n\<close>-th fetched record on.\<close>

primrec emitted_from ::
    "(('k, 'v) srec \<Rightarrow> rat result) option \<Rightarrow> (nat \<Rightarrow> int) \<Rightarrow> nat \<Rightarrow> 'v list \<Rightarrow> ('k, 'v) srec list" where
  "emitted_from assigner clk n [] = []"
| "emitted_from assigner clk n (v # vs) =
     projr (assign_timestamp assigner (Record v None (emit_ts clk n))) #
     emitted_from assigner clk (Suc n) vs"

definition assigner_ok :: "(('k, 'v) srec \<Rightarrow> rat result) option \<Rightarrow> bool" where
  "assigner_ok assigner \<longleftrightarrow>
     (\<forall>v emit. is_ok (assign_timestamp assigner (Record v None emit)))"

lemma assigner_ok_None [simp]: "assigner_ok None"
  by (simp add: assigner_ok_def assign_timestamp_def)

lemma assign_timestamp_ok:
  "assigner_ok assigner \<Longrightarrow>
   assign_timestamp assigner (Record v None emit) =
     Inr (projr (assign_timestamp assigner (Record v None emit)))"
  by (auto simp: assigner_ok_def is_ok_iff) (metis sum.sel(2))

lemma assign_timestamp_value:
  "assigner_ok assigner \<Longrightarrow>
   rec_value (projr (assign_timestamp assigner (Record v None emit))) = v"
  using assign_timestamp_ok [of assigner v emit]
  by (auto simp: assign_timestamp_def split: option.splits)

lemma emitted_from_values [simp]:
  "assigner_ok assigner \<Longrightarrow> map rec_value (emitted_from assigner clk n vs) = vs"
  by (induction vs arbitrary: n) (simp_all add: assign_timestamp_value)

lemma emitted_from_append:
  "emitted_from assigner clk n (xs @ ys) =
   emitted_from assigner clk n xs @ emitted_from assigner clk (n + length xs) ys"
  by (induction xs arbitrary: n) simp_all

lemma ctx_collect_ok:
  assumes "assigner_ok assigner"
  shows "ctx_collect assigner clk v c =
    (let n = ctx_num_fetched_records c
     in Inr (c\<lparr>ctx_out := map (\<lambda>sent. sent @ emitted_from assigner clk n [v]) (ctx_out c),
               ctx_num_fetched_records := n + 1,
               ctx_throughput_stats := throughput_inc (clk (2 * n + 1)) (ctx_throughput_stats c),
               ctx_finished := (ctx_finished c \<or> ctx_num_records c = Some (n + 1))\<rparr>))"
proof -
  let ?r = "Record v None (emit_ts clk (ctx_num_fetched_records c))"
  have "rmap (\<lambda>sent. rbind (assign_timestamp assigner ?r) (\<lambda>r. Inr (sent @ [r]))) (ctx_out c) =
      Inr (map (\<lambda>sent. sent @ [projr (assign_timestamp assigner ?r)]) (ctx_out c))"
    by (rule rmap_Inr_eq_map, subst assign_timestamp_ok [OF assms]) simp
  then show ?thesis by (simp add: ctx_collect_def Let_def)
qed

text \<open>A whole run of \<open>collect\<close> calls.\<close>

lemma ctx_collect_all:
  assumes "assigner_ok assigner"
  shows "\<exists>c'. rfold (ctx_collect assigner clk) vs c = Inr c' \<and>
    ctx_out c' = map (\<lambda>sent. sent @ emitted_from assigner clk (ctx_num_fetched_records c) vs) (ctx_out c) \<and>
    ctx_num_records c' = ctx_num_records c \<and>
    ctx_num_fetched_records c' = ctx_num_fetched_records c + length vs \<and>
    ctx_current_split c' = ctx_current_split c \<and>
    (ctx_finished c' \<longleftrightarrow> ctx_finished c \<or>
      (\<exists>n. ctx_num_records c = Some n \<and> ctx_num_fetched_records c < n \<and>
           n \<le> ctx_num_fetched_records c + length vs))"
proof (induction vs arbitrary: c)
  case Nil
  then show ?case by auto
next
  case (Cons v vs)
  let ?n = "ctx_num_fetched_records c"
  obtain c1 where c1: "ctx_collect assigner clk v c = Inr c1"
    "ctx_out c1 = map (\<lambda>sent. sent @ emitted_from assigner clk ?n [v]) (ctx_out c)"
    "ctx_num_records c1 = ctx_num_records c" "ctx_num_fetched_records c1 = Suc ?n"
    "ctx_current_split c1 = ctx_current_split c"
    "ctx_finished c1 \<longleftrightarrow> ctx_finished c \<or> ctx_num_records c = Some (Suc ?n)"
    by (simp add: ctx_collect_ok [OF assms] Let_def)
  from Cons.IH [of c1] obtain c' where c': "rfold (ctx_collect assigner clk) vs c1 = Inr c'"
    "ctx_out c' = map (\<lambda>sent. sent @ emitted_from assigner clk (Suc ?n) vs) (ctx_out c1)"
    "ctx_num_records c' = ctx_num_records c" "ctx_num_fetched_records c' = Suc ?n + length vs"
    "ctx_current_split c' = ctx_current_split c"
    "ctx_finished c' \<longleftrightarrow> ctx_finished c1 \<or> (\<exists>n. ctx_num_records c = Some n \<and> Suc ?n < n \<and>
       n \<le> Suc ?n + length vs)"
    using c1 by auto
  have "rfold (ctx_collect assigner clk) (v # vs) c = Inr c'"
    using c1(1) c'(1) by simp
  moreover have "ctx_out c' = map (\<lambda>sent. sent @ emitted_from assigner clk ?n (v # vs)) (ctx_out c)"
    by (simp add: c'(2) c1(2))
  moreover have "ctx_finished c' \<longleftrightarrow> ctx_finished c \<or> (\<exists>n. ctx_num_records c = Some n \<and> ?n < n \<and>
       n \<le> ?n + length (v # vs))"
    unfolding c'(6) c1(6) by (cases "ctx_num_records c") auto
  ultimately show ?case using c'(3,4,5) by simp
qed

lemma source_rounds_idle:
  "source_rounds k assigner clk (CollectionSourceFunction vals (Some []) n, c) =
     Inr (CollectionSourceFunction vals (Some []) n, c)"
  "source_rounds k assigner clk (DelayedCollectionSourceFunction vals (Some []) n, c) =
     Inr (DelayedCollectionSourceFunction vals (Some []) n, c)"
  by (induction k) simp_all

text \<open>The two bounded source functions over a collection.\<close>

definition collection_source :: "bool \<Rightarrow> 'v list \<Rightarrow> 'v source_function" where
  "collection_source delayed vals =
     (if delayed then DelayedCollectionSourceFunction vals None None
      else CollectionSourceFunction vals None None)"

text \<open>
  A bounded source task emits to each of its collectors exactly the values of its chunk,
  in order and once, however often \<open>fetch\<close> is called, with an emission timestamp on every
  hundredth record and the event time its assigner gives; and it reports itself finished
  exactly when its chunk is not empty. A task whose chunk is empty therefore never finishes.
\<close>

theorem collection_source_emits_chunk:
  assumes "assigner_ok assigner" and "collection_chunk_at_index vals p i = Inr vs" and "0 < rounds"
  shows "\<exists>f c. rbind (source_open num_collectors p i (collection_source delayed vals))
      (source_rounds rounds assigner clk) = Inr (f, c) \<and>
    ctx_out c = replicate num_collectors (emitted_from assigner clk 0 vs) \<and>
    map rec_value (emitted_from assigner clk 0 vs) = vs \<and>
    (ctx_finished (c :: ('k, 'v, 'd) src_ctx) \<longleftrightarrow> vs \<noteq> [])"
proof -
  let ?c0 = "source_context_init num_collectors (Some (length vs)) :: ('k, 'v, 'd) src_ctx"
  from ctx_collect_all [OF assms(1), of clk vs ?c0] obtain c1
    where c1: "rfold (ctx_collect assigner clk) vs ?c0 = Inr c1"
      "ctx_out c1 = replicate num_collectors (emitted_from assigner clk 0 vs)"
      "ctx_finished c1 \<longleftrightarrow> vs \<noteq> []"
    by (auto simp: source_context_init_def)
  obtain k where "rounds = Suc k" using assms(3) by (cases rounds) auto
  with c1 assms show ?thesis
    by (cases delayed) (auto simp: source_open_def collection_source_def source_rounds_idle)
qed

theorem collection_source_emits_chunk_witness:
  "\<exists>f c. rbind (source_open 2 4 3 (collection_source False [1, 2, 3, 4, 5::int]))
      (source_rounds 7 (None :: ((nat, int) srec \<Rightarrow> rat result) option) (\<lambda>_. 0)) = Inr (f, c) \<and>
    ctx_out c = replicate 2 (emitted_from None (\<lambda>_. 0) 0 []) \<and>
    map rec_value (emitted_from (None :: ((nat, int) srec \<Rightarrow> rat result) option) (\<lambda>_. 0) 0 []) = [] \<and>
    (ctx_finished (c :: (nat, int, unit) src_ctx) \<longleftrightarrow> [] \<noteq> ([]::int list))"
  by (rule collection_source_emits_chunk)
    (simp_all add: collection_chunk_at_index_def py_slice_def)

section \<open>Split enumerators\<close>

text \<open>Words of the split a task holds but has not emitted yet.\<close>

definition pending :: "('k, string, (string, nat) dict) src_ctx \<Rightarrow> string multiset" where
  "pending c = (case ctx_current_split c of
                  Some (MORE_AVAILABLE words) \<Rightarrow> mset (split_words words)
                | _ \<Rightarrow> {#})"

definition sent_on :: "nat \<Rightarrow> ('k, string, (string, nat) dict) src_ctx \<Rightarrow> string multiset" where
  "sent_on j c = mset (map rec_value (ctx_out c ! j))"

definition task_inv :: "nat \<Rightarrow> ('k, string, (string, nat) dict) src_ctx \<Rightarrow> bool" where
  "task_inv n c \<longleftrightarrow> length (ctx_out c) = n \<and> ctx_num_records c = None \<and>
     (ctx_finished c \<longleftrightarrow> ctx_current_split c = Some END_OF_INPUT)"

text \<open>
  Several tasks share one enumerator on the master; a schedule says which task fetches next.
\<close>

definition task_step ::
    "('e \<Rightarrow> ((string, nat) dict source_split \<times> 'e) result) \<Rightarrow>
     (('k, string) srec \<Rightarrow> rat result) option \<Rightarrow> (nat \<Rightarrow> nat \<Rightarrow> int) \<Rightarrow> nat \<Rightarrow>
     ('k, string, (string, nat) dict) src_ctx list \<times> 'e \<Rightarrow>
     (('k, string, (string, nat) dict) src_ctx list \<times> 'e) result" where
  "task_step poll assigner clk i st =
     (case st of (cs, e) \<Rightarrow>
        rbind (word_fetch poll assigner (clk i) (cs ! i) e) (\<lambda>(c', e'). Inr (cs[i := c'], e')))"

lemma sum_list_map_update:
  fixes f :: "'a \<Rightarrow> 'b::comm_monoid_add"
  shows "i < length xs \<Longrightarrow> \<exists>r. \<forall>y. sum_list (map f (xs[i := y])) = f y + r"
proof (induction xs arbitrary: i)
  case (Cons x xs)
  then show ?case
  proof (cases i)
    case (Suc k)
    with Cons obtain r where "\<forall>y. sum_list (map f (xs[k := y])) = f y + r" by auto
    then have "\<forall>y. sum_list (map f ((x # xs)[i := y])) = f y + (f x + r)"
      using Suc by (simp add: ac_simps)
    then show ?thesis by blast
  qed auto
qed simp

text \<open>
  What the tasks of a split source rely on: while the enumerator's invariant holds, a poll
  either ends the input, and then nothing remains, or hands out words that no longer remain.
\<close>

locale split_enumerator =
  fixes poll :: "'e \<Rightarrow> ((string, nat) dict source_split \<times> 'e) result"
    and enum_inv :: "'e \<Rightarrow> bool"
    and remaining :: "'e \<Rightarrow> string multiset"
  assumes poll_law: "enum_inv e \<Longrightarrow>
      (poll e = Inr (END_OF_INPUT, e) \<and> remaining e = {#}) \<or>
      (\<exists>words e'. poll e = Inr (MORE_AVAILABLE words, e') \<and> enum_inv e' \<and>
        remaining e = mset (split_words words) + remaining e')"
begin

lemma poll_step:
  assumes "enum_inv e" "ctx_num_records c = None"
  shows "\<exists>split c' e'. ctx_poll_next_split poll c e = Inr (split, c', e') \<and> enum_inv e' \<and>
    ctx_out c' = ctx_out c \<and> ctx_num_records c' = None \<and> ctx_current_split c' = Some split \<and>
    (ctx_finished c' \<longleftrightarrow> ctx_finished c \<or> split = END_OF_INPUT) \<and>
    remaining e = pending c' + remaining e' \<and>
    (split = END_OF_INPUT \<longrightarrow> remaining e' = {#})"
  using poll_law [OF assms(1)]
proof (elim disjE exE conjE)
  assume "poll e = Inr (END_OF_INPUT, e)" "remaining e = {#}"
  with assms show ?thesis by (simp add: ctx_poll_next_split_def pending_def)
next
  fix words e' assume "poll e = Inr (MORE_AVAILABLE words, e')" "enum_inv e'"
    "remaining e = mset (split_words words) + remaining e'"
  with assms show ?thesis by (simp add: ctx_poll_next_split_def pending_def)
qed

text \<open>One \<open>fetch\<close> moves words from the enumerator through the held split to every collector.\<close>

lemma fetch_step:
  assumes "assigner_ok assigner" "enum_inv e" "task_inv n c"
  shows "\<exists>c' e'. word_fetch poll assigner clk c e = Inr (c', e') \<and> enum_inv e' \<and> task_inv n c' \<and>
    (\<forall>j < n. sent_on j c' + pending c' + remaining e' = sent_on j c + pending c + remaining e) \<and>
    (ctx_finished c' \<and> \<not> ctx_finished c \<longrightarrow> remaining e' = {#}) \<and>
    (remaining e = {#} \<longrightarrow> remaining e' = {#})"
proof -
  obtain split c1 e1 where g: "get_current_split poll c e = Inr (split, c1, e1)" "enum_inv e1"
    "task_inv n c1" "ctx_out c1 = ctx_out c" "ctx_current_split c1 = Some split"
    "pending c1 + remaining e1 = pending c + remaining e"
    "split = END_OF_INPUT \<and> \<not> ctx_finished c \<longrightarrow> remaining e1 = {#}"
    "remaining e = {#} \<longrightarrow> remaining e1 = {#}"
  proof (cases "ctx_current_split c")
    case None
    from poll_step [OF assms(2), of c] assms(3) None obtain split c1 e1
      where "ctx_poll_next_split poll c e = Inr (split, c1, e1)" "enum_inv e1"
        "ctx_out c1 = ctx_out c" "ctx_num_records c1 = None" "ctx_current_split c1 = Some split"
        "ctx_finished c1 \<longleftrightarrow> split = END_OF_INPUT" "remaining e = pending c1 + remaining e1"
        "split = END_OF_INPUT \<longrightarrow> remaining e1 = {#}"
      by (auto simp: task_inv_def)
    with None assms(3) that [of split "c1\<lparr>ctx_finished := (split = END_OF_INPUT)\<rparr>" e1]
    show ?thesis by (auto simp: get_current_split_def task_inv_def pending_def)
  next
    case (Some split)
    with assms(2,3) that [of split "c\<lparr>ctx_finished := (ctx_finished c \<or> split = END_OF_INPUT)\<rparr>" e]
    show ?thesis by (auto simp: get_current_split_def task_inv_def pending_def)
  qed
  show ?thesis
  proof (cases split)
    case END_OF_INPUT
    with g assms show ?thesis
      by (auto simp: word_fetch_def sent_on_def)
  next
    case (MORE_AVAILABLE words)
    from ctx_collect_all [OF assms(1), of clk "split_words words" c1] g(3) obtain c2
      where c2: "rfold (ctx_collect assigner clk) (split_words words) c1 = Inr c2"
        "ctx_out c2 = map (\<lambda>sent. sent @ emitted_from assigner clk (ctx_num_fetched_records c1)
           (split_words words)) (ctx_out c1)"
        "ctx_num_records c2 = None" "ctx_finished c2 \<longleftrightarrow> ctx_finished c1"
      by (auto simp: task_inv_def)
    have nf: "\<not> ctx_finished c2" using g(3,5) MORE_AVAILABLE c2(4) by (simp add: task_inv_def)
    from poll_step [OF g(2) c2(3)] obtain split' c3 e3
      where c3: "ctx_poll_next_split poll c2 e1 = Inr (split', c3, e3)" "enum_inv e3"
        "ctx_out c3 = ctx_out c2" "ctx_num_records c3 = None" "ctx_current_split c3 = Some split'"
        "ctx_finished c3 \<longleftrightarrow> split' = END_OF_INPUT" "remaining e1 = pending c3 + remaining e3"
        "split' = END_OF_INPUT \<longrightarrow> remaining e3 = {#}"
      using nf by auto
    have "sent_on j c3 = sent_on j c + mset (split_words words)" if "j < n" for j
      using that g(3,4) assms(1) by (simp add: sent_on_def c3(3) c2(2) task_inv_def)
    moreover have "pending c1 = mset (split_words words)"
      using g(5) MORE_AVAILABLE by (simp add: pending_def)
    moreover have "task_inv n c3"
      using g(3) c2(2) c3(3-6) by (auto simp: task_inv_def)
    moreover have "word_fetch poll assigner clk c e = Inr (c3, e3)"
      using g(1) MORE_AVAILABLE c2(1) c3(1) by (simp add: word_fetch_def)
    ultimately show ?thesis
      using g(6,8) c3(2,6-8) by (auto simp: add.assoc add.left_commute)
  qed
qed

definition system_inv ::
    "nat \<Rightarrow> nat \<Rightarrow> string multiset \<Rightarrow> ('k, string, (string, nat) dict) src_ctx list \<times> 'e \<Rightarrow> bool" where
  "system_inv T n M st \<longleftrightarrow> (case st of (cs, e) \<Rightarrow>
     length cs = T \<and> list_all (task_inv n) cs \<and> enum_inv e \<and>
     (\<forall>j < n. sum_list (map (\<lambda>c. sent_on j c + pending c) cs) + remaining e = M) \<and>
     (list_ex ctx_finished cs \<longrightarrow> remaining e = {#}))"

lemma system_step:
  assumes "assigner_ok assigner" "i < T" "system_inv T n M st"
  shows "\<exists>st'. task_step poll assigner clk i st = Inr st' \<and> system_inv T n M st'"
proof -
  obtain cs e where st: "st = (cs, e)" by fastforce
  with assms have inv: "length cs = T" "list_all (task_inv n) cs" "enum_inv e"
    "\<forall>j < n. sum_list (map (\<lambda>c. sent_on j c + pending c) cs) + remaining e = M"
    "list_ex ctx_finished cs \<longrightarrow> remaining e = {#}" and i: "i < length cs"
    by (auto simp: system_inv_def)
  then have ti: "task_inv n (cs ! i)" by (simp add: list_all_length)
  from fetch_step [OF assms(1) inv(3) ti, of "clk i"] obtain c' e'
    where f: "word_fetch poll assigner (clk i) (cs ! i) e = Inr (c', e')" "enum_inv e'" "task_inv n c'"
      "\<forall>j < n. sent_on j c' + pending c' + remaining e' = sent_on j (cs ! i) + pending (cs ! i) + remaining e"
      "ctx_finished c' \<and> \<not> ctx_finished (cs ! i) \<longrightarrow> remaining e' = {#}"
      "remaining e = {#} \<longrightarrow> remaining e' = {#}"
    by blast
  have "sum_list (map (\<lambda>c. sent_on j c + pending c) (cs[i := c'])) + remaining e' = M" if "j < n" for j
  proof -
    from sum_list_map_update [OF i, of "\<lambda>c. sent_on j c + pending c"] obtain r
      where r: "\<And>y. sum_list (map (\<lambda>c. sent_on j c + pending c) (cs[i := y])) = sent_on j y + pending y + r"
      by blast
    have "sum_list (map (\<lambda>c. sent_on j c + pending c) cs) + remaining e = M"
      using inv(4) that by blast
    with r [of "cs ! i"] have "sent_on j (cs ! i) + pending (cs ! i) + r + remaining e = M"
      by simp
    moreover have "sent_on j c' + pending c' + remaining e' = sent_on j (cs ! i) + pending (cs ! i) + remaining e"
      using f(4) that by blast
    ultimately show ?thesis unfolding r by (metis add.assoc add.commute)
  qed
  moreover have "list_all (task_inv n) (cs[i := c'])"
    using inv(2) f(3) i by (simp add: list_all_length nth_list_update)
  moreover have "remaining e' = {#}" if "list_ex ctx_finished (cs[i := c'])"
  proof (cases "list_ex ctx_finished cs")
    case False
    then have "\<forall>k < length cs. \<not> ctx_finished (cs ! k)" by (auto simp: list_ex_length)
    with that i have "ctx_finished c'" by (auto simp: list_ex_length nth_list_update split: if_splits)
    with False i f(5) show ?thesis by (auto simp: list_ex_length)
  qed (use inv(5) f(6) in simp)
  ultimately show ?thesis
    using f(1,2) inv(1) by (auto simp: task_step_def st system_inv_def)
qed

lemma system_run:
  assumes "assigner_ok assigner" "list_all (\<lambda>i. i < T) sched" "system_inv T n M st"
  shows "\<exists>st'. rfold (task_step poll assigner clk) sched st = Inr st' \<and> system_inv T n M st'"
  by (rule rfold_total [where P = "system_inv T n M"])
    (use assms system_step [OF assms(1)] in \<open>simp_all add: list_all_iff\<close>)

lemma system_inv_init:
  "enum_inv e \<Longrightarrow>
   system_inv T n (remaining e) (replicate T (source_context_init n None), e)"
proof -
  have "sum_list (map (\<lambda>c. sent_on j c + pending c)
      (replicate T (source_context_init n None :: ('k, string, (string, nat) dict) src_ctx))) = {#}"
    if "j < n" for j
    using that by (induction T) (simp_all add: sent_on_def pending_def source_context_init_def)
  moreover assume "enum_inv e"
  ultimately show ?thesis
    by (auto simp: system_inv_def task_inv_def source_context_init_def list_all_iff list_ex_iff)
qed

text \<open>Nothing is lost or duplicated, and once every task has finished all is delivered.\<close>

lemma system_delivers:
  assumes "assigner_ok assigner" "list_all (\<lambda>i. i < T) sched" "enum_inv e"
  shows "\<exists>cs e'. rfold (task_step poll assigner clk) sched
      (replicate T (source_context_init n None), e) = Inr (cs, e') \<and>
    (\<forall>j < n. sum_list (map (sent_on j) cs) + sum_list (map pending cs) + remaining e' = remaining e) \<and>
    (0 < T \<and> list_all ctx_finished cs \<longrightarrow> (\<forall>j < n. sum_list (map (sent_on j) cs) = remaining e))"
proof -
  from system_run [OF assms(1,2) system_inv_init [OF assms(3)]] obtain cs e'
    where run: "rfold (task_step poll assigner clk) sched (replicate T (source_context_init n None), e) = Inr (cs, e')"
      and inv: "system_inv T n (remaining e) (cs, e')" by fastforce
  have cons: "sum_list (map (sent_on j) cs) + sum_list (map pending cs) + remaining e' = remaining e"
    if "j < n" for j
    using inv that by (simp add: system_inv_def sum_list_addf)
  have fin: "sum_list (map (sent_on j) cs) = remaining e"
    if "j < n" "0 < T" "list_all ctx_finished cs" for j
  proof -
    have "\<forall>c \<in> set cs. pending c = {#}"
      using that(3) inv by (auto simp: system_inv_def list_all_iff task_inv_def pending_def)
    then have "sum_list (map pending cs) = {#}" by (induction cs) simp_all
    moreover have "remaining e' = {#}"
      using that(2,3) inv by (cases cs) (auto simp: system_inv_def)
    ultimately show ?thesis using cons [OF that(1)] by simp
  qed
  show ?thesis using run cons fin by blast
qed

end

section \<open>The word-count enumerator provides the interface\<close>

definition left_words :: "word_counts \<Rightarrow> string list" where
  "left_words counts =
     concat (map (\<lambda>(w, n). replicate (case n of None \<Rightarrow> 0 | Some k \<Rightarrow> k) w) counts)"

definition counts_wf :: "word_counts \<Rightarrow> bool" where
  "counts_wf counts \<longleftrightarrow> wf_dict counts \<and> list_all (\<lambda>n. n \<noteq> None) (dict_values counts)"

lemma length_left_words [simp]: "length (left_words counts) = counts_left counts"
  by (induction counts) (auto simp: left_words_def counts_left_def)

lemma split_words_incr [simp]:
  "mset (split_words (word_incr w words)) = add_mset w (mset (split_words words))"
  by (induction words) (auto simp: word_incr_def split_words_def)

lemma length_split_words_incr [simp]:
  "length (split_words (word_incr w words)) = Suc (length (split_words words))"
  by (metis split_words_incr size_add_mset size_mset)

lemma left_words_take:
  "map_of counts w = Some (Some (Suc c)) \<Longrightarrow>
   mset (left_words counts) = add_mset w (mset (left_words (AList.update w (Some c) counts)))"
  by (induction counts) (auto simp: left_words_def)

lemma counts_wf_update: "counts_wf counts \<Longrightarrow> counts_wf (AList.update w (Some c) counts)"
proof -
  assume wf: "counts_wf counts"
  have "None \<notin> snd ` set (AList.update w (Some c) counts)"
    using update_values_subset [of w "Some c" counts] wf
    by (fastforce simp: counts_wf_def list_all_iff dict_values_def)
  then have "\<forall>n \<in> snd ` set (AList.update w (Some c) counts). n \<noteq> None" by metis
  with wf show ?thesis by (simp add: counts_wf_def list_all_iff dict_values_def)
qed

lemma all_done_left_words: "counts_wf counts \<Longrightarrow> all_done counts \<longleftrightarrow> left_words counts = []"
proof -
  assume wf: "counts_wf counts"
  have "map_of counts w = Some n" if "(w, n) \<in> set counts" for w n
    using wf that by (auto simp: counts_wf_def wf_dict_def)
  then have "all_done counts \<longleftrightarrow> (\<forall>(w, n) \<in> set counts. n = Some 0)"
    by (fastforce simp: all_done_def list_all_iff dict_keys_def)
  also have "\<dots> \<longleftrightarrow> left_words counts = []"
    using wf by (fastforce simp: left_words_def counts_wf_def list_all_iff dict_values_def)
  finally show ?thesis .
qed

lemma counts_wf_lookup:
  assumes "counts_wf counts" "\<not> all_done counts"
  shows "\<exists>c. map_of counts (dict_keys counts ! (index mod length counts)) = Some (Some c)"
proof -
  let ?i = "index mod length counts"
  have "counts \<noteq> []" using assms(2) by (auto simp: all_done_def dict_keys_def)
  then have i: "?i < length counts" by simp
  then obtain w n where p: "counts ! ?i = (w, n)" by fastforce
  with i have "(w, n) \<in> set counts" by (metis nth_mem)
  with assms(1) have "map_of counts w = Some n" "n \<noteq> None"
    by (auto simp: counts_wf_def wf_dict_def list_all_iff dict_values_def)
  with p i show ?thesis by (auto simp: dict_keys_def)
qed

text \<open>The polling loop hands out at most the split size, and only what was left.\<close>

lemma poll_loop_spec:
  "counts_wf counts \<Longrightarrow> num_msgs \<le> limit \<Longrightarrow>
   \<exists>words' counts'. poll_loop limit words num_msgs index counts = Inr (words', counts') \<and>
     counts_wf counts' \<and>
     mset (split_words words') + mset (left_words counts') =
       mset (split_words words) + mset (left_words counts) \<and>
     length (split_words words') =
       length (split_words words) + min (limit - num_msgs) (counts_left counts)"
proof (induction limit words num_msgs index counts rule: poll_loop.induct)
  case (1 limit words num_msgs index counts)
  show ?case
  proof (cases "num_msgs = limit \<or> all_done counts")
    case True
    moreover have "all_done counts \<Longrightarrow> counts_left counts = 0"
      using all_done_left_words [OF "1.prems"(1)] length_left_words [of counts] by simp
    ultimately show ?thesis
      using "1.prems" by (subst poll_loop.simps) auto
  next
    case False
    let ?i = "index mod length counts" let ?w = "dict_keys counts ! ?i"
    from False counts_wf_lookup [OF "1.prems"(1), of index] obtain c
      where c: "map_of counts ?w = Some (Some c)" by blast
    show ?thesis
    proof (cases c)
      case 0
      with "1.IH"(1) [OF False refl refl c refl] c False "1.prems" show ?thesis
        by (subst poll_loop.simps) (simp add: Let_def)
    next
      case (Suc k)
      let ?cs = "AList.update ?w (Some k) counts"
      have "counts_wf ?cs" using "1.prems"(1) by (rule counts_wf_update)
      moreover have "num_msgs + 1 \<le> limit" using False "1.prems"(2) by simp
      ultimately obtain words' counts' where IH:
        "poll_loop limit (word_incr ?w words) (num_msgs + 1) (?i + 1) ?cs = Inr (words', counts')"
        "counts_wf counts'"
        "mset (split_words words') + mset (left_words counts') =
           mset (split_words (word_incr ?w words)) + mset (left_words ?cs)"
        "length (split_words words') =
           length (split_words (word_incr ?w words)) + min (limit - (num_msgs + 1)) (counts_left ?cs)"
        using "1.IH"(2) [OF False refl refl c refl] Suc by auto
      have m: "limit - num_msgs = Suc (limit - (num_msgs + 1))"
        using False "1.prems"(2) by linarith
      have "counts_left counts = Suc (counts_left ?cs)"
        using counts_left_update [OF c [unfolded Suc], of k] by simp
      with IH c Suc False left_words_take [OF c [unfolded Suc]] show ?thesis
        by (subst poll_loop.simps) (simp add: Let_def m)
    qed
  qed
qed

definition word_enum_inv :: "word_enum \<Rightarrow> bool" where
  "word_enum_inv e \<longleftrightarrow> counts_wf (we_counts e)"

definition words_remaining :: "word_enum \<Rightarrow> string multiset" where
  "words_remaining e = mset (left_words (we_counts e))"

lemma word_poll_law:
  assumes "word_enum_inv e"
  shows "(word_poll e = Inr (END_OF_INPUT, e) \<and> words_remaining e = {#}) \<or>
    (\<exists>words e'. word_poll e = Inr (MORE_AVAILABLE words, e') \<and> word_enum_inv e' \<and>
      words_remaining e = mset (split_words words) + words_remaining e')"
proof (cases "all_done (we_counts e)")
  case True
  with assms all_done_left_words [of "we_counts e"] show ?thesis
    by (simp add: word_poll_def word_enum_inv_def words_remaining_def)
next
  case False
  with assms poll_loop_spec [of "we_counts e" 0 "we_num_msgs_per_split e" "[]" 0] show ?thesis
    by (auto simp: word_poll_def word_enum_inv_def words_remaining_def split_words_def)
qed

interpretation words: split_enumerator word_poll word_enum_inv words_remaining
  by unfold_locales (rule word_poll_law)

text \<open>
  A word-count split holds exactly \<open>num_msgs_per_split\<close> words, or all that remain when
  there are fewer; the words of a split and those still remaining are together the words that
  remained before, and the input ends exactly when no word remains.
\<close>

theorem word_split_size:
  assumes "word_enum_inv e"
  shows "(word_poll e = Inr (END_OF_INPUT, e) \<longleftrightarrow> words_remaining e = {#}) \<and>
    (words_remaining e \<noteq> {#} \<longrightarrow> (\<exists>words e'. word_poll e = Inr (MORE_AVAILABLE words, e') \<and>
      words_remaining e = mset (split_words words) + words_remaining e' \<and>
      length (split_words words) = min (we_num_msgs_per_split e) (size (words_remaining e)) \<and>
      we_num_msgs_per_split e' = we_num_msgs_per_split e))"
proof (cases "all_done (we_counts e)")
  case True
  with assms all_done_left_words [of "we_counts e"] show ?thesis
    by (simp add: word_poll_def word_enum_inv_def words_remaining_def)
next
  case False
  with assms poll_loop_spec [of "we_counts e" 0 "we_num_msgs_per_split e" "[]" 0]
    all_done_left_words [of "we_counts e"] show ?thesis
    by (auto simp: word_poll_def word_enum_inv_def words_remaining_def split_words_def)
qed

lemma word_enum_init_inv: "word_enum_inv (word_enum_init (Some n) k ws)"
proof -
  have "counts_wf counts \<Longrightarrow> counts_wf (fold (\<lambda>w. AList.update w (Some n)) ws counts)" for counts
    by (induction ws arbitrary: counts) (simp_all add: counts_wf_update)
  then show ?thesis by (simp add: word_enum_inv_def word_enum_init_def counts_wf_def dict_values_def)
qed

theorem word_split_size_witness:
  "(word_poll (word_enum_init (Some 2) 3 [''a'', ''b'']) =
      Inr (END_OF_INPUT, word_enum_init (Some 2) 3 [''a'', ''b'']) \<longleftrightarrow>
    words_remaining (word_enum_init (Some 2) 3 [''a'', ''b'']) = {#}) \<and>
   (\<exists>words e'. word_poll (word_enum_init (Some 2) 3 [''a'', ''b'']) = Inr (MORE_AVAILABLE words, e') \<and>
      length (split_words words) = 3)"
proof -
  let ?e = "word_enum_init (Some 2) 3 [''a'', ''b'']"
  have r: "words_remaining ?e = mset [''a'', ''a'', ''b'', ''b'']" "we_num_msgs_per_split ?e = 3"
    by (simp_all add: words_remaining_def left_words_def word_enum_init_def numeral_2_eq_2)
  from word_split_size [OF word_enum_init_inv, of 2 3 "[''a'', ''b'']"] show ?thesis
    unfolding r by auto
qed



end
