(* ===== verification/Job_Submission.thy ===== *)
theory Job_Submission
  imports Stream_Tasks Workers Sources
begin

text \<open>
  From a program of the streaming API to a running job: \<open>StreamingContext.submit\<close>
  (\<open>streaming/api/context/streaming_context.py\<close>), \<open>JobMaster.submit_job\<close> and the split manager
  of the master (\<open>runtime/master/job_master.py\<close>), and \<open>JobScheduler.schedule_job\<close>
  (\<open>runtime/master/scheduler/job_scheduler.py\<close>). What Ray answers is an argument: \<open>host\<close> gives the
  node and address a worker reports when it was created with an affinity to a node, \<open>start_answer\<close> the error
  a started actor returns.
\<close>

section \<open>The master\<close>

record 'e job_master =
  jm_nodes :: "node list"
  jm_node_to_operator :: "(string, nat) dict"
  jm_reserved_node_ports :: "(string, nat \<times> string) dict"
  jm_transfer_actors :: "(string, string) dict"
  jm_sources_finished :: sources_finished
  jm_split_manager :: "(nat, 'e) dict option"
  jm_stats_workers :: "string list"

text \<open>A new master knows the nodes that are alive.\<close>

definition jm_init :: "ray_node list \<Rightarrow> 'e job_master" where
  "jm_init all_nodes =
     \<lparr>jm_nodes = fetch_nodes all_nodes, jm_node_to_operator = [], jm_reserved_node_ports = [], jm_transfer_actors = [],
      jm_sources_finished = [], jm_split_manager = None, jm_stats_workers = []\<rparr>"

record job_run =
  jr_workers :: "(string \<times> string) list"
  jr_channels :: "(string \<times> channel) list"

section \<open>Source splits\<close>

text \<open>The enumerator of a source vertex is the one of its source operator, the head of its chain.\<close>

fun source_enumerator :: "('o \<Rightarrow> 'e option) \<Rightarrow> 'o stream_op \<Rightarrow> 'e option result" where
  "source_enumerator enum_of (Op _ SOURCE_OP f) = Inr (enum_of f)"
| "source_enumerator enum_of (ChainedOp (Op _ SOURCE_OP f # _)) = Inr (enum_of f)"
| "source_enumerator enum_of _ = Inl AssertionError"

definition add_enumerator ::
    "('o \<Rightarrow> 'e option) \<Rightarrow> 'o job_vertex \<Rightarrow> (nat, 'e) dict \<Rightarrow> (nat, 'e) dict result" where
  "add_enumerator enum_of sv d =
     rbind (source_enumerator enum_of (jv_stream_operator sv)) (\<lambda>en.
       case en of None \<Rightarrow> Inr d | Some e \<Rightarrow> Inr (AList.update (jv_vertex_id sv) e d))"

definition init_source_split_manager ::
    "('o \<Rightarrow> 'e option) \<Rightarrow> ('o, 'k, 'v) job_graph \<Rightarrow> (nat, 'e) dict option \<Rightarrow> (nat, 'e) dict option result" where
  "init_source_split_manager enum_of jg manager =
     rbind (rfold (add_enumerator enum_of) (get_source_vertices jg) []) (\<lambda>d.
       Inr (if length d \<noteq> 0 then Some d else manager))"

definition poll_next_source_split ::
    "('e \<Rightarrow> ('d source_split \<times> 'e) result) \<Rightarrow> nat \<Rightarrow> 'e job_master \<Rightarrow> ('d source_split \<times> 'e job_master) result" where
  "poll_next_source_split poll operator_id m =
     (case jm_split_manager m of
        None \<Rightarrow> Inl RuntimeError
      | Some d \<Rightarrow> rbind (split_manager_poll poll operator_id d) (\<lambda>(split, d').
          Inr (split, m\<lparr>jm_split_manager := Some d'\<rparr>)))"

section \<open>Submission\<close>

text \<open>
  \<open>schedule_job\<close>: place and create the workers, connect them by channels, start the transfer actors and the
  workers.
\<close>

definition schedule_job ::
    "(string \<Rightarrow> string \<Rightarrow> worker_node_info) \<Rightarrow> (string \<Rightarrow> string option) \<Rightarrow> string \<Rightarrow> ('o, 'k, 'v) exec_graph \<Rightarrow>
     'e job_master \<Rightarrow> (job_run \<times> 'e job_master) result" where
  "schedule_job host start_answer job_name g m =
     rbind (operator_first_assign (jm_node_to_operator m) (jm_nodes m) g) (\<lambda>(owner, nodes, res).
     rbind (create_workers (map (\<lambda>(v, i). (v, node_id (nodes ! i))) res) g) (\<lambda>(workers, registered).
     rbind (connect_and_init_workers job_name (map (\<lambda>(v, n). (v, host v n)) workers)
              (jm_reserved_node_ports m) (jm_transfer_actors m) g) (\<lambda>(c, actors).
     rbind (start_workers (map (\<lambda>x. (x, start_answer x)) (map snd actors @ map fst (eg_by_id g)))) (\<lambda>_.
       Inr (\<lparr>jr_workers = workers, jr_channels = cn_channels c\<rparr>,
            m\<lparr>jm_nodes := nodes, jm_node_to_operator := owner, jm_reserved_node_ports := cn_reserved_node_ports c,
              jm_transfer_actors := actors, jm_stats_workers := jm_stats_workers m @ registered\<rparr>)))))"

definition submit_job ::
    "(string \<Rightarrow> rat result) \<Rightarrow> resource_config \<Rightarrow> ('o \<Rightarrow> 'e option) \<Rightarrow> (string \<Rightarrow> string \<Rightarrow> worker_node_info) \<Rightarrow>
     (string \<Rightarrow> string option) \<Rightarrow> string \<Rightarrow> ('o, 'k, 'v) job_graph \<Rightarrow> 'e job_master \<Rightarrow> (job_run \<times> 'e job_master) result" where
  "submit_job to_float rc enum_of host start_answer job_name jg m =
     rbind (from_job_graph jg) (\<lambda>g0.
     rbind (set_resources to_float rc g0) (\<lambda>g.
     rbind (init_source_split_manager enum_of jg (jm_split_manager m)) (\<lambda>splits.
       schedule_job host start_answer job_name g
         (m\<lparr>jm_sources_finished := fold (\<lambda>v d. AList.update (ev_id v) False d) (eg_source_vertices g) (jm_sources_finished m),
            jm_split_manager := splits\<rparr>))))"

text \<open>What \<open>StreamingContext.submit\<close> hands to the master.\<close>

definition compile_program :: "nat \<Rightarrow> ('o, 'k, 'v) streaming_context \<Rightarrow> ('o, 'k, 'v) job_graph result" where
  "compile_program depth sc = rbind (build_graph depth sc) (optimize depth)"

section \<open>The optimised graph can be expanded\<close>

text \<open>Only the last operator of a chain has edges that leave the chain.\<close>

lemma tail_edge_from_last:
  assumes wf: "graph_wf g" and c: "chain_ok g h c" and e: "e \<in> set (jg_job_edges g)" "\<not> chain_edge g e"
    and src: "je_source_vertex_id e \<in> jv_vertex_id ` set c"
  shows "je_source_vertex_id e = jv_vertex_id (last c)"
proof (rule ccontr)
  assume ne: "je_source_vertex_id e \<noteq> jv_vertex_id (last c)"
  from src obtain i where i: "i < length c" "jv_vertex_id (c ! i) = je_source_vertex_id e" by (auto simp: in_set_conv_nth)
  have "c \<noteq> []" using c by (simp add: chain_ok_def)
  then have "i \<noteq> length c - 1" using ne i(2) by (auto simp: last_conv_nth)
  with i(1) have "Suc i < length c" by linarith
  with c have "linked g (c ! i) (c ! Suc i)" by (simp add: chain_ok_def successively_conv_nth)
  then obtain f where f: "f \<in> set (jg_job_edges g)" "chain_edge g f" "je_source_vertex_id f = je_source_vertex_id e"
    using i(2) by (auto simp: linked_def epair_def)
  from chain_edge_unique(1) [OF wf f(2,1) e(1)] f e(2) show False by simp
qed

lemma distinct_tail_pairs:
  assumes wf: "graph_wf g" and t: "tails st = kept g (jg_job_edges g)"
  shows "distinct (map epair (concat (dict_values (os_tail_edges_map st))))"
proof -
  have "mset (map epair (concat (dict_values (os_tail_edges_map st)))) = image_mset epair (tails st)"
    by (simp add: tails_def)
  also have "\<dots> = mset (map epair (filter (\<lambda>e. \<not> chain_edge g e) (jg_job_edges g)))"
    unfolding t by (simp add: kept_def multiset.map_comp o_def epair_def [abs_def])
  finally have "distinct (map epair (concat (dict_values (os_tail_edges_map st)))) =
      distinct (map epair (filter (\<lambda>e. \<not> chain_edge g e) (jg_job_edges g)))"
    by (rule mset_eq_imp_distinct_iff)
  with wf show ?thesis by (simp add: graph_wf_def distinct_map_filter)
qed

lemma distinct_reset_edges:
  assumes wf: "graph_wf g" and ok: "chains_ok g st" and t: "tails st = kept g (jg_job_edges g)"
  shows "distinct (map epair (reset_edges (os_tail_edges_map st)))"
proof -
  let ?d = "os_tail_edges_map st"
  let ?es = "concat (map (\<lambda>(h, ts). map (reset_edge h) ts) ?d)"
  have last: "\<exists>u. \<forall>x \<in> set ts. je_source_vertex_id x = u" if "(h, ts) \<in> set ?d" for h ts
  proof -
    from that ok have ts: "map_of ?d h = Some ts" by (simp add: chains_ok_def wf_dict_def)
    show ?thesis
    proof (cases "ts = []")
      case False
      then obtain x0 where "x0 \<in> set ts" by (cases ts) auto
      with ts ok obtain c where c: "map_of (os_chain_set st) h = Some c" unfolding chains_ok_def by blast
      then have ck: "chain_ok g h c" using ok by (simp add: chains_ok_def)
      have "je_source_vertex_id x = jv_vertex_id (last c)" if x: "x \<in> set ts" for x
      proof -
        have "x \<in># tails st" using x \<open>(h, ts) \<in> set ?d\<close> by (force simp: tails_def dict_values_def)
        then obtain e where e: "e \<in> set (jg_job_edges g)" "\<not> chain_edge g e" "je_source_vertex_id x = je_source_vertex_id e"
          by (auto simp: t kept_def)
        from ok ts x c have "je_source_vertex_id x \<in> jv_vertex_id ` set c" unfolding chains_ok_def by fastforce
        with tail_edge_from_last [OF wf ck e(1,2)] e(3) show ?thesis by simp
      qed
      then show ?thesis by blast
    qed simp
  qed
  have "distinct (map epair (concat (map (\<lambda>(h, ts). map (reset_edge h) ts) d)))"
    if "set d \<subseteq> set ?d" "distinct (map fst d)" "distinct (map epair (concat (dict_values d)))" for d
    using that
  proof (induction d)
    case (Cons a d)
    obtain h ts where a: "a = (h, ts)" by (cases a)
    from last [of h ts] Cons.prems(1) a obtain u where u: "\<forall>x \<in> set ts. je_source_vertex_id x = u" by auto
    from Cons.prems(3) have "distinct (map epair ts)" by (simp add: a dict_values_def)
    with u have "distinct (map (epair \<circ> reset_edge h) ts)"
      by (auto simp: distinct_map inj_on_def epair_def)
    moreover have "set (map (epair \<circ> reset_edge h) ts) \<inter>
        set (map epair (concat (map (\<lambda>(h, ts). map (reset_edge h) ts) d))) = {}"
      using Cons.prems(2) by (force simp: a epair_def)
    moreover have "distinct (map epair (concat (map (\<lambda>(h, ts). map (reset_edge h) ts) d)))"
      using Cons.prems by (intro Cons.IH) (auto simp: dict_values_def)
    ultimately show ?case by (simp only: a list.map prod.case concat.simps map_append map_map distinct_append simp_thms)
  qed simp
  from this [of ?d] have "distinct (map epair ?es)"
    using ok distinct_tail_pairs [OF wf t] by (simp add: chains_ok_def wf_dict_def)
  moreover have "mset (map epair (reset_edges ?d)) = mset (map epair ?es)"
  proof -
    have "mset (map epair (filter (\<lambda>e. \<not> je_is_join_right_edge e) es @ filter je_is_join_right_edge es)) = mset (map epair es)"
      for es :: "('b, 'c) job_edge list" by (induction es) auto
    from this [of ?es] show ?thesis by (simp only: reset_edges_def Let_def)
  qed
  ultimately show ?thesis using mset_eq_imp_distinct_iff by blast
qed

lemma list_all2_left: "list_all2 P xs ys \<Longrightarrow> y \<in> set ys \<Longrightarrow> \<exists>x \<in> set xs. P x y"
  by (induction rule: list_all2_induct) auto

lemma list_all2_right: "list_all2 P xs ys \<Longrightarrow> x \<in> set xs \<Longrightarrow> \<exists>y \<in> set ys. P x y"
  by (induction rule: list_all2_induct) auto

definition merged_from :: "'o job_vertex list \<Rightarrow> 'o job_vertex \<Rightarrow> bool" where
  "merged_from c v \<longleftrightarrow> jv_vertex_id v = jv_vertex_id (hd c) \<and> jv_parallelism v = jv_parallelism (hd c) \<and>
     jv_vertex_type v = jv_vertex_type (hd c) \<and>
     jv_stream_operator v = (if length c = 1 then jv_stream_operator (hd c) else ChainedOp (map jv_stream_operator c))"

lemma merge_chains:
  assumes "\<And>c. c \<in> set cs \<Longrightarrow> c \<noteq> []" "rmap merge_chain cs = Inr vs"
  shows "list_all2 merged_from cs vs"
  using assms
proof (induction cs arbitrary: vs)
  case (Cons c cs)
  from merge_chain_ok [of c] Cons.prems(1) obtain v where v: "merge_chain c = Inr v" "merged_from c v"
    by (auto simp: merged_from_def)
  from Cons.prems(2) v(1) obtain vs' where vs: "vs = v # vs'" "rmap merge_chain cs = Inr vs'" by (auto split: sum.splits)
  with Cons.IH [of vs'] Cons.prems(1) v(2) show ?case by auto
qed simp

lemma source_head:
  assumes wf: "graph_wf g" and c: "chain_ok g h c" "v \<in> set c" and "jv_vertex_type v = SOURCE_V"
  shows "v = hd c"
proof (rule ccontr)
  assume "v \<noteq> hd c"
  with c(2) have "v \<in> set (tl c)" by (cases c) auto
  then obtain i where i: "Suc i < length c" "c ! Suc i = v"
    by (metis in_set_conv_nth length_tl nth_tl less_diff_conv Suc_eq_plus1)
  with c(1) have "linked g (c ! i) v" by (auto simp: chain_ok_def successively_conv_nth)
  then obtain e where "e \<in> set (get_vertex_input_edges g (jv_vertex_id v))"
    by (auto simp: linked_def epair_def get_vertex_input_edges_def)
  with assms(4) wf c show False by (force simp: graph_wf_def chain_ok_def)
qed

text \<open>
  The optimised graph: one vertex per chain, the sources of the job graph at the head of theirs, and edges between
  different pairs of chains.
\<close>

lemma optimize_expandable:
  fixes g :: "('o, 'k, 'v) job_graph"
  assumes wf: "graph_wf g" and depth: "card (vids g) \<le> depth"
    and ne: "jg_job_vertices g \<noteq> []" and pos: "\<forall>v \<in> set (jg_job_vertices g). 0 < jv_parallelism v"
  shows "\<exists>g'. optimize depth g = Inr g' \<and> graph_expandable g' \<and>
    (\<forall>v' \<in> set (get_source_vertices g'). \<exists>v \<in> set (get_source_vertices g).
       jv_vertex_id v' = jv_vertex_id v \<and> jv_parallelism v' = jv_parallelism v \<and>
       (jv_stream_operator v' = jv_stream_operator v \<or>
        (\<exists>ops. jv_stream_operator v' = ChainedOp (jv_stream_operator v # ops)))) \<and>
    jv_vertex_id ` set (get_source_vertices g') = jv_vertex_id ` set (get_source_vertices g)"
proof -
  from division_result [OF wf depth] obtain st where
    st: "rfold (start_source depth g) (get_source_vertices g) opt_init = Inr st" "chains_ok g st"
      "added st = mset (map jv_vertex_id (jg_job_vertices g))" "tails st = kept g (jg_job_edges g)" by blast
  let ?chains = "dict_values (os_chain_set st)" and ?d = "os_tail_edges_map st"
  from optimize_of_division [OF st(1,2)] obtain vs where vs: "rmap merge_chain ?chains = Inr vs"
    and opt: "optimize depth g = Inr \<lparr>jg_job_vertices = vs, jg_job_edges = reset_edges ?d\<rparr>" by blast
  let ?g' = "\<lparr>jg_job_vertices = vs, jg_job_edges = reset_edges ?d\<rparr> :: ('o, 'k, 'v) job_graph"
  have chain: "\<exists>h. chain_ok g h c" if "c \<in> set ?chains" for c using chains_ok_value [OF st(2) that] by blast
  then have cne: "c \<noteq> []" if "c \<in> set ?chains" for c using that by (auto simp: chain_ok_def)
  note merged = merge_chains [OF cne vs]
  have heads: "map jv_vertex_id vs = map fst (os_chain_set st)"
  proof -
    have "map jv_vertex_id vs = map (jv_vertex_id \<circ> hd) ?chains"
      using merged by (induction rule: list_all2_induct) (auto simp: merged_from_def)
    moreover have "jv_vertex_id (hd c) = h" if "(h, c) \<in> set (os_chain_set st)" for h c
    proof -
      have "map_of (os_chain_set st) h = Some c" using that st(2) by (simp add: chains_ok_def wf_dict_def)
      with chains_ok_lookup [OF st(2)] show ?thesis by blast
    qed
    then have "map (jv_vertex_id \<circ> hd) ?chains = map fst (os_chain_set st)" by (auto simp: dict_values_def)
    ultimately show ?thesis by simp
  qed
  have hd_in: "hd c \<in> set (jg_job_vertices g)" if "c \<in> set ?chains" for c
    using chain [OF that] cne [OF that] by (auto simp: chain_ok_def)
  have "distinct (map jv_vertex_id vs)" using heads st(2) by (simp add: chains_ok_def wf_dict_def)
  moreover have "vs \<noteq> []"
  proof
    assume "vs = []"
    with heads have "os_chain_set st = []" by simp
    with st(3) ne show False by (simp add: added_def dict_values_def)
  qed
  moreover have "\<forall>v \<in> set vs. 0 < jv_parallelism v" using list_all2_left [OF merged] hd_in pos by (fastforce simp: merged_from_def)
  moreover have "je_source_vertex_id e \<in> vids ?g' \<and> je_target_vertex_id e \<in> vids ?g'" if "e \<in> set (reset_edges ?d)" for e
  proof -
    from reset_edges_elem [OF that] obtain h ts t
      where t: "(h, ts) \<in> set ?d" "t \<in> set ts" "e = reset_edge h t" by blast
    then have "map_of ?d h = Some ts" using st(2) by (simp add: chains_ok_def wf_dict_def)
    with st(2) t(2) obtain c c' where "map_of (os_chain_set st) h = Some c"
      "map_of (os_chain_set st) (je_target_vertex_id t) = Some c'" unfolding chains_ok_def by blast
    then have "h \<in> set (map jv_vertex_id vs)" "je_target_vertex_id t \<in> set (map jv_vertex_id vs)"
      unfolding heads set_map by (metis fst_conv imageI map_of_SomeD)+
    with t(3) show ?thesis by (auto simp: vids_def)
  qed
  ultimately have "graph_expandable ?g'"
    using distinct_reset_edges [OF wf st(2,4)] by (simp add: graph_expandable_def)
  moreover have "\<exists>v \<in> set (get_source_vertices g).
       jv_vertex_id v' = jv_vertex_id v \<and> jv_parallelism v' = jv_parallelism v \<and>
       (jv_stream_operator v' = jv_stream_operator v \<or>
        (\<exists>ops. jv_stream_operator v' = ChainedOp (jv_stream_operator v # ops)))"
    if "v' \<in> set (get_source_vertices ?g')" for v'
  proof -
    from that have v': "v' \<in> set vs" "jv_vertex_type v' = SOURCE_V" by (simp_all add: get_source_vertices_def)
    from list_all2_left [OF merged v'(1)] obtain c where c: "c \<in> set ?chains" "merged_from c v'" by blast
    have "map jv_stream_operator c = jv_stream_operator (hd c) # map jv_stream_operator (tl c)" using cne [OF c(1)] by (cases c) auto
    with c(2) v'(2) hd_in [OF c(1)] show ?thesis
      by (intro bexI [of _ "hd c"]) (auto simp: get_source_vertices_def merged_from_def)
  qed
  moreover have "jv_vertex_id v \<in> jv_vertex_id ` set (get_source_vertices ?g')" if "v \<in> set (get_source_vertices g)" for v
  proof -
    from that have v: "v \<in> set (jg_job_vertices g)" "jv_vertex_type v = SOURCE_V" by (simp_all add: get_source_vertices_def)
    then have "jv_vertex_id v \<in># added st" by (simp add: st(3))
    then obtain c u where c: "c \<in> set ?chains" "u \<in> set c" "jv_vertex_id u = jv_vertex_id v" by (auto simp: added_def)
    from chain [OF c(1)] obtain h where h: "chain_ok g h c" by blast
    from h c(2) have "u \<in> set (jg_job_vertices g)" by (auto simp: chain_ok_def)
    with v c(3) wf have u: "u = v" by (auto simp: graph_wf_def distinct_map inj_on_def)
    have "u = hd c" using source_head [OF wf h c(2)] v(2) u by simp
    with list_all2_right [OF merged c(1)] u v(2) show ?thesis by (auto simp: get_source_vertices_def image_iff merged_from_def)
  qed
  ultimately show ?thesis using opt by (intro exI [of _ ?g']) blast
qed

section \<open>From the program to the job graph\<close>

lemma program_operators:
  "stream_program sc \<Longrightarrow> map_of (sc_streams sc) i = Some st \<Longrightarrow> \<exists>c t f. st_operator st = Op c t f"
proof (induction arbitrary: i st rule: stream_program.induct)
  case start
  then show ?case by (simp add: sc_init_def)
next
  case (parallelism sc par s j sc')
  then show ?case by (auto simp: set_parallelism_def split: if_splits)
qed (auto simp: api_source_def api_transform_def api_keyed_transform_def api_key_by_def api_join_def api_sink_def
    new_stream_def generate_id_def Let_def split: if_splits option.splits)

definition program_source :: "('o, 'k, 'v) streaming_context \<Rightarrow> nat \<Rightarrow> ('o, 'k, 'v) stream_obj \<Rightarrow> bool" where
  "program_source sc i st \<longleftrightarrow> (\<exists>s \<in> set (sc_stream_sinks sc). i \<in> needed (sc_streams sc) s) \<and>
     map_of (sc_streams sc) i = Some st \<and> st_kind st = STREAM_SOURCE"

definition source_head_op :: "'o stream_op \<Rightarrow> 'o stream_op \<Rightarrow> bool" where
  "source_head_op op head_op \<longleftrightarrow> op = head_op \<or> (\<exists>ops. op = ChainedOp (head_op # ops))"

lemma compile_program_ok:
  fixes sc :: "('o, 'k, 'v) streaming_context"
  assumes prog: "stream_program sc" "sc_id_generator sc < depth" and sinks: "sc_stream_sinks sc \<noteq> []"
    and pos: "\<forall>i st. map_of (sc_streams sc) i = Some st \<longrightarrow> 0 < st_parallelism st"
  shows "\<exists>jg. compile_program depth sc = Inr jg \<and> graph_expandable jg \<and>
    (\<forall>v \<in> set (get_source_vertices jg). \<exists>st. program_source sc (jv_vertex_id v) st \<and>
       jv_parallelism v = st_parallelism st \<and> source_head_op (jv_stream_operator v) (st_operator st)) \<and>
    (\<forall>i st. program_source sc i st \<longrightarrow> i \<in> jv_vertex_id ` set (get_source_vertices jg))"
proof -
  from build_graph_spec [OF prog] obtain g where g: "build_graph depth sc = Inr g" "graph_of (sc_streams sc) g"
    "vids g = (\<Union>i \<in> set (sc_stream_sinks sc). needed (sc_streams sc) i)" by blast
  have vertex: "\<exists>st. map_of (sc_streams sc) (jv_vertex_id v) = Some st \<and> v = vertex_of (jv_vertex_id v) st"
    if "v \<in> set (jg_job_vertices g)" for v using g(2) that unfolding graph_of_def by blast
  have "jg_job_vertices g \<noteq> []"
  proof
    assume "jg_job_vertices g = []"
    with g(3) have "(\<Union>i \<in> set (sc_stream_sinks sc). needed (sc_streams sc) i) = {}" by (simp add: vids_def)
    moreover have "i \<in> needed (sc_streams sc) i" for i by (simp add: needed_def)
    ultimately show False using sinks by (cases "sc_stream_sinks sc") auto
  qed
  moreover have "0 < jv_parallelism v" if "v \<in> set (jg_job_vertices g)" for v
  proof -
    from vertex [OF that] obtain st where st: "map_of (sc_streams sc) (jv_vertex_id v) = Some st" "v = vertex_of (jv_vertex_id v) st" by blast
    from st(1) pos have "0 < st_parallelism st" by blast
    then show ?thesis by (subst st(2)) (simp add: vertex_of_def)
  qed
  ultimately obtain jg where jg: "optimize depth g = Inr jg" "graph_expandable jg"
    "\<forall>v' \<in> set (get_source_vertices jg). \<exists>v \<in> set (get_source_vertices g).
       jv_vertex_id v' = jv_vertex_id v \<and> jv_parallelism v' = jv_parallelism v \<and>
       (jv_stream_operator v' = jv_stream_operator v \<or>
        (\<exists>ops. jv_stream_operator v' = ChainedOp (jv_stream_operator v # ops)))"
    "jv_vertex_id ` set (get_source_vertices jg) = jv_vertex_id ` set (get_source_vertices g)"
    using optimize_expandable [OF build_graph_wf [OF prog g(1)] build_graph_vids [OF prog g(1)]] by blast
  have src: "\<exists>st. program_source sc (jv_vertex_id v) st \<and> v = vertex_of (jv_vertex_id v) st"
    if "v \<in> set (get_source_vertices g)" for v
  proof -
    from that have v: "v \<in> set (jg_job_vertices g)" "jv_vertex_type v = SOURCE_V" by (simp_all add: get_source_vertices_def)
    from vertex [OF v(1)] obtain st where st: "map_of (sc_streams sc) (jv_vertex_id v) = Some st" "v = vertex_of (jv_vertex_id v) st" by blast
    have "jv_vertex_id v \<in> vids g" using v(1) by (simp add: vids_def)
    moreover have "st_kind st = STREAM_SOURCE" using v(2) arg_cong [OF st(2), of jv_vertex_type] by (simp add: vertex_of_def)
    ultimately show ?thesis using st g(3) by (auto simp: program_source_def)
  qed
  have "\<exists>st. program_source sc (jv_vertex_id v') st \<and> jv_parallelism v' = st_parallelism st \<and>
      source_head_op (jv_stream_operator v') (st_operator st)" if "v' \<in> set (get_source_vertices jg)" for v'
  proof -
    from jg(3) that obtain v where v: "v \<in> set (get_source_vertices g)" "jv_vertex_id v' = jv_vertex_id v"
      "jv_parallelism v' = jv_parallelism v" "source_head_op (jv_stream_operator v') (jv_stream_operator v)"
      unfolding source_head_op_def by blast
    from src [OF v(1)] obtain st where st: "program_source sc (jv_vertex_id v) st" "v = vertex_of (jv_vertex_id v) st" by blast
    have "jv_parallelism v = st_parallelism st" "jv_stream_operator v = st_operator st"
      using arg_cong [OF st(2), of jv_parallelism] arg_cong [OF st(2), of jv_stream_operator] by (simp_all add: vertex_of_def)
    with v st(1) show ?thesis by auto
  qed
  moreover have "i \<in> jv_vertex_id ` set (get_source_vertices jg)" if i: "program_source sc i st" for i st
  proof -
    have "i \<in> vids g" using i g(3) by (auto simp: program_source_def)
    then obtain v where v: "v \<in> set (jg_job_vertices g)" "jv_vertex_id v = i" by (auto simp: vids_def)
    with vertex [OF v(1)] i have "v = vertex_of i st" by (auto simp: program_source_def)
    then have "jv_vertex_type v = SOURCE_V" using i by (simp add: vertex_of_def program_source_def)
    with v have "i \<in> jv_vertex_id ` set (get_source_vertices g)" by (auto simp: get_source_vertices_def)
    with jg(4) show ?thesis by simp
  qed
  ultimately show ?thesis using g(1) jg(1,2) unfolding compile_program_def by auto
qed

text \<open>The vertices of an optimised graph are made of the chains of the graph before.\<close>

lemma optimize_merges:
  assumes "graph_wf g" "card (vids g) \<le> depth" "optimize depth g = Inr g'" "v \<in> set (jg_job_vertices g')"
  shows "\<exists>c. c \<noteq> [] \<and> set c \<subseteq> set (jg_job_vertices g) \<and> merged_from c v \<and> (\<exists>h. chain_ok g h c)"
proof -
  from division_result [OF assms(1,2)] obtain st where
    st: "rfold (start_source depth g) (get_source_vertices g) opt_init = Inr st" "chains_ok g st" by blast
  from optimize_of_division [OF st] assms(3) have vs: "rmap merge_chain (dict_values (os_chain_set st)) = Inr (jg_job_vertices g')" by auto
  have cs: "c \<noteq> [] \<and> set c \<subseteq> set (jg_job_vertices g) \<and> (\<exists>h. chain_ok g h c)" if "c \<in> set (dict_values (os_chain_set st))" for c
    using chains_ok_value [OF st(2) that] by (auto simp: chain_ok_def)
  then have ne: "\<And>c. c \<in> set (dict_values (os_chain_set st)) \<Longrightarrow> c \<noteq> []" by blast
  from list_all2_left [OF merge_chains [OF ne vs] assms(4)] cs show ?thesis by blast
qed

text \<open>Every vertex of a compiled program is headed by the operator of a stream, and its type is that of the stream.\<close>

lemma compiled_vertex:
  fixes sc :: "('o, 'k, 'v) streaming_context"
  assumes prog: "stream_program sc" "sc_id_generator sc < depth" and jg: "compile_program depth sc = Inr jg" and v: "v \<in> set (jg_job_vertices jg)"
  shows "\<exists>st. map_of (sc_streams sc) (jv_vertex_id v) = Some st \<and> jv_vertex_type v = vertex_type_of (st_kind st) \<and>
    source_head_op (jv_stream_operator v) (st_operator st)"
proof -
  from jg obtain g where g: "build_graph depth sc = Inr g" "optimize depth g = Inr jg" by (auto simp: compile_program_def)
  from build_graph_spec [OF prog] g(1) have spec: "graph_of (sc_streams sc) g" by auto
  from optimize_merges [OF build_graph_wf [OF prog g(1)] build_graph_vids [OF prog g(1)] g(2) v]
  obtain c where c: "c \<noteq> []" "set c \<subseteq> set (jg_job_vertices g)" "merged_from c v" by blast
  have "hd c \<in> set (jg_job_vertices g)" using c(1,2) by (cases c) auto
  with spec obtain st where st: "map_of (sc_streams sc) (jv_vertex_id (hd c)) = Some st" "hd c = vertex_of (jv_vertex_id (hd c)) st"
    unfolding graph_of_def by blast
  have "jv_vertex_type v = vertex_type_of (st_kind st)" "jv_stream_operator (hd c) = st_operator st"
    using c(3) arg_cong [OF st(2), of jv_vertex_type] arg_cong [OF st(2), of jv_stream_operator] by (simp_all add: vertex_of_def merged_from_def)
  moreover have "source_head_op (jv_stream_operator v) (jv_stream_operator (hd c))"
    using c(1,3) by (cases c) (auto simp: merged_from_def source_head_op_def)
  moreover have "jv_vertex_id v = jv_vertex_id (hd c)" using c(3) by (simp add: merged_from_def)
  ultimately show ?thesis using st(1) by auto
qed

lemma program_source_op:
  assumes "stream_program sc" "program_source sc i st"
  shows "\<exists>c f. st_operator st = Op c SOURCE_OP f"
proof -
  from assms(2) have st: "map_of (sc_streams sc) i = Some st" "st_kind st = STREAM_SOURCE" by (simp_all add: program_source_def)
  have "op_type (st_operator st) = SOURCE_OP"
    using context_okD [OF stream_program_ok [OF assms(1)] st(1)] st(2) by (simp add: stream_ok_def)
  with program_operators [OF assms(1) st(1)] show ?thesis by auto
qed

lemma split_manager_ok:
  assumes "\<forall>v \<in> set vs. \<exists>c f ops. jv_stream_operator v = Op c SOURCE_OP f \<or> jv_stream_operator v = ChainedOp (Op c SOURCE_OP f # ops)"
    and "distinct (map jv_vertex_id vs)"
  shows "\<exists>d'. rfold (add_enumerator enum_of) vs d = Inr d' \<and>
    (\<forall>v \<in> set vs. \<forall>e. source_enumerator enum_of (jv_stream_operator v) = Inr (Some e) \<longrightarrow> map_of d' (jv_vertex_id v) = Some e) \<and>
    (\<forall>i. i \<notin> jv_vertex_id ` set vs \<longrightarrow> map_of d' i = map_of d i)"
  using assms
proof (induction vs arbitrary: d)
  case (Cons v vs)
  from Cons.prems(1) obtain en where en: "source_enumerator enum_of (jv_stream_operator v) = Inr en" by auto
  let ?d = "case en of None \<Rightarrow> d | Some e \<Rightarrow> AList.update (jv_vertex_id v) e d"
  have step: "add_enumerator enum_of v d = Inr ?d" using en by (simp add: add_enumerator_def split: option.splits)
  from Cons.IH [of ?d] Cons.prems obtain d' where d': "rfold (add_enumerator enum_of) vs ?d = Inr d'"
    "\<forall>w \<in> set vs. \<forall>e. source_enumerator enum_of (jv_stream_operator w) = Inr (Some e) \<longrightarrow> map_of d' (jv_vertex_id w) = Some e"
    "\<forall>i. i \<notin> jv_vertex_id ` set vs \<longrightarrow> map_of d' i = map_of ?d i" by auto
  have "map_of d' (jv_vertex_id v) = Some e" if "en = Some e" for e
    using d'(3) Cons.prems(2) that by simp
  with d' step en show ?case by (auto split: option.splits)
qed simp

section \<open>From the job graph to the running job\<close>

lemma rmap_project: "rmap f xs = Inr ys \<Longrightarrow> (\<And>x y. f x = Inr y \<Longrightarrow> p y = p x) \<Longrightarrow> map p ys = map p xs"
  by (induction xs arbitrary: ys) (auto split: sum.splits)

text \<open>Resources change neither the vertices, apart from their resources, nor the edges.\<close>

definition vertex_core :: "'o exec_vertex \<Rightarrow> 'o job_vertex \<times> nat" where
  "vertex_core v = (ev_job_vertex v, ev_index v)"

lemma set_resource_core: "set_resource to_float rc v = Inr w \<Longrightarrow> vertex_core w = vertex_core v"
  by (auto simp: set_resource_def vertex_core_def)

lemma set_resources_core:
  assumes "set_resources to_float rc g = Inr g'"
  shows "eg_edges g' = eg_edges g \<and>
    map (map_prod id vertex_core) (eg_by_id g') = map (map_prod id vertex_core) (eg_by_id g) \<and>
    map (map_prod id (map vertex_core)) (eg_by_job_vertex g') = map (map_prod id (map vertex_core)) (eg_by_job_vertex g)"
proof -
  from assms obtain a b where r: "rmap (\<lambda>(i, v). rbind (set_resource to_float rc v) (\<lambda>v'. Inr (i, v'))) (eg_by_id g) = Inr a"
    "rmap (\<lambda>(i, vs). rbind (rmap (set_resource to_float rc) vs) (\<lambda>vs'. Inr (i, vs'))) (eg_by_job_vertex g) = Inr b"
    "g' = g\<lparr>eg_by_id := a, eg_by_job_vertex := b\<rparr>" by (auto simp: set_resources_def)
  have "map (map_prod id vertex_core) a = map (map_prod id vertex_core) (eg_by_id g)"
    by (rule rmap_project [OF r(1)]) (auto simp: set_resource_core)
  moreover have "map (map_prod id (map vertex_core)) b = map (map_prod id (map vertex_core)) (eg_by_job_vertex g)"
    by (rule rmap_project [OF r(2)]) (auto dest!: rmap_project [where p = vertex_core] simp: set_resource_core)
  ultimately show ?thesis using r(3) by simp
qed

lemma ev_id_core: "ev_id v = (\<lambda>(jv, i). exec_id (jv_vertex_id jv) i) (vertex_core v)"
  by (simp add: ev_id_def vertex_core_def)

text \<open>The graph a job runs: its keys, the vertices by job vertex and its source tasks.\<close>

lemma job_exec_graph:
  assumes jg: "graph_expandable jg" and g: "from_job_graph jg = Inr g0" "set_resources to_float rc g0 = Inr g"
  shows "map fst (eg_by_id g) = map fst (eg_by_id g0)" "eg_edges g = eg_edges g0"
    "fst ` set (eg_by_id g) \<subseteq> ev_id ` set (concat (dict_values (eg_by_job_vertex g)))"
    "ev_id ` set (eg_source_vertices g) = {exec_id (jv_vertex_id v) k | v k. v \<in> set (get_source_vertices jg) \<and> k < jv_parallelism v}"
    "\<forall>e \<in> set (eg_edges g). ee_source e \<in> fst ` set (eg_by_id g) \<and> ee_target e \<in> fst ` set (eg_by_id g)"
proof -
  note core = set_resources_core [OF g(2)]
  from from_job_graph_closed [OF jg] g(1) have c:
    "eg_by_id g0 = map (\<lambda>v. (ev_id v, v)) (concat (map exec_vertices_of (jg_job_vertices jg)))"
    "eg_edges g0 = concat (map (edges_of jg) (jg_job_edges jg))"
    "\<forall>jv \<in> set (jg_job_vertices jg). map_of (eg_by_job_vertex g0) (jv_vertex_id jv) = Some (exec_vertices_of jv)" by auto
  show fst: "map fst (eg_by_id g) = map fst (eg_by_id g0)"
    using arg_cong [OF core [THEN conjunct2, THEN conjunct1], of "map fst"] by (simp add: o_def)
  show edges: "eg_edges g = eg_edges g0" using core by simp
  have keys: "fst ` set (eg_by_id g) = {exec_id (jv_vertex_id jv) k | jv k. jv \<in> set (jg_job_vertices jg) \<and> k < jv_parallelism jv}"
    using arg_cong [OF fst, of set] by (auto simp: c(1) exec_vertices_of_def ev_id_def image_iff)
  show "fst ` set (eg_by_id g) \<subseteq> ev_id ` set (concat (dict_values (eg_by_job_vertex g)))"
  proof
    fix x assume "x \<in> fst ` set (eg_by_id g)"
    then have "x \<in> set (map fst (eg_by_id g0))" unfolding fst [symmetric] by simp
    then obtain jv v where jv: "jv \<in> set (jg_job_vertices jg)" "v \<in> set (exec_vertices_of jv)" "x = ev_id v"
      by (auto simp: c(1))
    from c(3) jv(1) have "(jv_vertex_id jv, exec_vertices_of jv) \<in> set (eg_by_job_vertex g0)" by (meson map_of_SomeD)
    then have "(jv_vertex_id jv, map vertex_core (exec_vertices_of jv)) \<in> set (map (map_prod id (map vertex_core)) (eg_by_job_vertex g0))"
      by force
    then obtain vs where vs: "(jv_vertex_id jv, vs) \<in> set (eg_by_job_vertex g)" "map vertex_core vs = map vertex_core (exec_vertices_of jv)"
      unfolding core [THEN conjunct2, THEN conjunct2, symmetric] by auto
    from jv(2) have "vertex_core v \<in> set (map vertex_core vs)" unfolding vs(2) by simp
    then obtain w where "w \<in> set vs" "vertex_core w = vertex_core v" by auto
    then have "ev_id w = x" "w \<in> set vs" using jv(3) by (simp_all add: ev_id_core)
    with vs(1) show "x \<in> ev_id ` set (concat (dict_values (eg_by_job_vertex g)))"
      by (force simp: dict_values_def)
  qed
  have vals: "map vertex_core (dict_values (eg_by_id g)) = map vertex_core (concat (map exec_vertices_of (jg_job_vertices jg)))"
    using arg_cong [OF core [THEN conjunct2, THEN conjunct1], of "map snd"] by (simp add: dict_values_def o_def c(1))
  have "ev_id ` set (eg_source_vertices g) =
      (\<lambda>(jv, i). exec_id (jv_vertex_id jv) i) ` {x \<in> set (map vertex_core (dict_values (eg_by_id g))). jv_vertex_type (fst x) = SOURCE_V}"
    by (auto simp: eg_source_vertices_def ev_id_core vertex_core_def image_iff)
  also have "\<dots> = {exec_id (jv_vertex_id v) k | v k. v \<in> set (get_source_vertices jg) \<and> k < jv_parallelism v}"
    unfolding vals by (force simp: exec_vertices_of_def vertex_core_def get_source_vertices_def)
  finally show "ev_id ` set (eg_source_vertices g) =
      {exec_id (jv_vertex_id v) k | v k. v \<in> set (get_source_vertices jg) \<and> k < jv_parallelism v}" .
  have ends: "exec_id i k \<in> fst ` set (eg_by_id g)" if "i \<in> vids jg" "k < par_of jg i" for i k
  proof -
    from expandable_vertex [OF jg that(1)] obtain v where "v \<in> set (jg_job_vertices jg)" "jv_vertex_id v = i" "par_of jg i = jv_parallelism v" by metis
    with that(2) show ?thesis unfolding keys by auto
  qed
  show "\<forall>e \<in> set (eg_edges g). ee_source e \<in> fst ` set (eg_by_id g) \<and> ee_target e \<in> fst ` set (eg_by_id g)"
  proof
    fix e assume "e \<in> set (eg_edges g)"
    then obtain je where je: "je \<in> set (jg_job_edges jg)" "e \<in> set (edges_of jg je)" by (auto simp: edges c(2))
    have "je_source_vertex_id je \<in> vids jg" "je_target_vertex_id je \<in> vids jg" using je(1) jg by (auto simp: graph_expandable_def)
    with ends je(2) show "ee_source e \<in> fst ` set (eg_by_id g) \<and> ee_target e \<in> fst ` set (eg_by_id g)"
      by (auto simp: edges_of_def)
  qed
qed

text \<open>On at most five nodes no node receives from more than four others.\<close>

lemma few_nodes_few_peers:
  assumes "\<forall>v i. map_of infos v = Some i \<longrightarrow> wn_node_id i \<in> N" and "finite N" "card N \<le> 5"
  shows "card (remote_sources infos es n) \<le> 4"
proof (cases "n \<in> N")
  case True
  have "remote_sources infos es n \<subseteq> N - {n}" using assms(1) by (auto simp: remote_sources_def)
  then have "card (remote_sources infos es n) \<le> card (N - {n})" using assms(2) by (intro card_mono) auto
  with assms True show ?thesis by (simp add: card_Diff_singleton)
next
  case False
  then have "remote_sources infos es n = {}" using assms(1) by (auto simp: remote_sources_def)
  then show ?thesis by simp
qed

text \<open>Scheduling a graph whose placement succeeds, on at most five nodes.\<close>

lemma schedule_job_ok:
  fixes g :: "('o, 'k, 'v) exec_graph" and m :: "'e job_master"
  assumes place: "operator_first_assign (jm_node_to_operator m) (jm_nodes m) g = Inr (owner, nodes, res)"
    and nonneg: "nodes_nonneg (jm_nodes m)" and few: "length (jm_nodes m) \<le> 5"
    and ids: "\<forall>n \<in> set (jm_nodes m). CHR ''-'' \<notin> set (node_id n)"
    and fresh: "jm_reserved_node_ports m = []" "jm_transfer_actors m = []"
    and host: "\<forall>v n. wn_node_id (host v n) = n \<and> wn_node_ip (host v n) = ip_of n"
    and start: "\<forall>x. start_answer x = None"
    and keys: "fst ` set (eg_by_id g) \<subseteq> ev_id ` set (concat (dict_values (eg_by_job_vertex g)))"
    and ends: "\<forall>e \<in> set (eg_edges g). ee_source e \<in> fst ` set (eg_by_id g) \<and> ee_target e \<in> fst ` set (eg_by_id g)"
  shows "\<exists>run m'. schedule_job host start_answer job g m = Inr (run, m') \<and>
    map fst (jr_workers run) = map fst (eg_by_id g) \<and> snd ` set (jr_workers run) \<subseteq> node_id ` set (jm_nodes m) \<and>
    list_all2 (channel_for (map (\<lambda>(v, n). (v, host v n)) (jr_workers run))) (eg_edges g) (jr_channels run) \<and>
    jm_sources_finished m' = jm_sources_finished m \<and> jm_split_manager m' = jm_split_manager m"
proof -
  let ?vs = "concat (dict_values (eg_by_job_vertex g))" and ?N = "node_id ` set (jm_nodes m)"
  let ?asg = "map (\<lambda>(v, i). (v, node_id (nodes ! i))) res"
  from place have run: "rfold (assign_vertex of_find) ?vs (jm_node_to_operator m, jm_nodes m, []) = Inr (owner, nodes, res)"
    by (auto simp: operator_first_assign_def Let_def)
  note own = of_run_owner [OF run nonneg]
  have asg: "\<exists>n \<in> ?N. map_of ?asg x = Some n" if x: "x \<in> fst ` set (eg_by_id g)" for x
  proof -
    from x keys obtain v where v: "v \<in> set ?vs" "x = ev_id v" by blast
    from own v(1) obtain i where i: "i < length (jm_nodes m)" "map_of res (ev_id v) = Some i" by blast
    have "length nodes = length (jm_nodes m)" using arg_cong [OF own [THEN conjunct1], of length] by simp
    then have "node_id (nodes ! i) = node_id (jm_nodes m ! i)"
      using i(1) own by (metis nth_map)
    then have "node_id (nodes ! i) \<in> ?N" using i(1) by simp
    moreover have "map_of ?asg x = Some (node_id (nodes ! i))" using i(2) v(2) by (simp add: map_of_map)
    ultimately show ?thesis by blast
  qed
  let ?ws = "map (\<lambda>x. (fst x, the (map_of ?asg (fst x)))) (eg_by_id g)"
  let ?infos = "map (\<lambda>(v, n). (v, host v n)) ?ws"
  from asg have "\<forall>x \<in> set (eg_by_id g). dict_mem (fst x) ?asg" by (fastforce simp: dict_mem_def)
  from create_workers_all [OF this] obtain reg where ws: "create_workers ?asg g = Inr (?ws, reg)" by blast
  have ws_nodes: "snd ` set ?ws \<subseteq> ?N" using asg by fastforce
  have info: "wn_node_id i \<in> ?N \<and> wn_node_ip i = ip_of (wn_node_id i) \<and> CHR ''-'' \<notin> set (wn_node_id i)"
    if m: "map_of ?infos v = Some i" for v i
  proof -
    from map_of_SomeD [OF m] obtain n where n: "(v, n) \<in> set ?ws" "i = host v n" by auto
    from ws_nodes n(1) have "n \<in> ?N" by force
    with n(2) host ids show ?thesis by auto
  qed
  have "\<forall>n. card (remote_sources ?infos (eg_edges g) n) \<le> 4"
  proof
    fix n
    have "card ?N \<le> 5" using few card_image_le [of "set (jm_nodes m)" node_id] card_length [of "jm_nodes m"] by simp
    then show "card (remote_sources ?infos (eg_edges g) n) \<le> 4"
      using info by (intro few_nodes_few_peers [of _ ?N]) auto
  qed
  moreover have "fst ` set ?infos = fst ` set (eg_by_id g)" by force
  then have "\<forall>e \<in> set (eg_edges g). dict_mem (ee_source e) ?infos \<and> dict_mem (ee_target e) ?infos"
    using ends unfolding dict_mem_iff by simp
  moreover have "\<forall>v i. map_of ?infos v = Some i \<longrightarrow> wn_node_ip i = ip_of (wn_node_id i) \<and> CHR ''-'' \<notin> set (wn_node_id i)"
    using info by blast
  ultimately obtain c actors where c: "connect_and_init_workers job ?infos [] [] g = Inr (c, actors)"
    "list_all2 (channel_for ?infos) (eg_edges g) (cn_channels c)"
    using connect_all [of g ?infos ip_of job] by blast
  have "\<not> list_ex (\<lambda>(_, err). err \<noteq> None) (map (\<lambda>x. (x, start_answer x)) xs)" for xs
    using start by (simp add: list_ex_iff)
  then have st: "start_workers (map (\<lambda>x. (x, start_answer x)) (map snd actors @ map fst (eg_by_id g))) = Inr ()"
    by (simp only: start_workers_def if_False)
  show ?thesis
  proof (intro exI conjI)
    show "schedule_job host start_answer job g m = Inr (\<lparr>jr_workers = ?ws, jr_channels = cn_channels c\<rparr>,
            m\<lparr>jm_nodes := nodes, jm_node_to_operator := owner, jm_reserved_node_ports := cn_reserved_node_ports c,
              jm_transfer_actors := actors, jm_stats_workers := jm_stats_workers m @ reg\<rparr>)"
      unfolding schedule_job_def place ws rbind_simps prod.case fresh c(1) st ..
    show "snd ` set (jr_workers \<lparr>jr_workers = ?ws, jr_channels = cn_channels c\<rparr>) \<subseteq> ?N" using ws_nodes by simp
    show "list_all2 (channel_for (map (\<lambda>(v, n). (v, host v n)) (jr_workers \<lparr>jr_workers = ?ws, jr_channels = cn_channels c\<rparr>)))
        (eg_edges g) (jr_channels \<lparr>jr_workers = ?ws, jr_channels = cn_channels c\<rparr>)" using c(2) by simp
  qed simp_all
qed

text \<open>The source tasks of a compiled program, and the enumerators the master keeps for them.\<close>

lemma source_instances:
  assumes "\<forall>v \<in> set (get_source_vertices jg). \<exists>st. program_source sc (jv_vertex_id v) st \<and>
       jv_parallelism v = st_parallelism st \<and> source_head_op (jv_stream_operator v) (st_operator st)"
    and "\<forall>i st. program_source sc i st \<longrightarrow> i \<in> jv_vertex_id ` set (get_source_vertices jg)"
  shows "{exec_id (jv_vertex_id v) k | v k. v \<in> set (get_source_vertices jg) \<and> k < jv_parallelism v} =
    {exec_id i k | i st k. program_source sc i st \<and> k < st_parallelism st}"
proof (intro equalityI subsetI)
  fix x assume "x \<in> {exec_id (jv_vertex_id v) k | v k. v \<in> set (get_source_vertices jg) \<and> k < jv_parallelism v}"
  with assms(1) show "x \<in> {exec_id i k | i st k. program_source sc i st \<and> k < st_parallelism st}" by force
next
  fix x assume "x \<in> {exec_id i k | i st k. program_source sc i st \<and> k < st_parallelism st}"
  then obtain i st k where x: "x = exec_id i k" "program_source sc i st" "k < st_parallelism st" by blast
  from assms(2) x(2) obtain v where v: "v \<in> set (get_source_vertices jg)" "jv_vertex_id v = i" by blast
  from assms(1) v x(2) have "jv_parallelism v = st_parallelism st" by (auto simp: program_source_def)
  with x v show "x \<in> {exec_id (jv_vertex_id v) k | v k. v \<in> set (get_source_vertices jg) \<and> k < jv_parallelism v}" by auto
qed

lemma submitted_enumerators:
  assumes prog: "stream_program sc" and jg: "graph_expandable jg"
    and src: "\<forall>v \<in> set (get_source_vertices jg). \<exists>st. program_source sc (jv_vertex_id v) st \<and>
       jv_parallelism v = st_parallelism st \<and> source_head_op (jv_stream_operator v) (st_operator st)"
    and ids: "\<forall>i st. program_source sc i st \<longrightarrow> i \<in> jv_vertex_id ` set (get_source_vertices jg)"
  shows "\<exists>d. rfold (add_enumerator enum_of) (get_source_vertices jg) [] = Inr d \<and>
    (\<forall>i st c f e. program_source sc i st \<longrightarrow> st_operator st = Op c SOURCE_OP f \<longrightarrow> enum_of f = Some e \<longrightarrow> map_of d i = Some e)"
proof -
  have "\<exists>c f ops. jv_stream_operator v = Op c SOURCE_OP f \<or> jv_stream_operator v = ChainedOp (Op c SOURCE_OP f # ops)"
    if v: "v \<in> set (get_source_vertices jg)" for v
  proof -
    from src v obtain st where st: "program_source sc (jv_vertex_id v) st" "source_head_op (jv_stream_operator v) (st_operator st)" by blast
    from program_source_op [OF prog st(1)] st(2) show ?thesis by (auto simp: source_head_op_def)
  qed
  moreover have "distinct (map jv_vertex_id (get_source_vertices jg))"
    using jg by (simp add: graph_expandable_def get_source_vertices_def distinct_map_filter)
  ultimately obtain d where d: "rfold (add_enumerator enum_of) (get_source_vertices jg) [] = Inr d"
    "\<And>v e. v \<in> set (get_source_vertices jg) \<Longrightarrow> source_enumerator enum_of (jv_stream_operator v) = Inr (Some e) \<Longrightarrow>
       map_of d (jv_vertex_id v) = Some e"
    using split_manager_ok [of "get_source_vertices jg" enum_of "[]"] by blast
  have "map_of d i = Some e" if i: "program_source sc i st" "st_operator st = Op c SOURCE_OP f" "enum_of f = Some e" for i st c f e
  proof -
    from ids i(1) obtain v where v: "v \<in> set (get_source_vertices jg)" "jv_vertex_id v = i" by blast
    from src v i(1) have "source_head_op (jv_stream_operator v) (st_operator st)" by (auto simp: program_source_def)
    with i(2,3) have "source_enumerator enum_of (jv_stream_operator v) = Inr (Some e)" by (auto simp: source_head_op_def)
    from d(2) [OF v(1) this] v(2) show ?thesis by simp
  qed
  with d(1) show ?thesis by blast
qed

section \<open>A sample deployment\<close>

definition sample_resources :: resource_config where
  "sample_resources = \<lparr>rc_default_worker_resources = [(''CPU'', ''1'')], rc_proposed_operator_resources = None\<rparr>"

definition sample_float :: "string \<Rightarrow> rat result" where
  "sample_float s = (if s = ''1'' then Inr 1 else Inl ValueError)"

lemma sample_streams:
  "list_all (\<lambda>(i, st). 0 < st_parallelism st) (sc_streams (projr sample_program))" "sc_stream_sinks (projr sample_program) \<noteq> []"
  by code_simp+

definition sample_ray_nodes :: "ray_node list" where
  "sample_ray_nodes = [\<lparr>ray_resources = [(''CPU'', 4)], ray_address = ''10.0.0.1'', ray_node_id = ''a1'', ray_node_name = ''a'', ray_alive = True\<rparr>,
     \<lparr>ray_resources = [(''CPU'', 4)], ray_address = ''10.0.0.2'', ray_node_id = ''b2'', ray_node_name = ''b'', ray_alive = True\<rparr>]"

definition sample_host :: "string \<Rightarrow> string \<Rightarrow> worker_node_info" where
  "sample_host v n = \<lparr>wn_node_ip = ''ip'' @ n, wn_node_id = n\<rparr>"

lemma sample_positive: "\<forall>i st. map_of (sc_streams (projr sample_program)) i = Some st \<longrightarrow> 0 < st_parallelism st"
  using sample_streams(1) by (auto simp: list_all_iff dest!: map_of_SomeD)

lemma sample_program_source: "\<exists>st c. program_source (projr sample_program) 1 st \<and> st_parallelism st = 1 \<and> st_operator st = Op c SOURCE_OP 0"
proof -
  let ?streams = "sc_streams (projr sample_program)"
  have "sc_stream_sinks (projr sample_program) = [3]" "map_option st_input (map_of ?streams 3) = Some (Some 2)"
    "map_option st_input (map_of ?streams 2) = Some (Some 1)"
    "map_option (\<lambda>st. (st_kind st, st_parallelism st)) (map_of ?streams 1) = Some (STREAM_SOURCE, 1)"
    "case map_option st_operator (map_of ?streams 1) of Some (Op c t f) \<Rightarrow> t = SOURCE_OP \<and> f = 0 | _ \<Rightarrow> False" by code_simp+
  then obtain st1 st2 st3 c where st: "map_of ?streams 3 = Some st3" "st_input st3 = Some 2" "map_of ?streams 2 = Some st2" "st_input st2 = Some 1"
    "map_of ?streams 1 = Some st1" "st_kind st1 = STREAM_SOURCE" "st_parallelism st1 = 1" "sc_stream_sinks (projr sample_program) = [3]"
    "st_operator st1 = Op c SOURCE_OP 0" by (auto split: stream_op.splits)
  then have "(3, 2) \<in> stream_parents ?streams" "(2, 1) \<in> stream_parents ?streams" by (auto simp: stream_parents_def)
  then have "1 \<in> needed ?streams 3" unfolding needed_def by (auto intro: rtrancl_into_rtrancl)
  with st show ?thesis by (auto simp: program_source_def)
qed

end
