(* ===== verification/Job_Statistics.thy ===== *)
theory Job_Statistics
  imports Job_Submission Stats
begin

text \<open>
  Statistics of a running job: what a task answers when it is asked (\<open>runtime/worker/task/stream_task.py\<close>,
  \<open>runtime/worker/job_worker.py\<close>) and what the master makes of the answers
  (\<open>runtime/master/stats/stats_manager.py\<close>). The states of the counters are those of \<open>Stats\<close>.
\<close>

section \<open>Answers of the tasks\<close>

datatype stats_update = LatencyUpdate "(int, hist) dict" | ThroughputUpdate "(int, int) dict"

text \<open>The counters a task may have: of its source context, and of its sink operator.\<close>

record task_stats =
  ts_throughput :: throughput_state
  ts_latency :: latency_state

definition tail_operator :: "'o stream_op \<Rightarrow> 'o stream_op" where
  "tail_operator op = (case op of ChainedOp ops \<Rightarrow> last ops | Op _ _ _ \<Rightarrow> op)"

text \<open>\<open>collect_stats\<close> of a task with its operator; \<open>None\<close> when it waits for a lock nobody releases.\<close>

definition task_collect_stats :: "'o stream_op \<Rightarrow> task_stats \<Rightarrow> (stats_update result \<times> task_stats) option" where
  "task_collect_stats op s =
     (if op_type op = SOURCE_OP
      then case throughput_collect (ts_throughput s) of (c, t) \<Rightarrow> Some (Inr (ThroughputUpdate c), s\<lparr>ts_throughput := t\<rparr>)
      else if op_class (tail_operator op) = ''SinkOperator''
      then case latency_collect (ts_latency s) of
             None \<Rightarrow> None
           | Some (c, l) \<Rightarrow> Some (Inr (LatencyUpdate c), s\<lparr>ts_latency := l\<rparr>)
      else Some (Inl RuntimeError, s))"

section \<open>The statistics manager\<close>

definition latency_updates :: "stats_update list \<Rightarrow> (int, hist) dict list" where
  "latency_updates us = concat (map (\<lambda>u. case u of LatencyUpdate c \<Rightarrow> [c] | ThroughputUpdate _ \<Rightarrow> []) us)"

definition throughput_updates :: "stats_update list \<Rightarrow> (int, int) dict list" where
  "throughput_updates us = concat (map (\<lambda>u. case u of LatencyUpdate _ \<Rightarrow> [] | ThroughputUpdate c \<Rightarrow> [c]) us)"

text \<open>
  \<open>_collect_stats_updates\<close> on the answers of all registered workers: the first error is raised by \<open>ray.get\<close>, otherwise the
  answers are sorted by kind and aggregated.
\<close>

definition collect_stats_updates ::
    "stats_update result list \<Rightarrow> job_latency \<times> job_throughput \<Rightarrow> (job_latency \<times> job_throughput) result" where
  "collect_stats_updates answers = (\<lambda>(jl, jt).
     rbind (rmap (\<lambda>r. r) answers) (\<lambda>us.
     rbind (latency_aggregate_updates (latency_updates us) jl) (\<lambda>jl'.
       Inr (jl', throughput_aggregate_updates (throughput_updates us) jt))))"

section \<open>Every registered worker can answer\<close>

definition can_report :: "'o stream_op \<Rightarrow> bool" where
  "can_report op \<longleftrightarrow> op_type op = SOURCE_OP \<or> op_class (tail_operator op) = ''SinkOperator''"

lemma can_report_answers:
  assumes "can_report op" "\<not> lat_locked (ts_latency s)"
  shows "\<exists>u s'. task_collect_stats op s = Some (Inr u, s')"
  using assms by (auto simp: can_report_def task_collect_stats_def latency_collect_def split: prod.splits)

text \<open>What the API makes: a source operator is of the source type, a sink of the sink class.\<close>

lemma program_classes:
  "stream_program sc \<Longrightarrow> map_of (sc_streams sc) i = Some st \<Longrightarrow> st_kind st = STREAM_SINK \<Longrightarrow> op_class (st_operator st) = ''SinkOperator''"
proof (induction arbitrary: i st rule: stream_program.induct)
  case start
  then show ?case by (simp add: sc_init_def)
next
  case (parallelism sc par s j sc')
  then show ?case by (auto simp: set_parallelism_def split: if_splits)
qed (auto simp: api_source_def api_transform_def api_keyed_transform_def api_key_by_def api_join_def api_sink_def
    new_stream_def generate_id_def Let_def split: if_splits option.splits)

lemma compiled_reporters:
  fixes sc :: "('o, 'k, 'v) streaming_context"
  assumes prog: "stream_program sc" "sc_id_generator sc < depth" and jg: "compile_program depth sc = Inr jg"
    and v: "v \<in> set (jg_job_vertices jg)" "reports_stats v"
  shows "can_report (jv_stream_operator v)"
proof -
  from jg obtain g where g: "build_graph depth sc = Inr g" "optimize depth g = Inr jg" by (auto simp: compile_program_def)
  from build_graph_spec [OF prog] g(1) have spec: "graph_of (sc_streams sc) g" by auto
  from optimize_merges [OF build_graph_wf [OF prog g(1)] build_graph_vids [OF prog g(1)] g(2) v(1)]
  obtain c where c: "c \<noteq> []" "set c \<subseteq> set (jg_job_vertices g)" "merged_from c v" by blast
  have "hd c \<in> set (jg_job_vertices g)" using c(1,2) by (cases c) auto
  with spec obtain st where st: "map_of (sc_streams sc) (jv_vertex_id (hd c)) = Some st" "hd c = vertex_of (jv_vertex_id (hd c)) st"
    unfolding graph_of_def by blast
  have vt: "jv_vertex_type v = vertex_type_of (st_kind st)" and op: "jv_stream_operator (hd c) = st_operator st"
    using c(3) arg_cong [OF st(2), of jv_vertex_type] arg_cong [OF st(2), of jv_stream_operator] by (simp_all add: vertex_of_def merged_from_def)
  from v(2) consider "is_sink_vertex v" | "jv_vertex_type v = SOURCE_V" by (auto simp: reports_stats_def)
  then show ?thesis
  proof cases
    case 1
    show ?thesis
    proof (cases "length c = 1")
      case True
      with c(3) have v': "jv_stream_operator v = st_operator st" by (simp add: merged_from_def op)
      from program_operators [OF prog(1) st(1)] obtain k t f where k: "st_operator st = Op k t f" by blast
      with 1 v' vt have "st_kind st = STREAM_SINK" by (cases "st_kind st") (simp_all add: is_sink_vertex_def)
      from program_classes [OF prog(1) st(1) this] v' k show ?thesis by (simp add: can_report_def tail_operator_def)
    next
      case False
      with c(3) have "jv_stream_operator v = ChainedOp (map jv_stream_operator c)" by (simp add: merged_from_def)
      with 1 show ?thesis by (simp add: is_sink_vertex_def can_report_def tail_operator_def)
    qed
  next
    case 2
    with vt have "st_kind st = STREAM_SOURCE" by (cases "st_kind st") simp_all
    with context_okD [OF stream_program_ok [OF prog(1)] st(1)] have "op_type (st_operator st) = SOURCE_OP" by (simp add: stream_ok_def)
    moreover have "op_type (jv_stream_operator v) = op_type (jv_stream_operator (hd c))"
      using c(1,3) by (cases c) (auto simp: merged_from_def)
    ultimately show ?thesis by (simp add: can_report_def op)
  qed
qed

lemma create_worker_registered:
  assumes "rfold (create_worker assignment) xs (ws, rs) = Inr (ws', rs')" "x \<in> set rs'"
  shows "x \<in> set rs \<or> (\<exists>v. (x, v) \<in> set xs \<and> reports_stats (ev_job_vertex v))"
  using assms
proof (induction xs arbitrary: ws rs)
  case (Cons a xs)
  obtain i v where a: "a = (i, v)" by (cases a)
  from Cons.prems(1) obtain ws1 rs1 where 1: "create_worker assignment a (ws, rs) = Inr (ws1, rs1)"
    "rfold (create_worker assignment) xs (ws1, rs1) = Inr (ws', rs')" by (auto split: sum.splits)
  have "y \<in> set rs \<or> y = i \<and> reports_stats (ev_job_vertex v)" if "y \<in> set rs1" for y
    using that 1(1) a by (auto simp: create_worker_def split: option.splits if_splits)
  with Cons.IH [OF 1(2) Cons.prems(2)] a show ?case by auto
qed simp

text \<open>
  A source chained with its sink reports throughput only: the task's processor is a source processor, and the counter in
  the sink operator is never asked.
\<close>

lemma source_chain_reports_no_latency:
  assumes "op_type op = SOURCE_OP"
  shows "\<exists>c s'. task_collect_stats op s = Some (Inr (ThroughputUpdate c), s') \<and> ts_latency s' = ts_latency s"
  using assms by (auto simp: task_collect_stats_def throughput_collect_def)

section \<open>Throughput of the job\<close>

definition count_at :: "int \<Rightarrow> (int, int) dict \<Rightarrow> int" where
  "count_at t d = (case map_of d t of None \<Rightarrow> 0 | Some m \<Rightarrow> m)"

definition entries_at :: "int \<Rightarrow> (int \<times> int) list \<Rightarrow> int" where
  "entries_at t es = sum_list (map snd (filter (\<lambda>e. fst e = t) es))"

lemma dict_add_at:
  "count_at t (dict_add s n d) = count_at t d + (if t = s then n else 0)" "dict_mem t (dict_add s n d) \<longleftrightarrow> t = s \<or> dict_mem t d"
  by (simp_all add: dict_add_def count_at_def split: option.splits)

lemma fold_dict_add_at:
  "count_at t (fold (\<lambda>(s, n). dict_add s n) es d) = count_at t d + entries_at t es \<and>
   (dict_mem t (fold (\<lambda>(s, n). dict_add s n) es d) \<longleftrightarrow> t \<in> fst ` set es \<or> dict_mem t d)"
proof (induction es arbitrary: d)
  case (Cons e es)
  obtain s n where e: "e = (s, n)" by (cases e)
  show ?case using Cons [of "dict_add s n d"] by (auto simp: e dict_add_at entries_at_def)
qed (simp add: entries_at_def)

lemma wf_fold_dict_add: "wf_dict d \<Longrightarrow> wf_dict (fold (\<lambda>(s, n). dict_add s n) es d)"
proof (induction es arbitrary: d)
  case (Cons e es)
  obtain s n where e: "e = (s, n)" by (cases e)
  have "wf_dict (dict_add s n d)" unfolding dict_add_def by (rule wf_dict_update [OF Cons.prems])
  from Cons.IH [OF this] show ?case by (simp add: e)
qed simp

lemma entries_at_wf: "wf_dict d \<Longrightarrow> entries_at t d = count_at t d"
proof (induction d)
  case (Cons e d)
  have "filter (\<lambda>x. fst x = fst e) d = []" using Cons.prems by (auto simp: wf_dict_def filter_empty_conv intro: rev_image_eqI)
  moreover have "wf_dict d" using Cons.prems by (simp add: wf_dict_def)
  ultimately show ?case using Cons.IH by (cases e) (auto simp: entries_at_def count_at_def)
qed (simp add: entries_at_def count_at_def)

lemma fold_delete_lookup:
  "map_of (fold (\<lambda>s d'. if P s then AList.delete s d' else d') ss d) t = (if t \<in> set ss \<and> P t then None else map_of d t)"
  by (induction ss arbitrary: d) (auto simp: delete_conv')

lemma drop_old_lookup:
  "map_of (drop_old w d) t = (if last (dict_keys d) - t > w then None else map_of d t)"
proof (cases "t \<in> set (dict_keys d)")
  case False
  then have "map_of d t = None" by (simp add: dict_keys_def map_of_eq_None_iff)
  then show ?thesis unfolding drop_old_def Let_def fold_delete_lookup by simp
qed (simp add: drop_old_def Let_def fold_delete_lookup)



end
