(* ===== verification/Job_Lifecycle.thy ===== *)
theory Job_Lifecycle
  imports Job_Submission
begin

text \<open>
  The run of a job from the start of its workers to its end: the threads of a worker
  (\<open>runtime/worker/job_worker.py\<close>, \<open>runtime/worker/task/stream_task.py\<close>), the reports of finished sources to the
  master (\<open>runtime/master/job_master.py\<close>), and the client that waits for them and then destroys the job
  (\<open>runtime/client/job_client.py\<close>, \<open>delete_workers\<close> in \<open>runtime/master/worker_lifecycle_controller.py\<close>). The steps
  of all threads and actors interleave freely; remote calls that are under way are part of the state.
\<close>

section \<open>Workers\<close>

text \<open>
  A worker with its task. \<open>wr_source\<close> is the state of the source in a source task; other tasks have none. The task
  and the watcher each run in a thread of their own.
\<close>

record 's worker_run =
  wr_source :: "'s option"
  wr_task_running :: bool
  wr_thread_alive :: bool
  wr_running :: bool
  wr_watcher_alive :: bool

text \<open>\<open>start_or_rollback\<close>: create the task, open its processor, start both threads.\<close>

definition start_or_rollback ::
    "('o exec_vertex \<Rightarrow> 's result) \<Rightarrow> (nat list \<Rightarrow> nat list) \<Rightarrow> ('o, 'k, 'v) exec_graph \<Rightarrow> 'o exec_vertex \<Rightarrow> 's worker_run result" where
  "start_or_rollback open_source set_list g v =
     rbind (create_stream_task set_list g v) (\<lambda>task.
     rbind (if task = SourceStreamTask then rbind (open_source v) (\<lambda>st. Inr (Some st)) else Inr None) (\<lambda>src.
       Inr \<lparr>wr_source = src, wr_task_running = True, wr_thread_alive = True, wr_running = True, wr_watcher_alive = True\<rparr>))"

text \<open>
  One step of a task's thread. A source advances, and may ask the master for a split on the way; an exception, from the
  source or from processing a message (\<open>raises\<close>), ends the thread, as does the flag that \<open>close\<close> resets.
\<close>

definition task_round ::
    "('s \<Rightarrow> 'e job_master \<Rightarrow> ('s \<times> 'e job_master) result) \<Rightarrow> bool \<Rightarrow> 'e job_master \<Rightarrow> 's worker_run \<Rightarrow> 's worker_run \<times> 'e job_master" where
  "task_round advance raises m w =
     (if \<not> wr_thread_alive w then (w, m)
      else if \<not> wr_task_running w then (w\<lparr>wr_thread_alive := False\<rparr>, m)
      else case wr_source w of
             None \<Rightarrow> (w\<lparr>wr_thread_alive := \<not> raises\<rparr>, m)
           | Some st \<Rightarrow> (case advance st m of
                            Inl e \<Rightarrow> (w\<lparr>wr_thread_alive := False\<rparr>, m)
                          | Inr (st', m') \<Rightarrow> (w\<lparr>wr_source := Some st'\<rparr>, m')))"

text \<open>One round of \<open>_watch_task_state_loop\<close>, with the remote calls it makes.\<close>

definition watch_round :: "('s \<Rightarrow> bool) \<Rightarrow> string \<Rightarrow> 's worker_run \<Rightarrow> 's worker_run \<times> string list" where
  "watch_round finished i w =
     (if \<not> wr_watcher_alive w then (w, [])
      else if \<not> wr_running w then (w\<lparr>wr_watcher_alive := False\<rparr>, [])
      else case wr_source w of
             None \<Rightarrow> (w, [])
           | Some st \<Rightarrow> if finished st then (w\<lparr>wr_watcher_alive := False\<rparr>, [i]) else (w, []))"

text \<open>
  \<open>JobWorker.close\<close>: the task's flag is reset first; when closing the processor or the network loop raises, the worker's
  own flag keeps its value. Joining the threads waits for a bounded time, so it does not change the state.
\<close>

definition task_close :: "'s worker_run \<Rightarrow> 's worker_run" where
  "task_close w = w\<lparr>wr_task_running := False\<rparr>"

definition worker_close :: "bool \<Rightarrow> 's worker_run \<Rightarrow> 's worker_run" where
  "worker_close raises w = (if raises then task_close w else (task_close w)\<lparr>wr_running := False\<rparr>)"

text \<open>\<open>exit_actor\<close> ends the process of the worker and its threads.\<close>

definition worker_exit :: "'s worker_run \<Rightarrow> 's worker_run" where
  "worker_exit w = w\<lparr>wr_thread_alive := False, wr_watcher_alive := False\<rparr>"

section \<open>The job\<close>

text \<open>
  \<open>JobClient.execute\<close>: wait until the sources are finished, sleep, destroy the job. Destroying asks all workers to
  close, waits for them or for a timeout, and asks them to exit.
\<close>

datatype execute_phase = Waiting | Sleeping | Closing | Exiting

record ('s, 'e) job_system =
  js_workers :: "(string, 's worker_run) dict"
  js_calls :: "string list"
  js_master :: "'e job_master"
  js_running :: bool
  js_client :: execute_phase

text \<open>
  The state when the master \<open>m\<close> has started all workers of the graph. What threads of workers that started earlier did
  meanwhile is among the steps that follow.
\<close>

definition job_start ::
    "('o exec_vertex \<Rightarrow> 's result) \<Rightarrow> (nat list \<Rightarrow> nat list) \<Rightarrow> 'e job_master \<Rightarrow> ('o, 'k, 'v) exec_graph \<Rightarrow> ('s, 'e) job_system result" where
  "job_start open_source set_list m g =
     rbind (rmap (\<lambda>(i, v). rbind (start_or_rollback open_source set_list g v) (\<lambda>w. Inr (i, w))) (eg_by_id g)) (\<lambda>ws.
       Inr \<lparr>js_workers = ws, js_calls = [], js_master = m, js_running = True, js_client = Waiting\<rparr>)"

text \<open>\<open>wait_sources_finished\<close> leaves its loop when this holds.\<close>

definition wait_over :: "('s, 'e) job_system \<Rightarrow> bool" where
  "wait_over s \<longleftrightarrow> \<not> js_running s \<or> all_sources_finished (jm_sources_finished (js_master s))"

text \<open>The master handles a report; the exception for an unknown task reaches nobody.\<close>

definition source_reported :: "string \<Rightarrow> ('s, 'e) job_system \<Rightarrow> ('s, 'e) job_system" where
  "source_reported i s = s\<lparr>js_calls := remove1 i (js_calls s),
     js_master := (case notify_source_finished i (jm_sources_finished (js_master s)) of
                     Inl e \<Rightarrow> js_master s | Inr d \<Rightarrow> (js_master s)\<lparr>jm_sources_finished := d\<rparr>)\<rparr>"

text \<open>\<open>JobMaster.destroy\<close> up to the calls that ask all workers to close.\<close>

definition destroy :: "('s, 'e) job_system \<Rightarrow> ('s, 'e) job_system" where
  "destroy s = s\<lparr>js_running := False, js_client := Closing\<rparr>"

text \<open>\<open>delete_workers\<close> after its wait for the workers, which ends with the last one or by a timeout.\<close>

definition request_exit :: "('s, 'e) job_system \<Rightarrow> ('s, 'e) job_system" where
  "request_exit s = s\<lparr>js_client := Exiting\<rparr>"

definition set_worker :: "string \<Rightarrow> 's worker_run \<Rightarrow> ('s, 'e) job_system \<Rightarrow> ('s, 'e) job_system" where
  "set_worker i w s = s\<lparr>js_workers := AList.update i w (js_workers s)\<rparr>"

inductive job_step ::
    "(string \<Rightarrow> 's \<Rightarrow> 'e job_master \<Rightarrow> ('s \<times> 'e job_master) result) \<Rightarrow> ('s \<Rightarrow> bool) \<Rightarrow> ('s, 'e) job_system \<Rightarrow> ('s, 'e) job_system \<Rightarrow> bool"
  for advance finished where
  thread_step: "map_of (js_workers s) i = Some w \<Longrightarrow> task_round (advance i) raises (js_master s) w = (w', m') \<Longrightarrow>
    job_step advance finished s (set_worker i w' (s\<lparr>js_master := m'\<rparr>))"
| watch_step: "map_of (js_workers s) i = Some w \<Longrightarrow> watch_round finished i w = (w', calls) \<Longrightarrow>
    job_step advance finished s (set_worker i w' (s\<lparr>js_calls := js_calls s @ calls\<rparr>))"
| report_step: "i \<in> set (js_calls s) \<Longrightarrow> job_step advance finished s (source_reported i s)"
| wait_step: "js_client s = Waiting \<Longrightarrow> wait_over s \<Longrightarrow> job_step advance finished s (s\<lparr>js_client := Sleeping\<rparr>)"
| destroy_step: "js_client s = Sleeping \<Longrightarrow> job_step advance finished s (destroy s)"
| close_step: "js_client s \<in> {Closing, Exiting} \<Longrightarrow> map_of (js_workers s) i = Some w \<Longrightarrow>
    job_step advance finished s (set_worker i (worker_close raises w) s)"
| exit_calls: "js_client s = Closing \<Longrightarrow> job_step advance finished s (request_exit s)"
| exit_step: "js_client s = Exiting \<Longrightarrow> map_of (js_workers s) i = Some w \<Longrightarrow>
    job_step advance finished s (set_worker i (worker_exit w) s)"

inductive_cases job_stepE: "job_step advance finished s s'"

section \<open>Invariants of a running job\<close>

definition sources_of :: "('s, 'e) job_system \<Rightarrow> string \<Rightarrow> 's option" where
  "sources_of s i = Option.bind (map_of (js_workers s) i) wr_source"

text \<open>A source is reported when the call is under way or the master has handled it.\<close>

definition reported :: "string \<Rightarrow> ('s, 'e) job_system \<Rightarrow> bool" where
  "reported i s \<longleftrightarrow> i \<in> set (js_calls s) \<or> map_of (jm_sources_finished (js_master s)) i = Some True"

text \<open>
  The states of the sources and the splits that are left satisfy \<open>G\<close>, only finished sources among the job's source tasks \<open>V\<close> are
  reported, and nothing is closed while the client waits.
\<close>

definition job_inv ::
    "('s \<Rightarrow> bool) \<Rightarrow> ((string \<Rightarrow> 's option) \<Rightarrow> (nat, 'e) dict option \<Rightarrow> bool) \<Rightarrow> string set \<Rightarrow> ('s, 'e) job_system \<Rightarrow> bool" where
  "job_inv finished G V s \<longleftrightarrow> wf_dict (jm_sources_finished (js_master s)) \<and> fst ` set (jm_sources_finished (js_master s)) = V \<and>
     G (sources_of s) (jm_split_manager (js_master s)) \<and>
     (\<forall>i \<in> V. \<exists>st. sources_of s i = Some st \<and> (reported i s \<longrightarrow> finished st)) \<and>
     (js_client s \<noteq> Waiting \<longrightarrow> (\<forall>i \<in> V. map_of (jm_sources_finished (js_master s)) i = Some True)) \<and>
     (js_client s = Waiting \<longrightarrow> js_running s \<and> (\<forall>i w. map_of (js_workers s) i = Some w \<longrightarrow> wr_task_running w \<and> wr_running w))"

definition live_inv :: "string set \<Rightarrow> ('s, 'e) job_system \<Rightarrow> bool" where
  "live_inv V s \<longleftrightarrow> (js_client s = Waiting \<longrightarrow>
     (\<forall>i \<in> V. \<forall>w. map_of (js_workers s) i = Some w \<longrightarrow> wr_thread_alive w \<and> (wr_watcher_alive w \<or> reported i s)))"

lemma set_worker_sel [simp]:
  "js_workers (set_worker i w s) = AList.update i w (js_workers s)" "js_calls (set_worker i w s) = js_calls s"
  "js_master (set_worker i w s) = js_master s" "js_running (set_worker i w s) = js_running s"
  "js_client (set_worker i w s) = js_client s" "reported j (set_worker i w s) = reported j s"
  "sources_of (set_worker i w s) = (sources_of s)(i := wr_source w)"
  by (auto simp: set_worker_def reported_def sources_of_def)

text \<open>
  A worker and the master may change together as long as \<open>G\<close> is kept, the worker's source stays finished and the master's record of
  finished sources is the same; while the client waits the worker's flags stay set.
\<close>

lemma job_inv_set_worker:
  assumes "job_inv finished G V s" "map_of (js_workers s) i = Some w" and m: "jm_sources_finished m' = jm_sources_finished (js_master s)"
    and "G ((sources_of s)(i := wr_source w')) (jm_split_manager m')"
    and "\<And>st. i \<in> V \<Longrightarrow> wr_source w = Some st \<Longrightarrow> \<exists>st'. wr_source w' = Some st' \<and> (finished st \<longrightarrow> finished st')"
    and "js_client s = Waiting \<Longrightarrow> wr_task_running w \<Longrightarrow> wr_running w \<Longrightarrow> wr_task_running w' \<and> wr_running w'"
  shows "job_inv finished G V (set_worker i w' (s\<lparr>js_master := m'\<rparr>))"
proof -
  let ?s = "set_worker i w' (s\<lparr>js_master := m'\<rparr>)"
  have r: "reported j ?s = reported j s" for j by (simp add: reported_def m)
  have src: "sources_of ?s = (sources_of s)(i := wr_source w')" by (simp add: sources_of_def fun_eq_iff)
  have "\<exists>st. sources_of ?s j = Some st \<and> (reported j s \<longrightarrow> finished st)" if j: "j \<in> V" for j
  proof -
    from assms(1) j obtain st where st: "sources_of s j = Some st" "reported j s \<longrightarrow> finished st" unfolding job_inv_def by blast
    show ?thesis
    proof (cases "j = i")
      case True
      with st(1) assms(2) have "wr_source w = Some st" by (simp add: sources_of_def)
      with assms(5) st(2) True j show ?thesis by (fastforce simp: src)
    qed (use st src in simp)
  qed
  then show ?thesis using assms(1,2,4,6) unfolding job_inv_def r src by (auto simp: m)
qed

lemma job_inv_same_source:
  assumes "job_inv finished G V s" "map_of (js_workers s) i = Some w" "wr_source w' = wr_source w"
    and "js_client s = Waiting \<Longrightarrow> wr_task_running w \<Longrightarrow> wr_running w \<Longrightarrow> wr_task_running w' \<and> wr_running w'"
  shows "job_inv finished G V (set_worker i w' s)"
proof -
  have "(sources_of s)(i := wr_source w') = sources_of s" using assms(2,3) by (auto simp: sources_of_def)
  then have "job_inv finished G V (set_worker i w' (s\<lparr>js_master := js_master s\<rparr>))"
    using assms(1,3,4) by (intro job_inv_set_worker [OF assms(1,2)]) (auto simp: job_inv_def)
  then show ?thesis by simp
qed

lemma job_inv_messages:
  assumes "job_inv finished G V s" and same: "js_workers s' = js_workers s" "js_client s' = js_client s" "js_running s' = js_running s"
    "jm_split_manager (js_master s') = jm_split_manager (js_master s)"
    and d: "wf_dict (jm_sources_finished (js_master s'))" "fst ` set (jm_sources_finished (js_master s')) = V"
    and r: "\<And>i st. i \<in> V \<Longrightarrow> reported i s' \<Longrightarrow> \<not> reported i s \<Longrightarrow> sources_of s i = Some st \<Longrightarrow> finished st"
    and m: "\<And>i. map_of (jm_sources_finished (js_master s)) i = Some True \<Longrightarrow> map_of (jm_sources_finished (js_master s')) i = Some True"
  shows "job_inv finished G V s'"
proof -
  have src: "sources_of s' = sources_of s" by (simp add: sources_of_def fun_eq_iff same(1))
  have "\<exists>st. sources_of s i = Some st \<and> (reported i s' \<longrightarrow> finished st)" if i: "i \<in> V" for i
  proof -
    from assms(1) i obtain st where st: "sources_of s i = Some st" "reported i s \<longrightarrow> finished st" unfolding job_inv_def by blast
    with r [OF i _ _ st(1)] show ?thesis by blast
  qed
  then show ?thesis using assms(1) d m unfolding job_inv_def same src by simp
qed

lemma job_inv_call:
  assumes "job_inv finished G V s" "\<forall>st. sources_of s i = Some st \<longrightarrow> finished st"
  shows "job_inv finished G V (s\<lparr>js_calls := js_calls s @ [i]\<rparr>)"
  by (rule job_inv_messages [OF assms(1)]) (use assms in \<open>auto simp: job_inv_def reported_def\<close>)

lemma source_reported_sources:
  assumes "fst ` set (jm_sources_finished (js_master s)) = V"
  shows "jm_sources_finished (js_master (source_reported i s)) =
    (if i \<in> V then AList.update i True (jm_sources_finished (js_master s)) else jm_sources_finished (js_master s))"
  using assms by (simp add: source_reported_def notify_source_finished_def dict_mem_iff)

lemma source_reported_sel [simp]:
  "js_workers (source_reported i s) = js_workers s" "js_client (source_reported i s) = js_client s"
  "js_running (source_reported i s) = js_running s" "js_calls (source_reported i s) = remove1 i (js_calls s)"
  "jm_split_manager (js_master (source_reported i s)) = jm_split_manager (js_master s)"
  by (simp_all add: source_reported_def split: sum.split)

lemma job_inv_report:
  assumes "job_inv finished G V s" "i \<in> set (js_calls s)"
  shows "job_inv finished G V (source_reported i s)"
proof -
  from assms(1) have d: "wf_dict (jm_sources_finished (js_master s))" "fst ` set (jm_sources_finished (js_master s)) = V"
    by (simp_all add: job_inv_def)
  note src = source_reported_sources [OF d(2), of i]
  have "reported j s" if "reported j (source_reported i s)" for j
    using that assms(2) set_remove1_subset [of i "js_calls s"] by (auto simp: reported_def src split: if_splits)
  then show ?thesis
    by (intro job_inv_messages [OF assms(1)]) (use d in \<open>auto simp: src dom_update\<close>)
qed

lemma reported_kept:
  assumes "job_inv finished G V s" "j \<in> V" "reported j s"
  shows "reported j (source_reported i s)"
proof -
  from assms(1) have "fst ` set (jm_sources_finished (js_master s)) = V" by (simp add: job_inv_def)
  from source_reported_sources [OF this, of i] assms(2,3) show ?thesis by (auto simp: reported_def)
qed

text \<open>Steps of the client only change its phase and the master's flag.\<close>

lemma job_inv_client:
  assumes "job_inv finished G V s" "js_client s \<noteq> Waiting" "js_client s' \<noteq> Waiting"
    and "js_workers s' = js_workers s" "js_calls s' = js_calls s" "js_master s' = js_master s"
  shows "job_inv finished G V s'"
proof -
  have "sources_of s' = sources_of s" "\<And>i. reported i s' = reported i s" using assms(4-6) by (simp_all add: sources_of_def reported_def fun_eq_iff)
  with assms show ?thesis by (simp add: job_inv_def)
qed

lemma task_round_cases:
  assumes "task_round advance raises m w = (w', m')"
  shows "wr_source w' = wr_source w \<and> m' = m \<and> wr_task_running w' = wr_task_running w \<and> wr_running w' = wr_running w \<or>
    (\<exists>st st'. wr_source w = Some st \<and> advance st m = Inr (st', m') \<and> w' = w\<lparr>wr_source := Some st'\<rparr>)"
proof (cases "wr_thread_alive w \<and> wr_task_running w \<and> wr_source w \<noteq> None")
  case True
  then obtain st where st: "wr_source w = Some st" by blast
  with assms True show ?thesis by (cases "advance st m") (auto simp: task_round_def)
next
  case False
  then have "m' = m" "w' = w \<or> w' = w\<lparr>wr_thread_alive := False\<rparr> \<or> w' = w\<lparr>wr_thread_alive := \<not> raises\<rparr>"
    using assms by (auto simp: task_round_def split: if_splits option.splits)
  then show ?thesis by auto
qed

section \<open>Jobs end when their sources have\<close>

text \<open>
  What the life of a job needs of its sources: a step keeps their common invariant, a finished source stays finished, and the
  master's record of finished sources is none of their business.
\<close>

locale source_threads =
  fixes advance :: "string \<Rightarrow> 's \<Rightarrow> 'e job_master \<Rightarrow> ('s \<times> 'e job_master) result" and finished :: "'s \<Rightarrow> bool"
    and G :: "(string \<Rightarrow> 's option) \<Rightarrow> (nat, 'e) dict option \<Rightarrow> bool"
  assumes advance_inv: "G src (jm_split_manager m) \<Longrightarrow> src i = Some st \<Longrightarrow> advance i st m = Inr (st', m') \<Longrightarrow>
      G (src(i \<mapsto> st')) (jm_split_manager m')"
    and advance_master: "advance i st m = Inr (st', m') \<Longrightarrow> jm_sources_finished m' = jm_sources_finished m"
    and finished_stays: "G src (jm_split_manager m) \<Longrightarrow> src i = Some st \<Longrightarrow> finished st \<Longrightarrow> advance i st m = Inr (st', m') \<Longrightarrow> finished st'"
begin

lemma task_round_inv:
  assumes "job_inv finished G V s" "map_of (js_workers s) i = Some w" "task_round (advance i) raises (js_master s) w = (w', m')"
  shows "job_inv finished G V (set_worker i w' (s\<lparr>js_master := m'\<rparr>))"
proof -
  have G: "G (sources_of s) (jm_split_manager (js_master s))" using assms(1) by (simp add: job_inv_def)
  have src: "sources_of s i = wr_source w" using assms(2) by (simp add: sources_of_def)
  from task_round_cases [OF assms(3)] consider "wr_source w' = wr_source w" "m' = js_master s"
      "wr_task_running w' = wr_task_running w" "wr_running w' = wr_running w"
    | st st' where "wr_source w = Some st" "advance i st (js_master s) = Inr (st', m')" "w' = w\<lparr>wr_source := Some st'\<rparr>"
    by blast
  then show ?thesis
  proof cases
    case 1
    then show ?thesis using job_inv_same_source [OF assms(1,2) 1(1)] by simp
  next
    case 2
    with src have "sources_of s i = Some st" by simp
    from advance_inv [OF G this 2(2)] finished_stays [OF G this _ 2(2)] advance_master [OF 2(2)] 2(1,3) show ?thesis
      by (intro job_inv_set_worker [OF assms(1,2)]) auto
  qed
qed

lemma job_inv_step:
  assumes "job_step advance finished s s'" "job_inv finished G V s"
  shows "job_inv finished G V s'"
  using assms
proof (induction rule: job_step.induct)
  case (thread_step s i w raises w' m')
  then show ?case using task_round_inv by blast
next
  case (watch_step s i w w' calls)
  have w: "wr_source w' = wr_source w" "wr_task_running w' = wr_task_running w" "wr_running w' = wr_running w"
    "calls = [] \<or> calls = [i] \<and> (\<forall>st. sources_of s i = Some st \<longrightarrow> finished st)"
    using watch_step(1,2) by (auto simp: watch_round_def sources_of_def split: if_splits option.splits)
  let ?s = "s\<lparr>js_calls := js_calls s @ calls\<rparr>"
  have inv: "job_inv finished G V ?s" using w(4) watch_step(3) job_inv_call [OF watch_step(3)] by (elim disjE) auto
  show ?case by (rule job_inv_same_source [OF inv, where w = w]) (use watch_step(1) w(1-3) in auto)
next
  case (report_step i s)
  then show ?case using job_inv_report by blast
next
  case (wait_step s)
  let ?d = "jm_sources_finished (js_master s)"
  have "map_of ?d i = Some True" if "i \<in> V" for i
  proof -
    from that wait_step(3) obtain b where b: "(i, b) \<in> set ?d" unfolding job_inv_def by force
    have "all_sources_finished ?d" using wait_step by (auto simp: job_inv_def wait_over_def)
    then have b using b unfolding all_sources_finished_iff by force
    with b wait_step(3) show ?thesis by (simp add: job_inv_def wf_dict_def)
  qed
  moreover have "sources_of (s\<lparr>js_client := Sleeping\<rparr>) = sources_of s" by (simp add: sources_of_def fun_eq_iff)
  ultimately show ?case using wait_step(3) by (auto simp: job_inv_def reported_def)
next
  case (destroy_step s)
  then show ?case by (intro job_inv_client [OF destroy_step(2)]) (auto simp: destroy_def)
next
  case (close_step s i w raises)
  show ?case by (rule job_inv_same_source [OF close_step(3,2)]) (use close_step(1) in \<open>auto simp: worker_close_def task_close_def\<close>)
next
  case (exit_calls s)
  then show ?case by (intro job_inv_client [OF exit_calls(2)]) (auto simp: request_exit_def)
next
  case (exit_step s i w)
  show ?case by (rule job_inv_same_source [OF exit_step(3,2)]) (use exit_step(1) in \<open>auto simp: worker_exit_def\<close>)
qed

lemma job_inv_run:
  assumes "(job_step advance finished)\<^sup>*\<^sup>* s s'" "job_inv finished G V s"
  shows "job_inv finished G V s'"
  using assms by (induction rule: rtranclp_induct) (auto intro: job_inv_step)

lemma sources_finished_first:
  assumes "(job_step advance finished)\<^sup>*\<^sup>* s s'" "job_inv finished G V s" "js_client s' \<noteq> Waiting"
  shows "G (sources_of s') (jm_split_manager (js_master s'))" "i \<in> V \<Longrightarrow> \<exists>st. sources_of s' i = Some st \<and> finished st"
  using job_inv_run [OF assms(1,2)] assms(3) unfolding job_inv_def reported_def by blast+

text \<open>A source that never finishes keeps the client waiting.\<close>

lemma unfinished_waits:
  assumes "(job_step advance finished)\<^sup>*\<^sup>* s s'" "job_inv finished G V s" "i \<in> V"
    "\<And>src d st. G src d \<Longrightarrow> src i = Some st \<Longrightarrow> \<not> finished st"
  shows "js_client s' = Waiting"
  using sources_finished_first [OF assms(1,2)] assms(3,4) by blast

end

text \<open>
  Sources that never raise, and of which each finishes after some number of steps of its own, let the client go on, whatever
  happened before.
\<close>

locale source_threads_end = source_threads advance finished G
  for advance :: "string \<Rightarrow> 's \<Rightarrow> 'e job_master \<Rightarrow> ('s \<times> 'e job_master) result" and finished G +
  assumes advance_ok: "G src (jm_split_manager m) \<Longrightarrow> src i = Some st \<Longrightarrow> is_ok (advance i st m)"
    and finishes: "G src (jm_split_manager m) \<Longrightarrow> src i = Some st \<Longrightarrow> \<exists>n st' m'. advances (advance i) n st m = Inr (st', m') \<and> finished st'"
begin

lemma live_inv_step:
  assumes "job_step advance finished s s'" "job_inv finished G V s" "live_inv V s"
  shows "live_inv V s'"
  using assms
proof (induction rule: job_step.induct)
  case (thread_step s i w raises w' m')
  have G: "G (sources_of s) (jm_split_manager (js_master s))" using thread_step(3) by (simp add: job_inv_def)
  have alive: "wr_thread_alive w'" if wait: "js_client s = Waiting" and i: "i \<in> V"
  proof -
    from i thread_step(1,3) obtain st where st: "wr_source w = Some st" "sources_of s i = Some st"
      unfolding job_inv_def sources_of_def by fastforce
    have "wr_thread_alive w" "wr_task_running w" using thread_step(1,3,4) wait i by (auto simp: live_inv_def job_inv_def)
    with advance_ok [OF G st(2)] st(1) thread_step(2) show ?thesis by (auto simp: task_round_def is_ok_iff)
  qed
  have "wr_watcher_alive w' = wr_watcher_alive w"
    using thread_step(2) by (auto simp: task_round_def split: if_splits option.splits sum.splits)
  moreover have "jm_sources_finished m' = jm_sources_finished (js_master s)"
    using task_round_cases [OF thread_step(2)] advance_master by auto
  ultimately show ?case using alive thread_step(1,4) by (auto simp: live_inv_def reported_def)
next
  case (watch_step s i w w' calls)
  have "wr_thread_alive w' = wr_thread_alive w" "calls = [i] \<or> wr_watcher_alive w' = wr_watcher_alive w \<or> \<not> wr_running w"
    using watch_step(2) by (auto simp: watch_round_def split: if_splits option.splits)
  moreover have "wr_running w" if "js_client s = Waiting" using watch_step(1,3) that by (auto simp: job_inv_def)
  ultimately show ?case using watch_step(1,4) by (auto simp: live_inv_def reported_def)
next
  case (report_step i s)
  then show ?case using reported_kept [OF report_step(2)] by (auto simp: live_inv_def)
qed (auto simp: live_inv_def destroy_def request_exit_def)

lemma run_inv:
  assumes "(job_step advance finished)\<^sup>*\<^sup>* s s'" "job_inv finished G V s" "live_inv V s"
  shows "job_inv finished G V s' \<and> live_inv V s'"
  using assms by (induction rule: rtranclp_induct) (auto intro: job_inv_step live_inv_step)

lemma run_thread:
  assumes "advances (advance i) n st (js_master s) = Inr (st', m')" "map_of (js_workers s) i = Some w" "wr_source w = Some st"
    "wr_thread_alive w" "wr_task_running w"
  shows "\<exists>s' w'. (job_step advance finished)\<^sup>*\<^sup>* s s' \<and> map_of (js_workers s') i = Some w' \<and> wr_source w' = Some st' \<and>
    js_client s' = js_client s \<and> jm_sources_finished (js_master s') = jm_sources_finished (js_master s) \<and> js_calls s' = js_calls s"
  using assms
proof (induction n arbitrary: st s w)
  case (Suc n)
  from Suc.prems(1) obtain st1 m1 where st1: "advance i st (js_master s) = Inr (st1, m1)" "advances (advance i) n st1 m1 = Inr (st', m')" by auto
  let ?w = "w\<lparr>wr_source := Some st1\<rparr>" let ?s = "set_worker i ?w (s\<lparr>js_master := m1\<rparr>)"
  have "task_round (advance i) False (js_master s) w = (?w, m1)" using Suc.prems st1(1) by (simp add: task_round_def)
  from job_step.thread_step [where advance = advance and finished = finished, OF Suc.prems(2) this] have step: "job_step advance finished s ?s" .
  from Suc.IH [of st1 ?s ?w] st1(2) Suc.prems(4,5) advance_master [OF st1(1)] obtain s' w' where
    "(job_step advance finished)\<^sup>*\<^sup>* ?s s'" "map_of (js_workers s') i = Some w'" "wr_source w' = Some st'"
    "js_client s' = js_client s" "jm_sources_finished (js_master s') = jm_sources_finished (js_master s)" "js_calls s' = js_calls s" by auto
  with converse_rtranclp_into_rtranclp [of "job_step advance finished", OF step] show ?case by blast
qed auto

lemma report_call:
  assumes "job_inv finished G V s" "i \<in> V" "i \<in> set (js_calls s)"
  shows "\<exists>s'. job_step advance finished s s' \<and> js_client s' = js_client s \<and> map_of (jm_sources_finished (js_master s')) i = Some True \<and>
    (\<forall>j. map_of (jm_sources_finished (js_master s)) j = Some True \<longrightarrow> map_of (jm_sources_finished (js_master s')) j = Some True)"
proof -
  from assms(1) have "fst ` set (jm_sources_finished (js_master s)) = V" by (simp add: job_inv_def)
  from source_reported_sources [OF this, of i] assms(2) show ?thesis
    by (intro exI [of _ "source_reported i s"]) (auto intro: job_step.report_step [OF assms(3)])
qed

lemma source_gets_reported:
  assumes inv: "job_inv finished G V s" "live_inv V s" and wait: "js_client s = Waiting" and i: "i \<in> V" "\<not> reported i s"
  shows "\<exists>s'. (job_step advance finished)\<^sup>*\<^sup>* s s' \<and> js_client s' = Waiting \<and> i \<in> set (js_calls s') \<and>
    jm_sources_finished (js_master s') = jm_sources_finished (js_master s)"
proof -
  have G: "G (sources_of s) (jm_split_manager (js_master s))" using inv(1) by (simp add: job_inv_def)
  from inv(1) i(1) obtain st where st: "sources_of s i = Some st" unfolding job_inv_def by blast
  then obtain w where w: "map_of (js_workers s) i = Some w" "wr_source w = Some st" by (auto simp: sources_of_def bind_eq_Some_conv)
  have fl: "wr_thread_alive w" "wr_task_running w" using inv wait i(1) w(1) by (auto simp: live_inv_def job_inv_def)
  from finishes [OF G st] obtain n st' m' where st': "advances (advance i) n st (js_master s) = Inr (st', m')" "finished st'" by blast
  from run_thread [OF st'(1) w(1,2) fl] obtain s1 w1 where s1: "(job_step advance finished)\<^sup>*\<^sup>* s s1" "map_of (js_workers s1) i = Some w1"
    "wr_source w1 = Some st'" "js_client s1 = Waiting" "jm_sources_finished (js_master s1) = jm_sources_finished (js_master s)"
    "js_calls s1 = js_calls s" using wait by auto
  have "wr_watcher_alive w1" "wr_running w1"
    using run_inv [OF s1(1) inv] s1(2,4-6) i by (auto simp: live_inv_def job_inv_def reported_def)
  then have "watch_round finished i w1 = (w1\<lparr>wr_watcher_alive := False\<rparr>, [i])" using s1(3) st'(2) by (simp add: watch_round_def)
  from job_step.watch_step [OF s1(2) this, of advance] s1 show ?thesis
    by (intro exI [of _ "set_worker i (w1\<lparr>wr_watcher_alive := False\<rparr>) (s1\<lparr>js_calls := js_calls s1 @ [i]\<rparr>)"]) (auto intro: rtranclp.rtrancl_into_rtrancl)
qed

lemma source_gets_noted:
  assumes inv: "job_inv finished G V s" "live_inv V s" and wait: "js_client s = Waiting" and i: "i \<in> V"
  shows "\<exists>s'. (job_step advance finished)\<^sup>*\<^sup>* s s' \<and> js_client s' = Waiting \<and> map_of (jm_sources_finished (js_master s')) i = Some True \<and>
    (\<forall>j. map_of (jm_sources_finished (js_master s)) j = Some True \<longrightarrow> map_of (jm_sources_finished (js_master s')) j = Some True)"
proof -
  have noted: ?thesis if "i \<in> set (js_calls s1)" "(job_step advance finished)\<^sup>*\<^sup>* s s1" "js_client s1 = Waiting"
    "jm_sources_finished (js_master s1) = jm_sources_finished (js_master s)" for s1
    using report_call [of V s1 i] run_inv [OF that(2) inv] i that by (metis rtranclp.rtrancl_into_rtrancl)
  show ?thesis
  proof (cases "reported i s")
    case True
    then show ?thesis using noted [of s] wait by (auto simp: reported_def)
  next
    case False
    with source_gets_reported [OF inv wait i] noted show ?thesis by blast
  qed
qed

lemma all_sources_get_noted:
  assumes "set is \<subseteq> V" "job_inv finished G V s" "live_inv V s" "js_client s = Waiting"
  shows "\<exists>s'. (job_step advance finished)\<^sup>*\<^sup>* s s' \<and> js_client s' = Waiting \<and> (\<forall>i \<in> set is. map_of (jm_sources_finished (js_master s')) i = Some True) \<and>
    (\<forall>j. map_of (jm_sources_finished (js_master s)) j = Some True \<longrightarrow> map_of (jm_sources_finished (js_master s')) j = Some True)"
  using assms
proof (induction "is" arbitrary: s)
  case (Cons i "is")
  from source_gets_noted [OF Cons.prems(2-4), of i] Cons.prems(1) obtain s1 where
    s1: "(job_step advance finished)\<^sup>*\<^sup>* s s1" "js_client s1 = Waiting" "map_of (jm_sources_finished (js_master s1)) i = Some True"
    "\<forall>j. map_of (jm_sources_finished (js_master s)) j = Some True \<longrightarrow> map_of (jm_sources_finished (js_master s1)) j = Some True" by auto
  from Cons.IH [of s1] Cons.prems(1) run_inv [OF s1(1) Cons.prems(2,3)] s1(2) obtain s2 where
    "(job_step advance finished)\<^sup>*\<^sup>* s1 s2" "js_client s2 = Waiting" "\<forall>i \<in> set is. map_of (jm_sources_finished (js_master s2)) i = Some True"
    "\<forall>j. map_of (jm_sources_finished (js_master s1)) j = Some True \<longrightarrow> map_of (jm_sources_finished (js_master s2)) j = Some True" by auto
  with s1 show ?case by (intro exI [of _ s2]) auto
qed auto

lemma client_goes_on:
  assumes "job_inv finished G V s" "live_inv V s"
  shows "\<exists>s'. (job_step advance finished)\<^sup>*\<^sup>* s s' \<and> js_client s' \<noteq> Waiting"
proof (cases "js_client s = Waiting")
  case True
  have V: "V = set (map fst (jm_sources_finished (js_master s)))" using assms(1) by (simp add: job_inv_def)
  from all_sources_get_noted [of "map fst (jm_sources_finished (js_master s))" V, OF _ assms True] obtain s1 where
    s1: "(job_step advance finished)\<^sup>*\<^sup>* s s1" "js_client s1 = Waiting" "\<forall>i \<in> V. map_of (jm_sources_finished (js_master s1)) i = Some True" using V by auto
  let ?d = "jm_sources_finished (js_master s1)"
  have d: "wf_dict ?d" "fst ` set ?d = V" using run_inv [OF s1(1) assms] by (simp_all add: job_inv_def)
  have "snd x" if x: "x \<in> set ?d" for x
  proof -
    have "map_of ?d (fst x) = Some (snd x)" using d(1) x by (simp add: wf_dict_def)
    moreover have "map_of ?d (fst x) = Some True" using s1(3) d(2) x by blast
    ultimately show ?thesis by simp
  qed
  then have "wait_over s1" by (simp add: wait_over_def all_sources_finished_iff)
  from job_step.wait_step [where advance = advance and finished = finished, OF s1(2) this] s1(1) show ?thesis
    by (intro exI [of _ "s1\<lparr>js_client := Sleeping\<rparr>"]) (auto intro: rtranclp.rtrancl_into_rtrancl)
qed auto

end

section \<open>The start of a job\<close>

lemma map_of_rmap:
  assumes "rmap (\<lambda>(i, v). rbind (f v) (\<lambda>w. Inr (i, w))) xs = Inr ws" "map_of xs i = Some v"
  shows "\<exists>w. f v = Inr w \<and> map_of ws i = Some w"
  using assms by (induction xs arbitrary: ws) (auto split: if_splits sum.splits)

lemma map_of_rmap_back:
  assumes "rmap (\<lambda>(i, v). rbind (f v) (\<lambda>w. Inr (i, w))) xs = Inr ws" "map_of ws i = Some w"
  shows "\<exists>v. map_of xs i = Some v \<and> f v = Inr w"
  using assms by (induction xs arbitrary: ws) (auto split: if_splits sum.splits)

text \<open>The vertices a job runs: keys are ids, and each is an instance of a vertex of the job graph.\<close>

lemma job_vertices:
  assumes jg: "graph_expandable jg" and g: "from_job_graph jg = Inr g0" "set_resources to_float rc g0 = Inr g"
  shows "distinct (map fst (eg_by_id g))"
    "(i, v) \<in> set (eg_by_id g) \<Longrightarrow> i = ev_id v \<and> ev_job_vertex v \<in> set (jg_job_vertices jg) \<and> ev_parallelism v = jv_parallelism (ev_job_vertex v) \<and>
      ev_index v < jv_parallelism (ev_job_vertex v)"
proof -
  define p where "p = (\<lambda>(i :: string, v :: 'a exec_vertex). (i, vertex_core v, ev_parallelism v))"
  from g(2) obtain a where a: "rmap (\<lambda>(i, v). rbind (set_resource to_float rc v) (\<lambda>v'. Inr (i, v'))) (eg_by_id g0) = Inr a" "eg_by_id g = a"
    by (auto simp: set_resources_def)
  have eg: "eg_by_id g0 = map (\<lambda>v. (ev_id v, v)) (concat (map exec_vertices_of (jg_job_vertices jg)))"
    using from_job_graph_closed [OF jg] g(1) by auto
  have core: "map p (eg_by_id g) = map p (eg_by_id g0)"
    unfolding a(2) by (rule rmap_project [OF a(1)]) (auto simp: p_def set_resource_def vertex_core_def)
  have "distinct (map fst (eg_by_id g0))"
    using distinct_ev_ids [of "jg_job_vertices jg"] jg unfolding eg by (simp add: graph_expandable_def o_def)
  then show "distinct (map fst (eg_by_id g))" unfolding job_exec_graph(1) [OF jg g] .
  assume "(i, v) \<in> set (eg_by_id g)"
  then have "p (i, v) \<in> set (map p (eg_by_id g0))" unfolding core [symmetric] set_map by (rule imageI)
  then obtain u where u: "u \<in> set (concat (map exec_vertices_of (jg_job_vertices jg)))" "p (i, v) = p (ev_id u, u)" unfolding eg by auto
  then show "i = ev_id v \<and> ev_job_vertex v \<in> set (jg_job_vertices jg) \<and> ev_parallelism v = jv_parallelism (ev_job_vertex v) \<and>
      ev_index v < jv_parallelism (ev_job_vertex v)"
    by (auto simp: p_def vertex_core_def ev_id_def exec_vertices_of_def)
qed

lemma create_source_task:
  "create_stream_task set_list g v = Inr SourceStreamTask \<longleftrightarrow> op_type (jv_stream_operator (ev_job_vertex v)) = SOURCE_OP"
  by (auto simp: create_stream_task_def rbind_def split: operator_type.splits sum.splits list.splits)

lemma job_start_sources:
  assumes "job_start open_source set_list m g = Inr s"
  shows "sources_of s i = Some st \<longleftrightarrow> (\<exists>v. map_of (eg_by_id g) i = Some v \<and>
    op_type (jv_stream_operator (ev_job_vertex v)) = SOURCE_OP \<and> open_source v = Inr st)"
proof -
  let ?start = "start_or_rollback open_source set_list g"
  from assms obtain ws where ws: "rmap (\<lambda>(i, v). rbind (?start v) (\<lambda>w. Inr (i, w))) (eg_by_id g) = Inr ws" "js_workers s = ws"
    by (auto simp: job_start_def)
  have src: "wr_source w = Some st \<longleftrightarrow> op_type (jv_stream_operator (ev_job_vertex v)) = SOURCE_OP \<and> open_source v = Inr st" if "?start v = Inr w" for v w
    using that unfolding create_source_task [symmetric, where set_list = set_list and g = g] by (auto simp: start_or_rollback_def split: if_splits)
  show ?thesis
  proof
    assume "sources_of s i = Some st"
    then obtain w where w: "map_of ws i = Some w" "wr_source w = Some st" by (auto simp: sources_of_def ws(2) bind_eq_Some_conv)
    from map_of_rmap_back [OF ws(1) w(1)] src w(2) show "\<exists>v. map_of (eg_by_id g) i = Some v \<and>
      op_type (jv_stream_operator (ev_job_vertex v)) = SOURCE_OP \<and> open_source v = Inr st" by blast
  next
    assume "\<exists>v. map_of (eg_by_id g) i = Some v \<and> op_type (jv_stream_operator (ev_job_vertex v)) = SOURCE_OP \<and> open_source v = Inr st"
    with map_of_rmap [OF ws(1)] src show "sources_of s i = Some st" by (fastforce simp: sources_of_def ws(2))
  qed
qed

lemma job_start_opens:
  assumes "job_start open_source set_list m g = Inr s" "map_of (eg_by_id g) i = Some v" "op_type (jv_stream_operator (ev_job_vertex v)) = SOURCE_OP"
  shows "\<exists>st. open_source v = Inr st"
proof -
  from assms(1) obtain ws where "rmap (\<lambda>(i, v). rbind (start_or_rollback open_source set_list g v) (\<lambda>w. Inr (i, w))) (eg_by_id g) = Inr ws"
    by (auto simp: job_start_def)
  from map_of_rmap [OF this assms(2)] assms(3) show ?thesis by (auto simp: start_or_rollback_def create_stream_task_def)
qed

lemma job_start_inv:
  assumes start: "job_start open_source set_list m g = Inr s" and d: "distinct (map fst (eg_by_id g))" "\<forall>(i, v) \<in> set (eg_by_id g). i = ev_id v"
    and src: "\<forall>v \<in> set (eg_source_vertices g). op_type (jv_stream_operator (ev_job_vertex v)) = SOURCE_OP"
    and m: "jm_sources_finished m = init_sources g" and G: "G (sources_of s) (jm_split_manager m)"
  shows "job_inv finished G (ev_id ` set (eg_source_vertices g)) s \<and> live_inv (ev_id ` set (eg_source_vertices g)) s"
proof -
  let ?V = "ev_id ` set (eg_source_vertices g)"
  let ?start = "start_or_rollback open_source set_list g"
  from start obtain ws where ws: "rmap (\<lambda>(i, v). rbind (?start v) (\<lambda>w. Inr (i, w))) (eg_by_id g) = Inr ws"
    "s = \<lparr>js_workers = ws, js_calls = [], js_master = m, js_running = True, js_client = Waiting\<rparr>"
    by (auto simp: job_start_def)
  have flags: "wr_task_running w \<and> wr_running w \<and> wr_thread_alive w \<and> wr_watcher_alive w" if w: "map_of ws i = Some w" for i w
  proof -
    obtain v where "?start v = Inr w" using map_of_rmap_back [OF ws(1) w] by blast
    then show ?thesis by (auto simp: start_or_rollback_def)
  qed
  have source: "\<exists>st. sources_of s i = Some st" if i: "i \<in> ?V" for i
  proof -
    from i obtain v where v: "v \<in> set (eg_source_vertices g)" "i = ev_id v" by blast
    then have "(i, v) \<in> set (eg_by_id g)" using d(2) by (auto simp: eg_source_vertices_def dict_values_def)
    with d(1) have l: "map_of (eg_by_id g) i = Some v" by simp
    with job_start_opens [OF start l] job_start_sources [OF start] src v(1) show ?thesis by blast
  qed
  have none: "\<not> reported i s" for i using init_sources_facts(3) [of g i True] by (auto simp: reported_def ws(2) m)
  have "job_inv finished G ?V s" unfolding job_inv_def
    using none source flags G init_sources_facts(1,2) [of g] by (simp add: ws(2) m)
  moreover have "live_inv ?V s" using flags by (auto simp: live_inv_def ws(2))
  ultimately show ?thesis ..
qed

lemma schedule_job_keeps:
  assumes "schedule_job host start_answer job g m = Inr (run, m')"
  shows "jm_sources_finished m' = jm_sources_finished m" "jm_split_manager m' = jm_split_manager m"
  using assms by (auto simp: schedule_job_def)

text \<open>What a new master has recorded about a job it accepted.\<close>

lemma submitted_master:
  assumes "submit_job to_float rc enum_of host start_answer job jg (jm_init all_nodes) = Inr (run, m)"
    and "from_job_graph jg = Inr g0" "set_resources to_float rc g0 = Inr g"
    and "rfold (add_enumerator enum_of) (get_source_vertices jg) [] = Inr d"
  shows "jm_sources_finished m = init_sources g" "jm_split_manager m = (if length d \<noteq> 0 then Some d else None)"
proof -
  from assms(2-4) have "submit_job to_float rc enum_of host start_answer job jg (jm_init all_nodes) =
    schedule_job host start_answer job g ((jm_init all_nodes)\<lparr>jm_sources_finished := init_sources g,
      jm_split_manager := (if length d \<noteq> 0 then Some d else None)\<rparr>)"
    by (simp add: submit_job_def init_source_split_manager_def jm_init_def init_sources_def)
  with assms(1) have "schedule_job host start_answer job g ((jm_init all_nodes)\<lparr>jm_sources_finished := init_sources g,
      jm_split_manager := (if length d \<noteq> 0 then Some d else None)\<rparr>) = Inr (run, m)" by simp
  from schedule_job_keeps [OF this] show "jm_sources_finished m = init_sources g"
    "jm_split_manager m = (if length d \<noteq> 0 then Some d else None)" by simp_all
qed

end
