(* ===== verification/Job_Sources.thy ===== *)
theory Job_Sources
  imports Job_Lifecycle
begin

text \<open>
  The source functions of the repository as the sources of a job: collections, text files and the word-count source
  (\<open>api/function/function.py\<close>, \<open>runtime/sources/wordcount/source.py\<close>), at the granularity of single records and single calls to the
  master, because watchers and other tasks run in between. The theorems say what a job has emitted when the client
  destroys it, and which jobs end.
\<close>

section \<open>Source threads\<close>

text \<open>
  A task over a collection: \<open>fetch\<close> begins, collects the next value, or ends by dropping the values it held. The first component
  is the position of the loop, \<open>None\<close> between two calls of \<open>fetch\<close>.
\<close>

type_synonym ('k, 'v, 'd) collection_thread = "'v list option \<times> 'v source_function \<times> ('k, 'v, 'd) src_ctx"

fun held_values :: "'v source_function \<Rightarrow> 'v list option" where
  "held_values (CollectionSourceFunction all_values vs n) = vs"
| "held_values (DelayedCollectionSourceFunction all_values vs n) = vs"

fun drop_values :: "'v source_function \<Rightarrow> 'v source_function" where
  "drop_values (CollectionSourceFunction all_values vs n) = CollectionSourceFunction all_values (Some []) n"
| "drop_values (DelayedCollectionSourceFunction all_values vs n) = DelayedCollectionSourceFunction all_values (Some []) n"

fun collection_advance ::
    "(('k, 'v) srec \<Rightarrow> rat result) option \<Rightarrow> (nat \<Rightarrow> int) \<Rightarrow> ('k, 'v, 'd) collection_thread \<Rightarrow> ('k, 'v, 'd) collection_thread result" where
  "collection_advance assigner clk (None, f, c) =
     (case held_values f of None \<Rightarrow> Inl TypeError | Some vs \<Rightarrow> Inr (Some vs, f, c))"
| "collection_advance assigner clk (Some [], f, c) = Inr (None, drop_values f, c)"
| "collection_advance assigner clk (Some (v # vs), f, c) = rbind (ctx_collect assigner clk v c) (\<lambda>c'. Inr (Some vs, f, c'))"

text \<open>A word-count task: get the current split, collect its words one by one, poll the next split.\<close>

type_synonym 'k word_ctx = "('k, string, (string, nat) dict) src_ctx"

fun word_advance ::
    "('m \<Rightarrow> ((string, nat) dict source_split \<times> 'm) result) \<Rightarrow> (('k, string) srec \<Rightarrow> rat result) option \<Rightarrow> (nat \<Rightarrow> int) \<Rightarrow>
     string list option \<times> 'k word_ctx \<Rightarrow> 'm \<Rightarrow> ((string list option \<times> 'k word_ctx) \<times> 'm) result" where
  "word_advance poll assigner clk (None, c) m =
     rbind (get_current_split poll c m) (\<lambda>(split, c', m').
       Inr (case split of END_OF_INPUT \<Rightarrow> (None, c') | MORE_AVAILABLE words \<Rightarrow> (Some (split_words words), c'), m'))"
| "word_advance poll assigner clk (Some (w # ws), c) m = rbind (ctx_collect assigner clk w c) (\<lambda>c'. Inr ((Some ws, c'), m))"
| "word_advance poll assigner clk (Some [], c) m = rbind (ctx_poll_next_split poll c m) (\<lambda>(_, c', m'). Inr ((None, c'), m'))"

text \<open>What a source operator is built from, and the state of its task.\<close>

datatype 'v source_spec = CollectionOf bool "'v list" | TextFile string | WordCount

datatype ('k, 'v, 'd) source_run =
    CollectionRun "('k, 'v, 'd) collection_thread"
  | FileRun string bool "('k, string, 'd) src_ctx"
  | WordRun nat "string list option" "'k word_ctx"

fun source_function_of :: "'o stream_op \<Rightarrow> 'o result" where
  "source_function_of (Op _ SOURCE_OP f) = Inr f"
| "source_function_of (ChainedOp (Op _ SOURCE_OP f # _)) = Inr f"
| "source_function_of _ = Inl AssertionError"

text \<open>
  \<open>SourceOperator.open\<close>: the function is initialised with the task's place among its siblings. File and word-count sources do not
  implement \<open>num_records\<close>, so their contexts have none.
\<close>

definition open_source :: "('o \<Rightarrow> 'v source_spec) \<Rightarrow> (nat \<Rightarrow> nat) \<Rightarrow> 'o exec_vertex \<Rightarrow> ('k, 'v, 'd) source_run result" where
  "open_source spec num_collectors v =
     (let operator_id = jv_vertex_id (ev_job_vertex v); n = num_collectors operator_id
      in rbind (source_function_of (jv_stream_operator (ev_job_vertex v))) (\<lambda>f.
         case spec f of
           CollectionOf delayed vals \<Rightarrow>
             rbind (source_open n (ev_parallelism v) (ev_index v) (collection_source delayed vals)) (\<lambda>(func, c). Inr (CollectionRun (None, func, c)))
         | TextFile contents \<Rightarrow>
             rbind (local_file_init (ev_parallelism v)) (\<lambda>fetched. Inr (FileRun contents fetched (source_context_init n None)))
         | WordCount \<Rightarrow> Inr (WordRun operator_id None (source_context_init n None))))"

fun run_finished :: "('k, 'v, 'd) source_run \<Rightarrow> bool" where
  "run_finished (CollectionRun (pos, f, c)) = ctx_finished c"
| "run_finished (FileRun contents fetched c) = ctx_finished c"
| "run_finished (WordRun operator_id pos c) = ctx_finished c"

fun run_advance ::
    "(('k, 'v) srec \<Rightarrow> rat result) option \<Rightarrow> (('k, string) srec \<Rightarrow> rat result) option \<Rightarrow> (nat \<Rightarrow> int) \<Rightarrow>
     ('k, 'v, 'd) source_run \<Rightarrow> word_enum job_master \<Rightarrow> (('k, 'v, 'd) source_run \<times> word_enum job_master) result" where
  "run_advance assigner text_assigner clk (CollectionRun t) m =
     rbind (collection_advance assigner clk t) (\<lambda>t'. Inr (CollectionRun t', m))"
| "run_advance assigner text_assigner clk (FileRun contents fetched c) m =
     rbind (local_file_fetch text_assigner clk contents (fetched, c)) (\<lambda>(fetched', c'). Inr (FileRun contents fetched' c', m))"
| "run_advance assigner text_assigner clk (WordRun operator_id pos c) m =
     rbind (word_advance (poll_next_source_split word_poll operator_id) text_assigner clk (pos, c) m) (\<lambda>((pos', c'), m').
       Inr (WordRun operator_id pos' c', m'))"

section \<open>Steps and whole fetches\<close>

text \<open>Run to its end without interruption, one \<open>fetch\<close> in single steps is the fetch of the functions.\<close>

definition collection_step where
  "collection_step assigner clk t m = rbind (collection_advance assigner clk t) (\<lambda>t'. Inr (t', m))"

lemma advances_collect:
  "rfold (ctx_collect assigner clk) vs c = Inr c' \<Longrightarrow>
   advances (collection_step assigner clk) (length vs) (Some vs, f, c) m = Inr ((Some [], f, c'), m)"
  by (induction vs arbitrary: c) (auto simp: collection_step_def split: sum.splits)

lemma advances_is_source_fetch:
  assumes "held_values f = Some vs" "source_fetch assigner clk (f, c) = Inr (f', c')"
  shows "advances (collection_step assigner clk) (length vs + 2) (None, f, c) m = Inr ((None, f', c'), m)"
proof -
  from assms have c': "rfold (ctx_collect assigner clk) vs c = Inr c'" "f' = drop_values f" by (cases f; auto)+
  have "advances (collection_step assigner clk) (length vs + 1) (Some vs, f, c) m = Inr ((None, f', c'), m)"
    by (rule advances_trans [OF advances_collect [OF c'(1)]]) (simp add: collection_step_def c'(2))
  with assms(1) show ?thesis by (simp add: collection_step_def)
qed

lemma advances_words:
  "rfold (ctx_collect assigner clk) ws c = Inr c' \<Longrightarrow>
   advances (word_advance poll assigner clk) (length ws) (Some ws, c) m = Inr ((Some [], c'), m)"
  by (induction ws arbitrary: c) (auto split: sum.splits)

lemma advances_is_word_fetch:
  assumes "word_fetch poll assigner clk c m = Inr (c', m')"
  shows "\<exists>n. advances (word_advance poll assigner clk) n (None, c) m = Inr ((None, c'), m')"
proof -
  from assms obtain split c1 m1 where g: "get_current_split poll c m = Inr (split, c1, m1)" by (auto simp: word_fetch_def)
  show ?thesis
  proof (cases split)
    case END_OF_INPUT
    with assms g have "advances (word_advance poll assigner clk) 1 (None, c) m = Inr ((None, c'), m')" by (simp add: word_fetch_def)
    then show ?thesis ..
  next
    case (MORE_AVAILABLE words)
    with assms g obtain c2 sp where c2: "rfold (ctx_collect assigner clk) (split_words words) c1 = Inr c2"
      "ctx_poll_next_split poll c2 m1 = Inr (sp, c', m')" by (auto simp: word_fetch_def)
    have "advances (word_advance poll assigner clk) 1 (None, c) m = Inr ((Some (split_words words), c1), m1)"
      using g MORE_AVAILABLE by simp
    from advances_trans [OF this] have "advances (word_advance poll assigner clk) (1 + (length (split_words words) + 1)) (None, c) m = Inr ((None, c'), m')"
      if "advances (word_advance poll assigner clk) (length (split_words words) + 1) (Some (split_words words), c1) m1 = Inr ((None, c'), m')"
      using that .
    moreover have "advances (word_advance poll assigner clk) (length (split_words words) + 1) (Some (split_words words), c1) m1 = Inr ((None, c'), m')"
      by (rule advances_trans [OF advances_words [OF c2(1)]]) (simp add: c2(2))
    ultimately show ?thesis by blast
  qed
qed

section \<open>Collections\<close>

text \<open>Some prefix of the chunk \<open>vs\<close> was collected, and the flag is set when a chunk that is not empty was collected completely.\<close>

definition collection_inv ::
    "(('k, 'v) srec \<Rightarrow> rat result) option \<Rightarrow> (nat \<Rightarrow> int) \<Rightarrow> nat \<Rightarrow> 'v list \<Rightarrow> ('k, 'v, 'd) collection_thread \<Rightarrow> bool" where
  "collection_inv assigner clk n vs = (\<lambda>(pos, f, c). ctx_num_records c = Some (length vs) \<and>
     (\<exists>sent rest. sent @ rest = vs \<and> ctx_out c = replicate n (emitted_from assigner clk 0 sent) \<and>
        ctx_num_fetched_records c = length sent \<and> (ctx_finished c \<longleftrightarrow> vs \<noteq> [] \<and> rest = []) \<and>
        (pos = Some rest \<or> pos = None \<and> held_values f = Some rest)))"

lemma collection_inv_advance:
  assumes ok: "assigner_ok assigner" and "collection_inv assigner clk n vs (pos, f, c)"
  shows "\<exists>pos' f' c'. collection_advance assigner clk (pos, f, c) = Inr (pos', f', c') \<and> collection_inv assigner clk n vs (pos', f', c') \<and>
    (ctx_finished c \<longrightarrow> ctx_finished c')"
proof -
  from assms obtain sent rest where *: "ctx_num_records c = Some (length vs)" "sent @ rest = vs"
    "ctx_out c = replicate n (emitted_from assigner clk 0 sent)" "ctx_num_fetched_records c = length sent"
    "ctx_finished c \<longleftrightarrow> vs \<noteq> [] \<and> rest = []" "pos = Some rest \<or> pos = None \<and> held_values f = Some rest"
    by (auto simp: collection_inv_def)
  show ?thesis
  proof (cases pos)
    case None
    with * have "collection_inv assigner clk n vs (Some rest, f, c)" by (auto simp: collection_inv_def)
    with None * show ?thesis by simp
  next
    case (Some rs)
    show ?thesis
    proof (cases rs)
      case Nil
      have "held_values (drop_values f) = Some []" by (cases f) auto
      with * Nil Some have "collection_inv assigner clk n vs (None, drop_values f, c)" by (auto simp: collection_inv_def)
      with Some Nil show ?thesis by simp
    next
      case (Cons v rs')
      with * Some have vs: "vs = (sent @ [v]) @ rs'" "\<not> ctx_finished c" by auto
      obtain c' where c': "ctx_collect assigner clk v c = Inr c'" "ctx_num_records c' = Some (length vs)" "ctx_num_fetched_records c' = length (sent @ [v])"
        "ctx_out c' = replicate n (emitted_from assigner clk 0 (sent @ [v]))" "ctx_finished c' \<longleftrightarrow> rs' = []"
        using *(1,3,4) vs by (simp add: ctx_collect_ok [OF ok] Let_def emitted_from_append)
      have "collection_inv assigner clk n vs (Some rs', f, c')"
        unfolding collection_inv_def using c' vs(1) by (auto intro!: exI [of _ "sent @ [v]"])
      with c'(1) vs(2) Some Cons show ?thesis by simp
    qed
  qed
qed

lemma collection_inv_finishes:
  assumes ok: "assigner_ok assigner" and "collection_inv assigner clk n vs (pos, f, c)" "vs \<noteq> []"
  shows "\<exists>k c'. advances (collection_step assigner clk) k (pos, f, c) m = Inr ((Some [], f, c'), m) \<and> ctx_finished c'"
proof -
  from assms obtain sent rest where *: "ctx_num_records c = Some (length vs)" "sent @ rest = vs"
    "ctx_num_fetched_records c = length sent" "ctx_finished c \<longleftrightarrow> vs \<noteq> [] \<and> rest = []" "pos = Some rest \<or> pos = None \<and> held_values f = Some rest"
    by (auto simp: collection_inv_def)
  from ctx_collect_all [OF ok, of clk rest c] *(1-4) assms(3) obtain c' where
    c': "rfold (ctx_collect assigner clk) rest c = Inr c'" "ctx_finished c'" by auto
  note run = advances_collect [OF c'(1), of f m]
  from *(5) show ?thesis
  proof
    assume "pos = Some rest"
    with run c'(2) show ?thesis by blast
  next
    assume "pos = None \<and> held_values f = Some rest"
    with run have "advances (collection_step assigner clk) (Suc (length rest)) (pos, f, c) m = Inr ((Some [], f, c'), m)"
      by (simp add: collection_step_def)
    with c'(2) show ?thesis by blast
  qed
qed

section \<open>The word-count source\<close>

text \<open>Words a task holds: those its loop has still to collect, or those of its split when the loop has not begun.\<close>

definition word_left :: "string list option \<Rightarrow> 'k word_ctx \<Rightarrow> string multiset" where
  "word_left pos c = (case pos of Some ws \<Rightarrow> mset ws | None \<Rightarrow> pending c)"

definition word_inv :: "nat \<Rightarrow> string list option \<Rightarrow> 'k word_ctx \<Rightarrow> bool" where
  "word_inv n pos c \<longleftrightarrow> task_inv n c \<and> (pos \<noteq> None \<longrightarrow> \<not> ctx_finished c)"

text \<open>A poll of the master hands the words of a split over to the task.\<close>

lemma master_poll:
  assumes m: "jm_split_manager m = Some D" "map_of D op = Some e" and e: "word_enum_inv e"
  shows "\<exists>split m' D' e'. poll_next_source_split word_poll op m = Inr (split, m') \<and> jm_split_manager m' = Some D' \<and>
    jm_sources_finished m' = jm_sources_finished m \<and> map_of D' = (map_of D)(op \<mapsto> e') \<and> word_enum_inv e' \<and>
    we_num_msgs_per_split e' = we_num_msgs_per_split e \<and>
    words_remaining e = (case split of MORE_AVAILABLE words \<Rightarrow> mset (split_words words) | END_OF_INPUT \<Rightarrow> {#}) + words_remaining e' \<and>
    (split = END_OF_INPUT \<longrightarrow> words_remaining e' = {#}) \<and>
    (split \<noteq> END_OF_INPUT \<and> 0 < we_num_msgs_per_split e \<longrightarrow> size (words_remaining e') < size (words_remaining e))"
proof (cases "words_remaining e = {#}")
  case True
  with word_split_size [OF e] have "word_poll e = Inr (END_OF_INPUT, e)" by simp
  with m True e show ?thesis by (auto simp: poll_next_source_split_def split_manager_poll_def update_conv' intro!: exI [of _ e])
next
  case False
  with word_split_size [OF e] obtain words e' where w: "word_poll e = Inr (MORE_AVAILABLE words, e')"
    "words_remaining e = mset (split_words words) + words_remaining e'"
    "length (split_words words) = min (we_num_msgs_per_split e) (size (words_remaining e))"
    "we_num_msgs_per_split e' = we_num_msgs_per_split e" by blast
  have "word_enum_inv e'" using word_poll_law [OF e] w(1) by auto
  moreover have "size (words_remaining e') < size (words_remaining e)" if "0 < we_num_msgs_per_split e"
  proof -
    have "size (words_remaining e) = length (split_words words) + size (words_remaining e')" by (simp add: w(2))
    moreover have "0 < size (words_remaining e)" using False by (simp add: nonempty_has_size)
    ultimately show ?thesis using w(3) that by (simp add: min_def split: if_splits)
  qed
  moreover have "poll_next_source_split word_poll op m = Inr (MORE_AVAILABLE words, m\<lparr>jm_split_manager := Some (AList.update op e' D)\<rparr>)"
    using m w(1) by (simp add: poll_next_source_split_def split_manager_poll_def)
  ultimately show ?thesis using w(2,4)
    by (intro exI [of _ "MORE_AVAILABLE words"] exI [of _ "m\<lparr>jm_split_manager := Some (AList.update op e' D)\<rparr>"]
        exI [of _ "AList.update op e' D"] exI [of _ e']) (simp add: update_conv')
qed

lemma ctx_master_poll:
  assumes m: "jm_split_manager m = Some D" "map_of D op = Some e" and e: "word_enum_inv e" and c: "task_inv n c" "\<not> ctx_finished c"
  shows "\<exists>split c' m' D' e'. ctx_poll_next_split (poll_next_source_split word_poll op) c m = Inr (split, c', m') \<and>
    ctx_out c' = ctx_out c \<and> ctx_current_split c' = Some split \<and> task_inv n c' \<and> (ctx_finished c' \<longleftrightarrow> split = END_OF_INPUT) \<and>
    jm_split_manager m' = Some D' \<and> jm_sources_finished m' = jm_sources_finished m \<and> map_of D' = (map_of D)(op \<mapsto> e') \<and> word_enum_inv e' \<and>
    we_num_msgs_per_split e' = we_num_msgs_per_split e \<and> words_remaining e = pending c' + words_remaining e' \<and>
    (split = END_OF_INPUT \<longrightarrow> words_remaining e' = {#}) \<and>
    (split \<noteq> END_OF_INPUT \<and> 0 < we_num_msgs_per_split e \<longrightarrow> size (words_remaining e') < size (words_remaining e))"
proof -
  from master_poll [OF m e] obtain split m' D' e' where p: "poll_next_source_split word_poll op m = Inr (split, m')"
    "jm_split_manager m' = Some D'" "jm_sources_finished m' = jm_sources_finished m" "map_of D' = (map_of D)(op \<mapsto> e')" "word_enum_inv e'"
    "we_num_msgs_per_split e' = we_num_msgs_per_split e"
    "words_remaining e = (case split of MORE_AVAILABLE words \<Rightarrow> mset (split_words words) | END_OF_INPUT \<Rightarrow> {#}) + words_remaining e'"
    "split = END_OF_INPUT \<longrightarrow> words_remaining e' = {#}"
    "split \<noteq> END_OF_INPUT \<and> 0 < we_num_msgs_per_split e \<longrightarrow> size (words_remaining e') < size (words_remaining e)" by blast
  let ?c = "c\<lparr>ctx_current_split := Some split, ctx_finished := (split = END_OF_INPUT)\<rparr>"
  have "ctx_poll_next_split (poll_next_source_split word_poll op) c m = Inr (split, ?c, m')"
    using p(1) c(2) by (simp add: ctx_poll_next_split_def)
  moreover have "task_inv n ?c" using c(1) by (auto simp: task_inv_def)
  moreover have "pending ?c = (case split of MORE_AVAILABLE words \<Rightarrow> mset (split_words words) | END_OF_INPUT \<Rightarrow> {#})"
    by (simp add: pending_def split: source_split.split)
  ultimately show ?thesis using p by (intro exI [of _ split] exI [of _ ?c] exI [of _ m'] exI [of _ D'] exI [of _ e']) simp
qed

text \<open>The words of a task and those that remain with the master, before and after.\<close>

definition word_conserved :: "nat \<Rightarrow> string list option \<Rightarrow> 'k word_ctx \<Rightarrow> word_enum \<Rightarrow> string list option \<Rightarrow> 'k word_ctx \<Rightarrow> word_enum \<Rightarrow> bool" where
  "word_conserved n pos c e pos' c' e' \<longleftrightarrow>
     (\<forall>j < n. sent_on j c' + word_left pos' c' + words_remaining e' = sent_on j c + word_left pos c + words_remaining e) \<and>
     (ctx_finished c \<longrightarrow> ctx_finished c') \<and> (ctx_finished c' \<and> \<not> ctx_finished c \<longrightarrow> words_remaining e' = {#}) \<and>
     (words_remaining e = {#} \<longrightarrow> words_remaining e' = {#})"

lemma word_advance_step:
  assumes ok: "assigner_ok assigner" and inv: "word_inv n pos c"
    and m: "jm_split_manager m = Some D" "map_of D op = Some e" and e: "word_enum_inv e"
  shows "\<exists>pos' c' m' D' e'. word_advance (poll_next_source_split word_poll op) assigner clk (pos, c) m = Inr ((pos', c'), m') \<and>
    jm_split_manager m' = Some D' \<and> jm_sources_finished m' = jm_sources_finished m \<and> map_of D' = (map_of D)(op \<mapsto> e') \<and> word_enum_inv e' \<and>
    we_num_msgs_per_split e' = we_num_msgs_per_split e \<and> word_inv n pos' c' \<and> word_conserved n pos c e pos' c' e'"
proof (cases pos)
  case None
  show ?thesis
  proof (cases "ctx_current_split c")
    case cur: None
    with inv have "task_inv n c" "\<not> ctx_finished c" by (auto simp: word_inv_def task_inv_def)
    from ctx_master_poll [OF m e this] obtain split c' m' D' e' where
      p: "ctx_poll_next_split (poll_next_source_split word_poll op) c m = Inr (split, c', m')" "ctx_out c' = ctx_out c"
      "ctx_current_split c' = Some split" "task_inv n c'" "ctx_finished c' \<longleftrightarrow> split = END_OF_INPUT"
      "jm_split_manager m' = Some D'" "jm_sources_finished m' = jm_sources_finished m" "map_of D' = (map_of D)(op \<mapsto> e')" "word_enum_inv e'"
      "we_num_msgs_per_split e' = we_num_msgs_per_split e" "words_remaining e = pending c' + words_remaining e'"
      "split = END_OF_INPUT \<longrightarrow> words_remaining e' = {#}" by blast
    let ?pos = "case split of END_OF_INPUT \<Rightarrow> None | MORE_AVAILABLE words \<Rightarrow> Some (split_words words)"
    have "c'\<lparr>ctx_finished := split = END_OF_INPUT\<rparr> = c'" using p(5) by simp
    then have "word_advance (poll_next_source_split word_poll op) assigner clk (pos, c) m = Inr ((?pos, c'), m')"
      using None cur p(1,5) by (auto simp: get_current_split_def split: source_split.split)
    moreover have "word_inv n ?pos c'" using p(4,5) by (auto simp: word_inv_def split: source_split.split)
    moreover have "pending c = {#}" "word_left ?pos c' = pending c'" using cur p(3) by (auto simp: pending_def word_left_def split: source_split.split)
    then have "word_conserved n pos c e ?pos c' e'"
      using p(2,5,11,12) None \<open>\<not> ctx_finished c\<close> by (auto simp: word_conserved_def word_left_def sent_on_def)
    ultimately show ?thesis using p(6-10) by blast
  next
    case (Some split)
    have c: "c\<lparr>ctx_finished := ctx_finished c \<or> split = END_OF_INPUT\<rparr> = c" using Some inv by (auto simp: word_inv_def task_inv_def)
    let ?pos = "case split of END_OF_INPUT \<Rightarrow> None | MORE_AVAILABLE words \<Rightarrow> Some (split_words words)"
    have "word_advance (poll_next_source_split word_poll op) assigner clk (pos, c) m = Inr ((?pos, c), m)"
      using None Some c by (auto simp: get_current_split_def split: source_split.split)
    moreover have "word_inv n ?pos c" using Some inv by (auto simp: word_inv_def task_inv_def split: source_split.split)
    moreover have "word_conserved n pos c e ?pos c e" using None Some by (auto simp: word_conserved_def word_left_def pending_def split: source_split.split)
    ultimately show ?thesis using m e by (intro exI [of _ ?pos] exI [of _ c] exI [of _ m] exI [of _ D] exI [of _ e]) (simp add: fun_upd_idem)
  qed
next
  case (Some ws)
  with inv have c: "task_inv n c" "\<not> ctx_finished c" by (auto simp: word_inv_def)
  show ?thesis
  proof (cases ws)
    case Nil
    from ctx_master_poll [OF m e c] obtain split c' m' D' e' where
      p: "ctx_poll_next_split (poll_next_source_split word_poll op) c m = Inr (split, c', m')" "ctx_out c' = ctx_out c" "task_inv n c'"
      "ctx_finished c' \<longleftrightarrow> split = END_OF_INPUT" "jm_split_manager m' = Some D'" "jm_sources_finished m' = jm_sources_finished m"
      "map_of D' = (map_of D)(op \<mapsto> e')" "word_enum_inv e'" "we_num_msgs_per_split e' = we_num_msgs_per_split e"
      "words_remaining e = pending c' + words_remaining e'" "split = END_OF_INPUT \<longrightarrow> words_remaining e' = {#}" by blast
    have "word_advance (poll_next_source_split word_poll op) assigner clk (pos, c) m = Inr ((None, c'), m')" using Some Nil p(1) by simp
    moreover have "word_inv n None c'" using p(3) by (simp add: word_inv_def)
    moreover have "word_conserved n pos c e None c' e'"
      using p(2,4,10,11) Some Nil c(2) by (auto simp: word_conserved_def word_left_def sent_on_def)
    ultimately show ?thesis using p(5-9) by blast
  next
    case (Cons w ws')
    obtain c' where c': "ctx_collect assigner clk w c = Inr c'"
      "ctx_out c' = map (\<lambda>sent. sent @ emitted_from assigner clk (ctx_num_fetched_records c) [w]) (ctx_out c)"
      "task_inv n c'" "\<not> ctx_finished c'"
      using c by (simp add: ctx_collect_ok [OF ok] Let_def task_inv_def)
    have "sent_on j c' = add_mset w (sent_on j c)" if "j < n" for j
      using that c(1) ok c'(2) by (simp add: sent_on_def task_inv_def del: emitted_from.simps)
    then have "word_conserved n pos c e (Some ws') c' e" using Some Cons c'(4) c(2) by (auto simp: word_conserved_def word_left_def)
    moreover have "word_advance (poll_next_source_split word_poll op) assigner clk (pos, c) m = Inr ((Some ws', c'), m)" using Some Cons c'(1) by simp
    moreover have "word_inv n (Some ws') c'" using c'(3,4) by (simp add: word_inv_def)
    ultimately show ?thesis using m e
      by (intro exI [of _ "Some ws'"] exI [of _ c'] exI [of _ m] exI [of _ D] exI [of _ e]) (simp add: fun_upd_idem)
  qed
qed

text \<open>A task that runs alone reaches the end of the input: every further split leaves fewer words with the master.\<close>

lemma word_finishes_from_loop:
  assumes ok: "assigner_ok assigner" and "word_inv n (Some ws) c" "jm_split_manager m = Some D" "map_of D op = Some e" "word_enum_inv e"
    "0 < we_num_msgs_per_split e"
  shows "\<exists>k pos' c' m'. advances (word_advance (poll_next_source_split word_poll op) assigner clk) k (Some ws, c) m = Inr ((pos', c'), m') \<and> ctx_finished c'"
  using assms(2-6)
proof (induction "size (words_remaining e)" arbitrary: ws c m D e rule: less_induct)
  case less
  let ?A = "word_advance (poll_next_source_split word_poll op) assigner clk"
  from ctx_collect_all [OF ok, of clk ws c] less.prems(1) obtain c1 where c1: "rfold (ctx_collect assigner clk) ws c = Inr c1"
    "task_inv n c1" "\<not> ctx_finished c1" by (auto simp: word_inv_def task_inv_def)
  from ctx_master_poll [OF less.prems(2-4) c1(2,3)] obtain split c2 m2 D2 e2 where
    p: "ctx_poll_next_split (poll_next_source_split word_poll op) c1 m = Inr (split, c2, m2)" "ctx_current_split c2 = Some split" "task_inv n c2"
    "ctx_finished c2 \<longleftrightarrow> split = END_OF_INPUT" "jm_split_manager m2 = Some D2" "map_of D2 = (map_of D)(op \<mapsto> e2)" "word_enum_inv e2"
    "we_num_msgs_per_split e2 = we_num_msgs_per_split e"
    "split \<noteq> END_OF_INPUT \<and> 0 < we_num_msgs_per_split e \<longrightarrow> size (words_remaining e2) < size (words_remaining e)" by blast
  have poll: "advances ?A (length ws + 1) (Some ws, c) m = Inr ((None, c2), m2)"
    by (rule advances_trans [OF advances_words [OF c1(1)]]) (simp add: p(1))
  show ?case
  proof (cases split)
    case END_OF_INPUT
    with poll p(4) show ?thesis by blast
  next
    case (MORE_AVAILABLE words)
    have "c2\<lparr>ctx_finished := ctx_finished c2 \<or> split = END_OF_INPUT\<rparr> = c2" using p(4) by simp
    then have "advances ?A 1 (None, c2) m2 = Inr ((Some (split_words words), c2), m2)"
      using p(2) MORE_AVAILABLE by (simp add: get_current_split_def)
    note loop = advances_trans [OF poll this]
    have "word_inv n (Some (split_words words)) c2" using p(3,4) MORE_AVAILABLE by (simp add: word_inv_def)
    from less.hyps [OF _ this p(5) _ p(7)] p(6,8,9) MORE_AVAILABLE less.prems(5) obtain k pos' c' m' where
      "advances ?A k (Some (split_words words), c2) m2 = Inr ((pos', c'), m')" "ctx_finished c'" by auto
    with advances_trans [OF loop] show ?thesis by blast
  qed
qed

lemma word_finishes:
  assumes ok: "assigner_ok assigner" and inv: "word_inv n pos c" "jm_split_manager m = Some D" "map_of D op = Some e" "word_enum_inv e"
    "0 < we_num_msgs_per_split e"
  shows "\<exists>k pos' c' m'. advances (word_advance (poll_next_source_split word_poll op) assigner clk) k (pos, c) m = Inr ((pos', c'), m') \<and> ctx_finished c'"
proof (cases pos)
  case None
  let ?A = "word_advance (poll_next_source_split word_poll op) assigner clk"
  from word_advance_step [OF ok inv(1-4), of clk] obtain pos' c' m' D' e' where
    s: "?A (pos, c) m = Inr ((pos', c'), m')" "jm_split_manager m' = Some D'" "map_of D' = (map_of D)(op \<mapsto> e')" "word_enum_inv e'"
    "we_num_msgs_per_split e' = we_num_msgs_per_split e" "word_inv n pos' c'" by blast
  from s(1) have one: "advances ?A 1 (pos, c) m = Inr ((pos', c'), m')" by simp
  show ?thesis
  proof (cases pos')
    case pos': None
    have "ctx_finished c'"
    proof -
      from s(1) None obtain split c1 where "get_current_split (poll_next_source_split word_poll op) c m = Inr (split, c1, m')"
        "(case split of END_OF_INPUT \<Rightarrow> (None, c1) | MORE_AVAILABLE words \<Rightarrow> (Some (split_words words), c1)) = (pos', c')" by auto
      with pos' show ?thesis by (auto simp: get_current_split_def split: source_split.splits)
    qed
    with one show ?thesis by blast
  next
    case (Some ws)
    from word_finishes_from_loop [OF ok s(6) [unfolded Some] s(2) _ s(4), of op clk] s(3,5) inv(5) obtain k pos2 c2 m2 where
      "advances ?A k (pos', c') m' = Inr ((pos2, c2), m2)" "ctx_finished c2" using Some by auto
    with advances_trans [OF one] show ?thesis by blast
  qed
next
  case (Some ws)
  with word_finishes_from_loop [OF ok _ inv(2-5)] inv(1) show ?thesis by blast
qed

section \<open>The sources of a job together\<close>

text \<open>
  What each task has to emit. For a word-count source \<open>words\<close> has, by operator, the number of collectors, the parallelism and the
  enumerator at the start.
\<close>

datatype 'v task_goal = CollectionGoal nat "'v list" | FileGoal | WordGoal nat

type_synonym word_goals = "nat \<Rightarrow> (nat \<times> nat \<times> word_enum) option"

fun run_inv ::
    "(('k, 'v) srec \<Rightarrow> rat result) option \<Rightarrow> (nat \<Rightarrow> int) \<Rightarrow> word_goals \<Rightarrow> string \<Rightarrow> 'v task_goal \<Rightarrow> ('k, 'v, 'd) source_run \<Rightarrow> bool" where
  "run_inv assigner clk words i (CollectionGoal n vs) (CollectionRun t) = collection_inv assigner clk n vs t"
| "run_inv assigner clk words i FileGoal (FileRun contents fetched c) = (ctx_num_records c = None \<and> \<not> ctx_finished c)"
| "run_inv assigner clk words i (WordGoal op) (WordRun op' pos c) =
     (op' = op \<and> (case words op of None \<Rightarrow> False | Some (n, T, _) \<Rightarrow> word_inv n pos c \<and> (\<exists>k < T. i = exec_id op k)))"
| "run_inv assigner clk words i _ _ = False"

fun word_part :: "nat \<Rightarrow> ('k, 'v, 'd) source_run option \<Rightarrow> string multiset" where
  "word_part j (Some (WordRun op pos c)) = sent_on j c + word_left pos c"
| "word_part j _ = {#}"

fun word_finished :: "('k, 'v, 'd) source_run option \<Rightarrow> bool" where
  "word_finished (Some (WordRun op pos c)) = ctx_finished c"
| "word_finished _ = False"

text \<open>Every word of an operator was sent, is held by a task, or remains with the master; a task is told of the end when nothing remains.\<close>

definition word_sys ::
    "nat \<Rightarrow> nat \<times> nat \<times> word_enum \<Rightarrow> (string \<Rightarrow> ('k, 'v, 'd) source_run option) \<Rightarrow> (nat, word_enum) dict option \<Rightarrow> bool" where
  "word_sys op = (\<lambda>(n, T, e0) src d. \<exists>D e. d = Some D \<and> map_of D op = Some e \<and> word_enum_inv e \<and>
     we_num_msgs_per_split e = we_num_msgs_per_split e0 \<and>
     (\<forall>j < n. (\<Sum>k < T. word_part j (src (exec_id op k))) + words_remaining e = words_remaining e0) \<and>
     ((\<exists>k < T. word_finished (src (exec_id op k))) \<longrightarrow> words_remaining e = {#}))"

definition sources_inv where
  "sources_inv assigner text_assigner clk words goal src d \<longleftrightarrow>
     (\<forall>i. assigner_ok (assigner i) \<and> assigner_ok (text_assigner i)) \<and>
     (\<forall>i st. src i = Some st \<longrightarrow> run_inv (assigner i) (clk i) words i (goal i) st) \<and>
     (\<forall>op g. words op = Some g \<longrightarrow> word_sys op g src d)"

lemma sources_invD:
  assumes "sources_inv assigner text_assigner clk words goal src d"
  shows "assigner_ok (assigner i)" "assigner_ok (text_assigner i)" "src i = Some st \<Longrightarrow> run_inv (assigner i) (clk i) words i (goal i) st"
    "words op = Some g \<Longrightarrow> word_sys op g src d"
  using assms unfolding sources_inv_def by blast+

lemma word_sys_other:
  assumes "word_sys op g src d" "\<And>j. word_part j x = word_part j (src i)" "word_finished x = word_finished (src i)"
  shows "word_sys op g (src(i := x)) d"
proof -
  have "word_part j ((src(i := x)) y) = word_part j (src y)" "word_finished ((src(i := x)) y) = word_finished (src y)" for j y
    using assms(2,3) by auto
  with assms(1) show ?thesis unfolding word_sys_def by (simp only: split_beta)
qed

lemma sum_fun_upd:
  fixes f :: "nat \<Rightarrow> 'a::comm_monoid_add"
  assumes "k0 < T"
  shows "\<exists>r. (\<Sum>k < T. f k) = f k0 + r \<and> (\<Sum>k < T. (f(k0 := y)) k) = y + r"
proof (intro exI conjI)
  show "(\<Sum>k < T. f k) = f k0 + (\<Sum>k \<in> {..<T} - {k0}. f k)" using assms by (simp add: sum.remove)
  have "(\<Sum>k \<in> {..<T} - {k0}. (f(k0 := y)) k) = (\<Sum>k \<in> {..<T} - {k0}. f k)" by (rule sum.cong) auto
  with sum.remove [of "{..<T}" k0 "f(k0 := y)"] assms show "(\<Sum>k < T. (f(k0 := y)) k) = y + (\<Sum>k \<in> {..<T} - {k0}. f k)" by simp
qed

text \<open>A step of a task of the same operator.\<close>

lemma word_sys_own:
  assumes sys: "word_sys op (n, T, e0) src (Some D)" and e: "map_of D op = Some e" "map_of D' op = Some e'" "word_enum_inv e'"
    "we_num_msgs_per_split e' = we_num_msgs_per_split e" and k0: "k0 < T" "src (exec_id op k0) = Some (WordRun op pos c)"
    and cons: "word_conserved n pos c e pos' c' e'"
  shows "word_sys op (n, T, e0) (src(exec_id op k0 \<mapsto> WordRun op pos' c')) (Some D')"
proof -
  let ?src = "src(exec_id op k0 \<mapsto> WordRun op pos' c')"
  from sys e(1) have s: "we_num_msgs_per_split e = we_num_msgs_per_split e0"
    "\<forall>j < n. (\<Sum>k < T. word_part j (src (exec_id op k))) + words_remaining e = words_remaining e0"
    "(\<exists>k < T. word_finished (src (exec_id op k))) \<longrightarrow> words_remaining e = {#}" by (auto simp: word_sys_def)
  have "(\<Sum>k < T. word_part j (?src (exec_id op k))) + words_remaining e' = words_remaining e0" if j: "j < n" for j
  proof -
    let ?f = "\<lambda>k. word_part j (src (exec_id op k))"
    have upd: "(\<lambda>k. word_part j (?src (exec_id op k))) = ?f(k0 := sent_on j c' + word_left pos' c')" by auto
    obtain r where r: "(\<Sum>k < T. ?f k) = sent_on j c + word_left pos c + r"
      "(\<Sum>k < T. word_part j (?src (exec_id op k))) = sent_on j c' + word_left pos' c' + r"
      unfolding upd using sum_fun_upd [OF k0(1), of ?f "sent_on j c' + word_left pos' c'"] k0(2) by auto
    have "sent_on j c' + word_left pos' c' + words_remaining e' = sent_on j c + word_left pos c + words_remaining e"
      using cons j by (simp add: word_conserved_def)
    with s(2) j r show ?thesis by (metis add.assoc add.commute)
  qed
  moreover have "words_remaining e' = {#}" if fin: "\<exists>k < T. word_finished (?src (exec_id op k))"
  proof (cases "\<exists>k < T. word_finished (src (exec_id op k))")
    case True
    with s(3) cons show ?thesis by (simp add: word_conserved_def)
  next
    case False
    with fin have "ctx_finished c'" by (auto split: if_splits)
    moreover have "\<not> ctx_finished c" using False k0 by auto
    ultimately show ?thesis using cons by (simp add: word_conserved_def)
  qed
  ultimately show ?thesis using e(2-4) s(1) by (simp add: word_sys_def)
qed

lemma file_fetch_unfinished:
  assumes ok: "assigner_ok assigner" and c: "ctx_num_records c = None" "\<not> ctx_finished c"
  shows "\<exists>fetched' c'. local_file_fetch assigner clk contents (fetched, c) = Inr (fetched', c') \<and> ctx_num_records c' = None \<and> \<not> ctx_finished c'"
proof -
  from ctx_collect_all [OF ok, of clk "map butlast (read_lines contents)" c] c obtain c' where
    "rfold (ctx_collect assigner clk) (map butlast (read_lines contents)) c = Inr c'" "ctx_num_records c' = None" "\<not> ctx_finished c'" by auto
  with c show ?thesis by (cases fetched) (auto simp: local_file_fetch_def)
qed

lemma sources_inv_other:
  assumes inv: "sources_inv assigner text_assigner clk words goal src d" and st: "src i = Some st"
    and "run_inv (assigner i) (clk i) words i (goal i) st'" "\<And>j. word_part j (Some st) = {#}" "\<And>j. word_part j (Some st') = {#}"
    "\<not> word_finished (Some st)" "\<not> word_finished (Some st')"
  shows "sources_inv assigner text_assigner clk words goal (src(i \<mapsto> st')) d"
proof -
  have "word_sys op g (src(i \<mapsto> st')) d" if "words op = Some g" for op g
    by (rule word_sys_other [OF sources_invD(4) [OF inv that]]) (use assms in simp_all)
  with inv assms(3) show ?thesis by (simp add: sources_inv_def)
qed

text \<open>One step of any source: it does not raise, keeps the common invariant and the flag.\<close>

lemma run_step:
  assumes inv: "sources_inv assigner text_assigner clk words goal src (jm_split_manager m)" and st: "src i = Some st"
  shows "\<exists>st' m'. run_advance (assigner i) (text_assigner i) (clk i) st m = Inr (st', m') \<and>
    sources_inv assigner text_assigner clk words goal (src(i \<mapsto> st')) (jm_split_manager m') \<and> (run_finished st \<longrightarrow> run_finished st')"
proof -
  note ok = sources_invD(1,2) [OF inv, of i] and ri = sources_invD(3) [OF inv st]
  show ?thesis
  proof (cases st)
    case (CollectionRun t)
    obtain pos f c where t: "t = (pos, f, c)" by (cases t)
    from ri CollectionRun obtain n vs where g: "goal i = CollectionGoal n vs" "collection_inv (assigner i) (clk i) n vs (pos, f, c)"
      by (cases "goal i") (auto simp: t)
    from collection_inv_advance [OF ok(1) g(2)] obtain pos' f' c' where
      a: "collection_advance (assigner i) (clk i) (pos, f, c) = Inr (pos', f', c')" "collection_inv (assigner i) (clk i) n vs (pos', f', c')"
      "ctx_finished c \<longrightarrow> ctx_finished c'" by blast
    from sources_inv_other [OF inv st, of "CollectionRun (pos', f', c')"] a(2) g(1) CollectionRun
    have "sources_inv assigner text_assigner clk words goal (src(i \<mapsto> CollectionRun (pos', f', c'))) (jm_split_manager m)" by simp
    with a(1,3) show ?thesis by (simp add: CollectionRun t)
  next
    case (FileRun contents fetched c)
    from ri FileRun have g: "goal i = FileGoal" "ctx_num_records c = None" "\<not> ctx_finished c" by (cases "goal i"; auto)+
    from file_fetch_unfinished [OF ok(2) g(2,3)] obtain fetched' c' where
      a: "local_file_fetch (text_assigner i) (clk i) contents (fetched, c) = Inr (fetched', c')" "ctx_num_records c' = None" "\<not> ctx_finished c'" by blast
    from sources_inv_other [OF inv st, of "FileRun contents fetched' c'"] a(2,3) g(1) FileRun
    have "sources_inv assigner text_assigner clk words goal (src(i \<mapsto> FileRun contents fetched' c')) (jm_split_manager m)" by simp
    with a(1) g(3) show ?thesis by (simp add: FileRun)
  next
    case (WordRun op pos c)
    from ri WordRun obtain n T e0 k0 where g: "goal i = WordGoal op" "words op = Some (n, T, e0)" "word_inv n pos c" "k0 < T" "i = exec_id op k0"
      by (cases "goal i") (auto split: option.splits)
    note sys = sources_invD(4) [OF inv g(2)]
    then obtain D e where D: "jm_split_manager m = Some D" "map_of D op = Some e" "word_enum_inv e" by (auto simp: word_sys_def)
    from word_advance_step [OF ok(2) g(3) D, of "clk i"] obtain pos' c' m' D' e' where
      a: "word_advance (poll_next_source_split word_poll op) (text_assigner i) (clk i) (pos, c) m = Inr ((pos', c'), m')"
      "jm_split_manager m' = Some D'" "map_of D' = (map_of D)(op \<mapsto> e')" "word_enum_inv e'"
      "we_num_msgs_per_split e' = we_num_msgs_per_split e" "word_inv n pos' c'" "word_conserved n pos c e pos' c' e'" by blast
    have "word_sys o' g' (src(i \<mapsto> WordRun op pos' c')) (Some D')" if o': "words o' = Some g'" for o' g'
    proof (cases "o' = op")
      case True
      with o' g(2) have g': "g' = (n, T, e0)" by simp
      show ?thesis unfolding True g' g(5)
        by (rule word_sys_own [OF sys [unfolded D(1)] D(2) _ a(4,5) g(4) _ a(7)]) (use a(3) st g(5) WordRun in simp_all)
    next
      case False
      have "word_sys o' g' src (Some D)" using sources_invD(4) [OF inv o'] D(1) by simp
      moreover have "(src(i \<mapsto> WordRun op pos' c')) (exec_id o' k) = src (exec_id o' k)" "map_of D' o' = map_of D o'" for k
        using False g(5) a(3) by auto
      ultimately show ?thesis by (cases g') (simp add: word_sys_def del: fun_upd_apply)
    qed
    then have "sources_inv assigner text_assigner clk words goal (src(i \<mapsto> WordRun op pos' c')) (jm_split_manager m')"
      using inv a(2,6) g by (simp add: sources_inv_def)
    moreover have "ctx_finished c \<longrightarrow> ctx_finished c'" using a(7) by (simp add: word_conserved_def)
    ultimately show ?thesis using a(1) by (simp add: WordRun)
  qed
qed

lemma poll_keeps_reports: "poll_next_source_split poll op m = Inr (split, m') \<Longrightarrow> jm_sources_finished m' = jm_sources_finished m"
  by (auto simp: poll_next_source_split_def split: option.splits)

lemma word_advance_keeps_reports:
  "word_advance (poll_next_source_split poll op) assigner clk st m = Inr (st', m') \<Longrightarrow> jm_sources_finished m' = jm_sources_finished m"
  by (induction "poll_next_source_split poll op" assigner clk st m rule: word_advance.induct)
    (auto simp: get_current_split_def ctx_poll_next_split_def dest: poll_keeps_reports split: option.splits)

lemma run_advance_keeps_reports:
  "run_advance assigner text_assigner clk st m = Inr (st', m') \<Longrightarrow> jm_sources_finished m' = jm_sources_finished m"
  by (cases st) (auto dest: word_advance_keeps_reports)

interpretation job_sources: source_threads "\<lambda>i. run_advance (assigner i) (text_assigner i) (clk i)" run_finished
    "sources_inv assigner text_assigner clk words goal"
proof unfold_locales
  fix src i st m st' m'
  assume inv: "sources_inv assigner text_assigner clk words goal src (jm_split_manager m)" "src i = Some st"
    and a: "run_advance (assigner i) (text_assigner i) (clk i) st m = Inr (st', m')"
  show "sources_inv assigner text_assigner clk words goal (src(i \<mapsto> st')) (jm_split_manager m')" using run_step [OF inv] a by auto
  show "run_finished st'" if "run_finished st" using run_step [OF inv] a that by auto
qed (rule run_advance_keeps_reports)

text \<open>The sources that finish: collections whose part is not empty, and word counts whose splits are not.\<close>

definition all_finish :: "word_goals \<Rightarrow> (string \<Rightarrow> 'v task_goal) \<Rightarrow> (string \<Rightarrow> ('k, 'v, 'd) source_run option) \<Rightarrow> bool" where
  "all_finish words goal src \<longleftrightarrow>
     (\<forall>i. src i \<noteq> None \<longrightarrow> goal i \<noteq> FileGoal \<and> (\<forall>n. goal i \<noteq> CollectionGoal n [])) \<and>
     (\<forall>op n T e0. words op = Some (n, T, e0) \<longrightarrow> 0 < we_num_msgs_per_split e0)"

lemma run_finishes:
  fixes src :: "string \<Rightarrow> ('k, 'v, 'd) source_run option"
  assumes inv: "sources_inv assigner text_assigner clk words goal src (jm_split_manager m)" and st: "src i = Some st" and fin: "all_finish words goal src"
  shows "\<exists>n st' m'. advances (run_advance (assigner i) (text_assigner i) (clk i)) n st m = Inr (st', m') \<and> run_finished st'"
proof -
  note ok = sources_invD(1,2) [OF inv, of i] and ri = sources_invD(3) [OF inv st]
  show ?thesis
  proof (cases st)
    case (CollectionRun t)
    obtain pos f c where t: "t = (pos, f, c)" by (cases t)
    from ri CollectionRun obtain n vs where g: "goal i = CollectionGoal n vs" "collection_inv (assigner i) (clk i) n vs (pos, f, c)"
      by (cases "goal i") (auto simp: t)
    have "vs \<noteq> []" using fin st g(1) by (auto simp: all_finish_def)
    from collection_inv_finishes [OF ok(1) g(2) this, of m] obtain k c' where k: "advances (collection_step (assigner i) (clk i)) k (pos, f, c) m = Inr ((Some [], f, c'), m)" "ctx_finished c'" by blast
    have "advances (run_advance (assigner i) (text_assigner i) (clk i)) k (CollectionRun (pos, f, c)) m = Inr (CollectionRun (Some [], f, c'), m)"
      by (rule advances_lift [OF _ k(1)]) (simp add: collection_step_def rbind_def split: sum.split)
    moreover have "run_finished (CollectionRun (Some [], f, c'))" using k(2) by simp
    ultimately show ?thesis unfolding CollectionRun t by blast
  next
    case (FileRun contents fetched c)
    with ri fin st show ?thesis by (cases "goal i") (auto simp: all_finish_def)
  next
    case (WordRun op pos c)
    from ri WordRun obtain n T e0 where g: "words op = Some (n, T, e0)" "word_inv n pos c"
      by (cases "goal i") (auto split: option.splits)
    from sources_invD(4) [OF inv g(1)] obtain D e where D: "jm_split_manager m = Some D" "map_of D op = Some e" "word_enum_inv e"
      "we_num_msgs_per_split e = we_num_msgs_per_split e0" by (auto simp: word_sys_def)
    from fin g(1) D(4) have "0 < we_num_msgs_per_split e" by (auto simp: all_finish_def)
    from word_finishes [OF ok(2) g(2) D(1-3) this] obtain k pos' c' m' where
      k: "advances (word_advance (poll_next_source_split word_poll op) (text_assigner i) (clk i)) k (pos, c) m = Inr ((pos', c'), m')" "ctx_finished c'" by blast
    define h :: "string list option \<times> 'k word_ctx \<Rightarrow> ('k, 'v, 'd) source_run" where "h = (\<lambda>(pos, c). WordRun op pos c)"
    have "advances (run_advance (assigner i) (text_assigner i) (clk i)) k (h (pos, c)) m = Inr (h (pos', c'), m')"
      by (rule advances_lift [OF _ k(1)]) (auto simp: h_def rbind_def split: sum.split)
    moreover have "run_finished (h (pos', c'))" using k(2) by (simp add: h_def)
    moreover have "h (pos, c) = st" by (simp add: h_def WordRun)
    ultimately show ?thesis by metis
  qed
qed

interpretation finishing_sources: source_threads_end "\<lambda>i. run_advance (assigner i) (text_assigner i) (clk i)" run_finished
    "\<lambda>src d. sources_inv assigner text_assigner clk words goal src d \<and> all_finish words goal src"
proof unfold_locales
  fix src i st and m :: "word_enum job_master"
  assume G: "sources_inv assigner text_assigner clk words goal src (jm_split_manager m) \<and> all_finish words goal src" and st: "src i = Some st"
  show "is_ok (run_advance (assigner i) (text_assigner i) (clk i) st m)" using run_step [OF conjunct1 [OF G] st] by (auto simp: is_ok_iff)
  show "\<exists>n st' m'. advances (run_advance (assigner i) (text_assigner i) (clk i)) n st m = Inr (st', m') \<and> run_finished st'"
    using run_finishes G st by blast
  fix st' m' assume a: "run_advance (assigner i) (text_assigner i) (clk i) st m = Inr (st', m')"
  show "sources_inv assigner text_assigner clk words goal (src(i \<mapsto> st')) (jm_split_manager m') \<and> all_finish words goal (src(i \<mapsto> st'))"
    using run_step [OF conjunct1 [OF G] st] a G st by (auto simp: all_finish_def)
  show "run_finished st'" if "run_finished st" using run_step [OF conjunct1 [OF G] st] a that by auto
qed (rule run_advance_keeps_reports)

section \<open>The sources of a deployed program\<close>

lemma source_head_function:
  assumes "source_head_op op (Op c SOURCE_OP f)"
  shows "source_function_of op = Inr f" "op_type op = SOURCE_OP"
  using assms by (auto simp: source_head_op_def)

lemma deployed_types:
  assumes prog: "stream_program sc" "sc_id_generator sc < depth" "sc_stream_sinks sc \<noteq> []"
      "\<forall>i st. map_of (sc_streams sc) i = Some st \<longrightarrow> 0 < st_parallelism st"
    and g: "compile_program depth sc = Inr jg" "from_job_graph jg = Inr g0" "set_resources to_float rc g0 = Inr g"
  shows "distinct (map fst (eg_by_id g))" "\<forall>(i, v) \<in> set (eg_by_id g). i = ev_id v"
    "\<forall>v \<in> set (eg_source_vertices g). op_type (jv_stream_operator (ev_job_vertex v)) = SOURCE_OP"
proof -
  from compile_program_ok [OF prog] g(1) have jg: "graph_expandable jg"
    "\<forall>v \<in> set (get_source_vertices jg). \<exists>st. program_source sc (jv_vertex_id v) st \<and>
       jv_parallelism v = st_parallelism st \<and> source_head_op (jv_stream_operator v) (st_operator st)" by auto
  note vs = job_vertices [OF jg(1) g(2,3)]
  show "distinct (map fst (eg_by_id g))" "\<forall>(i, v) \<in> set (eg_by_id g). i = ev_id v" using vs by auto
  have "\<exists>st. program_source sc (jv_vertex_id (ev_job_vertex v)) st \<and> source_head_op (jv_stream_operator (ev_job_vertex v)) (st_operator st)"
    if "v \<in> set (eg_source_vertices g)" for v
    using that vs(2) jg(2) by (fastforce simp: eg_source_vertices_def get_source_vertices_def dict_values_def)
  then show "\<forall>v \<in> set (eg_source_vertices g). op_type (jv_stream_operator (ev_job_vertex v)) = SOURCE_OP"
    using program_source_op [OF prog(1)] source_head_function(2) by metis
qed

lemma deployed_source:
  assumes prog: "stream_program sc" "sc_id_generator sc < depth" "sc_stream_sinks sc \<noteq> []"
      "\<forall>i st. map_of (sc_streams sc) i = Some st \<longrightarrow> 0 < st_parallelism st"
    and g: "compile_program depth sc = Inr jg" "from_job_graph jg = Inr g0" "set_resources to_float rc g0 = Inr g"
    and v: "map_of (eg_by_id g) x = Some v" "op_type (jv_stream_operator (ev_job_vertex v)) = SOURCE_OP"
  shows "\<exists>st c f. x = exec_id (jv_vertex_id (ev_job_vertex v)) (ev_index v) \<and> v \<in> set (eg_source_vertices g) \<and>
    program_source sc (jv_vertex_id (ev_job_vertex v)) st \<and> st_operator st = Op c SOURCE_OP f \<and>
    source_function_of (jv_stream_operator (ev_job_vertex v)) = Inr f \<and>
    ev_parallelism v = st_parallelism st \<and> ev_index v < st_parallelism st"
proof -
  let ?j = "ev_job_vertex v"
  from compile_program_ok [OF prog] g(1) have jg: "graph_expandable jg"
    "\<forall>v \<in> set (get_source_vertices jg). \<exists>st. program_source sc (jv_vertex_id v) st \<and>
       jv_parallelism v = st_parallelism st \<and> source_head_op (jv_stream_operator v) (st_operator st)" by auto
  from job_vertices(2) [OF jg(1) g(2,3) map_of_SomeD [OF v(1)]] have
    e: "x = ev_id v" "?j \<in> set (jg_job_vertices jg)" "ev_parallelism v = jv_parallelism ?j" by auto
  from compiled_vertex [OF prog(1,2) g(1) e(2)] obtain s0 where s0: "map_of (sc_streams sc) (jv_vertex_id ?j) = Some s0"
    "jv_vertex_type ?j = vertex_type_of (st_kind s0)" "source_head_op (jv_stream_operator ?j) (st_operator s0)" by blast
  have "op_type (st_operator s0) = SOURCE_OP" using s0(3) v(2) by (auto simp: source_head_op_def)
  with context_okD [OF stream_program_ok [OF prog(1)] s0(1)] have "st_kind s0 = STREAM_SOURCE"
    by (cases "st_kind s0") (auto simp: stream_ok_def)
  with s0(2) have sv: "jv_vertex_type ?j = SOURCE_V" by simp
  with e(2) jg(2) obtain st where st: "program_source sc (jv_vertex_id ?j) st" "jv_parallelism ?j = st_parallelism st"
    "source_head_op (jv_stream_operator ?j) (st_operator st)" by (auto simp: get_source_vertices_def)
  from program_source_op [OF prog(1) st(1)] obtain c f where f: "st_operator st = Op c SOURCE_OP f" by blast
  have src: "v \<in> set (eg_source_vertices g)"
    using map_of_SomeD [OF v(1)] sv by (force simp: eg_source_vertices_def dict_values_def)
  then have "ev_id v \<in> {exec_id (jv_vertex_id v) k | v k. v \<in> set (get_source_vertices jg) \<and> k < jv_parallelism v}"
    unfolding job_exec_graph(4) [OF jg(1) g(2,3), symmetric] by blast
  then obtain u k where u: "ev_id v = exec_id (jv_vertex_id u) k" "u \<in> set (get_source_vertices jg)" "k < jv_parallelism u" by blast
  with jg(2) st(1) have "ev_index v < st_parallelism st" by (fastforce simp: ev_id_def program_source_def)
  with e(1,3) src st f source_head_function(1) [of "jv_stream_operator ?j" c f] show ?thesis by (auto simp: ev_id_def)
qed

lemma deployed_instance:
  assumes prog: "stream_program sc" "sc_id_generator sc < depth" "sc_stream_sinks sc \<noteq> []"
      "\<forall>i st. map_of (sc_streams sc) i = Some st \<longrightarrow> 0 < st_parallelism st"
    and g: "compile_program depth sc = Inr jg" "from_job_graph jg = Inr g0" "set_resources to_float rc g0 = Inr g"
    and i: "program_source sc i st" "k < st_parallelism st"
  shows "\<exists>v \<in> set (eg_source_vertices g). map_of (eg_by_id g) (exec_id i k) = Some v \<and> ev_id v = exec_id i k \<and>
    jv_vertex_id (ev_job_vertex v) = i \<and> ev_index v = k \<and> op_type (jv_stream_operator (ev_job_vertex v)) = SOURCE_OP"
proof -
  from compile_program_ok [OF prog] g(1) have jg: "graph_expandable jg"
    "\<forall>v \<in> set (get_source_vertices jg). \<exists>st. program_source sc (jv_vertex_id v) st \<and>
       jv_parallelism v = st_parallelism st \<and> source_head_op (jv_stream_operator v) (st_operator st)"
    "\<forall>i st. program_source sc i st \<longrightarrow> i \<in> jv_vertex_id ` set (get_source_vertices jg)" by auto
  note vs = job_vertices [OF jg(1) g(2,3)]
  have "exec_id i k \<in> ev_id ` set (eg_source_vertices g)"
    unfolding job_exec_graph(4) [OF jg(1) g(2,3)] source_instances [OF jg(2,3)] using i by blast
  then obtain v where v: "v \<in> set (eg_source_vertices g)" "ev_id v = exec_id i k" by auto
  then obtain x where x: "(x, v) \<in> set (eg_by_id g)" "jv_vertex_type (ev_job_vertex v) = SOURCE_V" by (auto simp: eg_source_vertices_def dict_values_def)
  from vs(2) [OF x(1)] have "x = exec_id i k" "ev_job_vertex v \<in> set (get_source_vertices jg)" using v(2) x(2) by (auto simp: get_source_vertices_def)
  moreover from this(2) jg(2) obtain st' where st': "program_source sc (jv_vertex_id (ev_job_vertex v)) st'"
    "source_head_op (jv_stream_operator (ev_job_vertex v)) (st_operator st')" by blast
  moreover from program_source_op [OF prog(1) st'(1)] obtain c f where "st_operator st' = Op c SOURCE_OP f" by blast
  ultimately show ?thesis using v x(1) vs(1) source_head_function(2) by (auto simp: ev_id_def intro!: bexI [of _ v])
qed

text \<open>What the tasks of a program have to emit, by vertex and by operator.\<close>

definition vertex_chunk :: "'v list \<Rightarrow> 'o exec_vertex \<Rightarrow> 'v list" where
  "vertex_chunk vals v = projr (collection_chunk_at_index vals (ev_parallelism v) (ev_index v))"

definition vertex_goal :: "('o \<Rightarrow> 'v source_spec) \<Rightarrow> (nat \<Rightarrow> nat) \<Rightarrow> 'o exec_vertex \<Rightarrow> 'v task_goal" where
  "vertex_goal spec num_collectors v =
     (case spec (projr (source_function_of (jv_stream_operator (ev_job_vertex v)))) of
        CollectionOf delayed vals \<Rightarrow> CollectionGoal (num_collectors (jv_vertex_id (ev_job_vertex v))) (vertex_chunk vals v)
      | TextFile contents \<Rightarrow> FileGoal
      | WordCount \<Rightarrow> WordGoal (jv_vertex_id (ev_job_vertex v)))"

definition program_words ::
    "('o, 'k, 'v) streaming_context \<Rightarrow> ('o \<Rightarrow> 'w source_spec) \<Rightarrow> ('o \<Rightarrow> word_enum option) \<Rightarrow> (nat \<Rightarrow> nat) \<Rightarrow> word_goals" where
  "program_words sc spec enum_of num_collectors op =
     (case map_of (sc_streams sc) op of
        Some st \<Rightarrow>
          (case st_operator st of
             Op c t f \<Rightarrow> if program_source sc op st \<and> spec f = WordCount
                          then Some (num_collectors op, st_parallelism st, the (enum_of f)) else None
           | ChainedOp ops \<Rightarrow> None)
      | None \<Rightarrow> None)"

lemma program_wordsD:
  assumes "program_words sc spec enum_of num_collectors op = Some (n, T, e0)"
  shows "\<exists>st c t f. program_source sc op st \<and> st_operator st = Op c t f \<and> spec f = WordCount \<and> n = num_collectors op \<and>
    T = st_parallelism st \<and> e0 = the (enum_of f)"
  using assms by (auto simp: program_words_def split: option.splits stream_op.splits if_splits)

lemma program_wordsI:
  assumes "program_source sc op st" "st_operator st = Op c t f" "spec f = WordCount"
  shows "program_words sc spec enum_of num_collectors op = Some (num_collectors op, st_parallelism st, the (enum_of f))"
  using assms by (auto simp: program_words_def program_source_def)

lemma opened_source:
  assumes open_v: "open_source spec num_collectors v = Inr st" and f: "source_function_of (jv_stream_operator (ev_job_vertex v)) = Inr f"
    and word: "spec f = WordCount \<longrightarrow> (\<exists>T e0. words (jv_vertex_id (ev_job_vertex v)) = Some (num_collectors (jv_vertex_id (ev_job_vertex v)), T, e0) \<and>
      (\<exists>k < T. i = exec_id (jv_vertex_id (ev_job_vertex v)) k))"
  shows "run_inv assigner clk words i (vertex_goal spec num_collectors v) st"
    "j < num_collectors (jv_vertex_id (ev_job_vertex v)) \<Longrightarrow> word_part j (Some st) = {#}" "\<not> word_finished (Some st)"
proof -
  let ?op = "jv_vertex_id (ev_job_vertex v)" let ?n = "num_collectors ?op"
  have "run_inv assigner clk words i (vertex_goal spec num_collectors v) st \<and> (j < ?n \<longrightarrow> word_part j (Some st) = {#}) \<and> \<not> word_finished (Some st)"
  proof (cases "spec f")
    case (CollectionOf delayed vals)
    with open_v f obtain vs func where vs: "collection_chunk_at_index vals (ev_parallelism v) (ev_index v) = Inr vs"
      "st = CollectionRun (None, func, source_context_init ?n (Some (length vs)))" "held_values func = Some vs"
      by (cases delayed) (auto simp: open_source_def source_open_def collection_source_def Let_def)
    with CollectionOf f show ?thesis
      by (auto simp: vertex_goal_def vertex_chunk_def collection_inv_def source_context_init_def)
  next
    case (TextFile contents)
    with open_v f show ?thesis by (auto simp: open_source_def vertex_goal_def source_context_init_def Let_def)
  next
    case WordCount
    with open_v f have "st = WordRun ?op None (source_context_init ?n None)" by (simp add: open_source_def Let_def)
    with WordCount f word show ?thesis
      by (auto simp: vertex_goal_def word_inv_def task_inv_def source_context_init_def sent_on_def word_left_def pending_def)
  qed
  then show "run_inv assigner clk words i (vertex_goal spec num_collectors v) st"
    "j < ?n \<Longrightarrow> word_part j (Some st) = {#}" "\<not> word_finished (Some st)" by auto
qed

text \<open>The state in which a submitted job starts.\<close>

lemma job_start_sources_inv:
  fixes sc :: "('o, 'k, 'v) streaming_context" and s :: "(('a, 'w, 'd) source_run, word_enum) job_system"
  assumes prog: "stream_program sc" "sc_id_generator sc < depth" "sc_stream_sinks sc \<noteq> []"
      "\<forall>i st. map_of (sc_streams sc) i = Some st \<longrightarrow> 0 < st_parallelism st"
    and g: "compile_program depth sc = Inr jg" "from_job_graph jg = Inr g0" "set_resources to_float rc g0 = Inr g"
    and m: "submit_job to_float rc enum_of host start_answer job jg (jm_init all_nodes) = Inr (run, m)"
    and start: "job_start (open_source spec num_collectors) set_list m g = Inr s"
    and enums: "\<forall>f. spec f = WordCount \<longrightarrow> (\<exists>per_word per_split dictionary. enum_of f = Some (word_enum_init (Some per_word) per_split dictionary))"
    and ok: "\<forall>i. assigner_ok (assigner i) \<and> assigner_ok (text_assigner i)"
  defines "words \<equiv> program_words sc spec enum_of num_collectors"
    and "goal \<equiv> \<lambda>i. vertex_goal spec num_collectors (the (map_of (eg_by_id g) i))"
  shows "sources_inv assigner text_assigner clk words goal (sources_of s) (jm_split_manager m)" "jm_sources_finished m = init_sources g"
proof -
  note dep = deployed_source [OF prog g]
  from compile_program_ok [OF prog] g(1) have jg: "graph_expandable jg"
    "\<forall>v \<in> set (get_source_vertices jg). \<exists>st. program_source sc (jv_vertex_id v) st \<and>
       jv_parallelism v = st_parallelism st \<and> source_head_op (jv_stream_operator v) (st_operator st)"
    "\<forall>i st. program_source sc i st \<longrightarrow> i \<in> jv_vertex_id ` set (get_source_vertices jg)" by auto
  from submitted_enumerators [where enum_of = enum_of, OF prog(1) jg] obtain d where
    d: "rfold (add_enumerator enum_of) (get_source_vertices jg) [] = Inr d"
    "\<And>i st c f e. program_source sc i st \<Longrightarrow> st_operator st = Op c SOURCE_OP f \<Longrightarrow> enum_of f = Some e \<Longrightarrow> map_of d i = Some e" by blast
  note master = submitted_master [OF m g(2,3) d(1)]
  show "jm_sources_finished m = init_sources g" by (rule master(1))
  have opened: "run_inv (assigner i) (clk i) words i (goal i) st \<and>
      (j < num_collectors (jv_vertex_id (ev_job_vertex v)) \<longrightarrow> word_part j (Some st) = {#}) \<and> \<not> word_finished (Some st)"
    if v: "map_of (eg_by_id g) i = Some v" "op_type (jv_stream_operator (ev_job_vertex v)) = SOURCE_OP" "open_source spec num_collectors v = Inr st" for i v j and st :: "('a, 'w, 'd) source_run"
  proof -
    let ?op = "jv_vertex_id (ev_job_vertex v)"
    from dep [OF v(1,2)] obtain u c f where u: "i = exec_id ?op (ev_index v)" "program_source sc ?op u" "st_operator u = Op c SOURCE_OP f"
      "source_function_of (jv_stream_operator (ev_job_vertex v)) = Inr f" "ev_index v < st_parallelism u" by blast
    have "spec f = WordCount \<longrightarrow> (\<exists>T e0. words ?op = Some (num_collectors ?op, T, e0) \<and> (\<exists>k < T. i = exec_id ?op k))"
      using program_wordsI [where spec = spec, OF u(2,3)] u(1,5) unfolding words_def by auto
    from opened_source [where words = words and i = i, OF v(3) u(4) this] show ?thesis unfolding goal_def v(1) by auto
  qed
  have sys: "word_sys op gl (sources_of s) (jm_split_manager m)" if op: "words op = Some gl" for op gl
  proof -
    obtain n T e0 where gl: "gl = (n, T, e0)" by (cases gl)
    from program_wordsD [OF op [unfolded words_def gl]] obtain u c t f where u: "program_source sc op u" "st_operator u = Op c t f"
      "spec f = WordCount" "n = num_collectors op" "T = st_parallelism u" "e0 = the (enum_of f)" by blast
    with program_source_op [OF prog(1) u(1)] have "t = SOURCE_OP" by auto
    moreover from enums u(3,6) obtain pw ps dict where e0: "enum_of f = Some e0" "e0 = word_enum_init (Some pw) ps dict" by auto
    ultimately have D: "map_of d op = Some e0" using d(2) [OF u(1)] u(2) by blast
    then have dm: "jm_split_manager m = Some d" unfolding master(2) by auto
    have task: "\<exists>st. sources_of s (exec_id op k) = Some st \<and> (\<forall>j < n. word_part j (Some st) = {#}) \<and> \<not> word_finished (Some st)" if "k < T" for k
    proof -
      from deployed_instance [OF prog g u(1)] that u(5) obtain v where v: "map_of (eg_by_id g) (exec_id op k) = Some v"
        "jv_vertex_id (ev_job_vertex v) = op" "op_type (jv_stream_operator (ev_job_vertex v)) = SOURCE_OP" by blast
      from job_start_opens [OF start v(1,3)] obtain st :: "('a, 'w, 'd) source_run" where st: "open_source spec num_collectors v = Inr st" by blast
      with job_start_sources [OF start] v have "sources_of s (exec_id op k) = Some st" by blast
      with opened [OF v(1,3) st] v(2) u(4) show ?thesis by blast
    qed
    have "(\<Sum>k < T. word_part j (sources_of s (exec_id op k))) = {#}" if j: "j < n" for j
    proof (rule sum.neutral, intro ballI)
      fix k assume "k \<in> {..<T}"
      with task [of k] j show "word_part j (sources_of s (exec_id op k)) = {#}" by auto
    qed
    moreover have "\<not> word_finished (sources_of s (exec_id op k))" if "k < T" for k using task [OF that] by auto
    ultimately show ?thesis using D dm word_enum_init_inv [of pw ps dict] e0(2) by (auto simp: gl word_sys_def)
  qed
  show "sources_inv assigner text_assigner clk words goal (sources_of s) (jm_split_manager m)"
    unfolding sources_inv_def using ok opened sys job_start_sources [OF start] by blast
qed

section \<open>What a job has emitted when it is destroyed\<close>

fun words_sent :: "nat \<Rightarrow> ('k, 'v, 'd) source_run option \<Rightarrow> string multiset" where
  "words_sent j (Some (WordRun op pos c)) = sent_on j c"
| "words_sent j _ = {#}"

lemma rmap_nth: "rmap f xs = Inr ys \<Longrightarrow> k < length xs \<Longrightarrow> f (xs ! k) = Inr (ys ! k)"
proof (induction xs arbitrary: ys k)
  case (Cons x xs)
  then show ?case by (cases k) (auto split: sum.splits)
qed simp

text \<open>A word-count operator all of whose tasks are finished has sent every word.\<close>

lemma words_all_sent:
  assumes inv: "sources_inv assigner text_assigner clk words goal src d" and op: "words op = Some (n, T, e0)" and T: "0 < T" and j: "j < n"
    and fin: "\<forall>k < T. \<exists>st. src (exec_id op k) = Some st \<and> run_finished st \<and> goal (exec_id op k) = WordGoal op"
  shows "(\<Sum>k < T. words_sent j (src (exec_id op k))) = words_remaining e0"
proof -
  have part: "word_part j (src (exec_id op k)) = words_sent j (src (exec_id op k)) \<and> word_finished (src (exec_id op k))" if k: "k < T" for k
  proof -
    from fin k obtain st where st: "src (exec_id op k) = Some st" "run_finished st" "goal (exec_id op k) = WordGoal op" by blast
    from sources_invD(3) [OF inv st(1)] st(3) op obtain pos c where c: "st = WordRun op pos c" "word_inv n pos c" by (cases st) auto
    then have "pos = None" "ctx_current_split c = Some END_OF_INPUT" using st(2) by (auto simp: word_inv_def task_inv_def)
    then show ?thesis using st(2) by (simp add: st(1) c(1) word_left_def pending_def)
  qed
  from sources_invD(4) [OF inv op] obtain e where e: "(\<Sum>k < T. word_part j (src (exec_id op k))) + words_remaining e = words_remaining e0"
    "(\<exists>k < T. word_finished (src (exec_id op k))) \<longrightarrow> words_remaining e = {#}" using j by (auto simp: word_sys_def)
  have "words_remaining e = {#}" using e(2) part T by blast
  moreover have "(\<Sum>k < T. word_part j (src (exec_id op k))) = (\<Sum>k < T. words_sent j (src (exec_id op k)))"
    using part by (intro sum.cong) auto
  ultimately show ?thesis using e(1) by simp
qed

text \<open>
  The source tasks that finish: a collection when its part holds values, a word count always; a text file does not, as its context has
  no number of records.
\<close>

definition vertex_ends :: "('o \<Rightarrow> 'v source_spec) \<Rightarrow> 'o exec_vertex \<Rightarrow> bool" where
  "vertex_ends spec v =
     (case spec (projr (source_function_of (jv_stream_operator (ev_job_vertex v)))) of
        CollectionOf delayed vals \<Rightarrow> vertex_chunk vals v \<noteq> [] | TextFile contents \<Rightarrow> False | WordCount \<Rightarrow> True)"

lemma vertex_ends_goal:
  "vertex_ends spec v \<longleftrightarrow> vertex_goal spec num_collectors v \<noteq> FileGoal \<and> (\<forall>n. vertex_goal spec num_collectors v \<noteq> CollectionGoal n [])"
  by (simp add: vertex_ends_def vertex_goal_def split: source_spec.split)

lemma filled_job_goes_on:
  fixes sc :: "('o, 'k, 'v) streaming_context" and s0 :: "(('a, 'w, 'd) source_run, word_enum) job_system"
  assumes prog: "stream_program sc" "sc_id_generator sc < depth" "sc_stream_sinks sc \<noteq> []"
      "\<forall>i st. map_of (sc_streams sc) i = Some st \<longrightarrow> 0 < st_parallelism st"
    and g: "compile_program depth sc = Inr jg" "from_job_graph jg = Inr g0" "set_resources to_float rc g0 = Inr g"
    and m: "submit_job to_float rc enum_of host start_answer job jg (jm_init all_nodes) = Inr (run, m)"
    and start: "job_start (open_source spec num_collectors) set_list m g = Inr s0"
    and enums: "\<forall>f. spec f = WordCount \<longrightarrow> (\<exists>per_word per_split dictionary. 0 < per_split \<and> enum_of f = Some (word_enum_init (Some per_word) per_split dictionary))"
    and ok: "\<forall>i. assigner_ok (assigner i) \<and> assigner_ok (text_assigner i)"
    and ends: "\<forall>v \<in> set (eg_source_vertices g). vertex_ends spec v"
    and s: "(job_step (\<lambda>i. run_advance (assigner i) (text_assigner i) (clk i)) run_finished)\<^sup>*\<^sup>* s0 s"
  shows "\<exists>s'. (job_step (\<lambda>i. run_advance (assigner i) (text_assigner i) (clk i)) run_finished)\<^sup>*\<^sup>* s s' \<and> js_client s' \<noteq> Waiting"
proof -
  let ?words = "program_words sc spec enum_of num_collectors"
  let ?goal = "\<lambda>i. vertex_goal spec num_collectors (the (map_of (eg_by_id g) i))"
  let ?G = "\<lambda>src d. sources_inv assigner text_assigner clk ?words ?goal src d \<and> all_finish ?words ?goal src"
  from enums have enums': "\<forall>f. spec f = WordCount \<longrightarrow> (\<exists>per_word per_split dictionary. enum_of f = Some (word_enum_init (Some per_word) per_split dictionary))"
    by blast
  note init = job_start_sources_inv(1) [where clk = clk, OF prog g m start enums' ok] job_start_sources_inv(2) [OF prog g m start enums' ok]
  have "?goal i \<noteq> FileGoal \<and> (\<forall>n. ?goal i \<noteq> CollectionGoal n [])" if "sources_of s0 i = Some st" for i and st :: "('a, 'w, 'd) source_run"
  proof -
    from job_start_sources [OF start] that obtain v where v: "map_of (eg_by_id g) i = Some v" "op_type (jv_stream_operator (ev_job_vertex v)) = SOURCE_OP" by blast
    with deployed_source [OF prog g v] ends show ?thesis by (auto simp: vertex_ends_goal [where num_collectors = num_collectors])
  qed
  moreover have "0 < we_num_msgs_per_split e0" if op: "?words op = Some (n, T, e0)" for op n T e0
  proof -
    from program_wordsD [OF op] obtain f where "spec f = WordCount" "e0 = the (enum_of f)" by blast
    with enums show ?thesis by (auto simp: word_enum_init_def)
  qed
  ultimately have "?G (sources_of s0) (jm_split_manager m)" using init(1) by (auto simp: all_finish_def)
  note inv = job_start_inv [where finished = run_finished and G = ?G, OF start deployed_types [OF prog g] init(2) this]
  from finishing_sources.client_goes_on finishing_sources.run_inv [OF s] inv show ?thesis by blast
qed

text \<open>The tasks of a source in a job whose client does not wait any more.\<close>

lemma ended_tasks:
  assumes "stream_program sc" "sc_id_generator sc < depth" "sc_stream_sinks sc \<noteq> []"
    and "\<forall>i st. map_of (sc_streams sc) i = Some st \<longrightarrow> 0 < st_parallelism st"
    and "compile_program depth sc = Inr jg" "from_job_graph jg = Inr g0" "set_resources to_float rc g0 = Inr g"
    and "submit_job to_float rc enum_of host start_answer job jg (jm_init all_nodes) = Inr (run, m)"
    and "job_start (open_source spec num_collectors) set_list m g = Inr s0"
    and "\<forall>f. spec f = WordCount \<longrightarrow> (\<exists>per_word per_split dictionary. enum_of f = Some (word_enum_init (Some per_word) per_split dictionary))"
    and "\<forall>i. assigner_ok (assigner i) \<and> assigner_ok (text_assigner i)"
    and "(job_step (\<lambda>i. run_advance (assigner i) (text_assigner i) (clk i)) run_finished)\<^sup>*\<^sup>* s0 s" "js_client s \<noteq> Waiting"
    and "program_source sc i st" "st_operator st = Op c SOURCE_OP f"
  shows "sources_inv assigner text_assigner clk (program_words sc spec enum_of num_collectors)
      (\<lambda>i. vertex_goal spec num_collectors (the (map_of (eg_by_id g) i))) (sources_of s) (jm_split_manager (js_master s))"
    and "k < st_parallelism st \<Longrightarrow> \<exists>v run. map_of (eg_by_id g) (exec_id i k) = Some v \<and> sources_of s (exec_id i k) = Some run \<and> run_finished run \<and>
      run_inv (assigner (exec_id i k)) (clk (exec_id i k)) (program_words sc spec enum_of num_collectors) (exec_id i k) (vertex_goal spec num_collectors v) run \<and>
      jv_vertex_id (ev_job_vertex v) = i \<and> ev_index v = k \<and> ev_parallelism v = st_parallelism st \<and>
      source_function_of (jv_stream_operator (ev_job_vertex v)) = Inr f"
proof -
  let ?words = "program_words sc spec enum_of num_collectors"
  let ?goal = "\<lambda>i. vertex_goal spec num_collectors (the (map_of (eg_by_id g) i))"
  note dep = deployed_source [OF assms(1-7)] and inst = deployed_instance [OF assms(1-7,14)]
  note init = job_start_sources_inv(1) [where clk = clk, OF assms(1-11)] job_start_sources_inv(2) [OF assms(1-11)]
  note inv = conjunct1 [OF job_start_inv [where finished = run_finished and
    G = "sources_inv assigner text_assigner clk ?words ?goal", OF assms(9) deployed_types [OF assms(1-7)] init(2) init(1)]]
  note fin = job_sources.sources_finished_first [OF assms(12) inv assms(13)]
  show "sources_inv assigner text_assigner clk ?words ?goal (sources_of s) (jm_split_manager (js_master s))" by (rule fin(1))
  assume k: "k < st_parallelism st"
  from inst [OF k] obtain v where v: "v \<in> set (eg_source_vertices g)" "map_of (eg_by_id g) (exec_id i k) = Some v" "ev_id v = exec_id i k"
    "jv_vertex_id (ev_job_vertex v) = i" "ev_index v = k" "op_type (jv_stream_operator (ev_job_vertex v)) = SOURCE_OP" by blast
  from fin(2) [of "exec_id i k"] v(1,3) obtain run where run: "sources_of s (exec_id i k) = Some run" "run_finished run" by (metis imageI)
  from sources_invD(3) [OF fin(1) run(1)] v(2) dep [OF v(2,6)] v(4) assms(14,15) run v(5) show "\<exists>v run. map_of (eg_by_id g) (exec_id i k) = Some v \<and> sources_of s (exec_id i k) = Some run \<and> run_finished run \<and>
      run_inv (assigner (exec_id i k)) (clk (exec_id i k)) ?words (exec_id i k) (vertex_goal spec num_collectors v) run \<and>
      jv_vertex_id (ev_job_vertex v) = i \<and> ev_index v = k \<and> ev_parallelism v = st_parallelism st \<and>
      source_function_of (jv_stream_operator (ev_job_vertex v)) = Inr f"
    by (fastforce simp: program_source_def)
qed



section \<open>The sources of the streaming context\<close>

text \<open>
  The constructors of \<open>StreamingContext\<close>; \<open>func\<close> is the operator function for a source. Collections must hold a value; Kafka and
  MySQL functions raise in their constructors.
\<close>

definition from_collection :: "('v source_spec \<Rightarrow> 'o) \<Rightarrow> 'v list \<Rightarrow> ('o, 'k, 'w) streaming_context \<Rightarrow> (nat \<times> ('o, 'k, 'w) streaming_context) result" where
  "from_collection func vals sc = (if vals = [] then Inl AssertionError else api_source (func (CollectionOf False vals)) sc)"

definition from_delayed_collection :: "('v source_spec \<Rightarrow> 'o) \<Rightarrow> 'v list \<Rightarrow> ('o, 'k, 'w) streaming_context \<Rightarrow> (nat \<times> ('o, 'k, 'w) streaming_context) result" where
  "from_delayed_collection func vals sc = (if vals = [] then Inl AssertionError else api_source (func (CollectionOf True vals)) sc)"

definition read_text_file :: "('v source_spec \<Rightarrow> 'o) \<Rightarrow> string \<Rightarrow> ('o, 'k, 'w) streaming_context \<Rightarrow> (nat \<times> ('o, 'k, 'w) streaming_context) result" where
  "read_text_file func contents sc = api_source (func (TextFile contents)) sc"

definition kafka :: "('o, 'k, 'w) streaming_context \<Rightarrow> (nat \<times> ('o, 'k, 'w) streaming_context) result" where
  "kafka sc = Inl NotImplementedError"

definition mysql :: "('o, 'k, 'w) streaming_context \<Rightarrow> (nat \<times> ('o, 'k, 'w) streaming_context) result" where
  "mysql sc = Inl NotImplementedError"

text \<open>They build programs of the streaming API, and a collection read by a single task is one that finishes.\<close>

lemma context_sources_program:
  assumes "stream_program sc"
  shows "from_collection func vals sc = Inr (i, sc') \<Longrightarrow> stream_program sc'"
    "from_delayed_collection func vals sc = Inr (i, sc') \<Longrightarrow> stream_program sc'"
    "read_text_file func contents sc = Inr (i, sc') \<Longrightarrow> stream_program sc'"
  using stream_program.source [OF assms]
  by (auto simp: from_collection_def from_delayed_collection_def read_text_file_def split: if_splits)

lemma single_task_ends:
  assumes "is_ok (from_collection func vals sc)" "ev_parallelism v = 1" "ev_index v = 0"
    and "spec (projr (source_function_of (jv_stream_operator (ev_job_vertex v)))) = CollectionOf delayed vals"
  shows "vertex_ends spec v"
proof -
  have "vals \<noteq> []" using assms(1) by (auto simp: from_collection_def)
  moreover from chunks_partition_collection [of 1 vals] obtain parts where
    "rmap (collection_chunk_at_index vals 1) [0..<1] = Inr parts" "concat parts = vals" by auto
  then have "collection_chunk_at_index vals 1 0 = Inr vals" by (auto split: sum.splits)
  ultimately show ?thesis using assms(2-4) by (simp add: vertex_ends_def vertex_chunk_def)
qed

section \<open>The sample program as a job\<close>

definition sample_words :: word_enum where
  "sample_words = word_enum_init (Some 2) 3 [''a'', ''b'']"

definition sample_job ::
    "nat source_spec \<Rightarrow> ((nat, nat, nat) job_graph \<times> (nat, nat, nat) exec_graph \<times> (nat, nat, nat) exec_graph \<times> job_run \<times> word_enum job_master \<times>
     ((nat, nat, unit) source_run, word_enum) job_system) result" where
  "sample_job spec = rbind (compile_program 5 (projr sample_program)) (\<lambda>jg. rbind (from_job_graph jg) (\<lambda>g0.
     rbind (set_resources sample_float sample_resources g0) (\<lambda>g.
     rbind (submit_job sample_float sample_resources (\<lambda>_. Some sample_words) sample_host (\<lambda>_. None) ''job'' jg (jm_init sample_ray_nodes)) (\<lambda>(run, m).
     rbind (job_start (open_source (\<lambda>_. spec) (\<lambda>_. 1)) remdups m g) (\<lambda>s. Inr (jg, g0, g, run, m, s))))))"

lemma sample_job_ok: "is_ok (sample_job WordCount)"
  by code_simp

lemma sample_job_parts:
  assumes "is_ok (sample_job spec)"
  obtains jg g0 g run m s where "compile_program 5 (projr sample_program) = Inr jg" "from_job_graph jg = Inr g0"
    "set_resources sample_float sample_resources g0 = Inr g"
    "submit_job sample_float sample_resources (\<lambda>_. Some sample_words) sample_host (\<lambda>_. None) ''job'' jg (jm_init sample_ray_nodes) = Inr (run, m)"
    "job_start (open_source (\<lambda>_. spec) (\<lambda>_. 1)) remdups m g = Inr (s :: ((nat, nat, unit) source_run, word_enum) job_system)"
  using assms by (auto simp: sample_job_def is_ok_iff)

lemma sample_deployment:
  "stream_program (projr sample_program)" "sc_id_generator (projr sample_program) < 5" "sc_stream_sinks (projr sample_program) \<noteq> []"
  "\<forall>i st. map_of (sc_streams (projr sample_program)) i = Some st \<longrightarrow> 0 < st_parallelism st"
  "\<forall>i :: string. assigner_ok (None :: ((nat, nat) srec \<Rightarrow> rat result) option) \<and> assigner_ok (None :: ((nat, string) srec \<Rightarrow> rat result) option)"
  using sample_program_ok(2,3) sample_streams(2) sample_positive by auto

lemma sample_words_enum:
  "\<exists>per_word per_split dictionary. 0 < per_split \<and> Some sample_words = Some (word_enum_init (Some per_word) per_split dictionary)"
  "words_remaining sample_words = {#''a'', ''a'', ''b'', ''b''#}"
proof -
  have "0 < (3 :: nat)" by simp
  then show "\<exists>per_word per_split dictionary. 0 < per_split \<and> Some sample_words = Some (word_enum_init (Some per_word) per_split dictionary)"
    unfolding sample_words_def by blast
  show "words_remaining sample_words = {#''a'', ''a'', ''b'', ''b''#}"
    by (simp add: sample_words_def words_remaining_def left_words_def word_enum_init_def numeral_2_eq_2)
qed



end
