(* ===== verification/Task_Startup.thy ===== *)
theory Task_Startup
  imports Job_Sources
begin

text \<open>
  The start of a worker: the processor and the operators it opens (\<open>runtime/core/processor/processor.py\<close>, \<open>open\<close> and \<open>close\<close> in
  \<open>api/operators/operators.py\<close> and \<open>api/operators/chained.py\<close>), the task that connects them to the network
  (\<open>runtime/worker/task/stream_task.py\<close>, \<open>runtime/network/io_loop.py\<close>), and the worker that waits for its vertex first
  (\<open>runtime/worker/job_worker.py\<close>). Every worker of a deployed program starts, with its chain wired up; what it opens is what
  \<open>Job_Lifecycle\<close> starts a job with.
\<close>

section \<open>Opening operators\<close>

record runtime_context =
  rt_task_id :: string
  rt_task_index :: nat
  rt_parallelism :: nat
  rt_operator_id :: nat
  rt_operator_name :: string

definition streaming_runtime_context :: "'o exec_vertex \<Rightarrow> runtime_context" where
  "streaming_runtime_context v =
     \<lparr>rt_task_id = ev_id v, rt_task_index = ev_index v, rt_parallelism = ev_parallelism v,
      rt_operator_id = jv_vertex_id (ev_job_vertex v), rt_operator_name = get_name (ev_job_vertex v)\<rparr>"

text \<open>A collector passes records to an operator of the same chain, by its position, or to the writer's channels.\<close>

datatype ('k, 'v) collector_obj =
    ForwardCollector nat
  | OutputCollector "string list" "('k, 'v) partition"

text \<open>
  An opened operator; the last three fields are those that only flat maps, sinks and sources set. The function of an operator may
  be missing, because a join is created without one (\<open>has_func\<close>).
\<close>

record ('o, 'k, 'v, 's) op_obj =
  oo_class :: string
  oo_func :: 'o
  oo_collectors :: "('k, 'v) collector_obj list"
  oo_runtime_context :: runtime_context
  oo_collection_collector :: "('k, 'v) collector_obj list option"
  oo_latency_stats :: "latency_state option"
  oo_source_context :: "'s option"

datatype ('o, 'k, 'v, 's) opened_op =
    Opened "('o, 'k, 'v, 's) op_obj"
  | OpenedChain "('o, 'k, 'v, 's) opened_op list"

definition stream_operator_open ::
    "('o \<Rightarrow> bool) \<Rightarrow> ('k, 'v) collector_obj list \<Rightarrow> runtime_context \<Rightarrow> string \<Rightarrow> 'o \<Rightarrow> ('o, 'k, 'v, 's) op_obj result" where
  "stream_operator_open has_func collectors ctx c f =
     (if \<not> has_func f then Inl AttributeError
      else Inr \<lparr>oo_class = c, oo_func = f, oo_collectors = collectors, oo_runtime_context = ctx,
                oo_collection_collector = None, oo_latency_stats = None, oo_source_context = None\<rparr>)"

text \<open>
  \<open>open\<close> of one operator. A source initialises its function for the task's place and makes a context over its collectors; what that gives
  for a function, \<open>init_source\<close>, is the source's own.
\<close>

definition single_open ::
    "('o \<Rightarrow> bool) \<Rightarrow> ('o \<Rightarrow> runtime_context \<Rightarrow> nat \<Rightarrow> 's result) \<Rightarrow> ('k, 'v) collector_obj list \<Rightarrow> runtime_context \<Rightarrow>
     string \<Rightarrow> operator_type \<Rightarrow> 'o \<Rightarrow> ('o, 'k, 'v, 's) op_obj result" where
  "single_open has_func init_source collectors ctx c t f =
     rbind (stream_operator_open has_func collectors ctx c f) (\<lambda>obj.
       if t = SOURCE_OP then rbind (init_source f ctx (length collectors)) (\<lambda>s. Inr (obj\<lparr>oo_source_context := Some s\<rparr>))
       else if c = ''FlatMapOperator'' then Inr (obj\<lparr>oo_collection_collector := Some collectors\<rparr>)
       else if c = ''SinkOperator'' then Inr (obj\<lparr>oo_latency_stats := Some latency_init\<rparr>)
       else Inr obj)"

text \<open>\<open>ChainedOperator.open\<close>: every operator but the last collects into the one after it, which has to take one input.\<close>

fun chain_open ::
    "('o \<Rightarrow> bool) \<Rightarrow> ('o \<Rightarrow> runtime_context \<Rightarrow> nat \<Rightarrow> 's result) \<Rightarrow> runtime_context \<Rightarrow> ('k, 'v) collector_obj list \<Rightarrow>
     nat \<Rightarrow> 'o stream_op list \<Rightarrow> ('o, 'k, 'v, 's) opened_op list result" where
  "chain_open has_func init_source ctx collectors i [] = Inr []"
| "chain_open has_func init_source ctx collectors i (operator # ops) =
     (let cs = (if ops = [] then collectors else [ForwardCollector (i + 1)])
      in if ops \<noteq> [] \<and> op_type (hd ops) \<noteq> ONE_INPUT_OP then Inl AssertionError
         else rbind (case operator of
                       Op c t f \<Rightarrow> rbind (single_open has_func init_source cs ctx c t f) (\<lambda>obj. Inr (Opened obj))
                     | ChainedOp ps \<Rightarrow> rbind (chain_open has_func init_source ctx cs 0 ps) (\<lambda>objs. Inr (OpenedChain objs))) (\<lambda>obj.
              rbind (chain_open has_func init_source ctx collectors (i + 1) ops) (\<lambda>objs. Inr (obj # objs))))"

definition operator_open ::
    "('o \<Rightarrow> bool) \<Rightarrow> ('o \<Rightarrow> runtime_context \<Rightarrow> nat \<Rightarrow> 's result) \<Rightarrow> runtime_context \<Rightarrow> ('k, 'v) collector_obj list \<Rightarrow>
     'o stream_op \<Rightarrow> ('o, 'k, 'v, 's) opened_op result" where
  "operator_open has_func init_source ctx collectors operator =
     (case operator of
        Op c t f \<Rightarrow> rbind (single_open has_func init_source collectors ctx c t f) (\<lambda>obj. Inr (Opened obj))
      | ChainedOp ops \<Rightarrow> rbind (chain_open has_func init_source ctx collectors 0 ops) (\<lambda>objs. Inr (OpenedChain objs)))"

text \<open>\<open>close\<close> closes the functions of a chain in order; the functions closed are the result.\<close>

fun close_all :: "('o \<Rightarrow> bool) \<Rightarrow> 'o stream_op list \<Rightarrow> 'o list result" where
  "close_all has_func [] = Inr []"
| "close_all has_func (Op c t f # ops) =
     (if has_func f then rbind (close_all has_func ops) (\<lambda>fs. Inr (f # fs)) else Inl AttributeError)"
| "close_all has_func (ChainedOp ps # ops) =
     rbind (close_all has_func ps) (\<lambda>fs. rbind (close_all has_func ops) (\<lambda>fs'. Inr (fs @ fs')))"

definition operator_close :: "('o \<Rightarrow> bool) \<Rightarrow> 'o stream_op \<Rightarrow> 'o list result" where
  "operator_close has_func operator = close_all has_func [operator]"

section \<open>Starting a task\<close>

text \<open>
  The loop of the network's native part, with what the program tells it: handlers in the order of their registration, those that were
  started, and whether the loop runs. Its answer to \<open>connect\<close> is an argument.
\<close>

datatype io_handler_obj =
    DataWriter string "channel list"
  | DataReader string "channel list"
  | TransferSender string "channel list"
  | TransferReceiver string "channel list"

record native_loop =
  nl_handlers :: "io_handler_obj list"
  nl_started :: "io_handler_obj list"
  nl_running :: bool

definition register_io_handler :: "io_handler_obj \<Rightarrow> native_loop \<Rightarrow> native_loop" where
  "register_io_handler h l = l\<lparr>nl_handlers := nl_handlers l @ [h]\<rparr>"

definition connect_and_start :: "string option \<Rightarrow> native_loop \<Rightarrow> string option \<times> native_loop" where
  "connect_and_start res l =
     (res, l\<lparr>nl_started := nl_started l @ nl_handlers l, nl_running := (if res = None then True else nl_running l)\<rparr>)"

definition native_loop_close :: "native_loop \<Rightarrow> native_loop" where
  "native_loop_close l = l\<lparr>nl_started := [], nl_running := False\<rparr>"

definition native_loop_init :: native_loop where
  "native_loop_init = \<lparr>nl_handlers = [], nl_started = [], nl_running = False\<rparr>"

text \<open>The actor that relays the channels of a node (\<open>runtime/network/remote/transfer_actor.py\<close>): a sender for those that leave it, a receiver for those that reach it.\<close>

record native_transfer =
  nt_sender :: "io_handler_obj option"
  nt_receiver :: "io_handler_obj option"
  nt_loop :: native_loop

definition native_transfer_init :: "string \<Rightarrow> remote_channel list option \<Rightarrow> remote_channel list option \<Rightarrow> native_transfer result" where
  "native_transfer_init name in_channels out_channels =
     (if in_channels = None \<and> out_channels = None then Inl ValueError
      else let sender = (case out_channels of None \<Rightarrow> None | Some chs \<Rightarrow>
                           if chs = [] then None else Some (TransferSender (name @ ''-sender'') (map RemoteChannel chs)));
               l1 = (case sender of None \<Rightarrow> native_loop_init | Some h \<Rightarrow> register_io_handler h native_loop_init);
               receiver = (case in_channels of None \<Rightarrow> None | Some chs \<Rightarrow>
                             if chs = [] then None else Some (TransferReceiver (name @ ''-receiver'') (map RemoteChannel chs)));
               l2 = (case receiver of None \<Rightarrow> l1 | Some h \<Rightarrow> register_io_handler h l1)
           in Inr \<lparr>nt_sender = sender, nt_receiver = receiver, nt_loop = l2\<rparr>)"

definition native_transfer_start :: "string option \<Rightarrow> native_transfer \<Rightarrow> string option \<times> native_transfer" where
  "native_transfer_start res a = (case connect_and_start res (nt_loop a) of (err, l) \<Rightarrow> (err, a\<lparr>nt_loop := l\<rparr>))"

definition native_transfer_close :: "native_transfer \<Rightarrow> native_transfer" where
  "native_transfer_close a = a\<lparr>nt_loop := native_loop_close (nt_loop a)\<rparr>"

record ('o, 'k, 'v, 's) task_obj =
  tk_class :: stream_task
  tk_data_writer :: "io_handler_obj option"
  tk_data_reader :: "io_handler_obj option"
  tk_io_loop :: native_loop
  tk_collectors :: "('k, 'v) collector_obj list"
  tk_operator :: "('o, 'k, 'v, 's) opened_op option"
  tk_has_master :: bool
  tk_thread_started :: bool
  tk_running :: bool

definition task_init :: "stream_task \<Rightarrow> ('o, 'k, 'v, 's) task_obj" where
  "task_init task =
     \<lparr>tk_class = task, tk_data_writer = None, tk_data_reader = None, tk_io_loop = native_loop_init,
      tk_collectors = [], tk_operator = None, tk_has_master = False, tk_thread_started = False, tk_running = True\<rparr>"

text \<open>The channels of edges, and the step of a constructor or comprehension that needs all of them to be set.\<close>

definition edge_channels :: "(string \<Rightarrow> channel option) \<Rightarrow> ('k, 'v) exec_edge list \<Rightarrow> channel option list" where
  "edge_channels channel_of es = map (\<lambda>e. channel_of (ee_id e)) es"

definition channels_set :: "channel option list \<Rightarrow> channel list result" where
  "channels_set chs = rmap (\<lambda>ch. case ch of None \<Rightarrow> Inl AttributeError | Some c \<Rightarrow> Inr c) chs"

text \<open>The two halves of \<open>_prepare_task\<close>.\<close>

definition prepare_writer ::
    "(string \<Rightarrow> channel option) \<Rightarrow> ('o, 'k, 'v) exec_graph \<Rightarrow> 'o exec_vertex \<Rightarrow> ('o, 'k, 'v, 's) task_obj \<Rightarrow> ('o, 'k, 'v, 's) task_obj result" where
  "prepare_writer channel_of g v t =
     (let output_channels = edge_channels channel_of (output_edges g (ev_id v))
      in if output_channels = [] then Inr t
         else if hd output_channels = None then Inl AssertionError
         else if tk_data_writer t \<noteq> None then Inl RuntimeError
         else if jv_vertex_type (ev_job_vertex v) = SINK_V then Inr t
         else rbind (channels_set output_channels) (\<lambda>chs.
           let w = DataWriter (''data-writer-'' @ ev_id v) chs
           in Inr (t\<lparr>tk_data_writer := Some w, tk_io_loop := register_io_handler w (tk_io_loop t)\<rparr>)))"

definition prepare_reader ::
    "(string \<Rightarrow> channel option) \<Rightarrow> ('o, 'k, 'v) exec_graph \<Rightarrow> 'o exec_vertex \<Rightarrow> ('o, 'k, 'v, 's) task_obj \<Rightarrow> ('o, 'k, 'v, 's) task_obj result" where
  "prepare_reader channel_of g v t =
     (let input_channels = edge_channels channel_of (input_edges g (ev_id v))
      in if input_channels = [] then Inr t
         else if hd input_channels = None then Inl AssertionError
         else if tk_data_reader t \<noteq> None then Inl RuntimeError
         else if jv_vertex_type (ev_job_vertex v) = SOURCE_V then Inr t
         else rbind (channels_set input_channels) (\<lambda>chs.
           let r = DataReader (''data-reader-'' @ ev_id v) chs
           in Inr (t\<lparr>tk_data_reader := Some r, tk_io_loop := register_io_handler r (tk_io_loop t)\<rparr>)))"

text \<open>
  \<open>_open_processor\<close>: one collector per target operator, then the network, then the operators; a source processor hands its context
  the master. An answer of the loop other than \<open>None\<close> is returned, with nothing opened.
\<close>

definition open_processor ::
    "('o \<Rightarrow> bool) \<Rightarrow> ('o \<Rightarrow> runtime_context \<Rightarrow> nat \<Rightarrow> 's result) \<Rightarrow> (string \<Rightarrow> channel option) \<Rightarrow> string option \<Rightarrow>
     ('o, 'k, 'v) exec_graph \<Rightarrow> 'o exec_vertex \<Rightarrow> ('o, 'k, 'v, 's) task_obj \<Rightarrow> (string option \<times> ('o, 'k, 'v, 's) task_obj) result" where
  "open_processor has_func init_source channel_of res g v t =
     rbind (channels_set (edge_channels channel_of (output_edges g (ev_id v)))) (\<lambda>_.
     rbind (open_collectors g (ev_id v)) (\<lambda>groups.
       let t1 = t\<lparr>tk_collectors := tk_collectors t @ map (\<lambda>(ids, part). OutputCollector ids part) groups\<rparr>;
           (err, loop) = connect_and_start res (tk_io_loop t1);
           t2 = t1\<lparr>tk_io_loop := loop\<rparr>
       in if err \<noteq> None then Inr (err, t2)
          else rbind (operator_open has_func init_source (streaming_runtime_context v) (tk_collectors t2)
                       (jv_stream_operator (ev_job_vertex v))) (\<lambda>opened.
            Inr (None, t2\<lparr>tk_operator := Some opened, tk_has_master := (tk_class t2 = SourceStreamTask)\<rparr>))))"

definition start_or_recover ::
    "('o \<Rightarrow> bool) \<Rightarrow> ('o \<Rightarrow> runtime_context \<Rightarrow> nat \<Rightarrow> 's result) \<Rightarrow> (string \<Rightarrow> channel option) \<Rightarrow> string option \<Rightarrow>
     ('o, 'k, 'v) exec_graph \<Rightarrow> 'o exec_vertex \<Rightarrow> ('o, 'k, 'v, 's) task_obj \<Rightarrow> (string option \<times> ('o, 'k, 'v, 's) task_obj) result" where
  "start_or_recover has_func init_source channel_of res g v t =
     rbind (prepare_writer channel_of g v t) (\<lambda>t1.
     rbind (prepare_reader channel_of g v t1) (\<lambda>t2.
     rbind (open_processor has_func init_source channel_of res g v t2) (\<lambda>(err, t3).
       Inr (if err \<noteq> None then (err, t3) else (None, t3\<lparr>tk_thread_started := True\<rparr>)))))"

text \<open>\<open>StreamTask.close\<close> up to the join of the thread, with the functions it closes.\<close>

definition stream_task_close :: "('o \<Rightarrow> bool) \<Rightarrow> 'o exec_vertex \<Rightarrow> ('o, 'k, 'v, 's) task_obj \<Rightarrow> ('o list result \<times> ('o, 'k, 'v, 's) task_obj)" where
  "stream_task_close has_func v t =
     (let t1 = t\<lparr>tk_running := False\<rparr>
      in case operator_close has_func (jv_stream_operator (ev_job_vertex v)) of
           Inl e \<Rightarrow> (Inl e, t1)
         | Inr fs \<Rightarrow> (Inr fs, t1\<lparr>tk_io_loop := native_loop_close (tk_io_loop t1)\<rparr>))"

text \<open>
  The worker waits until its vertex is set, at most five seconds: each round reads the vertex, and when there is none the clock.
  \<open>None\<close> is a wait that is not over after the given rounds.
\<close>

fun wait_for_vertex :: "rat \<Rightarrow> (rat \<times> 'a option) list \<Rightarrow> 'a result option" where
  "wait_for_vertex start_ts [] = None"
| "wait_for_vertex start_ts ((now, Some v) # rounds) = Some (Inr v)"
| "wait_for_vertex start_ts ((now, None) # rounds) =
     (if now - start_ts > 5 then Some (Inl RuntimeError) else wait_for_vertex start_ts rounds)"

text \<open>\<open>JobWorker.start_or_rollback\<close> for the vertex it waited for; the flag is whether the watcher was started.\<close>

definition worker_start ::
    "('o \<Rightarrow> bool) \<Rightarrow> ('o \<Rightarrow> runtime_context \<Rightarrow> nat \<Rightarrow> 's result) \<Rightarrow> (nat list \<Rightarrow> nat list) \<Rightarrow> (string \<Rightarrow> channel option) \<Rightarrow> string option \<Rightarrow>
     ('o, 'k, 'v) exec_graph \<Rightarrow> 'o exec_vertex \<Rightarrow> (string option \<times> bool \<times> ('o, 'k, 'v, 's) task_obj) result" where
  "worker_start has_func init_source set_list channel_of res g v =
     rbind (create_stream_task set_list g v) (\<lambda>task.
     rbind (start_or_recover has_func init_source channel_of res g v (task_init task)) (\<lambda>(err, t).
       Inr (err, err = None, t)))"

section \<open>Chains are wired up\<close>

text \<open>What an opened operator is: its function and context, its collectors, and the fields of its class.\<close>

fun opened_as ::
    "('o \<Rightarrow> runtime_context \<Rightarrow> nat \<Rightarrow> 's result) \<Rightarrow> runtime_context \<Rightarrow> ('k, 'v) collector_obj list \<Rightarrow> 'o stream_op \<Rightarrow> ('o, 'k, 'v, 's) opened_op \<Rightarrow> bool" where
  "opened_as init_source ctx collectors (Op c t f) (Opened obj) \<longleftrightarrow>
     oo_class obj = c \<and> oo_func obj = f \<and> oo_collectors obj = collectors \<and> oo_runtime_context obj = ctx \<and>
     (if t = SOURCE_OP then \<exists>s. init_source f ctx (length collectors) = Inr s \<and> oo_source_context obj = Some s
      else oo_source_context obj = None \<and>
        oo_collection_collector obj = (if c = ''FlatMapOperator'' then Some collectors else None) \<and>
        oo_latency_stats obj = (if c = ''SinkOperator'' then Some latency_init else None))"
| "opened_as init_source ctx collectors _ _ \<longleftrightarrow> False"

text \<open>Operator \<open>k\<close> of a chain collects into operator \<open>k + 1\<close>, the last one into \<open>collectors\<close>.\<close>

definition wired ::
    "('o \<Rightarrow> runtime_context \<Rightarrow> nat \<Rightarrow> 's result) \<Rightarrow> runtime_context \<Rightarrow> ('k, 'v) collector_obj list \<Rightarrow> nat \<Rightarrow>
     'o stream_op list \<Rightarrow> ('o, 'k, 'v, 's) opened_op list \<Rightarrow> bool" where
  "wired init_source ctx collectors i ops objs \<longleftrightarrow> length objs = length ops \<and>
     (\<forall>k < length ops. opened_as init_source ctx (if Suc k = length ops then collectors else [ForwardCollector (i + k + 1)]) (ops ! k) (objs ! k))"

lemma single_open_ok:
  assumes "has_func f" "t = SOURCE_OP \<longrightarrow> is_ok (init_source f ctx (length collectors))"
  shows "\<exists>obj. operator_open has_func init_source ctx collectors (Op c t f) = Inr obj \<and> opened_as init_source ctx collectors (Op c t f) obj"
  using assms by (auto simp: operator_open_def single_open_def stream_operator_open_def is_ok_iff)

lemma wired_Cons:
  "wired init_source ctx collectors i (operator # next_operator # ops) (obj # objs) \<longleftrightarrow>
   opened_as init_source ctx [ForwardCollector (i + 1)] operator obj \<and> wired init_source ctx collectors (i + 1) (next_operator # ops) objs"
  by (simp add: wired_def All_less_Suc2 conj_ac)

lemma chain_open_ok:
  fixes collectors :: "('k, 'v) collector_obj list" and init_source :: "'o \<Rightarrow> runtime_context \<Rightarrow> nat \<Rightarrow> 's result"
  assumes "ops \<noteq> []" "\<forall>operator \<in> set ops. \<exists>c t f. operator = Op c t f \<and> has_func f"
    and "\<forall>operator \<in> set (tl ops). op_type operator = ONE_INPUT_OP"
    and "\<forall>c f. hd ops = Op c SOURCE_OP f \<longrightarrow> (\<forall>n. is_ok (init_source f ctx n))"
  shows "\<exists>objs. chain_open has_func init_source ctx collectors i ops = Inr objs \<and> wired init_source ctx collectors i ops objs"
  using assms
proof (induction ops arbitrary: i)
  case (Cons operator ops)
  then obtain c t f where o: "operator = Op c t f" "has_func f" by auto
  let ?cs = "if ops = [] then collectors else [ForwardCollector (i + 1)]"
  from Cons.prems(4) o(1) have "t = SOURCE_OP \<longrightarrow> is_ok (init_source f ctx (length ?cs))" by simp
  from single_open_ok [of has_func f t init_source ctx ?cs c, OF o(2) this] obtain obj :: "('o, 'k, 'v, 's) opened_op" where
    obj: "operator_open has_func init_source ctx ?cs operator = Inr obj" "opened_as init_source ctx ?cs operator obj" unfolding o(1) by blast
  show ?case
  proof (cases ops)
    case Nil
    with obj o(1) show ?thesis by (auto simp: wired_def operator_open_def)
  next
    case (Cons q qs)
    then have nxt: "op_type q = ONE_INPUT_OP" using Cons.prems(3) by simp
    then have "\<forall>c f. hd ops = Op c SOURCE_OP f \<longrightarrow> (\<forall>n. is_ok (init_source f ctx n))" by (auto simp: Cons)
    with Cons.IH [of "i + 1"] Cons.prems(2,3) nxt obtain objs where
      objs: "chain_open has_func init_source ctx collectors (i + 1) ops = Inr objs" "wired init_source ctx collectors (i + 1) ops objs" by (auto simp: Cons)
    have "chain_open has_func init_source ctx collectors i (operator # ops) = Inr (obj # objs)"
      using obj(1) objs(1) nxt o(1) by (auto simp: operator_open_def Cons Let_def)
    moreover have "wired init_source ctx collectors i (operator # ops) (obj # objs)" using obj(2) objs(2) by (simp add: Cons wired_Cons)
    ultimately show ?thesis by blast
  qed
qed simp

text \<open>The operators a vertex runs.\<close>

fun chain_ops :: "'o stream_op \<Rightarrow> 'o stream_op list" where
  "chain_ops (Op c t f) = [Op c t f]"
| "chain_ops (ChainedOp ops) = ops"

fun opened_ops :: "('o, 'k, 'v, 's) opened_op \<Rightarrow> ('o, 'k, 'v, 's) opened_op list" where
  "opened_ops (Opened obj) = [Opened obj]"
| "opened_ops (OpenedChain objs) = objs"

lemma compiled_chain:
  fixes sc :: "('o, 'k, 'v) streaming_context"
  assumes prog: "stream_program sc" "sc_id_generator sc < depth" and jg: "compile_program depth sc = Inr jg" and v: "v \<in> set (jg_job_vertices jg)"
  shows "chain_ops (jv_stream_operator v) \<noteq> []"
    "\<forall>operator \<in> set (chain_ops (jv_stream_operator v)). \<exists>j st c t f. map_of (sc_streams sc) j = Some st \<and> st_operator st = Op c t f \<and> operator = Op c t f"
    "\<forall>operator \<in> set (tl (chain_ops (jv_stream_operator v))). op_type operator = ONE_INPUT_OP"
proof -
  from jg obtain g where g: "build_graph depth sc = Inr g" "optimize depth g = Inr jg" by (auto simp: compile_program_def)
  note wf = build_graph_wf [OF prog g(1)]
  from build_graph_spec [OF prog] g(1) have spec: "graph_of (sc_streams sc) g" by auto
  from optimize_merges [OF wf build_graph_vids [OF prog g(1)] g(2) v]
  obtain c h where c: "c \<noteq> []" "set c \<subseteq> set (jg_job_vertices g)" "merged_from c v" "chain_ok g h c" by blast
  have op: "\<exists>j st k t f. map_of (sc_streams sc) j = Some st \<and> st_operator st = Op k t f \<and> jv_stream_operator u = Op k t f" if u: "u \<in> set c" for u
  proof -
    from spec c(2) u obtain st where st: "map_of (sc_streams sc) (jv_vertex_id u) = Some st" "u = vertex_of (jv_vertex_id u) st"
      unfolding graph_of_def by blast
    have "jv_stream_operator u = st_operator st" using arg_cong [OF st(2), of jv_stream_operator] by (simp add: vertex_of_def)
    with program_operators [OF prog(1) st(1)] st(1) show ?thesis by metis
  qed
  have "chain_ops (jv_stream_operator v) = map jv_stream_operator c"
  proof (cases "length c = 1")
    case True
    then obtain u where u: "c = [u]" by (auto simp: length_Suc_conv)
    with op [of u] c(3) show ?thesis by (auto simp: merged_from_def)
  qed (use c(3) in \<open>simp add: merged_from_def\<close>)
  with c(1) op chain_tail_one_input [OF wf c(4)] show "chain_ops (jv_stream_operator v) \<noteq> []"
    "\<forall>operator \<in> set (chain_ops (jv_stream_operator v)). \<exists>j st c t f. map_of (sc_streams sc) j = Some st \<and> st_operator st = Op c t f \<and> operator = Op c t f"
    "\<forall>operator \<in> set (tl (chain_ops (jv_stream_operator v))). op_type operator = ONE_INPUT_OP"
    by (auto simp: map_tl [symmetric])
qed

lemma source_function_head: "hd (chain_ops operator) = Op c SOURCE_OP f \<Longrightarrow> chain_ops operator \<noteq> [] \<Longrightarrow> source_function_of operator = Inr f"
  by (cases operator rule: chain_ops.cases) (auto simp: neq_Nil_conv)

lemma operator_open_ok:
  assumes "chain_ops operator \<noteq> []" "\<forall>p \<in> set (chain_ops operator). \<exists>c t f. p = Op c t f \<and> has_func f"
    and "\<forall>p \<in> set (tl (chain_ops operator)). op_type p = ONE_INPUT_OP"
    and src: "\<forall>f. source_function_of operator = Inr f \<longrightarrow> (\<forall>n. is_ok (init_source f ctx n))"
  shows "\<exists>opened. operator_open has_func init_source ctx collectors operator = Inr opened \<and>
    wired init_source ctx collectors 0 (chain_ops operator) (opened_ops opened)"
proof -
  have hd_ok: "\<forall>c f. hd (chain_ops operator) = Op c SOURCE_OP f \<longrightarrow> (\<forall>n. is_ok (init_source f ctx n))"
  proof (intro allI impI)
    fix c f n assume "hd (chain_ops operator) = Op c SOURCE_OP f"
    from source_function_head [OF this assms(1)] src show "is_ok (init_source f ctx n)" by simp
  qed
  show ?thesis
  proof (cases operator)
    case (Op c t f)
    have "has_func f" "t = SOURCE_OP \<longrightarrow> is_ok (init_source f ctx (length collectors))" using assms(2) hd_ok by (simp_all add: Op)
    from single_open_ok [of has_func f t init_source ctx collectors c, OF this] obtain obj where
      obj: "operator_open has_func init_source ctx collectors operator = Inr obj" "opened_as init_source ctx collectors operator obj"
      unfolding Op by blast
    then obtain x where "obj = Opened x" unfolding Op by (cases obj) auto
    then have "wired init_source ctx collectors 0 (chain_ops operator) (opened_ops obj)" using obj(2) by (simp add: wired_def Op)
    with obj(1) show ?thesis by blast
  next
    case (ChainedOp ops)
    from chain_open_ok [where init_source = init_source and ctx = ctx and has_func = has_func, OF assms(1-3) hd_ok, of collectors 0] ChainedOp show ?thesis by (auto simp: operator_open_def)
  qed
qed

section \<open>Every worker of a deployed program starts\<close>

text \<open>Assigning resources does not change what a task connects to.\<close>

lemma open_collectors_resources:
  assumes "set_resources to_float rc g0 = Inr g"
  shows "open_collectors g i = open_collectors g0 i"
proof -
  note core = set_resources_core [OF assms]
  have look: "map_option vertex_core (map_of (eg_by_id g) x) = map_option vertex_core (map_of (eg_by_id g0) x)" for x
    using arg_cong [OF core [THEN conjunct2, THEN conjunct1], of "\<lambda>d. map_of d x"] by (simp add: map_of_map map_prod_def split_beta)
  have "group_step g = group_step g0"
  proof (intro ext)
    fix e x
    show "group_step g e x = group_step g0 e x" using look [of "ee_target e"]
      by (cases "map_of (eg_by_id g) (ee_target e)"; cases "map_of (eg_by_id g0) (ee_target e)")
        (auto simp: group_step_def dict_get_def vertex_core_def)
  qed
  moreover have "output_edges g i = output_edges g0 i" using core by (simp add: output_edges_def)
  ultimately show ?thesis by (simp add: open_collectors_def)
qed

lemma channels_of_edges:
  assumes chs: "list_all2 (channel_for infos) (eg_edges g) chs" and d: "distinct (map ee_id (eg_edges g))" and es: "set es \<subseteq> set (eg_edges g)"
  shows "\<exists>cs. channels_set (edge_channels (map_of chs) es) = Inr cs \<and> map channel_id cs = map ee_id es" "e \<in> set es \<Longrightarrow> map_of chs (ee_id e) \<noteq> None"
proof -
  have fst: "map fst chs = map ee_id (eg_edges g)"
    using chs by (induction rule: list_all2_induct) (auto simp: channel_for_def)
  have look: "\<exists>ch. map_of chs (ee_id e) = Some ch \<and> channel_id ch = ee_id e" if e: "e \<in> set (eg_edges g)" for e
  proof -
    from list_all2_left [of "\<lambda>x e. channel_for infos e x" chs "eg_edges g" e] chs e obtain x where
      x: "x \<in> set chs" "channel_for infos e x" by (auto simp: list_all2_conv_all_nth in_set_conv_nth)
    with d fst have "map_of chs (ee_id e) = Some (snd x)" by (cases x) (simp add: channel_for_def)
    with x(2) show ?thesis by (simp add: channel_for_def)
  qed
  then show "e \<in> set es \<Longrightarrow> map_of chs (ee_id e) \<noteq> None" using es by fastforce
  show "\<exists>cs. channels_set (edge_channels (map_of chs) es) = Inr cs \<and> map channel_id cs = map ee_id es"
    using es by (induction es) (auto simp: channels_set_def edge_channels_def dest!: look)
qed

lemma prepare_writer_ok:
  assumes chs: "list_all2 (channel_for infos) (eg_edges g) chs" and d: "distinct (map ee_id (eg_edges g))" and t: "tk_data_writer t = None"
  shows "\<exists>ws. map channel_id ws = map ee_id (output_edges g (ev_id v)) \<and>
    channels_set (edge_channels (map_of chs) (output_edges g (ev_id v))) = Inr ws \<and>
    prepare_writer (map_of chs) g v t = Inr (if ws = [] \<or> jv_vertex_type (ev_job_vertex v) = SINK_V then t
      else t\<lparr>tk_data_writer := Some (DataWriter (''data-writer-'' @ ev_id v) ws),
             tk_io_loop := register_io_handler (DataWriter (''data-writer-'' @ ev_id v) ws) (tk_io_loop t)\<rparr>)"
proof -
  let ?es = "output_edges g (ev_id v)"
  have sub: "set ?es \<subseteq> set (eg_edges g)" by (auto simp: output_edges_def)
  from channels_of_edges(1) [OF chs d sub] obtain ws where ws: "channels_set (edge_channels (map_of chs) ?es) = Inr ws" "map channel_id ws = map ee_id ?es" by blast
  have "edge_channels (map_of chs) ?es = [] \<longleftrightarrow> ws = []" using arg_cong [OF ws(2), of length] by (auto simp: edge_channels_def)
  moreover have "hd (edge_channels (map_of chs) ?es) = None \<longrightarrow> ws = []"
    using channels_of_edges(2) [OF chs d sub, of "hd ?es"] ws(2) by (cases ?es) (auto simp: edge_channels_def)
  ultimately show ?thesis using ws t by (intro exI [of _ ws]) (simp add: prepare_writer_def Let_def)
qed

lemma prepare_reader_ok:
  assumes chs: "list_all2 (channel_for infos) (eg_edges g) chs" and d: "distinct (map ee_id (eg_edges g))" and t: "tk_data_reader t = None"
  shows "\<exists>rs. map channel_id rs = map ee_id (input_edges g (ev_id v)) \<and>
    prepare_reader (map_of chs) g v t = Inr (if rs = [] \<or> jv_vertex_type (ev_job_vertex v) = SOURCE_V then t
      else t\<lparr>tk_data_reader := Some (DataReader (''data-reader-'' @ ev_id v) rs),
             tk_io_loop := register_io_handler (DataReader (''data-reader-'' @ ev_id v) rs) (tk_io_loop t)\<rparr>)"
proof -
  let ?es = "input_edges g (ev_id v)"
  have sub: "set ?es \<subseteq> set (eg_edges g)" by (auto simp: input_edges_def)
  from channels_of_edges(1) [OF chs d sub] obtain rs where rs: "channels_set (edge_channels (map_of chs) ?es) = Inr rs" "map channel_id rs = map ee_id ?es" by blast
  have "edge_channels (map_of chs) ?es = [] \<longleftrightarrow> rs = []" using arg_cong [OF rs(2), of length] by (auto simp: edge_channels_def)
  moreover have "hd (edge_channels (map_of chs) ?es) = None \<longrightarrow> rs = []"
    using channels_of_edges(2) [OF chs d sub, of "hd ?es"] rs(2) by (cases ?es) (auto simp: edge_channels_def)
  ultimately show ?thesis using rs t by (intro exI [of _ rs]) (simp add: prepare_reader_def Let_def)
qed


section \<open>The start-up of the job model\<close>

text \<open>The source functions of the repository, initialised by their operator.\<close>

definition init_source_function :: "('o \<Rightarrow> 'w source_spec) \<Rightarrow> 'o \<Rightarrow> runtime_context \<Rightarrow> nat \<Rightarrow> ('a, 'w, 'd) source_run result" where
  "init_source_function spec f ctx n =
     (case spec f of
        CollectionOf delayed vals \<Rightarrow>
          rbind (source_open n (rt_parallelism ctx) (rt_task_index ctx) (collection_source delayed vals)) (\<lambda>(func, c). Inr (CollectionRun (None, func, c)))
      | TextFile contents \<Rightarrow>
          rbind (local_file_init (rt_parallelism ctx)) (\<lambda>fetched. Inr (FileRun contents fetched (source_context_init n None)))
      | WordCount \<Rightarrow> Inr (WordRun (rt_operator_id ctx) None (source_context_init n None)))"

lemma open_source_init:
  "open_source spec num_collectors v = rbind (source_function_of (jv_stream_operator (ev_job_vertex v))) (\<lambda>f.
     init_source_function spec f (streaming_runtime_context v) (num_collectors (jv_vertex_id (ev_job_vertex v))))"
  by (simp add: open_source_def init_source_function_def streaming_runtime_context_def Let_def cong: source_spec.case_cong)

definition task_source :: "('o, 'k, 'v, 's) task_obj \<Rightarrow> 's option" where
  "task_source t =
     (case tk_operator t of
        None \<Rightarrow> None
      | Some opened \<Rightarrow> (case opened_ops opened of Opened obj # _ \<Rightarrow> oo_source_context obj | _ \<Rightarrow> None))"

definition worker_run_of :: "bool \<Rightarrow> ('o, 'k, 'v, 's) task_obj \<Rightarrow> 's worker_run" where
  "worker_run_of watched t =
     \<lparr>wr_source = task_source t, wr_task_running = tk_running t, wr_thread_alive = tk_thread_started t, wr_running = True, wr_watcher_alive = watched\<rparr>"

text \<open>The collectors of the head of a chain: the one to the next operator, or those of the task.\<close>

definition head_collectors :: "'o stream_op \<Rightarrow> ('o, 'k, 'v, 's) task_obj \<Rightarrow> nat" where
  "head_collectors operator t = (if length (chain_ops operator) = 1 then length (tk_collectors t) else 1)"

lemma prepare_keeps:
  "prepare_writer ch g v t = Inr t' \<Longrightarrow> tk_class t' = tk_class t \<and> tk_running t' = tk_running t"
  "prepare_reader ch g v t = Inr t' \<Longrightarrow> tk_class t' = tk_class t \<and> tk_running t' = tk_running t"
  by (auto simp: prepare_writer_def prepare_reader_def Let_def split: if_splits)

lemma single_open_source:
  assumes "single_open has_func init_source collectors ctx c t f = Inr obj"
  shows "if t = SOURCE_OP then \<exists>s. init_source f ctx (length collectors) = Inr s \<and> oo_source_context obj = Some s else oo_source_context obj = None"
  using assms by (auto simp: single_open_def stream_operator_open_def split: if_splits)

lemma chain_open_head:
  assumes "chain_open has_func init_source ctx collectors i (Op c t f # ops) = Inr objs"
  shows "\<exists>obj objs' n. objs = Opened obj # objs' \<and> n = (if ops = [] then length collectors else 1) \<and>
    (if t = SOURCE_OP then \<exists>s. init_source f ctx n = Inr s \<and> oo_source_context obj = Some s else oo_source_context obj = None)"
proof -
  let ?cs = "if ops = [] then collectors else [ForwardCollector (i + 1)]"
  from assms obtain obj objs' where obj: "single_open has_func init_source ?cs ctx c t f = Inr obj" "objs = Opened obj # objs'"
    by (auto simp: Let_def split: if_splits)
  with single_open_source [OF obj(1)] show ?thesis by (cases "ops = []") auto
qed

lemma operator_open_source:
  assumes "operator_open has_func init_source ctx collectors operator = Inr opened" "chain_ops operator = Op c t f # ops"
  shows "\<exists>obj objs' n. opened_ops opened = Opened obj # objs' \<and> n = (if ops = [] then length collectors else 1) \<and>
    (if t = SOURCE_OP then \<exists>s. init_source f ctx n = Inr s \<and> oo_source_context obj = Some s else oo_source_context obj = None)"
proof (cases operator)
  case (Op c' t' f')
  with assms show ?thesis by (auto simp: operator_open_def dest!: single_open_source)
next
  case (ChainedOp ps)
  with assms obtain objs where objs: "chain_open has_func init_source ctx collectors 0 (Op c t f # ops) = Inr objs" "opened = OpenedChain objs" by (auto simp: operator_open_def)
  from chain_open_head [OF objs(1)] show ?thesis unfolding objs(2) opened_ops.simps .
qed

text \<open>
  A worker that started is in the state in which a job starts it: the task runs, its watcher too, and a source task has the source that
  \<open>Job_Sources\<close> opens for it.
\<close>

lemma worker_start_refines:
  assumes start: "worker_start has_func (init_source_function spec) set_list channel_of res g v = Inr (None, watched, t)"
    and op: "chain_ops (jv_stream_operator (ev_job_vertex v)) = Op c ty f # ops"
  shows "start_or_rollback (open_source spec (\<lambda>_. head_collectors (jv_stream_operator (ev_job_vertex v)) t)) set_list g v = Inr (worker_run_of watched t)"
proof -
  let ?operator = "jv_stream_operator (ev_job_vertex v)"
  from start obtain task where task: "create_stream_task set_list g v = Inr task" by (auto simp: worker_start_def)
  with start obtain err t' where t': "start_or_recover has_func (init_source_function spec) channel_of res g v (task_init task) = Inr (err, t')"
    "err = None" "t' = t" "watched" by (auto simp: worker_start_def)
  then obtain t1 t2 t3 where p: "prepare_writer channel_of g v (task_init task) = Inr t1" "prepare_reader channel_of g v t1 = Inr t2"
    "open_processor has_func (init_source_function spec) channel_of res g v t2 = Inr (None, t3)" "t = t3\<lparr>tk_thread_started := True\<rparr>"
    by (auto simp: start_or_recover_def split: if_splits)
  from p(3) obtain opened where o: "operator_open has_func (init_source_function spec) (streaming_runtime_context v) (tk_collectors t3) ?operator = Inr opened"
    "tk_operator t3 = Some opened" "tk_running t3 = tk_running t2"
    by (auto simp: open_processor_def connect_and_start_def Let_def split: if_splits)
  have run: "tk_running t" using p(4) o(3) prepare_keeps(1) [OF p(1)] prepare_keeps(2) [OF p(2)] by (simp add: task_init_def)
  have n: "head_collectors ?operator t = (if ops = [] then length (tk_collectors t3) else 1)" using op p(4) by (auto simp: head_collectors_def)
  have ty: "op_type ?operator = ty" using op by (cases ?operator) auto
  from operator_open_source [OF o(1) op] obtain obj objs' where
    obj: "opened_ops opened = Opened obj # objs'" "if ty = SOURCE_OP then \<exists>s. init_source_function spec f (streaming_runtime_context v) (head_collectors ?operator t) = Inr s \<and>
      oo_source_context obj = Some s else oo_source_context obj = None" unfolding n by blast
  have src: "task_source t = oo_source_context obj" using p(4) o(2) obj(1) by (simp add: task_source_def)
  have cls: "task = SourceStreamTask \<longleftrightarrow> ty = SOURCE_OP"
    using create_source_task [of set_list g v] task ty by auto
  have "source_function_of ?operator = Inr f" if "ty = SOURCE_OP" using op that by (cases ?operator) auto
  with obj(2) cls src task run t'(4) p(4) show ?thesis
    by (auto simp: start_or_rollback_def open_source_init worker_run_of_def)
qed

section \<open>Waiting and closing\<close>

text \<open>The wait for the vertex ends: rounds are a tenth of a second or more apart, so 52 of them are enough.\<close>

lemma wait_for_vertex_ends:
  assumes "\<forall>k < length rounds. start_ts + of_nat k / 10 \<le> fst (rounds ! k)" "52 \<le> length rounds"
  shows "wait_for_vertex start_ts rounds \<noteq> None"
proof -
  have late: "wait_for_vertex start_ts rounds \<noteq> None" if "k < length rounds" "5 < fst (rounds ! k) - start_ts" for k
    using that
  proof (induction rounds arbitrary: k)
    case (Cons x rounds)
    then show ?case by (cases x; cases "snd x"; cases k) auto
  qed simp
  have "start_ts + of_nat 51 / 10 \<le> fst (rounds ! 51)" using assms(2) by (intro assms(1) [rule_format]) simp
  with assms(2) show ?thesis by (intro late [of 51]) simp_all
qed

text \<open>Closing a task closes the function of every operator of its chain, in order.\<close>

lemma close_all_functions: "\<forall>p \<in> set ops. \<exists>c t f. p = Op c t f \<and> has_func f \<Longrightarrow> close_all has_func ops = Inr (map (\<lambda>p. case p of Op c t f \<Rightarrow> f) ops)"
  by (induction ops) auto

text \<open>A join for which no function was given: the worker raises when it opens the operator, and again when it closes it.\<close>

lemma join_without_function_raises:
  assumes "\<not> has_func f" "jv_stream_operator (ev_job_vertex v) = Op ''JoinOperator'' TWO_INPUT_OP f"
    and "open_collectors g (ev_id v) = Inr groups" "channels_set (edge_channels channel_of (output_edges g (ev_id v))) = Inr chs"
  shows "open_processor has_func init_source channel_of None g v t = Inl AttributeError" "fst (stream_task_close has_func v t) = Inl AttributeError"
  using assms by (simp_all add: open_processor_def connect_and_start_def operator_open_def single_open_def stream_operator_open_def
    stream_task_close_def operator_close_def Let_def)

section \<open>A keyed program\<close>

text \<open>A word-count source and a key function in one task, a reduce function and a sink in another, with one channel between them.\<close>

definition keyed_program :: "(nat, nat, nat) streaming_context result" where
  "keyed_program =
     rbind (api_source 0 sc_init) (\<lambda>(s, sc).
     rbind (api_key_by 1 s sc) (\<lambda>(k, sc).
     rbind (api_keyed_transform ''ReduceOperator'' 2 k sc) (\<lambda>(r, sc).
     rbind (api_sink 3 r sc) (\<lambda>(_, sc). Inr sc))))"

lemma keyed_program_ok: "stream_program (projr keyed_program)"
proof -
  have "is_ok keyed_program" by code_simp
  then obtain s sc1 k sc2 r sc3 i sc4 where p: "api_source 0 sc_init = Inr (s, sc1)" "api_key_by 1 s sc1 = Inr (k, sc2)"
    "api_keyed_transform ''ReduceOperator'' 2 k sc2 = Inr (r, sc3)" "api_sink 3 r sc3 = Inr (i, sc4)" "keyed_program = Inr sc4"
    by (auto simp: keyed_program_def is_ok_iff)
  from stream_program.sink [OF stream_program.keyed_transform [OF stream_program.key_by [OF stream_program.source [OF stream_program.start p(1)] p(2)] p(3)] p(4)]
  show ?thesis by (simp add: p(5))
qed

definition keyed_job :: "((nat, nat, nat) job_graph \<times> (nat, nat, nat) exec_graph \<times> (nat, nat, nat) exec_graph) result" where
  "keyed_job = rbind (compile_program 9 (projr keyed_program)) (\<lambda>jg. rbind (from_job_graph jg) (\<lambda>g0.
     rbind (set_resources sample_float sample_resources g0) (\<lambda>g. Inr (jg, g0, g))))"

lemma keyed_job_ok:
  "case keyed_job of Inl e \<Rightarrow> False | Inr (jg, g0, g) \<Rightarrow> map (\<lambda>e. (ee_source e, ee_target e)) (eg_edges g) = [(''1_0'', ''3_0'')] \<and>
     (case map_of (eg_by_id g) ''1_0'' of None \<Rightarrow> False | Some v \<Rightarrow> create_stream_task remdups g v = Inr SourceStreamTask)"
  "sc_id_generator (projr keyed_program) < 9" "sc_stream_sinks (projr keyed_program) \<noteq> []"
  "list_all (\<lambda>(i, st). 0 < st_parallelism st) (sc_streams (projr keyed_program))"
  by code_simp+


section \<open>Transfer actors of a deployed job\<close>

text \<open>
  The transfer actors of connected workers can be created from the channel lists of their nodes, and once started they relay
  exactly the remote channels: a channel is in the sender of its source node, in the receiver of its target node, and nowhere else.
\<close>

lemma transfer_actors_relay_channels:
  assumes "conn_inv ip_of c" "(n, ins, outs) \<in> set (cn_remote_channels_per_node c)"
  obtains a where "native_transfer_init name (Some ins) (Some outs) = Inr a"
    "set (nl_started (nt_loop (snd (native_transfer_start None a)))) = set_option (nt_sender a) \<union> set_option (nt_receiver a)"
    "nl_started (nt_loop (snd (native_transfer_start None a))) \<noteq> []"
    "\<And>r. (\<exists>s chs. nt_sender a = Some (TransferSender s chs) \<and> RemoteChannel r \<in> set chs) \<longleftrightarrow> r \<in> set (remotes c) \<and> rch_source_node_id r = n"
    "\<And>r. (\<exists>s chs. nt_receiver a = Some (TransferReceiver s chs) \<and> RemoteChannel r \<in> set chs) \<longleftrightarrow> r \<in> set (remotes c) \<and> rch_target_node_id r = n"
proof -
  note v = conn_invD [OF assms(1)]
  have m: "map_of (cn_remote_channels_per_node c) n = Some (ins, outs)" using v(1) assms(2) by (simp add: wf_dict_def)
  then have l: "ins = filter (\<lambda>r. rch_target_node_id r = n) (remotes c)" "outs = filter (\<lambda>r. rch_source_node_id r = n) (remotes c)"
    using v(2) [of n] by (simp_all add: node_lists_def)
  have ne: "ins \<noteq> [] \<or> outs \<noteq> []" using m v(9) [of n] by auto
  have mem: "r \<in> set ins \<longleftrightarrow> r \<in> set (remotes c) \<and> rch_target_node_id r = n" "r \<in> set outs \<longleftrightarrow> r \<in> set (remotes c) \<and> rch_source_node_id r = n" for r
    by (simp_all add: l)
  obtain a where a: "native_transfer_init name (Some ins) (Some outs) = Inr a" by (simp add: native_transfer_init_def Let_def)
  then have parts: "nt_sender a = (if outs = [] then None else Some (TransferSender (name @ ''-sender'') (map RemoteChannel outs)))"
    "nt_receiver a = (if ins = [] then None else Some (TransferReceiver (name @ ''-receiver'') (map RemoteChannel ins)))"
    by (auto simp: native_transfer_init_def Let_def)
  show ?thesis
  proof (rule that [OF a])
    show "set (nl_started (nt_loop (snd (native_transfer_start None a)))) = set_option (nt_sender a) \<union> set_option (nt_receiver a)"
      "nl_started (nt_loop (snd (native_transfer_start None a))) \<noteq> []"
      using a ne by (cases "ins = []"; cases "outs = []"; auto simp: native_transfer_init_def native_transfer_start_def connect_and_start_def register_io_handler_def native_loop_init_def Let_def)+
    show "(\<exists>s chs. nt_sender a = Some (TransferSender s chs) \<and> RemoteChannel r \<in> set chs) \<longleftrightarrow> r \<in> set (remotes c) \<and> rch_source_node_id r = n" for r
      using mem(2) [of r] by (cases "outs = []") (auto simp: parts)
    show "(\<exists>s chs. nt_receiver a = Some (TransferReceiver s chs) \<and> RemoteChannel r \<in> set chs) \<longleftrightarrow> r \<in> set (remotes c) \<and> rch_target_node_id r = n" for r
      using mem(1) [of r] by (cases "ins = []") (auto simp: parts)
  qed
qed

end
