(* ===== verification/Split_Races.thy ===== *)
theory Split_Races
  imports Sources
begin

text \<open>
  Polls of the word-count enumerator that run at the same time. The master is an actor with a thread per call
  (\<open>runtime/client/job_client.py\<close> asks for 1000), and \<open>poll_next_split\<close> (\<open>runtime/sources/wordcount/source.py\<close>) takes no lock, so the
  reads and writes of its shared counts interleave. A poll is split here at every access to the counts. Alone it is the poll of
  \<open>Sources\<close>; together, polls lose no word, but can hand out a word too often and then never end.
\<close>

section \<open>A poll in single accesses\<close>

type_synonym shared_counts = "(string, int option) dict"

text \<open>The local variables of the loop.\<close>

record poll_vars =
  pv_words :: "(string, nat) dict"
  pv_num_msgs :: nat
  pv_index :: nat

text \<open>
  Where a poll is: in the first \<open>_all_done\<close>, with the words still to look at and its result so far; before a test of the loop
  condition; in the \<open>_all_done\<close> of that test; before reading the count of the next word; before and between the load and the
  store of the decrement; returned.
\<close>

datatype poll_pc =
    FirstTest "string list" bool
  | LoopHead poll_vars
  | LoopTest poll_vars "string list" bool
  | ReadCount poll_vars
  | LoadCount poll_vars string
  | StoreCount poll_vars string int
  | Returned "(string, nat) dict source_split"

definition poll_call :: "shared_counts \<Rightarrow> poll_pc" where
  "poll_call counts = FirstTest (dict_keys counts) True"

fun poll_access :: "nat \<Rightarrow> poll_pc \<Rightarrow> shared_counts \<Rightarrow> (poll_pc \<times> shared_counts) result" where
  "poll_access limit (FirstTest (w # ws) res) counts =
     rbind (dict_get counts w) (\<lambda>n. Inr (FirstTest ws (if n \<noteq> Some 0 then False else res), counts))"
| "poll_access limit (FirstTest [] res) counts =
     Inr (if res then Returned END_OF_INPUT else LoopHead \<lparr>pv_words = [], pv_num_msgs = 0, pv_index = 0\<rparr>, counts)"
| "poll_access limit (LoopHead l) counts =
     Inr (if pv_num_msgs l \<noteq> limit then LoopTest l (dict_keys counts) True else Returned (MORE_AVAILABLE (pv_words l)), counts)"
| "poll_access limit (LoopTest l (w # ws) res) counts =
     rbind (dict_get counts w) (\<lambda>n. Inr (LoopTest l ws (if n \<noteq> Some 0 then False else res), counts))"
| "poll_access limit (LoopTest l [] res) counts =
     Inr (if res then Returned (MORE_AVAILABLE (pv_words l)) else ReadCount l, counts)"
| "poll_access limit (ReadCount l) counts =
     (if counts = [] then Inl ZeroDivisionError
      else let index = pv_index l mod length counts; word = dict_keys counts ! index
           in rbind (dict_get counts word) (\<lambda>n.
                Inr (if n = Some 0 then LoopHead (l\<lparr>pv_index := index + 1\<rparr>)
                     else LoadCount (l\<lparr>pv_index := index, pv_words := word_incr word (pv_words l)\<rparr>) word, counts)))"
| "poll_access limit (LoadCount l word) counts =
     rbind (dict_get counts word) (\<lambda>n. case n of None \<Rightarrow> Inl TypeError | Some k \<Rightarrow> Inr (StoreCount l word (k - 1), counts))"
| "poll_access limit (StoreCount l word k) counts =
     Inr (LoopHead (l\<lparr>pv_index := pv_index l + 1, pv_num_msgs := pv_num_msgs l + 1\<rparr>), AList.update word (Some k) counts)"
| "poll_access limit (Returned split) counts = Inr (Returned split, counts)"

section \<open>A poll alone\<close>

definition shared :: "word_counts \<Rightarrow> shared_counts" where
  "shared counts = map (\<lambda>(w, n). (w, map_option int n)) counts"

lemma shared_simps [simp]:
  "dict_keys (shared counts) = dict_keys counts" "length (shared counts) = length counts" "shared counts = [] \<longleftrightarrow> counts = []"
  "map_of (shared counts) w = map_option (map_option int) (map_of counts w)"
  "AList.update w (Some (int c)) (shared counts) = shared (AList.update w (Some c) counts)"
  by (auto simp: shared_def dict_keys_def map_of_map comp_def split_beta) (induction counts; auto)+

text \<open>Looking through the counts without interruption is \<open>_all_done\<close>.\<close>

abbreviation zeros :: "word_counts \<Rightarrow> string list \<Rightarrow> bool" where
  "zeros counts \<equiv> list_all (\<lambda>w. map_of counts w = Some (Some 0))"

lemma first_test_alone:
  assumes "set ws \<subseteq> set (dict_keys counts)"
  shows "advances (poll_access limit) (length ws) (FirstTest ws res) (shared counts) = Inr (FirstTest [] (res \<and> zeros counts ws), shared counts)"
  using assms
proof (induction ws arbitrary: res)
  case (Cons w ws)
  then obtain n where "map_of counts w = Some n" by (auto simp: dict_keys_def dest: weak_map_of_SomeI)
  with Cons show ?case by (cases n) (auto simp: dict_get_def)
qed simp

lemma loop_test_alone:
  assumes "set ws \<subseteq> set (dict_keys counts)"
  shows "advances (poll_access limit) (length ws) (LoopTest l ws res) (shared counts) = Inr (LoopTest l [] (res \<and> zeros counts ws), shared counts)"
  using assms
proof (induction ws arbitrary: res)
  case (Cons w ws)
  then obtain n where "map_of counts w = Some n" by (auto simp: dict_keys_def dest: weak_map_of_SomeI)
  with Cons show ?case by (cases n) (auto simp: dict_get_def)
qed simp

lemma loop_alone:
  assumes "poll_loop limit words num_msgs index counts = Inr (words', counts')"
  shows "\<exists>n. advances (poll_access limit) n (LoopHead \<lparr>pv_words = words, pv_num_msgs = num_msgs, pv_index = index\<rparr>) (shared counts) =
    Inr (Returned (MORE_AVAILABLE words'), shared counts')"
  using assms
proof (induction limit words num_msgs index counts rule: poll_loop.induct)
  case (1 limit words num_msgs index counts)
  let ?l = "\<lparr>pv_words = words, pv_num_msgs = num_msgs, pv_index = index\<rparr>"
  let ?A = "advances (poll_access limit)"
  let ?i = "index mod length counts" let ?w = "dict_keys counts ! ?i"
  note loop = "1.prems" [unfolded poll_loop.simps [of limit words num_msgs index counts]]
  show ?case
  proof (cases "num_msgs = limit")
    case True
    with loop have "?A 1 (LoopHead ?l) (shared counts) = Inr (Returned (MORE_AVAILABLE words'), shared counts')" by simp
    then show ?thesis ..
  next
    case False
    then have "?A 1 (LoopHead ?l) (shared counts) = Inr (LoopTest ?l (dict_keys counts) True, shared counts)" by simp
    from advances_trans [OF this loop_test_alone]
    have test: "?A (1 + length (dict_keys counts)) (LoopHead ?l) (shared counts) = Inr (LoopTest ?l [] (all_done counts), shared counts)"
      by (simp add: all_done_def)
    show ?thesis
    proof (cases "all_done counts")
      case True
      with loop have "?A 1 (LoopTest ?l [] (all_done counts)) (shared counts) = Inr (Returned (MORE_AVAILABLE words'), shared counts')" by simp
      from advances_trans [OF test this] show ?thesis ..
    next
      case more: False
      then have ne: "counts \<noteq> []" by (auto simp: all_done_def dict_keys_def)
      from loop False more obtain c where c: "map_of counts ?w = Some (Some c)"
        by (auto simp: Let_def split: option.splits)
      have read: "?A 2 (LoopTest ?l [] (all_done counts)) (shared counts) =
          Inr (if c = 0 then LoopHead (?l\<lparr>pv_index := ?i + 1\<rparr>) else LoadCount (?l\<lparr>pv_index := ?i, pv_words := word_incr ?w words\<rparr>) ?w, shared counts)"
        using more ne c by (simp add: numeral_2_eq_2 dict_get_def Let_def)
      show ?thesis
      proof (cases "c = 0")
        case True
        with loop False more c have "poll_loop limit words num_msgs (?i + 1) counts = Inr (words', counts')" by (simp add: Let_def)
        with "1.IH"(1) [OF _ refl refl c refl True] False more obtain n where
          "?A n (LoopHead (?l\<lparr>pv_index := ?i + 1\<rparr>)) (shared counts) = Inr (Returned (MORE_AVAILABLE words'), shared counts')" by auto
        from advances_trans [OF advances_trans [OF test read [unfolded if_P [OF True]]] this] show ?thesis ..
      next
        case pos: False
        let ?cs = "AList.update ?w (Some (c - 1)) counts"
        from loop False more c pos have "poll_loop limit (word_incr ?w words) (num_msgs + 1) (?i + 1) ?cs = Inr (words', counts')" by (simp add: Let_def)
        with "1.IH"(2) [OF _ refl refl c refl pos] False more obtain n where
          n: "?A n (LoopHead \<lparr>pv_words = word_incr ?w words, pv_num_msgs = num_msgs + 1, pv_index = ?i + 1\<rparr>) (shared ?cs) =
            Inr (Returned (MORE_AVAILABLE words'), shared counts')" by auto
        have "?A 2 (LoadCount (?l\<lparr>pv_index := ?i, pv_words := word_incr ?w words\<rparr>) ?w) (shared counts) =
          Inr (LoopHead \<lparr>pv_words = word_incr ?w words, pv_num_msgs = num_msgs + 1, pv_index = ?i + 1\<rparr>, shared ?cs)"
          using c pos by (cases c) (simp_all add: numeral_2_eq_2 dict_get_def)
        from advances_trans [OF advances_trans [OF test read [unfolded if_not_P [OF pos]]] advances_trans [OF this n]] show ?thesis ..
      qed
    qed
  qed
qed

text \<open>
  C16. One poll of the word-count enumerator, run without another poll in between, gives the split and leaves the counts that the
  atomic \<open>word_poll\<close> does, and returns.
\<close>

theorem poll_alone_is_atomic:
  assumes "word_enum_inv e"
  shows "\<exists>n split e'. word_poll e = Inr (split, e') \<and> advances (poll_access (we_num_msgs_per_split e)) n (poll_call (shared (we_counts e))) (shared (we_counts e)) =
    Inr (Returned split, shared (we_counts e'))"
proof -
  let ?A = "advances (poll_access (we_num_msgs_per_split e))" let ?c = "we_counts e"
  have test: "?A (length (dict_keys ?c)) (poll_call (shared ?c)) (shared ?c) = Inr (FirstTest [] (all_done ?c), shared ?c)"
    using first_test_alone [of "dict_keys ?c" ?c _ True] by (simp add: poll_call_def all_done_def)
  show ?thesis
  proof (cases "all_done ?c")
    case True
    then have "?A 1 (FirstTest [] (all_done ?c)) (shared ?c) = Inr (Returned END_OF_INPUT, shared ?c)" by simp
    moreover have "word_poll e = Inr (END_OF_INPUT, e)" using True by (simp add: word_poll_def)
    ultimately show ?thesis using advances_trans [OF test] by blast
  next
    case False
    from assms poll_loop_spec [of ?c 0 "we_num_msgs_per_split e" "[]" 0] obtain words counts' where
      p: "poll_loop (we_num_msgs_per_split e) [] 0 0 ?c = Inr (words, counts')" by (auto simp: word_enum_inv_def)
    have "?A 1 (FirstTest [] (all_done ?c)) (shared ?c) = Inr (LoopHead \<lparr>pv_words = [], pv_num_msgs = 0, pv_index = 0\<rparr>, shared ?c)"
      using False by simp
    from advances_trans [OF test this] loop_alone [OF p] obtain n where
      "?A n (poll_call (shared ?c)) (shared ?c) = Inr (Returned (MORE_AVAILABLE words), shared counts')" by (blast intro: advances_trans)
    moreover have "word_poll e = Inr (MORE_AVAILABLE words, e\<lparr>we_counts := counts'\<rparr>)" using False p by (simp add: word_poll_def)
    ultimately show ?thesis by fastforce
  qed
qed

section \<open>Polls together\<close>

text \<open>One call per task can be under way; what calls returned is recorded.\<close>

record poll_system =
  ps_counts :: shared_counts
  ps_polls :: "poll_pc option list"
  ps_returned :: "(string, nat) dict source_split list"

definition poll_system_init :: "word_enum \<Rightarrow> nat \<Rightarrow> poll_system" where
  "poll_system_init e tasks = \<lparr>ps_counts = shared (we_counts e), ps_polls = replicate tasks None, ps_returned = []\<rparr>"

inductive poll_step :: "nat \<Rightarrow> poll_system \<Rightarrow> poll_system \<Rightarrow> bool" for limit where
  call: "i < length (ps_polls s) \<Longrightarrow> ps_polls s ! i = None \<Longrightarrow>
    poll_step limit s (s\<lparr>ps_polls := (ps_polls s)[i := Some (poll_call (ps_counts s))]\<rparr>)"
| access: "i < length (ps_polls s) \<Longrightarrow> ps_polls s ! i = Some pc \<Longrightarrow> poll_access limit pc (ps_counts s) = Inr (pc', counts) \<Longrightarrow>
    poll_step limit s (s\<lparr>ps_polls := (ps_polls s)[i := Some pc'], ps_counts := counts\<rparr>)"
| raises: "i < length (ps_polls s) \<Longrightarrow> ps_polls s ! i = Some pc \<Longrightarrow> poll_access limit pc (ps_counts s) = Inl e \<Longrightarrow>
    poll_step limit s (s\<lparr>ps_polls := (ps_polls s)[i := None]\<rparr>)"
| returns: "i < length (ps_polls s) \<Longrightarrow> ps_polls s ! i = Some (Returned split) \<Longrightarrow>
    poll_step limit s (s\<lparr>ps_polls := (ps_polls s)[i := None], ps_returned := ps_returned s @ [split]\<rparr>)"

text \<open>How often a word is in a split, in the polls under way, and in all splits; a word whose decrement is not stored yet is not taken.\<close>

definition times :: "(string, nat) dict \<Rightarrow> string \<Rightarrow> int" where
  "times words w = (case map_of words w of None \<Rightarrow> 0 | Some n \<Rightarrow> int n)"

fun split_times :: "string \<Rightarrow> (string, nat) dict source_split \<Rightarrow> int" where
  "split_times w (MORE_AVAILABLE words) = times words w"
| "split_times w END_OF_INPUT = 0"

fun pc_times :: "string \<Rightarrow> poll_pc \<Rightarrow> int" where
  "pc_times w (FirstTest ws res) = 0"
| "pc_times w (LoopHead l) = times (pv_words l) w"
| "pc_times w (LoopTest l ws res) = times (pv_words l) w"
| "pc_times w (ReadCount l) = times (pv_words l) w"
| "pc_times w (LoadCount l word) = times (pv_words l) w - (if word = w then 1 else 0)"
| "pc_times w (StoreCount l word k) = times (pv_words l) w - (if word = w then 1 else 0)"
| "pc_times w (Returned split) = split_times w split"

definition poll_times :: "string \<Rightarrow> poll_pc option \<Rightarrow> int" where
  "poll_times w p = (case p of None \<Rightarrow> 0 | Some pc \<Rightarrow> pc_times w pc)"

definition taken :: "poll_system \<Rightarrow> string \<Rightarrow> int" where
  "taken s w = sum_list (map (poll_times w) (ps_polls s)) + sum_list (map (split_times w) (ps_returned s))"

text \<open>
  The count of a word and what was taken of it together are never less than the count \<open>n w\<close> at the start, also for a count that
  some poll is about to store; where a poll has seen a zero, all was taken.
\<close>

fun pc_inv :: "string set \<Rightarrow> (string \<Rightarrow> int) \<Rightarrow> (string \<Rightarrow> int) \<Rightarrow> poll_pc \<Rightarrow> bool" where
  "pc_inv W n t (FirstTest ws res) \<longleftrightarrow> set ws \<subseteq> W \<and> (res \<longrightarrow> (\<forall>w \<in> W - set ws. n w \<le> t w))"
| "pc_inv W n t (LoopTest l ws res) \<longleftrightarrow> set ws \<subseteq> W \<and> (\<not> res \<longrightarrow> W \<noteq> {})"
| "pc_inv W n t (ReadCount l) \<longleftrightarrow> W \<noteq> {}"
| "pc_inv W n t (LoadCount l word) \<longleftrightarrow> word \<in> W"
| "pc_inv W n t (StoreCount l word k) \<longleftrightarrow> word \<in> W \<and> n word \<le> k + t word + 1"
| "pc_inv W n t (Returned split) \<longleftrightarrow> (split = END_OF_INPUT \<longrightarrow> (\<forall>w \<in> W. n w \<le> t w))"
| "pc_inv W n t (LoopHead l) \<longleftrightarrow> True"

definition counts_inv :: "string set \<Rightarrow> (string \<Rightarrow> int) \<Rightarrow> (string \<Rightarrow> int) \<Rightarrow> shared_counts \<Rightarrow> bool" where
  "counts_inv W n t counts \<longleftrightarrow> set (dict_keys counts) = W \<and> (\<forall>w \<in> W. \<exists>k. map_of counts w = Some (Some k) \<and> n w \<le> k + t w)"

definition polls_inv :: "string set \<Rightarrow> (string \<Rightarrow> int) \<Rightarrow> poll_system \<Rightarrow> bool" where
  "polls_inv W n s \<longleftrightarrow> counts_inv W n (taken s) (ps_counts s) \<and> (\<forall>pc. Some pc \<in> set (ps_polls s) \<longrightarrow> pc_inv W n (taken s) pc) \<and>
     (END_OF_INPUT \<in> set (ps_returned s) \<longrightarrow> (\<forall>w \<in> W. n w \<le> taken s w))"

lemma times_incr: "times (word_incr x words) w = times words w + (if x = w then 1 else 0)"
  by (auto simp: times_def word_incr_def map_of_update split: option.splits)

lemma pc_inv_mono:
  assumes "pc_inv W n t pc" "\<forall>w. t w \<le> t' w"
  shows "pc_inv W n t' pc"
proof -
  have le: "n w \<le> t' w" if "n w \<le> t w" for w using that assms(2) order_trans by blast
  show ?thesis
  proof (cases pc)
    case (StoreCount l word k)
    with assms(1) assms(2) [rule_format, of word] show ?thesis by simp
  qed (use assms(1) le in auto)
qed

lemma counts_inv_look:
  assumes "counts_inv W n t counts" "w \<in> W"
  shows "\<exists>k. map_of counts w = Some (Some k) \<and> n w \<le> k + t w"
  using assms by (simp add: counts_inv_def)

lemma counts_inv_index:
  assumes "counts_inv W n t counts" "W \<noteq> {}"
  shows "counts \<noteq> []" "dict_keys counts ! (i mod length counts) \<in> W"
proof -
  have W: "W = set (dict_keys counts)" using assms(1) by (simp add: counts_inv_def)
  with assms(2) show ne: "counts \<noteq> []" by (auto simp: dict_keys_def)
  then show "dict_keys counts ! (i mod length counts) \<in> W" unfolding W by (intro nth_mem) (simp add: dict_keys_def)
qed

text \<open>An access does not raise, takes exactly what it stores, and keeps both invariants.\<close>

lemma poll_access_ok:
  assumes c: "counts_inv W n t counts" and p: "pc_inv W n t pc"
  shows "is_ok (poll_access limit pc counts)"
proof (cases pc)
  case (FirstTest ws res)
  with p counts_inv_look [OF c] show ?thesis by (cases ws) (fastforce simp: dict_get_def)+
next
  case (LoopTest l ws res)
  with p counts_inv_look [OF c] show ?thesis by (cases ws) (fastforce simp: dict_get_def)+
next
  case (ReadCount l)
  with p have "W \<noteq> {}" by simp
  from counts_inv_index(1) [OF c this] counts_inv_index(2) [OF c this, of "pv_index l"] counts_inv_look [OF c] ReadCount show ?thesis by (fastforce simp: dict_get_def Let_def)
next
  case (LoadCount l word)
  with p counts_inv_look [OF c, of word] show ?thesis by (auto simp: dict_get_def)
qed simp_all

lemma poll_access_inv:
  assumes c: "counts_inv W n t counts" and p: "pc_inv W n t pc" and a: "poll_access limit pc counts = Inr (pc', counts')"
  defines "t' \<equiv> \<lambda>w. t w + pc_times w pc' - pc_times w pc"
  shows "(\<forall>w. pc_times w pc \<le> pc_times w pc') \<and> counts_inv W n t' counts' \<and> pc_inv W n t' pc'"
proof (cases pc)
  case (FirstTest ws res)
  show ?thesis
  proof (cases ws)
    case (Cons w ws')
    with FirstTest p counts_inv_look [OF c, of w] a c show ?thesis by (auto simp: t'_def dict_get_def) blast
  qed (use FirstTest p c a in \<open>auto simp: t'_def times_def split: if_splits\<close>)
next
  case (LoopHead l)
  have "set (dict_keys counts) = W" using c by (simp add: counts_inv_def)
  with LoopHead a c show ?thesis by (auto simp: t'_def split: if_splits)
next
  case (LoopTest l ws res)
  show ?thesis
  proof (cases ws)
    case (Cons w ws')
    with LoopTest p counts_inv_look [OF c, of w] a c show ?thesis by (auto simp: t'_def dict_get_def)
  qed (use LoopTest p c a in \<open>auto simp: t'_def split: if_splits\<close>)
next
  case (ReadCount l)
  with p have "W \<noteq> {}" by simp
  from counts_inv_index(1) [OF c this] counts_inv_index(2) [OF c this, of "pv_index l"] ReadCount a c \<open>W \<noteq> {}\<close> show ?thesis
    by (auto simp: t'_def dict_get_def Let_def times_incr split: if_splits option.splits)
next
  case (LoadCount l word)
  with p counts_inv_look [OF c, of word] a c show ?thesis by (auto simp: t'_def dict_get_def)
next
  case (StoreCount l word k)
  then have w: "word \<in> W" "n word \<le> k + t word + 1" using p by auto
  then have "dict_mem word counts" using c by (auto simp: counts_inv_def dict_mem_iff dict_keys_def)
  then have "counts_inv W n (\<lambda>w. t w + (if word = w then 1 else 0)) (AList.update word (Some k) counts)"
    using c w by (auto simp: counts_inv_def dict_keys_update)
  moreover have "t' = (\<lambda>w. t w + (if word = w then 1 else 0))" using StoreCount a by (auto simp: t'_def)
  ultimately show ?thesis using StoreCount a by auto
qed (use a p c in \<open>auto simp: t'_def\<close>)

text \<open>A poll changes from \<open>p\<close> to \<open>p'\<close>.\<close>

lemma taken_update:
  assumes "i < length ps"
  shows "sum_list (map (poll_times w) (ps[i := p'])) = sum_list (map (poll_times w) ps) - poll_times w (ps ! i) + poll_times w p'"
  using assms by (induction ps arbitrary: i) (auto split: nat.split)

lemma polls_inv_step:
  assumes "poll_step limit s s'" "polls_inv W n s"
  shows "polls_inv W n s'"
  using assms
proof (induction rule: poll_step.induct)
  case (call i s)
  let ?s = "s\<lparr>ps_polls := (ps_polls s)[i := Some (poll_call (ps_counts s))]\<rparr>"
  have t: "taken ?s = taken s" using call(1,2) by (auto simp: taken_def taken_update poll_times_def poll_call_def)
  have "pc_inv W n (taken s) (poll_call (ps_counts s))" using call(3) by (auto simp: polls_inv_def counts_inv_def poll_call_def)
  with call(3) show ?case unfolding polls_inv_def t by (auto dest!: set_update_subset_insert [THEN subsetD])
next
  case (access i s pc pc' counts)
  let ?s = "s\<lparr>ps_polls := (ps_polls s)[i := Some pc'], ps_counts := counts\<rparr>"
  have t: "taken ?s = (\<lambda>w. taken s w + pc_times w pc' - pc_times w pc)" using access(1,2) by (auto simp: taken_def taken_update poll_times_def)
  have "pc_inv W n (taken s) pc" using access(1,2,4) by (metis nth_mem polls_inv_def)
  with poll_access_inv [OF _ this access(3)] access(4) have
    k: "\<forall>w. taken s w \<le> taken ?s w" "counts_inv W n (taken ?s) counts" "pc_inv W n (taken ?s) pc'" unfolding t by (auto simp: polls_inv_def)
  have "pc_inv W n (taken ?s) q" if "Some q \<in> set (ps_polls s)" for q using that access(4) pc_inv_mono [OF _ k(1)] by (auto simp: polls_inv_def)
  with k access(4) show ?case unfolding polls_inv_def by (fastforce dest!: set_update_subset_insert [THEN subsetD] intro: order_trans)
next
  case (raises i s pc e)
  have "pc_inv W n (taken s) pc" using raises(1,2,4) by (metis nth_mem polls_inv_def)
  with poll_access_ok [of W n "taken s" "ps_counts s" pc limit] raises(3,4) show ?case by (auto simp: polls_inv_def)
next
  case (returns i s split)
  let ?s = "s\<lparr>ps_polls := (ps_polls s)[i := None], ps_returned := ps_returned s @ [split]\<rparr>"
  have t: "taken ?s = taken s" using returns(1,2) by (auto simp: taken_def taken_update poll_times_def)
  have "pc_inv W n (taken s) (Returned split)" using returns by (metis nth_mem polls_inv_def)
  with returns(3) show ?case unfolding polls_inv_def t by (auto dest!: set_update_subset_insert [THEN subsetD])
qed

text \<open>The words handed to tasks: those of the splits returned, and those polls under way have put in theirs.\<close>

fun pc_words :: "poll_pc \<Rightarrow> (string, nat) dict" where
  "pc_words (FirstTest ws res) = []"
| "pc_words (LoopHead l) = pv_words l"
| "pc_words (LoopTest l ws res) = pv_words l"
| "pc_words (ReadCount l) = pv_words l"
| "pc_words (LoadCount l word) = pv_words l"
| "pc_words (StoreCount l word k) = pv_words l"
| "pc_words (Returned split) = (case split of MORE_AVAILABLE words \<Rightarrow> words | END_OF_INPUT \<Rightarrow> [])"

definition handed_out :: "poll_system \<Rightarrow> string \<Rightarrow> int" where
  "handed_out s w = sum_list (map (\<lambda>p. case p of None \<Rightarrow> 0 | Some pc \<Rightarrow> times (pc_words pc) w) (ps_polls s)) +
     sum_list (map (split_times w) (ps_returned s))"

lemma taken_handed_out: "taken s w \<le> handed_out s w"
proof -
  have "poll_times w p \<le> (case p of None \<Rightarrow> 0 | Some pc \<Rightarrow> times (pc_words pc) w)" for p
  proof (cases p)
    case (Some pc)
    then show ?thesis by (cases "(w, pc)" rule: pc_times.cases) (auto simp: poll_times_def times_def split: source_split.split)
  qed (simp add: poll_times_def)
  then show ?thesis unfolding taken_def handed_out_def by (intro add_right_mono sum_list_mono) auto
qed

lemma word_enum_init_counts:
  "map_of (we_counts (word_enum_init c k ws)) w = (if w \<in> set ws then Some c else None)"
  "set (dict_keys (we_counts (word_enum_init c k ws))) = set ws"
proof -
  have "map_of (fold (\<lambda>w. AList.update w c) ws d) w = (if w \<in> set ws then Some c else map_of d w)" for d
    by (induction ws arbitrary: d) auto
  moreover have "fst ` set (fold (\<lambda>w. AList.update w c) ws d) = set ws \<union> fst ` set d" for d
    by (induction ws arbitrary: d) (auto simp: dom_update)
  ultimately show "map_of (we_counts (word_enum_init c k ws)) w = (if w \<in> set ws then Some c else None)"
    "set (dict_keys (we_counts (word_enum_init c k ws))) = set ws" by (simp_all add: word_enum_init_def dict_keys_def)
qed

lemma polls_inv_init: "polls_inv (set dictionary) (\<lambda>_. int n) (poll_system_init (word_enum_init (Some n) per_split dictionary) tasks)"
  by (auto simp: polls_inv_def poll_system_init_def counts_inv_def taken_def poll_times_def word_enum_init_counts sum_list_replicate)

text \<open>
  C15. However many polls of the word-count enumerator run at the same time and however their accesses to the counts interleave, no word
  is lost: the count of a word and the number of times it was handed out together never fall below the configured number, so that
  when some task is told the end of the input, every word was handed out at least that often.
\<close>

theorem concurrent_polls_lose_nothing:
  assumes "(poll_step per_split)\<^sup>*\<^sup>* (poll_system_init (word_enum_init (Some n) per_split dictionary) tasks) s" "w \<in> set dictionary"
  shows "\<exists>k. map_of (ps_counts s) w = Some (Some k) \<and> int n \<le> k + handed_out s w \<and>
    (END_OF_INPUT \<in> set (ps_returned s) \<longrightarrow> int n \<le> handed_out s w)"
proof -
  have "polls_inv (set dictionary) (\<lambda>_. int n) s"
    using assms(1) polls_inv_init by (induction rule: rtranclp_induct) (auto intro: polls_inv_step)
  with assms(2) taken_handed_out [of s w] show ?thesis by (fastforce simp: polls_inv_def counts_inv_def)
qed

text \<open>Once a count is below zero no poll finds all counts zero again, unless one is about to store an older count.\<close>

fun pc_overdrawn :: "string \<Rightarrow> poll_pc \<Rightarrow> bool" where
  "pc_overdrawn w (FirstTest ws res) \<longleftrightarrow> w \<in> set ws \<or> \<not> res"
| "pc_overdrawn w (StoreCount l word k) \<longleftrightarrow> (word = w \<longrightarrow> k < 0)"
| "pc_overdrawn w (Returned split) \<longleftrightarrow> split \<noteq> END_OF_INPUT"
| "pc_overdrawn w _ \<longleftrightarrow> True"

definition overdrawn :: "string \<Rightarrow> poll_system \<Rightarrow> bool" where
  "overdrawn w s \<longleftrightarrow> (\<exists>k < 0. map_of (ps_counts s) w = Some (Some k)) \<and> (\<forall>pc. Some pc \<in> set (ps_polls s) \<longrightarrow> pc_overdrawn w pc) \<and>
     END_OF_INPUT \<notin> set (ps_returned s)"

lemma poll_access_overdrawn:
  assumes "map_of counts w = Some (Some k)" "k < 0" "pc_overdrawn w pc" "poll_access limit pc counts = Inr (pc', counts')"
  shows "(\<exists>k < 0. map_of counts' w = Some (Some k)) \<and> pc_overdrawn w pc'"
  using assms by (cases "(limit, pc, counts)" rule: poll_access.cases) (auto simp: dict_get_def Let_def split: if_splits option.splits)

lemma overdrawn_step:
  assumes "poll_step limit s s'" "overdrawn w s"
  shows "overdrawn w s'"
  using assms
proof (induction rule: poll_step.induct)
  case (call i s)
  have "w \<in> set (dict_keys (ps_counts s))" using call(3) by (auto simp: overdrawn_def dict_keys_def dest: map_of_SomeD intro: rev_image_eqI)
  with call(3) show ?case by (auto simp: overdrawn_def poll_call_def dest!: set_update_subset_insert [THEN subsetD])
next
  case (access i s pc pc' counts)
  from access(4) obtain k where k: "map_of (ps_counts s) w = Some (Some k)" "k < 0" by (auto simp: overdrawn_def)
  have "pc_overdrawn w pc" using access(1,2,4) by (metis nth_mem overdrawn_def)
  from poll_access_overdrawn [OF k this access(3)] access(4) show ?case
    by (auto simp: overdrawn_def dest!: set_update_subset_insert [THEN subsetD])
next
  case (raises i s pc e)
  then show ?case by (auto simp: overdrawn_def dest!: set_update_subset_insert [THEN subsetD])
next
  case (returns i s split)
  have "split \<noteq> END_OF_INPUT" using returns by (metis nth_mem overdrawn_def pc_overdrawn.simps(3))
  with returns(3) show ?case by (auto simp: overdrawn_def dest!: set_update_subset_insert [THEN subsetD])
qed

lemma overdrawn_run: "(poll_step limit)\<^sup>*\<^sup>* s s' \<Longrightarrow> overdrawn w s \<Longrightarrow> overdrawn w s'"
  by (induction rule: rtranclp_induct) (auto intro: overdrawn_step)

text \<open>Accesses of one poll in a row.\<close>

lemma accesses:
  assumes "advances (poll_access limit) n pc (ps_counts s) = Inr (pc', counts)" "i < length (ps_polls s)" "ps_polls s ! i = Some pc"
  shows "(poll_step limit)\<^sup>*\<^sup>* s (s\<lparr>ps_polls := (ps_polls s)[i := Some pc'], ps_counts := counts\<rparr>)"
  using assms
proof (induction n arbitrary: pc s)
  case 0
  then have "s\<lparr>ps_polls := (ps_polls s)[i := Some pc'], ps_counts := counts\<rparr> = s" by (metis Inr_inject advances.simps(1) list_update_id poll_system.surjective poll_system.update_convs(1,2) prod.inject)
  then show ?case by simp
next
  case (Suc n)
  from Suc.prems(1) obtain pc1 c1 where a: "poll_access limit pc (ps_counts s) = Inr (pc1, c1)" "advances (poll_access limit) n pc1 c1 = Inr (pc', counts)" by auto
  note step = poll_step.access [OF Suc.prems(2,3) a(1)]
  let ?s = "s\<lparr>ps_polls := (ps_polls s)[i := Some pc1], ps_counts := c1\<rparr>"
  from Suc.IH [of pc1 ?s] a(2) Suc.prems(2) have "(poll_step limit)\<^sup>*\<^sup>* ?s (s\<lparr>ps_polls := (ps_polls s)[i := Some pc'], ps_counts := counts\<rparr>)" by simp
  with step show ?case by (rule converse_rtranclp_into_rtranclp)
qed

lemma call_accesses:
  assumes "advances (poll_access limit) n (poll_call (ps_counts s)) (ps_counts s) = Inr (pc', counts)" "i < length (ps_polls s)" "ps_polls s ! i = None"
  shows "(poll_step limit)\<^sup>*\<^sup>* s (s\<lparr>ps_polls := (ps_polls s)[i := Some pc'], ps_counts := counts\<rparr>)"
proof -
  let ?s = "s\<lparr>ps_polls := (ps_polls s)[i := Some (poll_call (ps_counts s))]\<rparr>"
  have "(poll_step limit)\<^sup>*\<^sup>* ?s (s\<lparr>ps_polls := (ps_polls s)[i := Some pc'], ps_counts := counts\<rparr>)"
    using accesses [of limit n "poll_call (ps_counts s)" ?s pc' counts i] assms by simp
  with poll_step.call [OF assms(2,3), of limit] show ?thesis by (rule converse_rtranclp_into_rtranclp)
qed

lemma accesses_return:
  assumes "advances (poll_access limit) n pc (ps_counts s) = Inr (Returned split, counts)" "i < length (ps_polls s)" "ps_polls s ! i = Some pc"
  shows "(poll_step limit)\<^sup>*\<^sup>* s (s\<lparr>ps_counts := counts, ps_polls := (ps_polls s)[i := None], ps_returned := ps_returned s @ [split]\<rparr>)"
proof -
  let ?s = "s\<lparr>ps_polls := (ps_polls s)[i := Some (Returned split)], ps_counts := counts\<rparr>"
  have "poll_step limit ?s (s\<lparr>ps_counts := counts, ps_polls := (ps_polls s)[i := None], ps_returned := ps_returned s @ [split]\<rparr>)"
    using poll_step.returns [of i ?s split limit] assms(2) by simp
  with accesses [OF assms] show ?thesis by (rule rtranclp.rtrancl_into_rtrancl)
qed

text \<open>
  C17. Two polls at the same time can hand out the only occurrence of a word twice: both read its count before either decrements it. The
  count is then negative, and from that state on no poll, in whatever order, is told the end of the input, so the job does not end.
\<close>

theorem concurrent_polls_repeat_words:
  "\<exists>s. (poll_step 1)\<^sup>*\<^sup>* (poll_system_init (word_enum_init (Some 1) 1 [w]) 2) s \<and>
     ps_returned s = [MORE_AVAILABLE [(w, 1)], MORE_AVAILABLE [(w, 1)]] \<and> ps_polls s = [None, None] \<and>
     {s'. (poll_step 1)\<^sup>*\<^sup>* s s'} \<subseteq> {s'. END_OF_INPUT \<notin> set (ps_returned s')}"
proof -
  let ?pc = "LoadCount \<lparr>pv_words = [(w, 1)], pv_num_msgs = 0, pv_index = 0\<rparr> w"
  let ?more = "MORE_AVAILABLE [(w, 1 :: nat)]"
  note ev = eval_nat_numeral poll_call_def dict_keys_def dict_get_def word_incr_def Let_def
  have first: "advances (poll_access 1) 6 (poll_call [(w, Some 1)]) [(w, Some 1)] = Inr (?pc, [(w, Some 1)])" by (simp add: ev)
  have rest: "advances (poll_access 1) 3 ?pc [(w, Some k)] = Inr (Returned ?more, [(w, Some (k - 1))])" for k by (simp add: ev)
  define st where "st = (\<lambda>k ps rs. \<lparr>ps_counts = [(w, Some k)], ps_polls = ps, ps_returned = rs\<rparr>)"
  have init: "poll_system_init (word_enum_init (Some 1) 1 [w]) 2 = st 1 [None, None] []"
    by (simp add: poll_system_init_def word_enum_init_def shared_def st_def numeral_2_eq_2)
  have "(poll_step 1)\<^sup>*\<^sup>* (st 1 [None, None] []) (st 1 [Some ?pc, None] [])"
    using call_accesses [of 1 6 "st 1 [None, None] []" _ _ 0] first by (simp add: st_def)
  also have "(poll_step 1)\<^sup>*\<^sup>* \<dots> (st 1 [Some ?pc, Some ?pc] [])"
    using call_accesses [of 1 6 "st 1 [Some ?pc, None] []" _ _ 1] first by (simp add: st_def)
  also have "(poll_step 1)\<^sup>*\<^sup>* \<dots> (st 0 [None, Some ?pc] [?more])"
    using accesses_return [of 1 3 ?pc "st 1 [Some ?pc, Some ?pc] []" _ _ 0] rest [of 1] by (simp add: st_def)
  also have "(poll_step 1)\<^sup>*\<^sup>* \<dots> (st (- 1) [None, None] [?more, ?more])"
    using accesses_return [of 1 3 ?pc "st 0 [None, Some ?pc] [?more]" _ _ 1] rest [of 0] by (simp add: st_def)
  finally have run: "(poll_step 1)\<^sup>*\<^sup>* (st 1 [None, None] []) (st (- 1) [None, None] [?more, ?more])" .
  have "overdrawn w (st (- 1) [None, None] [?more, ?more])" by (simp add: overdrawn_def st_def)
  then have "overdrawn w s'" if "(poll_step 1)\<^sup>*\<^sup>* (st (- 1) [None, None] [?more, ?more]) s'" for s'
    using overdrawn_run [OF that] by blast
  then have "{s'. (poll_step 1)\<^sup>*\<^sup>* (st (- 1) [None, None] [?more, ?more]) s'} \<subseteq> {s'. END_OF_INPUT \<notin> set (ps_returned s')}"
    by (auto simp: overdrawn_def)
  with run init show ?thesis by (intro exI [of _ "st (- 1) [None, None] [?more, ?more]"]) (simp add: st_def)
qed

text \<open>Instances of the theorems above.\<close>

theorem poll_alone_is_atomic_witness:
  "word_enum_inv (word_enum_init (Some 2) 3 [''a'', ''b'']) \<and>
   (\<exists>n split e'. word_poll (word_enum_init (Some 2) 3 [''a'', ''b'']) = Inr (split, e') \<and>
      advances (poll_access 3) n (poll_call [(''a'', Some 2), (''b'', Some 2)]) [(''a'', Some 2), (''b'', Some 2)] = Inr (Returned split, shared (we_counts e')))"
proof -
  have "shared (we_counts (word_enum_init (Some 2) 3 [''a'', ''b''])) = [(''a'', Some 2), (''b'', Some 2)]"
    "we_num_msgs_per_split (word_enum_init (Some 2) 3 [''a'', ''b'']) = 3" by (simp_all add: shared_def word_enum_init_def)
  with poll_alone_is_atomic [OF word_enum_init_inv, of 2 3 "[''a'', ''b'']"] word_enum_init_inv show ?thesis by simp
qed

theorem concurrent_polls_lose_nothing_witness:
  "\<exists>s. (poll_step 1)\<^sup>*\<^sup>* (poll_system_init (word_enum_init (Some 1) 1 [''a'']) 1) s \<and> END_OF_INPUT \<in> set (ps_returned s) \<and> 1 \<le> handed_out s ''a''"
proof -
  note ev = eval_nat_numeral poll_call_def dict_keys_def dict_get_def word_incr_def Let_def
  define st where "st = (\<lambda>k ps rs. \<lparr>ps_counts = [(''a'', Some k)], ps_polls = ps, ps_returned = rs\<rparr>)"
  let ?more = "MORE_AVAILABLE [(''a'', 1 :: nat)]"
  have init: "poll_system_init (word_enum_init (Some 1) 1 [''a'']) 1 = st 1 [None] []"
    by (simp add: poll_system_init_def word_enum_init_def shared_def st_def)
  have poll: "advances (poll_access 1) 9 (poll_call [(''a'', Some 1)]) [(''a'', Some 1)] = Inr (Returned ?more, [(''a'', Some 0)])"
    "advances (poll_access 1) 2 (poll_call [(''a'', Some 0)]) [(''a'', Some 0)] = Inr (Returned END_OF_INPUT, [(''a'', Some 0)])" by (simp_all add: ev)
  have "(poll_step 1)\<^sup>*\<^sup>* (st 1 [None] []) (st 0 [Some (Returned ?more)] [])"
    using call_accesses [of 1 9 "st 1 [None] []" _ _ 0] poll(1) by (simp add: st_def)
  also have "(poll_step 1)\<^sup>*\<^sup>* \<dots> (st 0 [None] [?more])"
    using accesses_return [of 1 0 "Returned ?more" "st 0 [Some (Returned ?more)] []" _ _ 0] by (simp add: st_def)
  also have "(poll_step 1)\<^sup>*\<^sup>* \<dots> (st 0 [Some (Returned END_OF_INPUT)] [?more])"
    using call_accesses [of 1 2 "st 0 [None] [?more]" _ _ 0] poll(2) by (simp add: st_def)
  also have "(poll_step 1)\<^sup>*\<^sup>* \<dots> (st 0 [None] [?more, END_OF_INPUT])"
    using accesses_return [of 1 0 "Returned END_OF_INPUT" "st 0 [Some (Returned END_OF_INPUT)] [?more]" _ _ 0] by (simp add: st_def)
  finally have run: "(poll_step 1)\<^sup>*\<^sup>* (poll_system_init (word_enum_init (Some 1) 1 [''a'']) 1) (st 0 [None] [?more, END_OF_INPUT])" unfolding init .
  from concurrent_polls_lose_nothing [OF this, of "''a''"] have "1 \<le> handed_out (st 0 [None] [?more, END_OF_INPUT]) ''a''" by (auto simp: st_def)
  with run show ?thesis by (intro exI [of _ "st 0 [None] [?more, END_OF_INPUT]"]) (auto simp: st_def)
qed

end
