(* ===== verification/Pipelines.thy ===== *)
theory Pipelines
  imports Storage
begin

text \<open>
  Pipelines of datasets (\<open>api/dataset/pipeline.py\<close> and the look-up in \<open>api/dataset/dataset.py\<close>) and the queries of
  the client (\<open>client/client.py\<close>). A pipeline function is known by its name and parameter names, an input of the
  decorator by whether it is a dataset.
\<close>

section \<open>The decorator\<close>

record py_function =
  fn_name :: string
  fn_params :: "string list"

datatype 'd pipeline_input = DatasetInput 'd | OtherInput bool

record 'd pipeline_obj =
  pl_inputs :: "'d list"
  pl_func :: py_function

text \<open>The inputs in turn; the message about one that is no dataset asks for its \<open>__name__\<close>, which it may lack.\<close>

fun check_inputs :: "'d pipeline_input list \<Rightarrow> 'd list result" where
  "check_inputs [] = Inr []"
| "check_inputs (DatasetInput d # inputs) = rbind (check_inputs inputs) (\<lambda>ds. Inr (d # ds))"
| "check_inputs (OtherInput has_name # inputs) = Inl (if has_name then TypeError else AttributeError)"

text \<open>The decorated object, \<open>None\<close> when it is not callable. Only the first parameter is looked at.\<close>

definition pipeline_decorator :: "'d pipeline_input list \<Rightarrow> py_function option \<Rightarrow> 'd pipeline_obj result" where
  "pipeline_decorator inputs f =
     (case f of
        None \<Rightarrow> Inl TypeError
      | Some fn \<Rightarrow>
          if fn_params fn \<noteq> [] \<and> hd (fn_params fn) \<noteq> ''cls'' then Inl TypeError
          else rbind (check_inputs inputs) (\<lambda>ds. Inr \<lparr>pl_inputs = ds, pl_func = fn\<rparr>))"

section \<open>The pipeline of a dataset\<close>

text \<open>
  A member of the dataset's class: its name, whether it is callable and the pipeline attached to it, if any.
  \<open>inspect.getmembers\<close> lists them by name.
\<close>

record 'd class_member =
  cm_name :: string
  cm_callable :: bool
  cm_pipeline :: "'d pipeline_obj option"

definition get_pipeline :: "'d class_member list \<Rightarrow> 'd pipeline_obj option" where
  "get_pipeline members =
     (case filter (\<lambda>m. cm_callable m \<and> cm_pipeline m \<noteq> None) (sort_key cm_name members) of
        [] \<Rightarrow> None
      | m # _ \<Rightarrow> cm_pipeline m)"

section \<open>Queries of the client\<close>

record 'v client =
  cl_hot :: "'v cache_actor option"
  cl_cold :: "'v cache_actor option"

definition get_offline_data :: "(string, 'a) dict list option \<Rightarrow> 'v client \<Rightarrow> 'v list result" where
  "get_offline_data keys cl = (case cl_cold cl of None \<Rightarrow> Inl ValueError | Some c \<Rightarrow> storage_get_data keys)"

definition get_online_latest_data ::
    "(string list \<Rightarrow> string list) \<Rightarrow> ('a \<Rightarrow> string) \<Rightarrow> string \<Rightarrow> (string, 'a) dict list option \<Rightarrow> 'v client \<Rightarrow> 'v list option result" where
  "get_online_latest_data enum fmt dataset_name keys cl =
     (case cl_hot cl of None \<Rightarrow> Inl ValueError | Some c \<Rightarrow> storage_get_latest_data enum fmt dataset_name keys c)"

section \<open>Properties\<close>

lemma check_inputs_ok: "is_ok (check_inputs inputs) \<longleftrightarrow> (\<forall>x \<in> set inputs. \<exists>d. x = DatasetInput d)"
proof (induction inputs rule: check_inputs.induct)
  case (2 d inputs)
  then show ?case by (cases "check_inputs inputs") auto
qed auto

text \<open>The decorator accepts a function whose first parameter, if any, is \<open>cls\<close>, with datasets as inputs, and nothing else.\<close>

lemma pipeline_decorator_ok:
  "is_ok (pipeline_decorator inputs f) \<longleftrightarrow>
     (\<exists>fn. f = Some fn \<and> (fn_params fn = [] \<or> hd (fn_params fn) = ''cls'')) \<and> (\<forall>x \<in> set inputs. \<exists>d. x = DatasetInput d)"
proof (cases f)
  case (Some fn)
  have "is_ok (rbind (check_inputs inputs) (\<lambda>ds. Inr \<lparr>pl_inputs = ds, pl_func = fn\<rparr>)) = is_ok (check_inputs inputs)"
    by (cases "check_inputs inputs") auto
  with Some show ?thesis by (auto simp: pipeline_decorator_def check_inputs_ok)
qed (simp add: pipeline_decorator_def)

lemma sorted_filter_hd:
  assumes "sorted (map f xs)" "filter P xs = y # ys" "x \<in> set xs" "P x"
  shows "f y \<le> f x"
proof -
  have "sorted (map f (y # ys))" using sorted_filter [OF assms(1), of P] assms(2) by simp
  moreover have "x \<in> set (y # ys)" using assms(3,4) unfolding assms(2) [symmetric] by simp
  ultimately show ?thesis by auto
qed

text \<open>
  A dataset with several pipelines has one that counts: of the callable members with a pipeline, the look-up takes one with the least name,
  whatever the order of their definition, and the others are ignored; it finds none exactly when there is none.
\<close>

theorem get_pipeline_least_name:
  "case get_pipeline members of
     None \<Rightarrow> filter (\<lambda>m. cm_callable m \<and> cm_pipeline m \<noteq> None) members = []
   | Some p \<Rightarrow> (\<exists>m \<in> set members. cm_callable m \<and> cm_pipeline m = Some p \<and>
       list_all (\<lambda>m'. cm_name m \<le> cm_name m') (filter (\<lambda>m'. cm_callable m' \<and> cm_pipeline m' \<noteq> None) members))"
proof (cases "filter (\<lambda>m. cm_callable m \<and> cm_pipeline m \<noteq> None) (sort_key cm_name members)")
  case Nil
  then have "filter (\<lambda>m. cm_callable m \<and> cm_pipeline m \<noteq> None) members = []" by (auto simp: filter_empty_conv)
  with Nil show ?thesis by (simp add: get_pipeline_def)
next
  case (Cons m ms)
  then have "m \<in> set (filter (\<lambda>m. cm_callable m \<and> cm_pipeline m \<noteq> None) (sort_key cm_name members))" by simp
  then obtain p where m: "m \<in> set members" "cm_callable m" "cm_pipeline m = Some p" by auto
  have "cm_name m \<le> cm_name m'" if "m' \<in> set members" "cm_callable m'" "cm_pipeline m' \<noteq> None" for m'
    by (rule sorted_filter_hd [OF sorted_sort_key Cons]) (use that in simp_all)
  then have "list_all (\<lambda>m'. cm_name m \<le> cm_name m') (filter (\<lambda>m'. cm_callable m' \<and> cm_pipeline m' \<noteq> None) members)"
    by (simp add: list_all_iff)
  with m Cons show ?thesis by (auto simp: get_pipeline_def)
qed

text \<open>Offline queries of the client always fail: the storage asks its actor for a method that does not exist.\<close>

lemma offline_query_fails: "\<not> is_ok (get_offline_data keys cl)"
  by (cases "single_key keys") (simp_all add: get_offline_data_def storage_get_data_def split: option.splits)

end
